(* ===== verification/DHT_Prelude.thy ===== *)
theory DHT_Prelude
  imports Main "HOL-Library.Word" "HOL-Library.Multiset" "HOL-Library.AList"
begin

text \<open>
  Shared vocabulary of the development: the types every component of the DHT speaks about
  (peer identifiers, byte strings, addresses, durations), the model of Go's built-in maps as
  association lists without duplicate keys, and the generic facts on lists, sorting and maps that
  the component theories use.

  A Go \<^verbatim>\<open>string\<close> and a Go \<^verbatim>\<open>[]byte\<close> are both sequences of bytes: HOL's
  \<open>string\<close>. A \<^verbatim>\<open>peer.ID\<close> is a Go string. A multiaddress is identified with its
  binary form. A \<^verbatim>\<open>time.Duration\<close> is a signed 64-bit count of nanoseconds.

  A run-time panic of the code (an index out of range, a write to a nil map, a nil dereference, an
  explicit \<^verbatim>\<open>panic\<close>) is the value \<open>None\<close> of an \<open>option\<close>; an error that the
  code returns is a value of an error datatype of the component.
\<close>

section \<open>Types\<close>

type_synonym bytes = string
type_synonym peer_id = string
type_synonym multiaddr = bytes
type_synonym duration = "64 word"

record AddrInfo =
  ai_ID :: peer_id
  ai_Addrs :: "multiaddr list"

section \<open>Collections of facts\<close>

named_theorems gomap_simps \<open>lookup laws of the model of Go maps\<close>
named_theorems peerset_laws \<open>what the operations of a lookup's peer set do to its labels\<close>
named_theorems lookup_defs \<open>the definitions a lookup iteration unfolds to\<close>

section \<open>Go maps\<close>

text \<open>
  A Go map is an association list with distinct keys. Reading a missing key gives the zero value
  of the value type, which the reader passes along.
\<close>

type_synonym ('k, 'v) gomap = "('k \<times> 'v) list"

definition gm_wf :: "('k, 'v) gomap \<Rightarrow> bool" where
  "gm_wf m \<longleftrightarrow> distinct (map fst m)"

definition gm_has :: "('k, 'v) gomap \<Rightarrow> 'k \<Rightarrow> bool" where
  "gm_has m k \<longleftrightarrow> map_of m k \<noteq> None"

definition gm_get :: "'v \<Rightarrow> ('k, 'v) gomap \<Rightarrow> 'k \<Rightarrow> 'v" where
  "gm_get zero m k = (case map_of m k of None \<Rightarrow> zero | Some v \<Rightarrow> v)"

abbreviation gm_put :: "'k \<Rightarrow> 'v \<Rightarrow> ('k, 'v) gomap \<Rightarrow> ('k, 'v) gomap" where
  "gm_put k v m \<equiv> AList.update k v m"

abbreviation gm_del :: "'k \<Rightarrow> ('k, 'v) gomap \<Rightarrow> ('k, 'v) gomap" where
  "gm_del k m \<equiv> AList.delete k m"

lemma gm_wf_empty [simp]: "gm_wf []"
  by (simp add: gm_wf_def)

lemma gm_wf_put [simp, intro]: "gm_wf m \<Longrightarrow> gm_wf (gm_put k v m)"
  by (simp add: gm_wf_def distinct_update)

lemma gm_wf_del [simp, intro]: "gm_wf m \<Longrightarrow> gm_wf (gm_del k m)"
  by (simp add: gm_wf_def distinct_delete)

lemma gm_lookup_put [gomap_simps]: "map_of (gm_put k v m) = (map_of m)(k \<mapsto> v)"
  by (rule update_conv')

lemma gm_lookup_del [gomap_simps]: "map_of (gm_del k m) = (map_of m)(k := None)"
  by (rule delete_conv')

lemma gm_has_put [gomap_simps]: "gm_has (gm_put k v m) k' \<longleftrightarrow> k = k' \<or> gm_has m k'"
  by (simp add: gm_has_def gm_lookup_put)

lemma gm_get_put [gomap_simps]:
  "gm_get z (gm_put k v m) k' = (if k = k' then v else gm_get z m k')"
  by (simp add: gm_get_def gm_lookup_put)

lemma gm_get_del [gomap_simps]:
  "gm_get z (gm_del k m) k' = (if k = k' then z else gm_get z m k')"
  by (simp add: gm_get_def gm_lookup_del)

lemma gm_has_empty [gomap_simps]: "\<not> gm_has [] k"
  by (simp add: gm_has_def)

lemma gm_get_empty [gomap_simps]: "gm_get z [] k = z"
  by (simp add: gm_get_def)

lemma gm_has_set: "gm_has m k \<longleftrightarrow> k \<in> fst ` set m"
  by (simp add: gm_has_def map_of_eq_None_iff)

lemma gm_empty_iff: "m = [] \<longleftrightarrow> (\<forall>k. \<not> gm_has m k)"
  by (cases m) (auto simp: gm_has_def split: if_splits)

section \<open>Lists\<close>

text \<open>
  Two sortings of the same elements agree when no two elements share a key: Go's
  \<^verbatim>\<open>sort.Sort\<close>, which is not stable, then returns exactly what \<open>sort_key\<close> does.
\<close>

lemma sort_key_eqI:
  assumes "mset ys = mset xs" and "sorted (map f ys)" and "inj_on f (set xs)"
  shows "sort_key f xs = ys"
proof (rule properties_for_sort_key [OF assms(1) _ assms(2)])
  fix k assume "k \<in> set ys"
  have eq: "filter (\<lambda>x. f k = f x) zs = filter (\<lambda>x. k = x) zs" if "set zs = set ys" for zs
    using \<open>k \<in> set ys\<close> assms(1,3) that
    by (intro filter_cong) (auto simp: inj_on_def dest: mset_eq_setD)
  have "filter (\<lambda>x. k = x) zs = replicate (count (mset zs) k) k" for zs :: "'a list"
    by (induction zs) auto
  with eq [of ys] eq [of xs] assms(1)
  show "filter (\<lambda>x. f k = f x) ys = filter (\<lambda>x. f k = f x) xs"
    by (metis mset_eq_setD)
qed

lemma filter_sort_map_sorted: "sorted (map f (filter P (sort_key f xs)))"
  by (simp add: sorted_filter)

end
