(* ===== verification/QPeerset.thy ===== *)
theory QPeerset
  imports DHT_Prelude
begin

text \<open>
  The peer set of one lookup (\<^verbatim>\<open>qpeerset/qpeerset.go\<close>): the peers heard of so far,
  each with its distance to the target, its state and the peer that referred us to it. The first
  part is the code's data and operations, in its order; the second the invariant of the set and
  what each operation does to the labels (the map from peers to states); the third the interface
  the lookup relies on, as a locale, and its interpretation on these operations.

  The XOR key space of \<^verbatim>\<open>go-keyspace\<close> is third-party code: the distance between a peer
  identifier and the target string, both hashed into the key space, is the parameter \<open>dist\<close>. The
  code stores it as a non-negative \<^verbatim>\<open>*big.Int\<close>: a natural number.
\<close>

section \<open>Data and operations\<close>

datatype PeerState = PeerHeard | PeerWaiting | PeerQueried | PeerUnreachable

record queryPeerState =
  qps_id :: peer_id
  qps_distance :: nat
  qps_state :: PeerState
  qps_referredBy :: peer_id

record QueryPeerset =
  qp_key :: string
  qp_all :: "queryPeerState list"
  qp_sorted :: bool

type_synonym keyspace_distance = "peer_id \<Rightarrow> string \<Rightarrow> nat"

definition sqp_Len :: "QueryPeerset \<Rightarrow> nat" where
  "sqp_Len sqp = length (qp_all sqp)"

definition sqp_Swap :: "nat \<Rightarrow> nat \<Rightarrow> QueryPeerset \<Rightarrow> QueryPeerset" where
  "sqp_Swap i j sqp =
     sqp\<lparr>qp_all := (qp_all sqp)[i := qp_all sqp ! j, j := qp_all sqp ! i]\<rparr>"

definition sqp_Less :: "QueryPeerset \<Rightarrow> nat \<Rightarrow> nat \<Rightarrow> bool" where
  "sqp_Less sqp i j =
     (let di = qps_distance (qp_all sqp ! i); dj = qps_distance (qp_all sqp ! j) in di < dj)"

definition NewQueryPeerset :: "string \<Rightarrow> QueryPeerset" where
  "NewQueryPeerset key = \<lparr>qp_key = key, qp_all = [], qp_sorted = False\<rparr>"

text \<open>The index of a peer, \<open>-1\<close> when it is not in the set.\<close>

fun find_from :: "queryPeerState list \<Rightarrow> peer_id \<Rightarrow> int \<Rightarrow> int" where
  "find_from [] p i = -1"
| "find_from (x # xs) p i = (if qps_id x = p then i else find_from xs p (i + 1))"

definition qp_find :: "QueryPeerset \<Rightarrow> peer_id \<Rightarrow> int" where
  "qp_find qp p = find_from (qp_all qp) p 0"

definition distanceToKey :: "keyspace_distance \<Rightarrow> QueryPeerset \<Rightarrow> peer_id \<Rightarrow> nat" where
  "distanceToKey dist qp p = dist p (qp_key qp)"

definition TryAdd ::
  "keyspace_distance \<Rightarrow> peer_id \<Rightarrow> peer_id \<Rightarrow> QueryPeerset \<Rightarrow> bool \<times> QueryPeerset" where
  "TryAdd dist p referredBy qp =
     (if qp_find qp p \<ge> 0 then (False, qp)
      else (True, qp\<lparr>qp_all := qp_all qp @ [\<lparr>qps_id = p, qps_distance = distanceToKey dist qp p,
                                            qps_state = PeerHeard, qps_referredBy = referredBy\<rparr>],
                     qp_sorted := False\<rparr>))"

text \<open>
  \<^verbatim>\<open>sort.Sort\<close> orders by \<^verbatim>\<open>Less\<close>; it is not stable, so among peers at equal distance
  (two identifiers with the same hash) the code's order is one of several. \<open>sort_key\<close> picks one,
  and lemma \<open>qp_sort_any\<close> below shows that there is no choice when distances differ.
\<close>

definition qp_sort :: "QueryPeerset \<Rightarrow> QueryPeerset" where
  "qp_sort qp =
     (if qp_sorted qp then qp
      else qp\<lparr>qp_all := sort_key qps_distance (qp_all qp), qp_sorted := True\<rparr>)"

text \<open>\<^verbatim>\<open>qp.all[qp.find(p)]\<close> panics when the index is \<open>-1\<close>.\<close>

definition qp_index :: "QueryPeerset \<Rightarrow> peer_id \<Rightarrow> nat option" where
  "qp_index qp p = (let i = qp_find qp p in if i < 0 then None else Some (nat i))"

definition SetState :: "peer_id \<Rightarrow> PeerState \<Rightarrow> QueryPeerset \<Rightarrow> QueryPeerset option" where
  "SetState p s qp =
     (case qp_index qp p of
        None \<Rightarrow> None
      | Some i \<Rightarrow> Some (qp\<lparr>qp_all := (qp_all qp)[i := (qp_all qp ! i)\<lparr>qps_state := s\<rparr>]\<rparr>))"

definition GetState :: "peer_id \<Rightarrow> QueryPeerset \<Rightarrow> PeerState option" where
  "GetState p qp =
     (case qp_index qp p of None \<Rightarrow> None | Some i \<Rightarrow> Some (qps_state (qp_all qp ! i)))"

definition GetReferrer :: "peer_id \<Rightarrow> QueryPeerset \<Rightarrow> peer_id option" where
  "GetReferrer p qp =
     (case qp_index qp p of None \<Rightarrow> None | Some i \<Rightarrow> Some (qps_referredBy (qp_all qp ! i)))"

text \<open>
  The slice expression \<^verbatim>\<open>result[:n]\<close> panics for a negative \<open>n\<close>. The call also leaves the set
  sorted, so the new set is returned.
\<close>

definition GetClosestNInStates ::
  "int \<Rightarrow> PeerState list \<Rightarrow> QueryPeerset \<Rightarrow> (peer_id list \<times> QueryPeerset) option" where
  "GetClosestNInStates n states qp =
     (let qp' = qp_sort qp;
          result = map qps_id (filter (\<lambda>p. List.member states (qps_state p)) (qp_all qp'))
      in if int (length result) \<ge> n
         then if n < 0 then None else Some (take (nat n) result, qp')
         else Some (result, qp'))"

definition GetClosestInStates ::
  "PeerState list \<Rightarrow> QueryPeerset \<Rightarrow> (peer_id list \<times> QueryPeerset) option" where
  "GetClosestInStates states qp = GetClosestNInStates (int (length (qp_all qp))) states qp"

definition NumHeard :: "QueryPeerset \<Rightarrow> (nat \<times> QueryPeerset) option" where
  "NumHeard qp = map_option (apfst length) (GetClosestInStates [PeerHeard] qp)"

definition NumWaiting :: "QueryPeerset \<Rightarrow> (nat \<times> QueryPeerset) option" where
  "NumWaiting qp = map_option (apfst length) (GetClosestInStates [PeerWaiting] qp)"

section \<open>Invariant and labels\<close>

text \<open>
  The labels of a peer set: the state of each peer it holds. \<open>qp_inv\<close> is the invariant of the
  code's data: no peer twice, every stored distance the distance to the target, and a set whose
  flag says so really is sorted.
\<close>

definition labels :: "QueryPeerset \<Rightarrow> peer_id \<Rightarrow> PeerState option" where
  "labels qp = map_of (map (\<lambda>x. (qps_id x, qps_state x)) (qp_all qp))"

definition qp_inv :: "keyspace_distance \<Rightarrow> QueryPeerset \<Rightarrow> bool" where
  "qp_inv dist qp \<longleftrightarrow>
     distinct (map qps_id (qp_all qp)) \<and>
     (\<forall>x\<in>set (qp_all qp). qps_distance x = dist (qps_id x) (qp_key qp)) \<and>
     (qp_sorted qp \<longrightarrow> sorted (map qps_distance (qp_all qp)))"

definition in_states :: "QueryPeerset \<Rightarrow> PeerState list \<Rightarrow> peer_id set" where
  "in_states qp sts = {p. \<exists>s\<in>set sts. labels qp p = Some s}"

lemma find_from_absent: "find_from xs p i = -1 \<longleftrightarrow> p \<notin> qps_id ` set xs" if "0 \<le> i"
  using that by (induction xs p i rule: find_from.induct) auto

lemma find_from_present:
  "p \<in> qps_id ` set xs \<Longrightarrow> 0 \<le> i \<Longrightarrow>
     \<exists>k<length xs. find_from xs p i = i + int k \<and> qps_id (xs ! k) = p"
proof (induction xs p i rule: find_from.induct)
  case (2 x xs p i)
  show ?case
  proof (cases "qps_id x = p")
    case False
    with 2 obtain k where "k < length xs" "find_from xs p (i + 1) = i + 1 + int k" "qps_id (xs ! k) = p"
      by auto
    with False show ?thesis by (intro exI [of _ "Suc k"]) auto
  qed auto
qed simp

lemma qp_index_None: "qp_index qp p = None \<longleftrightarrow> p \<notin> qps_id ` set (qp_all qp)"
proof (cases "p \<in> qps_id ` set (qp_all qp)")
  case True
  from find_from_present [OF this, of 0] True show ?thesis
    by (auto simp: qp_index_def qp_find_def)
next
  case False
  then have "find_from (qp_all qp) p 0 = -1"
    by (simp add: find_from_absent)
  with False show ?thesis
    by (simp add: qp_index_def qp_find_def)
qed

lemma qp_index_Some:
  assumes "qp_index qp p = Some i"
  shows "i < length (qp_all qp) \<and> qps_id (qp_all qp ! i) = p"
proof -
  from assms have "p \<in> qps_id ` set (qp_all qp)"
    using qp_index_None [of qp p] by auto
  from find_from_present [OF this, of 0] assms show ?thesis
    by (auto simp: qp_index_def qp_find_def)
qed

lemma labels_None: "labels qp p = None \<longleftrightarrow> p \<notin> qps_id ` set (qp_all qp)"
  by (force simp: labels_def map_of_eq_None_iff)

lemma labels_nth:
  assumes "distinct (map qps_id (qp_all qp))" and "i < length (qp_all qp)"
    and "qps_id (qp_all qp ! i) = p"
  shows "labels qp p = Some (qps_state (qp_all qp ! i))"
proof -
  have "(p, qps_state (qp_all qp ! i)) \<in> set (map (\<lambda>x. (qps_id x, qps_state x)) (qp_all qp))"
    using assms(2,3) by auto
  with assms(1) show ?thesis
    by (simp add: labels_def comp_def map_of_eq_Some_iff)
qed

lemma labels_Some:
  assumes "distinct (map qps_id (qp_all qp))"
  shows "labels qp p = Some s \<longleftrightarrow> (\<exists>x\<in>set (qp_all qp). qps_id x = p \<and> qps_state x = s)"
  using assms by (auto simp: labels_def comp_def map_of_eq_Some_iff image_iff)

lemma qp_inv_new [simp, intro]: "qp_inv dist (NewQueryPeerset k)"
  by (simp add: qp_inv_def NewQueryPeerset_def)

lemma labels_new [simp]: "labels (NewQueryPeerset k) = Map.empty"
  by (simp add: labels_def NewQueryPeerset_def)

lemma GetState_labels [peerset_laws]:
  assumes "qp_inv dist qp"
  shows "GetState p qp = labels qp p"
proof (cases "qp_index qp p")
  case None
  moreover from None have "labels qp p = None"
    by (simp add: qp_index_None labels_None)
  ultimately show ?thesis by (simp add: GetState_def)
next
  case (Some i)
  with assms show ?thesis
    by (auto simp: GetState_def qp_inv_def labels_nth dest: qp_index_Some)
qed

lemma qp_find_labels: "qp_find qp p \<ge> 0 \<longleftrightarrow> labels qp p \<noteq> None"
  using qp_index_None [of qp p] labels_None [of qp p]
  by (auto simp: qp_index_def Let_def split: if_splits)

lemma GetReferrer_defined: "labels qp p \<noteq> None \<Longrightarrow> GetReferrer p qp \<noteq> None"
  using qp_index_None [of qp p] labels_None [of qp p]
  by (auto simp: GetReferrer_def split: option.splits)

lemma finite_dom_labels [simp]: "finite (dom (labels qp))"
  by (simp add: labels_def finite_dom_map_of)

lemma finite_in_states [simp]: "finite (in_states qp sts)"
  by (rule finite_subset [OF _ finite_dom_labels [of qp]]) (auto simp: in_states_def)

subsection \<open>What the operations do to the labels\<close>

lemma TryAdd_flag: "fst (TryAdd dist p r qp) \<longleftrightarrow> labels qp p = None"
  using qp_find_labels [of qp p] by (auto simp: TryAdd_def)

lemma TryAdd_inv [peerset_laws, intro]:
  assumes "qp_inv dist qp"
  shows "qp_inv dist (snd (TryAdd dist p r qp))"
  using assms qp_find_labels [of qp p] labels_None [of qp p]
  by (auto simp: TryAdd_def qp_inv_def distanceToKey_def)

lemma TryAdd_labels [peerset_laws]:
  "labels (snd (TryAdd dist p r qp)) =
     (if labels qp p = None then (labels qp)(p \<mapsto> PeerHeard) else labels qp)"
proof (cases "labels qp p")
  case None
  then have "\<not> 0 \<le> qp_find qp p"
    using qp_find_labels [of qp p] by simp
  then have "labels (snd (TryAdd dist p r qp)) = [p \<mapsto> PeerHeard] ++ labels qp"
    by (simp add: TryAdd_def labels_def map_of_append)
  with None show ?thesis
    by (auto simp: map_add_def fun_eq_iff split: option.splits)
next
  case (Some s)
  then show ?thesis
    using qp_find_labels [of qp p] by (simp add: TryAdd_def)
qed

lemma TryAdd_key [simp]: "qp_key (snd (TryAdd dist p r qp)) = qp_key qp"
  by (simp add: TryAdd_def)

lemma SetState_defined: "labels qp p \<noteq> None \<longleftrightarrow> SetState p s qp \<noteq> None"
  using qp_index_None [of qp p] labels_None [of qp p]
  by (auto simp: SetState_def split: option.splits)

lemma SetState_Some:
  assumes inv: "qp_inv dist qp" and set: "SetState p s qp = Some qp'"
  shows "qp_inv dist qp' \<and> labels qp' = (labels qp)(p \<mapsto> s) \<and> qp_key qp' = qp_key qp"
proof -
  from set obtain i where i: "qp_index qp p = Some i"
    and qp': "qp' = qp\<lparr>qp_all := (qp_all qp)[i := (qp_all qp ! i)\<lparr>qps_state := s\<rparr>]\<rparr>"
    by (auto simp: SetState_def split: option.splits)
  from qp_index_Some [OF i] have len: "i < length (qp_all qp)" and pid: "qps_id (qp_all qp ! i) = p"
    by auto
  have ids: "map qps_id (qp_all qp') = map qps_id (qp_all qp)"
    using len by (simp add: qp' map_update list_update_same_conv)
  have dists: "map qps_distance (qp_all qp') = map qps_distance (qp_all qp)"
    using len by (simp add: qp' map_update list_update_same_conv)
  have pointwise: "qps_distance x = dist (qps_id x) (qp_key qp)" if "x \<in> set (qp_all qp')" for x
  proof -
    from that obtain j where j: "j < length (qp_all qp)" "x = qp_all qp' ! j"
      using ids by (metis in_set_conv_nth length_map)
    then have "qps_id x = qps_id (qp_all qp ! j)" "qps_distance x = qps_distance (qp_all qp ! j)"
      using ids dists by (metis length_map nth_map)+
    with j inv show ?thesis by (simp add: qp_inv_def)
  qed
  from inv ids dists pointwise have inv': "qp_inv dist qp'"
    by (auto simp: qp_inv_def qp')
  have "labels qp' q = ((labels qp)(p \<mapsto> s)) q" for q
  proof (cases "q \<in> qps_id ` set (qp_all qp)")
    case False
    then have "q \<noteq> p" using nth_mem [OF len] pid by auto
    moreover from False have "q \<notin> qps_id ` set (qp_all qp')"
      using ids by (metis set_map)
    moreover note False
    ultimately have "q \<noteq> p" "labels qp q = None" "labels qp' q = None"
      by (simp_all add: labels_None)
    then show ?thesis by simp
  next
    case True
    then obtain j where j: "j < length (qp_all qp)" "qps_id (qp_all qp ! j) = q"
      by (auto simp: in_set_conv_nth)
    then have j': "j < length (qp_all qp')" "qps_id (qp_all qp' ! j) = q"
      using ids by (metis length_map, metis length_map nth_map)
    have "q = p \<longleftrightarrow> i = j"
      using inv j len pid by (auto simp: qp_inv_def distinct_conv_nth)
    with labels_nth [OF _ j] labels_nth [OF _ j'] inv inv' len show ?thesis
      by (auto simp: qp_inv_def qp')
  qed
  with inv' show ?thesis by (auto simp: qp')
qed

lemma qp_sort_inv [peerset_laws, intro]: "qp_inv dist qp \<Longrightarrow> qp_inv dist (qp_sort qp)"
  by (auto simp: qp_inv_def qp_sort_def sorted_sort_key distinct_map)

lemma qp_sort_frame [simp]: "qp_key (qp_sort qp) = qp_key qp" "set (qp_all (qp_sort qp)) = set (qp_all qp)"
  "length (qp_all (qp_sort qp)) = length (qp_all qp)"
  by (simp_all add: qp_sort_def)

lemma qp_sort_labels [peerset_laws]:
  assumes "qp_inv dist qp"
  shows "labels (qp_sort qp) = labels qp"
proof
  fix p
  have d: "distinct (map qps_id (qp_all qp))" "distinct (map qps_id (qp_all (qp_sort qp)))"
    using assms qp_sort_inv [OF assms] by (auto simp: qp_inv_def)
  show "labels (qp_sort qp) p = labels qp p"
    using labels_Some [OF d(1), of p] labels_Some [OF d(2), of p]
    by (cases "labels qp p"; cases "labels (qp_sort qp) p") force+
qed

lemma qp_sort_idem [simp]: "qp_sort (qp_sort qp) = qp_sort qp"
  by (simp add: qp_sort_def)

lemma GetState_sort: "qp_inv dist qp \<Longrightarrow> GetState p (qp_sort qp) = labels qp p"
  using GetState_labels [OF qp_sort_inv] by (simp add: qp_sort_labels)

lemma qp_sort_sorted: "qp_inv dist qp \<Longrightarrow> sorted (map qps_distance (qp_all (qp_sort qp)))"
  by (auto simp: qp_inv_def qp_sort_def)

text \<open>
  Any other sorting of the set by distance, stable or not, gives the same order as long as no two
  peers of the set are equally far from the target.
\<close>

lemma qp_sort_any:
  assumes "\<not> qp_sorted qp" and "inj_on qps_distance (set (qp_all qp))"
    and "mset xs = mset (qp_all qp)" and "sorted (map qps_distance xs)"
  shows "qp_all (qp_sort qp) = xs"
  using assms sort_key_eqI by (simp add: qp_sort_def)

subsection \<open>Selecting the closest peers\<close>

lemma in_states_ids:
  assumes "qp_inv dist qp"
  shows "in_states qp sts = qps_id ` {x \<in> set (qp_all qp). qps_state x \<in> set sts}"
  using assms labels_Some [of qp] by (auto simp: in_states_def qp_inv_def)

text \<open>
  What \<open>GetClosestNInStates\<close> returns: a duplicate-free list of peers of the set in one of the
  states, as many as asked for or all there are, in ascending order of distance, and none of the
  peers left out is closer than a returned one.
\<close>

definition closest_spec ::
  "keyspace_distance \<Rightarrow> QueryPeerset \<Rightarrow> nat \<Rightarrow> PeerState list \<Rightarrow> peer_id list \<Rightarrow> bool" where
  "closest_spec dist qp n sts ps \<longleftrightarrow>
     distinct ps \<and> set ps \<subseteq> in_states qp sts \<and>
     length ps = min n (card (in_states qp sts)) \<and>
     sorted (map (\<lambda>p. dist p (qp_key qp)) ps) \<and>
     (\<forall>p\<in>set ps. \<forall>q\<in>in_states qp sts - set ps. dist p (qp_key qp) \<le> dist q (qp_key qp))"

lemma closest_spec_take:
  assumes "distinct ps" and "set ps = in_states qp sts"
    and "sorted (map (\<lambda>p. dist p (qp_key qp)) ps)"
  shows "closest_spec dist qp n sts (take n ps)"
proof -
  let ?d = "\<lambda>p. dist p (qp_key qp)"
  have "?d p \<le> ?d q" if "p \<in> set (take n ps)" "q \<in> set (drop n ps)" for p q
  proof -
    have "sorted (map ?d (take n ps) @ map ?d (drop n ps))"
      using assms(3) by (simp flip: map_append)
    with that show ?thesis by (auto simp: sorted_append)
  qed
  moreover have "set ps - set (take n ps) \<subseteq> set (drop n ps)"
    using set_append [of "take n ps" "drop n ps"] by auto
  moreover have "card (set ps) = length ps"
    using assms(1) by (rule distinct_card)
  ultimately show ?thesis
    using assms set_take_subset [of n ps]
    by (auto simp: closest_spec_def min.commute simp flip: take_map intro: sorted_wrt_take)
qed

lemma GetClosestNInStates_Some:
  assumes inv: "qp_inv dist qp" and n: "0 \<le> n"
  shows "\<exists>ps. GetClosestNInStates n sts qp = Some (ps, qp_sort qp) \<and>
     closest_spec dist qp (nat n) sts ps"
proof -
  let ?sel = "filter (\<lambda>x. qps_state x \<in> set sts) (qp_all (qp_sort qp))"
  let ?ids = "map qps_id ?sel"
  have inv': "qp_inv dist (qp_sort qp)" using inv by (rule qp_sort_inv)
  have d: "distinct ?ids"
    using inv' by (auto simp: qp_inv_def distinct_map_filter)
  have st: "set ?ids = in_states qp sts"
    by (auto simp: in_states_ids [OF inv])
  have "sorted (map qps_distance ?sel)"
    using qp_sort_sorted [OF inv] by (simp add: sorted_filter)
  moreover have "map qps_distance ?sel = map (\<lambda>p. dist p (qp_key qp)) ?ids"
    using inv' by (auto simp: qp_inv_def)
  ultimately have srt: "sorted (map (\<lambda>p. dist p (qp_key qp)) ?ids)" by simp
  have "closest_spec dist qp (nat n) sts (take (nat n) ?ids)"
    using d st srt by (rule closest_spec_take)
  with n show ?thesis
    by (auto simp: GetClosestNInStates_def Let_def nat_le_iff)
qed

lemma in_states_sort [simp]: "qp_inv dist qp \<Longrightarrow> in_states (qp_sort qp) sts = in_states qp sts"
  by (simp add: in_states_def qp_sort_labels)

lemma closest_spec_sort:
  "qp_inv dist qp \<Longrightarrow> closest_spec dist (qp_sort qp) n sts ps = closest_spec dist qp n sts ps"
  by (simp add: closest_spec_def)

lemma GetClosestInStates_Some:
  assumes inv: "qp_inv dist qp"
  shows "\<exists>ps. GetClosestInStates sts qp = Some (ps, qp_sort qp) \<and> distinct ps \<and>
     set ps = in_states qp sts"
proof -
  from GetClosestNInStates_Some [OF inv, of "int (length (qp_all qp))" sts]
  obtain ps where ps: "GetClosestInStates sts qp = Some (ps, qp_sort qp)"
    and spec: "closest_spec dist qp (length (qp_all qp)) sts ps"
    by (auto simp: GetClosestInStates_def)
  have "card (in_states qp sts) \<le> length (qp_all qp)"
    unfolding in_states_ids [OF inv]
    by (intro order.trans [OF card_image_le] order.trans [OF card_mono card_length]) auto
  with spec have "set ps = in_states qp sts"
    by (auto simp: closest_spec_def card_subset_eq distinct_card min_absorb2)
  with ps spec show ?thesis by (auto simp: closest_spec_def)
qed

lemma NumHeard_Some [peerset_laws]:
  "qp_inv dist qp \<Longrightarrow> NumHeard qp = Some (card (in_states qp [PeerHeard]), qp_sort qp)"
  using GetClosestInStates_Some [of dist qp "[PeerHeard]"]
  by (auto simp: NumHeard_def simp flip: distinct_card)

lemma NumWaiting_Some [peerset_laws]:
  "qp_inv dist qp \<Longrightarrow> NumWaiting qp = Some (card (in_states qp [PeerWaiting]), qp_sort qp)"
  using GetClosestInStates_Some [of dist qp "[PeerWaiting]"]
  by (auto simp: NumWaiting_def simp flip: distinct_card)

section \<open>The interface of a peer set\<close>

text \<open>
  What the lookup relies on, over an abstract set \<open>'s\<close> with labels \<open>lab\<close>: adding a peer labels it
  as heard unless it has a label already; setting a state succeeds exactly on peers of the set and
  changes that label only; selecting returns that many peers in the given states and changes no
  label.
\<close>

locale labelled_peers =
  fixes inv :: "'s \<Rightarrow> bool"
    and lab :: "'s \<Rightarrow> peer_id \<Rightarrow> PeerState option"
    and add :: "peer_id \<Rightarrow> peer_id \<Rightarrow> 's \<Rightarrow> 's"
    and setst :: "peer_id \<Rightarrow> PeerState \<Rightarrow> 's \<Rightarrow> 's option"
    and closest :: "int \<Rightarrow> PeerState list \<Rightarrow> 's \<Rightarrow> (peer_id list \<times> 's) option"
  assumes finite_lab: "finite (dom (lab s))"
    and inv_add: "inv s \<Longrightarrow> inv (add p r s)"
    and lab_add: "inv s \<Longrightarrow>
      lab (add p r s) = (if lab s p = None then (lab s)(p \<mapsto> PeerHeard) else lab s)"
    and setst_defined: "setst p x s \<noteq> None \<longleftrightarrow> lab s p \<noteq> None"
    and setst_Some: "inv s \<Longrightarrow> setst p x s = Some s' \<Longrightarrow> inv s' \<and> lab s' = (lab s)(p \<mapsto> x)"
    and closest_Some: "inv s \<Longrightarrow> 0 \<le> n \<Longrightarrow> \<exists>ps s'. closest n sts s = Some (ps, s') \<and>
      inv s' \<and> lab s' = lab s \<and> distinct ps \<and>
      set ps \<subseteq> {p. \<exists>x\<in>set sts. lab s p = Some x} \<and>
      length ps = min (nat n) (card {p. \<exists>x\<in>set sts. lab s p = Some x})"
begin

text \<open>The peers with a given label.\<close>

definition having :: "PeerState \<Rightarrow> 's \<Rightarrow> peer_id set" where
  "having x s = {p. lab s p = Some x}"

lemma finite_having [simp]: "finite (having x s)"
  by (rule finite_subset [OF _ finite_lab [of s]]) (auto simp: having_def)

lemma add_all:
  assumes "inv s"
  shows "inv (fold (\<lambda>p s. if p = self then s else add p r s) ps s) \<and>
    lab (fold (\<lambda>p s. if p = self then s else add p r s) ps s) =
      (\<lambda>p. if p \<in> set ps \<and> p \<noteq> self \<and> lab s p = None then Some PeerHeard else lab s p)"
  using assms
proof (induction ps arbitrary: s)
  case (Cons q ps)
  let ?s = "if q = self then s else add q r s"
  have "inv ?s" using Cons.prems by (simp add: inv_add)
  from Cons.IH [OF this] Cons.prems show ?case
    by (auto simp: lab_add fun_eq_iff)
qed simp

text \<open>Moving a peer from one label to another moves it between the two classes.\<close>

lemma setst_having:
  assumes "inv s" and "setst p y s = Some s'" and "lab s p = Some x" and "x \<noteq> y"
  shows "having y s' = insert p (having y s)" and "having x s' = having x s - {p}"
  using setst_Some [OF assms(1,2)] assms(3,4) by (auto simp: having_def)

lemma setst_other:
  assumes "inv s" and "setst p y s = Some s'" and "lab s p = Some x" and "z \<noteq> x" and "z \<noteq> y"
  shows "having z s' = having z s"
  using setst_Some [OF assms(1,2)] assms(3-) by (auto simp: having_def)

end

interpretation qpl: labelled_peers "qp_inv dist" labels "\<lambda>p r qp. snd (TryAdd dist p r qp)"
  SetState GetClosestNInStates for dist
proof (unfold_locales, goal_cases)
  case (4 p x s)
  then show ?case using SetState_defined [of s p x] by simp
next
  case (6 s n sts)
  from GetClosestNInStates_Some [OF this, of sts] obtain ps where
    "GetClosestNInStates n sts s = Some (ps, qp_sort s)" "closest_spec dist s (nat n) sts ps" by blast
  with 6 show ?case
    by (auto simp: closest_spec_def in_states_def qp_sort_labels qp_sort_inv)
qed (auto simp: TryAdd_labels SetState_Some)

lemma qpl_having [simp]: "qpl.having x qp = in_states qp [x]"
  by (auto simp: qpl.having_def in_states_def)

section \<open>Properties\<close>

text \<open>\<open>GetClosestNInStates\<close> returns, in ascending order of distance to the target and without
  duplicates, exactly the \<open>n\<close> closest peers in one of the given states (all of them when there are
  fewer), and does not change the state of any peer.\<close>

theorem closest_n_in_states:
  assumes "qp_inv dist qp" and "0 \<le> n"
  shows "\<exists>ps qp'. GetClosestNInStates n states qp = Some (ps, qp') \<and>
    distinct ps \<and> sorted (map (\<lambda>p. dist p (qp_key qp)) ps) \<and>
    length ps = min (nat n) (card {p. \<exists>s\<in>set states. GetState p qp = Some s}) \<and>
    (\<forall>p\<in>set ps. \<exists>s\<in>set states. GetState p qp = Some s) \<and>
    (\<forall>p\<in>set ps. \<forall>q. q \<notin> set ps \<and> (\<exists>s\<in>set states. GetState q qp = Some s) \<longrightarrow>
       dist p (qp_key qp) \<le> dist q (qp_key qp)) \<and>
    (\<forall>p. GetState p qp' = GetState p qp)"
proof -
  from GetClosestNInStates_Some [OF assms, of states] obtain ps where
    "GetClosestNInStates n states qp = Some (ps, qp_sort qp)"
    "closest_spec dist qp (nat n) states ps" by blast
  moreover have "GetState p qp = labels qp p" "GetState p (qp_sort qp) = labels qp p" for p
    using GetState_labels [OF assms(1)] GetState_sort [OF assms(1)] by simp_all
  ultimately show ?thesis
    by (intro exI [of _ ps] exI [of _ "qp_sort qp"]) (auto simp: closest_spec_def in_states_def)
qed

definition two_peers :: QueryPeerset where
  "two_peers = \<lparr>qp_key = ''k'', qp_all =
     [\<lparr>qps_id = ''far'', qps_distance = 3, qps_state = PeerHeard, qps_referredBy = ''s''\<rparr>,
      \<lparr>qps_id = ''a'', qps_distance = 1, qps_state = PeerHeard, qps_referredBy = ''s''\<rparr>],
     qp_sorted = False\<rparr>"

theorem closest_n_in_states_witness:
  "qp_inv (\<lambda>p k. length p) two_peers \<and>
   (\<exists>ps qp'. GetClosestNInStates 1 [PeerHeard] two_peers = Some (ps, qp') \<and> distinct ps)"
proof -
  have "qp_inv (\<lambda>p k. length p) two_peers"
    by (simp add: qp_inv_def two_peers_def)
  then show ?thesis
    using closest_n_in_states [of "\<lambda>p k. length p" two_peers 1 "[PeerHeard]"] by auto
qed

text \<open>\<open>TryAdd\<close> returns true exactly for a peer that is not in the set, which it then labels as
  heard, recording who referred us to it; a peer that is present keeps its state and referrer, and
  no other peer is touched.\<close>

theorem tryadd_correct:
  assumes "qp_inv dist qp" and "TryAdd dist p r qp = (b, qp')"
  shows "qp_inv dist qp' \<and> b = (GetState p qp = None) \<and>
    GetState p qp' = (if b then Some PeerHeard else GetState p qp) \<and>
    (b \<longrightarrow> GetReferrer p qp' = Some r) \<and>
    (\<forall>q. q \<noteq> p \<longrightarrow> GetState q qp' = GetState q qp)"
proof -
  have inv': "qp_inv dist qp'"
    using TryAdd_inv [OF assms(1), of p r] assms(2) by simp
  have lab': "labels qp' = (if labels qp p = None then (labels qp)(p \<mapsto> PeerHeard) else labels qp)"
    using TryAdd_labels [of dist p r qp] assms(2) by simp
  have b: "b \<longleftrightarrow> labels qp p = None"
    using TryAdd_flag [of dist p r qp] assms(2) by simp
  have "GetReferrer p qp' = Some r" if added: b
  proof -
    from added b have absent: "p \<notin> qps_id ` set (qp_all qp)" by (simp add: labels_None)
    obtain x where all': "qp_all qp' = qp_all qp @ [x]" and x: "qps_id x = p" "qps_referredBy x = r"
      using assms(2) added b qp_find_labels [of qp p] by (auto simp: TryAdd_def split: if_splits)
    have "labels qp' p \<noteq> None" using lab' by auto
    then obtain i where i: "qp_index qp' p = Some i"
      using qp_index_None [of qp' p] labels_None [of qp' p] by auto
    then have "i = length (qp_all qp)"
      using qp_index_Some [OF i] absent all' by (auto simp: nth_append split: if_splits)
    with i all' x show ?thesis by (simp add: GetReferrer_def)
  qed
  with b lab' inv' show ?thesis
    using GetState_labels [OF assms(1)] GetState_labels [OF inv'] by auto
qed

theorem tryadd_correct_witness:
  "\<exists>qp'. TryAdd (\<lambda>p k. length p) ''bb'' ''a'' two_peers = (True, qp') \<and>
     GetReferrer ''bb'' qp' = Some ''a''"
proof -
  have "qp_inv (\<lambda>p k. length p) two_peers" and "fst (TryAdd (\<lambda>p k. length p) ''bb'' ''a'' two_peers)"
    by (simp_all add: qp_inv_def two_peers_def TryAdd_def qp_find_def)
  then show ?thesis
    using tryadd_correct [of "\<lambda>p k. length p" two_peers "''bb''" "''a''" True]
    by (cases "TryAdd (\<lambda>p k. length p) ''bb'' ''a'' two_peers") auto
qed

end
