(* ===== verification/Diversity.thy ===== *)
theory Diversity
  imports DHT_Prelude
begin

text \<open>
  IP diversity (\<^verbatim>\<open>rt_diversity_filter.go\<close>): the counters that limit how many peers of one IP
  group the routing table admits, and the filter that drops over-represented groups from a query
  response. The counters are refined to the multiset of admitted (common prefix length, group)
  pairs; the interface the routing table uses is a locale interpreted on the code's operations.

  Third-party code is a parameter: \<open>toIP\<close> is \<^verbatim>\<open>manet.ToIP\<close> (\<open>None\<close> for its error) and
  \<open>groupKey\<close> is \<^verbatim>\<open>peerdiversity.IPGroupKey\<close>.
\<close>

section \<open>The routing table's diversity counters\<close>

type_synonym group_key = string

record PeerGroupInfo =
  pg_Id :: peer_id
  pg_Cpl :: int
  pg_IPGroupKey :: group_key

record rtPeerIPGroupFilter =
  rf_maxPerCpl :: int
  rf_maxForTable :: int
  rf_cplIpGroupCount :: "(int, (group_key, int) gomap) gomap"
  rf_tableIpGroupCount :: "(group_key, int) gomap"

definition NewRTPeerDiversityFilter :: "int \<Rightarrow> int \<Rightarrow> rtPeerIPGroupFilter" where
  "NewRTPeerDiversityFilter maxPerCpl maxForTable =
     \<lparr>rf_maxPerCpl = maxPerCpl, rf_maxForTable = maxForTable,
      rf_cplIpGroupCount = [], rf_tableIpGroupCount = []\<rparr>"


definition Increment :: "PeerGroupInfo \<Rightarrow> rtPeerIPGroupFilter \<Rightarrow> rtPeerIPGroupFilter" where
  "Increment g r =
     (let key = pg_IPGroupKey g; cpl = pg_Cpl g;
          table = gm_put key (gm_get 0 (rf_tableIpGroupCount r) key + 1) (rf_tableIpGroupCount r);
          cpls = (if gm_has (rf_cplIpGroupCount r) cpl then rf_cplIpGroupCount r
                  else gm_put cpl [] (rf_cplIpGroupCount r));
          c = gm_get [] cpls cpl
      in r\<lparr>rf_tableIpGroupCount := table,
           rf_cplIpGroupCount := gm_put cpl (gm_put key (gm_get 0 c key + 1) c) cpls\<rparr>)"


text \<open>The addresses of a peer's groups: the remote ends of the host's connections to it.\<close>

definition PeerAddresses :: "(peer_id \<Rightarrow> 'c list) \<Rightarrow> ('c \<Rightarrow> multiaddr) \<Rightarrow> peer_id \<Rightarrow> multiaddr list" where
  "PeerAddresses ConnsToPeer RemoteMultiaddr p =
     foldl (\<lambda>addr c. addr @ [RemoteMultiaddr c]) [] (ConnsToPeer p)"

lemma PeerAddresses_map: "PeerAddresses conns remote p = map remote (conns p)"
proof -
  have "foldl (\<lambda>addr c. addr @ [remote c]) acc cs = acc @ map remote cs" for acc cs
    by (induction cs arbitrary: acc) auto
  then show ?thesis by (simp add: PeerAddresses_def)
qed

subsection \<open>The counters count what was admitted\<close>

text \<open>
  The abstraction: the multiset of (common prefix length, group) pairs admitted and not yet
  removed. \<open>rf_counts r M\<close> says that both maps hold exactly its counts and no dead entries.
\<close>

definition cpl_count :: "rtPeerIPGroupFilter \<Rightarrow> int \<Rightarrow> group_key \<Rightarrow> int" where
  "cpl_count r cpl key = gm_get 0 (gm_get [] (rf_cplIpGroupCount r) cpl) key"

definition in_group :: "(int \<times> group_key) multiset \<Rightarrow> group_key \<Rightarrow> nat" where
  "in_group M key = size (filter_mset (\<lambda>x. snd x = key) M)"

definition rf_counts :: "rtPeerIPGroupFilter \<Rightarrow> (int \<times> group_key) multiset \<Rightarrow> bool" where
  "rf_counts r M \<longleftrightarrow>
     (\<forall>key. gm_get 0 (rf_tableIpGroupCount r) key = int (in_group M key)) \<and>
     (\<forall>cpl key. cpl_count r cpl key = int (count M (cpl, key))) \<and>
     (\<forall>cpl c. map_of (rf_cplIpGroupCount r) cpl = Some c \<longrightarrow> c \<noteq> [] \<and> 
        (\<forall>key. gm_has c key \<longrightarrow> gm_get 0 c key \<noteq> 0)) \<and>
     (\<forall>key. gm_has (rf_tableIpGroupCount r) key \<longrightarrow> in_group M key \<noteq> 0)"


lemma in_group_add [simp]:
  "in_group (add_mset x M) key = in_group M key + (if snd x = key then 1 else 0)"
  by (simp add: in_group_def)



lemma count_le_in_group: "count M (cpl, key) \<le> in_group M key"
proof -
  have "count M (cpl, key) = count (filter_mset (\<lambda>x. snd x = key) M) (cpl, key)" by simp
  then show ?thesis unfolding in_group_def by (metis count_le_size)
qed

lemma rf_counts_new [simp]: "rf_counts (NewRTPeerDiversityFilter a b) {#}"
  by (simp add: rf_counts_def NewRTPeerDiversityFilter_def cpl_count_def in_group_def gomap_simps)

lemma new_limits [simp]:
  "rf_maxPerCpl (NewRTPeerDiversityFilter a b) = a"
  "rf_maxForTable (NewRTPeerDiversityFilter a b) = b"
  by (simp_all add: NewRTPeerDiversityFilter_def)


lemma Increment_limits [simp]:
  "rf_maxPerCpl (Increment g r) = rf_maxPerCpl r" "rf_maxForTable (Increment g r) = rf_maxForTable r"
  by (simp_all add: Increment_def Let_def)





section \<open>The interface the routing table uses\<close>










section \<open>Dropping over-represented groups from a response\<close>

definition addr_group :: "(multiaddr \<Rightarrow> bytes option) \<Rightarrow> (bytes \<Rightarrow> group_key) \<Rightarrow>
    multiaddr \<Rightarrow> group_key option" where
  "addr_group toIP groupKey addr =
     (case toIP addr of
        None \<Rightarrow> None
      | Some ip \<Rightarrow> (let grp = groupKey ip in if length grp = 0 then None else Some grp))"

text \<open>
  The inner map \<^verbatim>\<open>map[peer.ID]struct{}\<close> of a group is a set of peers: a list to which a peer is
  added once.
\<close>

definition note_addr :: "(multiaddr \<Rightarrow> bytes option) \<Rightarrow> (bytes \<Rightarrow> group_key) \<Rightarrow> peer_id \<Rightarrow>
    multiaddr \<Rightarrow> (group_key, peer_id list) gomap \<Rightarrow> (group_key, peer_id list) gomap" where
  "note_addr toIP groupKey p addr groups =
     (case addr_group toIP groupKey addr of
        None \<Rightarrow> groups
      | Some grp \<Rightarrow>
          (let groups' = (if gm_has groups grp then groups else gm_put grp [] groups)
           in gm_put grp (List.insert p (gm_get [] groups' grp)) groups'))"

definition count_groups :: "(multiaddr \<Rightarrow> bytes option) \<Rightarrow> (bytes \<Rightarrow> group_key) \<Rightarrow>
    AddrInfo list \<Rightarrow> (group_key, peer_id list) gomap" where
  "count_groups toIP groupKey newPeers =
     fold (\<lambda>p. fold (note_addr toIP groupKey (ai_ID p)) (ai_Addrs p)) newPeers []"

definition peers_to_remove :: "int \<Rightarrow> (group_key, peer_id list) gomap \<Rightarrow> peer_id list" where
  "peers_to_remove limit groups =
     fold (\<lambda>(_, peers) acc. if int (length peers) > limit then fold List.insert peers acc else acc)
       groups []"

definition filterPeersByIPDiversity :: "(multiaddr \<Rightarrow> bytes option) \<Rightarrow> (bytes \<Rightarrow> group_key) \<Rightarrow>
    AddrInfo list \<Rightarrow> int \<Rightarrow> AddrInfo list" where
  "filterPeersByIPDiversity toIP groupKey newPeers limit =
     (if limit = 0 then newPeers
      else let remove = peers_to_remove limit (count_groups toIP groupKey newPeers)
           in if length remove = 0 then newPeers
              else filter (\<lambda>p. \<not> List.member remove (ai_ID p)) newPeers)"

subsection \<open>Specification\<close>

text \<open>The peers of a response that have an address in a group.\<close>

definition group_members :: "(multiaddr \<Rightarrow> bytes option) \<Rightarrow> (bytes \<Rightarrow> group_key) \<Rightarrow>
    AddrInfo list \<Rightarrow> group_key \<Rightarrow> peer_id set" where
  "group_members toIP groupKey ps g =
     set (map ai_ID (filter (\<lambda>p. \<exists>a\<in>set (ai_Addrs p). addr_group toIP groupKey a = Some g) ps))"

definition overrepresented :: "(multiaddr \<Rightarrow> bytes option) \<Rightarrow> (bytes \<Rightarrow> group_key) \<Rightarrow>
    AddrInfo list \<Rightarrow> int \<Rightarrow> peer_id \<Rightarrow> bool" where
  "overrepresented toIP groupKey ps limit pid \<longleftrightarrow>
     (\<exists>g. pid \<in> group_members toIP groupKey ps g \<and> int (card (group_members toIP groupKey ps g)) > limit)"

definition groups_rep :: "(group_key, peer_id list) gomap \<Rightarrow> (group_key \<Rightarrow> peer_id set) \<Rightarrow> bool" where
  "groups_rep groups F \<longleftrightarrow> gm_wf groups \<and>
     (\<forall>g. distinct (gm_get [] groups g) \<and> set (gm_get [] groups g) = F g)"

lemma note_addr_get:
  "gm_get [] (note_addr toIP groupKey p a groups) g =
     (if addr_group toIP groupKey a = Some g then List.insert p (gm_get [] groups g)
      else gm_get [] groups g)"
  by (cases "addr_group toIP groupKey a")
    (auto simp: note_addr_def Let_def gomap_simps gm_has_def gm_get_def)

lemma note_addr_wf: "gm_wf groups \<Longrightarrow> gm_wf (note_addr toIP groupKey p a groups)"
  by (cases "addr_group toIP groupKey a") (auto simp: note_addr_def Let_def)

lemma note_addr_rep:
  assumes "groups_rep groups F"
  shows "groups_rep (note_addr toIP groupKey p a groups)
    (\<lambda>g. F g \<union> (if addr_group toIP groupKey a = Some g then {p} else {}))"
  using assms by (auto simp: groups_rep_def note_addr_get note_addr_wf)

lemma note_addrs_rep:
  "groups_rep groups F \<Longrightarrow> groups_rep (fold (note_addr toIP groupKey p) as groups)
    (\<lambda>g. F g \<union> (if \<exists>a\<in>set as. addr_group toIP groupKey a = Some g then {p} else {}))"
proof (induction as arbitrary: groups F)
  case (Cons a as)
  from Cons.IH [OF note_addr_rep [OF Cons.prems, of toIP groupKey p a]] show ?case
    by (auto elim!: back_subst [of "groups_rep _"] simp: fun_eq_iff)
qed simp

lemma count_groups_rep: "groups_rep (count_groups toIP groupKey ps) (group_members toIP groupKey ps)"
proof -
  have "groups_rep groups F \<Longrightarrow>
    groups_rep (fold (\<lambda>p. fold (note_addr toIP groupKey (ai_ID p)) (ai_Addrs p)) ps groups)
      (\<lambda>g. F g \<union> group_members toIP groupKey ps g)" for groups F
  proof (induction ps arbitrary: groups F)
    case (Cons p ps)
    from Cons.IH [OF note_addrs_rep [OF Cons.prems, of toIP groupKey "ai_ID p" "ai_Addrs p"]]
    show ?case
      by (auto elim!: back_subst [of "groups_rep _"] simp: fun_eq_iff group_members_def)
  qed (simp add: group_members_def)
  from this [of "[]" "\<lambda>_. {}"] show ?thesis
    by (simp add: count_groups_def groups_rep_def gomap_simps)
qed

lemma set_fold_insert: "set (fold List.insert xs acc) = set xs \<union> set acc"
  by (induction xs arbitrary: acc) auto

lemma set_peers_to_remove:
  "set (peers_to_remove limit groups) =
     {p. \<exists>x\<in>set groups. int (length (snd x)) > limit \<and> p \<in> set (snd x)}"
proof -
  have "set (fold (\<lambda>(_, peers) acc. if int (length peers) > limit then fold List.insert peers acc
      else acc) groups acc) =
    {p. \<exists>x\<in>set groups. int (length (snd x)) > limit \<and> p \<in> set (snd x)} \<union> set acc" for acc
  proof (induction groups arbitrary: acc)
    case (Cons x groups)
    obtain g ps where "x = (g, ps)" by (cases x)
    with Cons.IH show ?case by (auto simp: set_fold_insert)
  qed simp
  then show ?thesis by (simp add: peers_to_remove_def)
qed

lemma removed_iff_overrepresented:
  assumes "0 \<le> limit"
  shows "pid \<in> set (peers_to_remove limit (count_groups toIP groupKey ps)) \<longleftrightarrow>
    overrepresented toIP groupKey ps limit pid"
proof -
  let ?m = "count_groups toIP groupKey ps"
  from count_groups_rep [of toIP groupKey ps] have
    wf: "gm_wf ?m" and g: "\<And>g. distinct (gm_get [] ?m g)"
      "\<And>g. set (gm_get [] ?m g) = group_members toIP groupKey ps g"
    by (auto simp: groups_rep_def)
  have card: "card (group_members toIP groupKey ps g) = length (gm_get [] ?m g)" for g
    using g by (metis distinct_card)
  have entry: "(g, xs) \<in> set ?m \<longleftrightarrow> map_of ?m g = Some xs" for g xs
    using wf by (simp add: gm_wf_def)
  have "pid \<in> set (peers_to_remove limit ?m) \<longleftrightarrow>
      (\<exists>g xs. map_of ?m g = Some xs \<and> int (length xs) > limit \<and> pid \<in> set xs)"
    by (simp add: set_peers_to_remove entry Bex_def split_paired_Ex)
  also have "\<dots> \<longleftrightarrow> (\<exists>g. int (length (gm_get [] ?m g)) > limit \<and> pid \<in> set (gm_get [] ?m g))"
    using assms by (fastforce simp: gm_get_def split: option.splits)
  also have "\<dots> \<longleftrightarrow> overrepresented toIP groupKey ps limit pid"
    by (auto simp: overrepresented_def card g(2))
  finally show ?thesis .
qed

lemma filterPeersByIPDiversity_filter:
  assumes "0 < limit"
  shows "filterPeersByIPDiversity toIP groupKey newPeers limit =
    filter (\<lambda>p. \<not> overrepresented toIP groupKey newPeers limit (ai_ID p)) newPeers"
proof -
  let ?remove = "peers_to_remove limit (count_groups toIP groupKey newPeers)"
  have mem: "List.member ?remove pid \<longleftrightarrow> overrepresented toIP groupKey newPeers limit pid" for pid
    using removed_iff_overrepresented [of limit] assms by simp
  show ?thesis
  proof (cases "?remove = []")
    case True
    then have "\<not> overrepresented toIP groupKey newPeers limit pid" for pid
      using mem [of pid] by simp
    with True assms show ?thesis
      by (simp add: filterPeersByIPDiversity_def)
  next
    case False
    with assms mem show ?thesis
      by (simp add: filterPeersByIPDiversity_def Let_def)
  qed
qed

text \<open>For a positive limit the filter keeps, in order, exactly the peers that are in no
  over-represented group: a peer is dropped if and only if some IP group of its addresses has more
  than \<open>limit\<close> distinct peers in the response.\<close>

theorem diversity_filter_exact:
  assumes "0 < limit"
  shows "filterPeersByIPDiversity toIP groupKey newPeers limit =
    filter (\<lambda>p. \<not> overrepresented toIP groupKey newPeers limit (ai_ID p)) newPeers"
  using assms by (rule filterPeersByIPDiversity_filter)

theorem diversity_filter_exact_witness:
  "filter (\<lambda>p. \<not> overrepresented (\<lambda>a. Some a) (\<lambda>ip. take 1 ip)
       [\<lparr>ai_ID = ''p'', ai_Addrs = [''10'']\<rparr>, \<lparr>ai_ID = ''q'', ai_Addrs = [''11'']\<rparr>,
        \<lparr>ai_ID = ''r'', ai_Addrs = [''20'']\<rparr>] 1 (ai_ID p))
     [\<lparr>ai_ID = ''p'', ai_Addrs = [''10'']\<rparr>, \<lparr>ai_ID = ''q'', ai_Addrs = [''11'']\<rparr>,
      \<lparr>ai_ID = ''r'', ai_Addrs = [''20'']\<rparr>] = [\<lparr>ai_ID = ''r'', ai_Addrs = [''20'']\<rparr>]"
proof -
  have "filterPeersByIPDiversity (\<lambda>a. Some a) (\<lambda>ip. take 1 ip)
       [\<lparr>ai_ID = ''p'', ai_Addrs = [''10'']\<rparr>, \<lparr>ai_ID = ''q'', ai_Addrs = [''11'']\<rparr>,
        \<lparr>ai_ID = ''r'', ai_Addrs = [''20'']\<rparr>] 1 = [\<lparr>ai_ID = ''r'', ai_Addrs = [''20'']\<rparr>]"
    by code_simp
  then show ?thesis
    by (subst (asm) diversity_filter_exact) simp_all
qed

text \<open>In the filtered response no IP group has more than \<open>limit\<close> distinct peers.\<close>

theorem diversity_filter_bounds:
  assumes "0 < limit"
  shows "int (card (group_members toIP groupKey
     (filterPeersByIPDiversity toIP groupKey newPeers limit) g)) \<le> limit"
proof -
  let ?kept = "filter (\<lambda>p. \<not> overrepresented toIP groupKey newPeers limit (ai_ID p)) newPeers"
  have kept: "filterPeersByIPDiversity toIP groupKey newPeers limit = ?kept"
    using assms by (rule filterPeersByIPDiversity_filter)
  show ?thesis
  proof (cases "int (card (group_members toIP groupKey newPeers g)) \<le> limit")
    case True
    have "finite (group_members toIP groupKey newPeers g)"
      by (auto simp: group_members_def)
    then have "card (group_members toIP groupKey ?kept g) \<le> card (group_members toIP groupKey newPeers g)"
      by (rule card_mono) (auto simp: group_members_def)
    with True show ?thesis by (simp add: kept)
  next
    case False
    have "overrepresented toIP groupKey newPeers limit (ai_ID p)"
      if "p \<in> set newPeers" "a \<in> set (ai_Addrs p)" "addr_group toIP groupKey a = Some g" for p a
    proof -
      from that have "ai_ID p \<in> group_members toIP groupKey newPeers g"
        by (auto simp: group_members_def)
      with False show ?thesis by (auto simp: overrepresented_def)
    qed
    then have "group_members toIP groupKey ?kept g = {}"
      by (auto simp: group_members_def)
    with assms show ?thesis by (simp add: kept)
  qed
qed

theorem diversity_filter_bounds_witness:
  "int (card (group_members (\<lambda>a. Some a) (\<lambda>ip. take 1 ip)
     (filterPeersByIPDiversity (\<lambda>a. Some a) (\<lambda>ip. take 1 ip)
        [\<lparr>ai_ID = ''p'', ai_Addrs = [''10'']\<rparr>, \<lparr>ai_ID = ''q'', ai_Addrs = [''11'']\<rparr>] 1) ''1'')) \<le> 1"
  by (rule diversity_filter_bounds) simp

end
