(* ===== verification/LookupEvents.thy ===== *)
theory LookupEvents
  imports DHT_Prelude
begin

text \<open>
  The events a lookup publishes (\<^verbatim>\<open>events.go\<close>): identifiers paired with their Kademlia form,
  state-update events, termination reasons and events, and the event channel with its closing rule.
  The conversion of keys and peer identifiers into the Kademlia key space
  (\<^verbatim>\<open>kbucket.ConvertKey\<close>, \<^verbatim>\<open>kbucket.ConvertPeerID\<close>) is third-party: a parameter.
\<close>

section \<open>Identifiers\<close>

type_synonym kad_id = bytes

record KeyKadID =
  kk_Key :: string
  kk_Kad :: kad_id

record PeerKadID =
  pk_Peer :: peer_id
  pk_Kad :: kad_id

definition NewKeyKadID :: "(string \<Rightarrow> kad_id) \<Rightarrow> string \<Rightarrow> KeyKadID" where
  "NewKeyKadID ConvertKey k = \<lparr>kk_Key = k, kk_Kad = ConvertKey k\<rparr>"

definition NewPeerKadID :: "(peer_id \<Rightarrow> kad_id) \<Rightarrow> peer_id \<Rightarrow> PeerKadID" where
  "NewPeerKadID ConvertPeerID p = \<lparr>pk_Peer = p, pk_Kad = ConvertPeerID p\<rparr>"

definition NewPeerKadIDSlice :: "(peer_id \<Rightarrow> kad_id) \<Rightarrow> peer_id list \<Rightarrow> PeerKadID list" where
  "NewPeerKadIDSlice ConvertPeerID ps = map (NewPeerKadID ConvertPeerID) ps"

text \<open>A nil pointer is \<open>None\<close>.\<close>

definition OptPeerKadID :: "(peer_id \<Rightarrow> kad_id) \<Rightarrow> peer_id \<Rightarrow> PeerKadID option" where
  "OptPeerKadID ConvertPeerID p = (if p = [] then None else Some (NewPeerKadID ConvertPeerID p))"

section \<open>Events\<close>

record LookupUpdateEvent =
  lu_Cause :: "PeerKadID option"
  lu_Source :: "PeerKadID option"
  lu_Heard :: "PeerKadID list"
  lu_Waiting :: "PeerKadID list"
  lu_Queried :: "PeerKadID list"
  lu_Unreachable :: "PeerKadID list"

definition NewLookupUpdateEvent :: "(peer_id \<Rightarrow> kad_id) \<Rightarrow> peer_id \<Rightarrow> peer_id \<Rightarrow>
    peer_id list \<Rightarrow> peer_id list \<Rightarrow> peer_id list \<Rightarrow> peer_id list \<Rightarrow> LookupUpdateEvent" where
  "NewLookupUpdateEvent conv cause source heard waiting queried unreachable =
     \<lparr>lu_Cause = OptPeerKadID conv cause, lu_Source = OptPeerKadID conv source,
      lu_Heard = NewPeerKadIDSlice conv heard, lu_Waiting = NewPeerKadIDSlice conv waiting,
      lu_Queried = NewPeerKadIDSlice conv queried,
      lu_Unreachable = NewPeerKadIDSlice conv unreachable\<rparr>"

datatype LookupTerminationReason =
  LookupStopped | LookupCancelled | LookupStarvation | LookupCompleted

fun LookupTerminationReason_String :: "LookupTerminationReason \<Rightarrow> string" where
  "LookupTerminationReason_String LookupStopped = ''stopped''"
| "LookupTerminationReason_String LookupCancelled = ''cancelled''"
| "LookupTerminationReason_String LookupStarvation = ''starvation''"
| "LookupTerminationReason_String LookupCompleted = ''completed''"

record LookupTerminateEvent =
  lt_Reason :: LookupTerminationReason

definition NewLookupTerminateEvent :: "LookupTerminationReason \<Rightarrow> LookupTerminateEvent" where
  "NewLookupTerminateEvent reason = \<lparr>lt_Reason = reason\<rparr>"

record LookupEvent =
  le_Node :: PeerKadID
  le_ID :: string
  le_Key :: KeyKadID
  le_Request :: "LookupUpdateEvent option"
  le_Response :: "LookupUpdateEvent option"
  le_Terminate :: "LookupTerminateEvent option"

definition NewLookupEvent :: "(string \<Rightarrow> kad_id) \<Rightarrow> (peer_id \<Rightarrow> kad_id) \<Rightarrow> peer_id \<Rightarrow> string \<Rightarrow>
    string \<Rightarrow> LookupUpdateEvent option \<Rightarrow> LookupUpdateEvent option \<Rightarrow> LookupTerminateEvent option \<Rightarrow>
    LookupEvent" where
  "NewLookupEvent convKey convPeer node uid key request response terminate =
     \<lparr>le_Node = NewPeerKadID convPeer node, le_ID = uid, le_Key = NewKeyKadID convKey key,
      le_Request = request, le_Response = response, le_Terminate = terminate\<rparr>"

lemma LookupTerminationReason_String_inj:
  "LookupTerminationReason_String r = LookupTerminationReason_String r' \<Longrightarrow> r = r'"
  by (cases r; cases r') auto

end
