(* ===== verification/Query.thy ===== *)
theory Query
  imports QPeerset Diversity LookupEvents
begin

text \<open>
  One lookup (\<^verbatim>\<open>query.go\<close>): the query state, what one worker goroutine does with one peer, and the
  event loop that collects the workers' reports, decides when to stop and spawns the next workers.
  The loop body is a function of the chosen event; the channel, the workers and the scheduler's
  choices are the step relation of theory \<open>Lookup_Loop\<close>.

  The user's \<^verbatim>\<open>stopFn\<close> and \<^verbatim>\<open>queryFn\<close>, the dialler, the peerstore and the query filter are
  parameters. Times are passed in. \<open>q_events\<close> records the events handed to
  \<^verbatim>\<open>PublishLookupEvent\<close>, oldest first. Tracing spans and log lines are left out.
\<close>

section \<open>State\<close>

record lookup_cfg =
  lc_self :: peer_id
  lc_alpha :: int
  lc_beta :: int
  lc_bucketSize :: int
  lc_dist :: keyspace_distance
  lc_ConvertKey :: "string \<Rightarrow> kad_id"
  lc_ConvertPeerID :: "peer_id \<Rightarrow> kad_id"

record query =
  q_id :: string
  q_key :: string
  q_seedPeers :: "peer_id list"
  q_maxPeersPerIPGroup :: int
  q_peerTimes :: "(peer_id, duration) gomap"
  q_queryPeers :: QueryPeerset
  q_terminated :: bool
  q_events :: "LookupEvent list"

record queryUpdate =
  up_cause :: peer_id
  up_queried :: "peer_id list"
  up_heard :: "peer_id list"
  up_unreachable :: "peer_id list"
  up_queryDuration :: duration

record lookupWithFollowupResult =
  lr_peers :: "peer_id list"
  lr_state :: "PeerState list"
  lr_closest :: "peer_id list"
  lr_completed :: bool

type_synonym stopFn = "QueryPeerset \<Rightarrow> bool"

definition PublishLookupEvent :: "lookup_cfg \<Rightarrow> LookupUpdateEvent option \<Rightarrow>
    LookupUpdateEvent option \<Rightarrow> LookupTerminateEvent option \<Rightarrow> query \<Rightarrow> query" where
  "PublishLookupEvent cfg request response terminate q =
     q\<lparr>q_events := q_events q @ [NewLookupEvent (lc_ConvertKey cfg) (lc_ConvertPeerID cfg)
         (lc_self cfg) (q_id q) (q_key q) request response terminate]\<rparr>"

section \<open>The event loop's operations\<close>

text \<open>\<^verbatim>\<open>updateState\<close>: the three loops over the peers of an update, and the panics of the code.\<close>

definition hear_peers :: "lookup_cfg \<Rightarrow> peer_id \<Rightarrow> peer_id list \<Rightarrow> QueryPeerset \<Rightarrow> QueryPeerset" where
  "hear_peers cfg cause heard qp =
     fold (\<lambda>p qp. if p = lc_self cfg then qp else snd (TryAdd (lc_dist cfg) p cause qp)) heard qp"

fun mark_queried :: "lookup_cfg \<Rightarrow> duration \<Rightarrow> peer_id list \<Rightarrow> query \<Rightarrow> query option" where
  "mark_queried cfg d [] q = Some q"
| "mark_queried cfg d (p # ps) q =
     (if p = lc_self cfg then mark_queried cfg d ps q
      else case GetState p (q_queryPeers q) of
             None \<Rightarrow> None
           | Some st \<Rightarrow>
               if st = PeerWaiting
               then (case SetState p PeerQueried (q_queryPeers q) of
                       None \<Rightarrow> None
                     | Some qp \<Rightarrow> mark_queried cfg d ps
                         (q\<lparr>q_queryPeers := qp, q_peerTimes := gm_put p d (q_peerTimes q)\<rparr>))
               else None)"

fun mark_unreachable :: "lookup_cfg \<Rightarrow> peer_id list \<Rightarrow> query \<Rightarrow> query option" where
  "mark_unreachable cfg [] q = Some q"
| "mark_unreachable cfg (p # ps) q =
     (if p = lc_self cfg then mark_unreachable cfg ps q
      else case GetState p (q_queryPeers q) of
             None \<Rightarrow> None
           | Some st \<Rightarrow>
               if st = PeerWaiting
               then (case SetState p PeerUnreachable (q_queryPeers q) of
                       None \<Rightarrow> None
                     | Some qp \<Rightarrow> mark_unreachable cfg ps (q\<lparr>q_queryPeers := qp\<rparr>))
               else None)"

definition updateState :: "lookup_cfg \<Rightarrow> queryUpdate \<Rightarrow> query \<Rightarrow> query option" where
  "updateState cfg up q =
     (if q_terminated q then None
      else
        let ev = NewLookupUpdateEvent (lc_ConvertPeerID cfg) (up_cause up) (up_cause up)
                   (up_heard up) [] (up_queried up) (up_unreachable up);
            q = PublishLookupEvent cfg None (Some ev) None q;
            q = q\<lparr>q_queryPeers := hear_peers cfg (up_cause up) (up_heard up) (q_queryPeers q)\<rparr>
        in Option.bind (mark_queried cfg (up_queryDuration up) (up_queried up) q)
             (mark_unreachable cfg (up_unreachable up)))"

definition terminate :: "lookup_cfg \<Rightarrow> LookupTerminationReason \<Rightarrow> query \<Rightarrow> query" where
  "terminate cfg reason q =
     (if q_terminated q then q
      else (PublishLookupEvent cfg None None (Some (NewLookupTerminateEvent reason)) q)
             \<lparr>q_terminated := True\<rparr>)"

text \<open>The predicates return the query with its peer set sorted by the calls they make.\<close>

fun all_queried :: "QueryPeerset \<Rightarrow> peer_id list \<Rightarrow> bool option" where
  "all_queried qp [] = Some True"
| "all_queried qp (p # ps) =
     (case GetState p qp of
        None \<Rightarrow> None
      | Some st \<Rightarrow> if st \<noteq> PeerQueried then Some False else all_queried qp ps)"

definition isLookupTermination :: "lookup_cfg \<Rightarrow> query \<Rightarrow> (bool \<times> query) option" where
  "isLookupTermination cfg q =
     (case GetClosestNInStates (lc_beta cfg) [PeerHeard, PeerWaiting, PeerQueried] (q_queryPeers q) of
        None \<Rightarrow> None
      | Some (peers, qp) \<Rightarrow> map_option (\<lambda>b. (b, q\<lparr>q_queryPeers := qp\<rparr>)) (all_queried qp peers))"

definition isStarvationTermination :: "query \<Rightarrow> (bool \<times> query) option" where
  "isStarvationTermination q =
     (case NumHeard (q_queryPeers q) of
        None \<Rightarrow> None
      | Some (h, qp) \<Rightarrow>
          if h \<noteq> 0 then Some (False, q\<lparr>q_queryPeers := qp\<rparr>)
          else (case NumWaiting qp of
                  None \<Rightarrow> None
                | Some (w, qp') \<Rightarrow> Some (w = 0, q\<lparr>q_queryPeers := qp'\<rparr>)))"

text \<open>
  The reason is \<open>None\<close> when the lookup is not ready to terminate (the code returns \<open>-1\<close>).
\<close>

definition isReadyToTerminate :: "lookup_cfg \<Rightarrow> stopFn \<Rightarrow> int \<Rightarrow> query \<Rightarrow>
    (LookupTerminationReason option \<times> peer_id list \<times> query) option" where
  "isReadyToTerminate cfg stop nPeersToQuery q =
     (if stop (q_queryPeers q) then Some (Some LookupStopped, [], q)
      else case isStarvationTermination q of
        None \<Rightarrow> None
      | Some (starved, q) \<Rightarrow>
          if starved then Some (Some LookupStarvation, [], q)
          else (case isLookupTermination cfg q of
            None \<Rightarrow> None
          | Some (done, q) \<Rightarrow>
              if done then Some (Some LookupCompleted, [], q)
              else (case GetClosestNInStates nPeersToQuery [PeerHeard] (q_queryPeers q) of
                None \<Rightarrow> None
              | Some (peersToQuery, qp) \<Rightarrow> Some (None, peersToQuery, q\<lparr>q_queryPeers := qp\<rparr>))))"

definition spawnQuery :: "lookup_cfg \<Rightarrow> peer_id \<Rightarrow> peer_id \<Rightarrow> query \<Rightarrow> query option" where
  "spawnQuery cfg cause queryPeer q =
     (case GetReferrer queryPeer (q_queryPeers q) of
        None \<Rightarrow> None
      | Some referrer \<Rightarrow>
          let ev = NewLookupUpdateEvent (lc_ConvertPeerID cfg) cause referrer [] [queryPeer] [] [];
              q = PublishLookupEvent cfg (Some ev) None None q
          in map_option (\<lambda>qp. q\<lparr>q_queryPeers := qp\<rparr>)
               (SetState queryPeer PeerWaiting (q_queryPeers q)))"

fun spawnQueries :: "lookup_cfg \<Rightarrow> peer_id \<Rightarrow> peer_id list \<Rightarrow> query \<Rightarrow> query option" where
  "spawnQueries cfg cause [] q = Some q"
| "spawnQueries cfg cause (p # ps) q =
     Option.bind (spawnQuery cfg cause p q) (spawnQueries cfg cause ps)"

text \<open>
  One iteration of \<^verbatim>\<open>run\<close>'s loop: the event the \<^verbatim>\<open>select\<close> chose, then the common tail. The
  result is the new state and the peers for which workers were started; when it is terminated the
  loop returns.
\<close>

datatype loop_event = Update queryUpdate | PathDone

definition handle_event :: "lookup_cfg \<Rightarrow> loop_event \<Rightarrow> query \<Rightarrow> (peer_id \<times> query) option" where
  "handle_event cfg ev q =
     (case ev of
        Update up \<Rightarrow> map_option (\<lambda>q. (up_cause up, q)) (updateState cfg up q)
      | PathDone \<Rightarrow> Some ([], terminate cfg LookupCancelled q))"

definition loop_tail :: "lookup_cfg \<Rightarrow> stopFn \<Rightarrow> peer_id \<Rightarrow> query \<Rightarrow>
    (query \<times> peer_id list) option" where
  "loop_tail cfg stop cause q =
     (case NumWaiting (q_queryPeers q) of
        None \<Rightarrow> None
      | Some (waiting, qp) \<Rightarrow>
          let maxNumQueriesToSpawn = lc_alpha cfg - int waiting
          in (case isReadyToTerminate cfg stop maxNumQueriesToSpawn (q\<lparr>q_queryPeers := qp\<rparr>) of
                None \<Rightarrow> None
              | Some (reason, qPeers, q) \<Rightarrow>
                  let q = (case reason of None \<Rightarrow> q | Some r \<Rightarrow> terminate cfg r q)
                  in if q_terminated q then Some (q, [])
                     else map_option (\<lambda>q. (q, qPeers)) (spawnQueries cfg cause qPeers q)))"

definition run_iteration :: "lookup_cfg \<Rightarrow> stopFn \<Rightarrow> loop_event \<Rightarrow> query \<Rightarrow>
    (query \<times> peer_id list) option" where
  "run_iteration cfg stop ev q =
     Option.bind (handle_event cfg ev q) (\<lambda>(cause, q). loop_tail cfg stop cause q)"

section \<open>Starting and finishing a lookup\<close>

datatype lookup_error = ErrLookupFailure

text \<open>
  \<^verbatim>\<open>runQuery\<close> up to \<^verbatim>\<open>q.run()\<close>: the seeds are what the routing table (a third-party structure)
  returned for \<^verbatim>\<open>NearestPeers\<close>; \<open>diversity\<close> is the DHT's IP-group filter when it has one.
\<close>

definition startQuery :: "string \<Rightarrow> string \<Rightarrow> peer_id list \<Rightarrow> rtPeerIPGroupFilter option \<Rightarrow>
    lookup_error + query" where
  "startQuery uid target seedPeers diversity =
     (if length seedPeers = 0 then Inl ErrLookupFailure
      else
        let maxPeersPerIPGroup =
              (case diversity of None \<Rightarrow> 0 | Some filt \<Rightarrow> rf_maxForTable filt)
        in Inr \<lparr>q_id = uid, q_key = target, q_seedPeers = seedPeers,
                q_maxPeersPerIPGroup = maxPeersPerIPGroup, q_peerTimes = [],
                q_queryPeers = NewQueryPeerset target, q_terminated = False, q_events = []\<rparr>)"

text \<open>The update that seeds the loop's channel in \<^verbatim>\<open>run\<close>.\<close>

definition seed_update :: "lookup_cfg \<Rightarrow> query \<Rightarrow> queryUpdate" where
  "seed_update cfg q = \<lparr>up_cause = lc_self cfg, up_queried = [], up_heard = q_seedPeers q,
     up_unreachable = [], up_queryDuration = 0\<rparr>"

text \<open>
  \<^verbatim>\<open>recordValuablePeers\<close>: the peers for which \<^verbatim>\<open>recordPeerIsValuable\<close> is called. Durations are
  signed 64-bit words, so the doubling wraps around.
\<close>

definition max_duration :: duration where
  "max_duration = 9223372036854775807"

definition mvpDuration :: "query \<Rightarrow> duration" where
  "mvpDuration q =
     fold (\<lambda>p mvp. case map_of (q_peerTimes q) p of
                     None \<Rightarrow> mvp
                   | Some queryTime \<Rightarrow> if word_sless queryTime mvp then queryTime else mvp)
       (q_seedPeers q) max_duration"

definition recordValuablePeers :: "query \<Rightarrow> peer_id list" where
  "recordValuablePeers q =
     filter (\<lambda>p. case map_of (q_peerTimes q) p of
                   None \<Rightarrow> False
                 | Some queryTime \<Rightarrow> word_sless queryTime (mvpDuration q * 2))
       (q_seedPeers q)"

definition constructLookupResult :: "lookup_cfg \<Rightarrow> query \<Rightarrow>
    (lookupWithFollowupResult \<times> query) option" where
  "constructLookupResult cfg q =
     (case isLookupTermination cfg q of
        None \<Rightarrow> None
      | Some (done, q) \<Rightarrow>
          (case (if done then Some (True, q) else isStarvationTermination q) of
             None \<Rightarrow> None
           | Some (completed, q) \<Rightarrow>
               (case GetClosestNInStates (lc_bucketSize cfg) [PeerHeard, PeerWaiting, PeerQueried]
                       (q_queryPeers q) of
                  None \<Rightarrow> None
                | Some (peers, qp) \<Rightarrow>
                    (case GetClosestNInStates (lc_bucketSize cfg)
                            [PeerHeard, PeerWaiting, PeerQueried, PeerUnreachable] qp of
                       None \<Rightarrow> None
                     | Some (closest, qp) \<Rightarrow>
                         map_option (\<lambda>states.
                             (\<lparr>lr_peers = peers, lr_state = states, lr_closest = closest,
                               lr_completed = completed\<rparr>, q\<lparr>q_queryPeers := qp\<rparr>))
                           (those (map (\<lambda>p. GetState p qp) peers))))))"

section \<open>The follow-up queries\<close>

text \<open>
  After the lookup the top peers not successfully queried are queried once each, in parallel. An
  event of the follow-up loop is a finished query, with what \<^verbatim>\<open>stopFn\<close> answers after it, or the
  cancellation of the context. The loop's result is the \<open>completed\<close> flag and the number of finished
  queries it consumed; \<open>None\<close> while it still waits.
\<close>

definition followup_peers :: "lookupWithFollowupResult \<Rightarrow> peer_id list" where
  "followup_peers res =
     map fst (filter (\<lambda>(p, st). st = PeerHeard \<or> st = PeerWaiting) (zip (lr_peers res) (lr_state res)))"

datatype followup_event = FollowupDone bool | CtxDone

fun followup_loop :: "nat \<Rightarrow> nat \<Rightarrow> nat \<Rightarrow> bool \<Rightarrow> followup_event list \<Rightarrow> (bool \<times> nat) option" where
  "followup_loop i n followupsCompleted completed evs =
     (if i \<ge> n then Some (completed, followupsCompleted)
      else case evs of
        [] \<Rightarrow> None
      | FollowupDone stopped # es \<Rightarrow>
          if stopped
          then Some (if i + 1 < n then False else completed, followupsCompleted + 1)
          else followup_loop (i + 1) n (followupsCompleted + 1) completed es
      | CtxDone # es \<Rightarrow> Some (False, followupsCompleted))"

definition followup_drain :: "nat \<Rightarrow> bool \<times> nat \<Rightarrow> nat" where
  "followup_drain n r = (if \<not> fst r then n - snd r else 0)"

text \<open>
  The outcome of \<^verbatim>\<open>runLookupWithFollowup\<close>: the result, the peers queried in the follow-up and how
  many finished follow-up queries it waited for before returning.
\<close>

definition runLookupWithFollowup :: "lookup_error + lookupWithFollowupResult \<Rightarrow> bool \<Rightarrow> bool \<Rightarrow>
    followup_event list \<Rightarrow> (lookup_error + lookupWithFollowupResult \<times> peer_id list \<times> nat) option" where
  "runLookupWithFollowup lookup ctxErr stopped evs =
     (case lookup of
        Inl err \<Rightarrow> Some (Inl err)
      | Inr lookupRes \<Rightarrow>
          let queryPeers = followup_peers lookupRes; n = length queryPeers
          in if n = 0 then Some (Inr (lookupRes, [], 0))
             else if ctxErr \<or> stopped then Some (Inr (lookupRes\<lparr>lr_completed := False\<rparr>, [], 0))
             else map_option (\<lambda>r. Inr (lookupRes\<lparr>lr_completed := fst r\<rparr>, queryPeers,
                                       snd r + followup_drain n r))
                    (followup_loop 0 n 0 (lr_completed lookupRes) evs))"

section \<open>One worker\<close>

text \<open>
  What one worker does with its peer. The environment answers for the network and the peerstore;
  the calls a worker makes on the DHT are returned in order with its report.
\<close>

record query_env =
  qe_Connected :: "peer_id \<Rightarrow> bool"
  qe_ConnectFails :: "peer_id \<Rightarrow> bool"
  qe_dialCtxErr :: bool
  qe_queryFn :: "peer_id \<Rightarrow> AddrInfo list option"
  qe_queryCtxErr :: bool
  qe_duration :: duration
  qe_PeerstoreAddrs :: "peer_id \<Rightarrow> multiaddr list"
  qe_queryPeerFilter :: "AddrInfo \<Rightarrow> bool"
  qe_toIP :: "multiaddr \<Rightarrow> bytes option"
  qe_groupKey :: "bytes \<Rightarrow> group_key"

datatype dht_call =
  PeerStoppedDHT peer_id | ValidPeerFound peer_id | MaybeAddAddrs peer_id "multiaddr list"

text \<open>\<^verbatim>\<open>dialPeer\<close> returns whether it failed.\<close>

definition dialPeer :: "query_env \<Rightarrow> peer_id \<Rightarrow> bool" where
  "dialPeer env p = (if qe_Connected env p then False else qe_ConnectFails env p)"

fun process_new_peers :: "lookup_cfg \<Rightarrow> query_env \<Rightarrow> string \<Rightarrow> AddrInfo list \<Rightarrow>
    dht_call list \<times> peer_id list" where
  "process_new_peers cfg env key [] = ([], [])"
| "process_new_peers cfg env key (next # rest) =
     (let (calls, saw) = process_new_peers cfg env key rest
      in if ai_ID next = lc_self cfg then (calls, saw)
         else
           let next = next\<lparr>ai_Addrs := ai_Addrs next @ qe_PeerstoreAddrs env (ai_ID next)\<rparr>;
               isTarget = (ai_ID next = key)
           in if isTarget \<or> qe_queryPeerFilter env next
              then (MaybeAddAddrs (ai_ID next) (ai_Addrs next) # calls, ai_ID next # saw)
              else (calls, saw))"

definition queryPeer :: "lookup_cfg \<Rightarrow> query_env \<Rightarrow> string \<Rightarrow> int \<Rightarrow> peer_id \<Rightarrow>
    dht_call list \<times> queryUpdate" where
  "queryPeer cfg env key maxPeersPerIPGroup p =
     (let failed = \<lparr>up_cause = p, up_queried = [], up_heard = [], up_unreachable = [p],
                    up_queryDuration = 0\<rparr>
      in if dialPeer env p
         then ((if qe_dialCtxErr env then [] else [PeerStoppedDHT p]), failed)
         else case qe_queryFn env p of
           None \<Rightarrow> ((if qe_queryCtxErr env then [] else [PeerStoppedDHT p]), failed)
         | Some newPeers \<Rightarrow>
             let newPeers = (if maxPeersPerIPGroup \<noteq> 0
                   then filterPeersByIPDiversity (qe_toIP env) (qe_groupKey env) newPeers
                          maxPeersPerIPGroup
                   else newPeers);
                 (calls, saw) = process_new_peers cfg env key newPeers
             in (ValidPeerFound p # calls,
                 \<lparr>up_cause = p, up_queried = [p], up_heard = saw, up_unreachable = [],
                  up_queryDuration = qe_duration env\<rparr>))"

section \<open>What the loop's operations do to the labels\<close>

abbreviation qlab :: "query \<Rightarrow> peer_id \<Rightarrow> PeerState option" where
  "qlab q \<equiv> labels (q_queryPeers q)"

abbreviation qinv :: "lookup_cfg \<Rightarrow> query \<Rightarrow> bool" where
  "qinv cfg q \<equiv> qp_inv (lc_dist cfg) (q_queryPeers q)"

abbreviation peers_in :: "query \<Rightarrow> PeerState list \<Rightarrow> peer_id set" where
  "peers_in q sts \<equiv> in_states (q_queryPeers q) sts"

text \<open>The fields no operation of the loop writes.\<close>

definition same_lookup :: "query \<Rightarrow> query \<Rightarrow> bool" where
  "same_lookup q q' \<longleftrightarrow> q_id q' = q_id q \<and> q_key q' = q_key q \<and> q_seedPeers q' = q_seedPeers q \<and>
     q_maxPeersPerIPGroup q' = q_maxPeersPerIPGroup q \<and>
     qp_key (q_queryPeers q') = qp_key (q_queryPeers q)"

lemma same_lookup_refl [simp, intro]: "same_lookup q q"
  by (simp add: same_lookup_def)

lemma same_lookup_trans [trans]: "same_lookup q q' \<Longrightarrow> same_lookup q' q'' \<Longrightarrow> same_lookup q q''"
  by (simp add: same_lookup_def)

lemma hear_peers_labels:
  assumes "qp_inv (lc_dist cfg) qp"
  shows "qp_inv (lc_dist cfg) (hear_peers cfg cause heard qp) \<and>
    labels (hear_peers cfg cause heard qp) =
      (\<lambda>p. if p \<in> set heard \<and> p \<noteq> lc_self cfg \<and> labels qp p = None then Some PeerHeard
           else labels qp p)"
  using qpl.add_all [OF assms, of "lc_self cfg" cause heard] by (simp add: hear_peers_def)

lemma hear_peers_key [simp]: "qp_key (hear_peers cfg cause heard qp) = qp_key qp"
  by (induction heard arbitrary: qp) (simp_all add: hear_peers_def)

lemma mark_queried_Some:
  "qinv cfg q \<Longrightarrow> distinct ps \<Longrightarrow> \<forall>p\<in>set ps. p \<noteq> lc_self cfg \<and> qlab q p = Some PeerWaiting \<Longrightarrow>
   \<exists>q'. mark_queried cfg d ps q = Some q' \<and> qinv cfg q' \<and> same_lookup q q' \<and>
     q_terminated q' = q_terminated q \<and> q_events q' = q_events q \<and>
     qlab q' = (\<lambda>p. if p \<in> set ps then Some PeerQueried else qlab q p)"
proof (induction ps arbitrary: q)
  case (Cons p ps)
  from Cons.prems obtain qp where qp: "SetState p PeerQueried (q_queryPeers q) = Some qp"
    using SetState_defined [of "q_queryPeers q" p PeerQueried] by auto
  from SetState_Some [OF Cons.prems(1) qp] have
    inv: "qp_inv (lc_dist cfg) qp" and lab: "labels qp = (qlab q)(p \<mapsto> PeerQueried)"
    and "qp_key qp = qp_key (q_queryPeers q)" by auto
  let ?q = "q\<lparr>q_queryPeers := qp, q_peerTimes := gm_put p d (q_peerTimes q)\<rparr>"
  have prems': "qinv cfg ?q" "distinct ps"
      "\<forall>p'\<in>set ps. p' \<noteq> lc_self cfg \<and> qlab ?q p' = Some PeerWaiting"
    using inv lab Cons.prems(2,3) by auto
  from Cons.IH [OF prems'] obtain q' where
    "mark_queried cfg d ps ?q = Some q'" "qinv cfg q'" "same_lookup ?q q'"
    "q_terminated q' = q_terminated q" "q_events q' = q_events q"
    "qlab q' = (\<lambda>p'. if p' \<in> set ps then Some PeerQueried else qlab ?q p')"
    by auto
  with Cons.prems qp lab \<open>qp_key qp = qp_key (q_queryPeers q)\<close> show ?case
    by (auto simp: GetState_labels [OF Cons.prems(1)] same_lookup_def fun_eq_iff)
qed simp

lemma mark_unreachable_Some:
  "qinv cfg q \<Longrightarrow> distinct ps \<Longrightarrow> \<forall>p\<in>set ps. p \<noteq> lc_self cfg \<and> qlab q p = Some PeerWaiting \<Longrightarrow>
   \<exists>q'. mark_unreachable cfg ps q = Some q' \<and> qinv cfg q' \<and> same_lookup q q' \<and>
     q_terminated q' = q_terminated q \<and> q_events q' = q_events q \<and>
     qlab q' = (\<lambda>p. if p \<in> set ps then Some PeerUnreachable else qlab q p)"
proof (induction ps arbitrary: q)
  case (Cons p ps)
  from Cons.prems obtain qp where qp: "SetState p PeerUnreachable (q_queryPeers q) = Some qp"
    using SetState_defined [of "q_queryPeers q" p PeerUnreachable] by auto
  from SetState_Some [OF Cons.prems(1) qp] have
    inv: "qp_inv (lc_dist cfg) qp" and lab: "labels qp = (qlab q)(p \<mapsto> PeerUnreachable)"
    and "qp_key qp = qp_key (q_queryPeers q)" by auto
  let ?q = "q\<lparr>q_queryPeers := qp\<rparr>"
  have prems': "qinv cfg ?q" "distinct ps"
      "\<forall>p'\<in>set ps. p' \<noteq> lc_self cfg \<and> qlab ?q p' = Some PeerWaiting"
    using inv lab Cons.prems(2,3) by auto
  from Cons.IH [OF prems'] obtain q' where
    "mark_unreachable cfg ps ?q = Some q'" "qinv cfg q'" "same_lookup ?q q'"
    "q_terminated q' = q_terminated q" "q_events q' = q_events q"
    "qlab q' = (\<lambda>p'. if p' \<in> set ps then Some PeerUnreachable else qlab ?q p')"
    by auto
  with Cons.prems qp lab \<open>qp_key qp = qp_key (q_queryPeers q)\<close> show ?case
    by (auto simp: GetState_labels [OF Cons.prems(1)] same_lookup_def fun_eq_iff)
qed simp

text \<open>The labels after an update, as a function of the labels before.\<close>

definition update_labels :: "peer_id \<Rightarrow> queryUpdate \<Rightarrow> (peer_id \<Rightarrow> PeerState option) \<Rightarrow>
    peer_id \<Rightarrow> PeerState option" where
  "update_labels self up l =
     (\<lambda>p. if p \<in> set (up_unreachable up) then Some PeerUnreachable
          else if p \<in> set (up_queried up) then Some PeerQueried
          else if p \<in> set (up_heard up) \<and> p \<noteq> self \<and> l p = None then Some PeerHeard
          else l p)"

abbreviation answered :: "queryUpdate \<Rightarrow> peer_id list" where
  "answered up \<equiv> up_queried up @ up_unreachable up"

lemma updateState_Some:
  assumes inv: "qinv cfg q" and live: "\<not> q_terminated q" and dist: "distinct (answered up)"
    and wait: "\<forall>p\<in>set (answered up). p \<noteq> lc_self cfg \<and> qlab q p = Some PeerWaiting"
  shows "\<exists>q'. updateState cfg up q = Some q' \<and> qinv cfg q' \<and> same_lookup q q' \<and>
    \<not> q_terminated q' \<and> qlab q' = update_labels (lc_self cfg) up (qlab q) \<and>
    (\<exists>ev. q_events q' = q_events q @ [ev] \<and> le_Terminate ev = None)"
proof -
  let ?ev = "NewLookupUpdateEvent (lc_ConvertPeerID cfg) (up_cause up) (up_cause up)
    (up_heard up) [] (up_queried up) (up_unreachable up)"
  let ?q0 = "PublishLookupEvent cfg None (Some ?ev) None q"
  let ?q1 = "?q0\<lparr>q_queryPeers := hear_peers cfg (up_cause up) (up_heard up) (q_queryPeers ?q0)\<rparr>"
  have same: "q_queryPeers ?q0 = q_queryPeers q" "same_lookup q ?q1" "\<not> q_terminated ?q1"
    using live by (simp_all add: PublishLookupEvent_def same_lookup_def)
  from hear_peers_labels [OF inv, of "up_cause up" "up_heard up"] same have
    inv1: "qinv cfg ?q1" and lab1: "qlab ?q1 = (\<lambda>p. if p \<in> set (up_heard up) \<and> p \<noteq> lc_self cfg \<and>
       qlab q p = None then Some PeerHeard else qlab q p)" by simp_all
  have wait1: "\<forall>p\<in>set (answered up). p \<noteq> lc_self cfg \<and> qlab ?q1 p = Some PeerWaiting"
    using wait lab1 by auto
  from wait1 have "\<forall>p\<in>set (up_queried up). p \<noteq> lc_self cfg \<and> qlab ?q1 p = Some PeerWaiting"
    by simp
  from mark_queried_Some [OF inv1 _ this, of "up_queryDuration up"] dist
  obtain q2 where q2: "mark_queried cfg (up_queryDuration up) (up_queried up) ?q1 = Some q2"
    "qinv cfg q2" "same_lookup ?q1 q2" "q_terminated q2 = q_terminated ?q1" "q_events q2 = q_events ?q1"
    "qlab q2 = (\<lambda>p. if p \<in> set (up_queried up) then Some PeerQueried else qlab ?q1 p)"
    by auto
  have "\<forall>p\<in>set (up_unreachable up). p \<noteq> lc_self cfg \<and> qlab q2 p = Some PeerWaiting"
    using wait1 dist unfolding q2(6) by auto
  from mark_unreachable_Some [OF q2(2) _ this] dist
  obtain q3 where q3: "mark_unreachable cfg (up_unreachable up) q2 = Some q3"
    "qinv cfg q3" "same_lookup q2 q3" "q_terminated q3 = q_terminated q2" "q_events q3 = q_events q2"
    "qlab q3 = (\<lambda>p. if p \<in> set (up_unreachable up) then Some PeerUnreachable else qlab q2 p)"
    by auto
  have "qlab q3 = update_labels (lc_self cfg) up (qlab q)"
    unfolding q3(6) q2(6) lab1 update_labels_def by (simp add: fun_eq_iff)
  moreover have "updateState cfg up q = Some q3"
    using live q2(1) q3(1) by (simp add: updateState_def Let_def)
  moreover have "same_lookup q q3"
    using same(2) q2(3) q3(3) by (blast intro: same_lookup_trans)
  moreover have "q_events q3 = q_events ?q0"
    using q2(5) q3(5) by simp
  ultimately show ?thesis
    using q3 q2 same(3) by (auto simp: PublishLookupEvent_def NewLookupEvent_def)
qed

lemma starvation_Some:
  assumes "qinv cfg q"
  shows "isStarvationTermination q = Some (peers_in q [PeerHeard] = {} \<and> peers_in q [PeerWaiting] = {},
    q\<lparr>q_queryPeers := qp_sort (q_queryPeers q)\<rparr>)"
  using NumHeard_Some [OF assms] NumWaiting_Some [OF qp_sort_inv [OF assms]] assms
  by (auto simp: isStarvationTermination_def)

lemma all_queried_Some:
  "qp_inv dist qp \<Longrightarrow> \<forall>p\<in>set ps. labels qp p \<noteq> None \<Longrightarrow>
   all_queried qp ps = Some (\<forall>p\<in>set ps. labels qp p = Some PeerQueried)"
  by (induction ps) (auto simp: GetState_labels)

lemma lookup_termination_Some:
  assumes inv: "qinv cfg q" and "0 \<le> lc_beta cfg"
  shows "\<exists>ps. closest_spec (lc_dist cfg) (q_queryPeers q) (nat (lc_beta cfg))
      [PeerHeard, PeerWaiting, PeerQueried] ps \<and>
    isLookupTermination cfg q = Some (\<forall>p\<in>set ps. qlab q p = Some PeerQueried,
      q\<lparr>q_queryPeers := qp_sort (q_queryPeers q)\<rparr>)"
proof -
  from GetClosestNInStates_Some [OF assms, of "[PeerHeard, PeerWaiting, PeerQueried]"]
  obtain ps where ps: "GetClosestNInStates (lc_beta cfg) [PeerHeard, PeerWaiting, PeerQueried]
      (q_queryPeers q) = Some (ps, qp_sort (q_queryPeers q))"
    and spec: "closest_spec (lc_dist cfg) (q_queryPeers q) (nat (lc_beta cfg))
      [PeerHeard, PeerWaiting, PeerQueried] ps" by blast
  from spec have "\<forall>p\<in>set ps. labels (qp_sort (q_queryPeers q)) p \<noteq> None"
    using inv by (auto simp: closest_spec_def in_states_def qp_sort_labels)
  from all_queried_Some [OF qp_sort_inv [OF inv] this] ps spec inv show ?thesis
    by (auto simp: isLookupTermination_def qp_sort_labels)
qed

text \<open>
  The conditions under which a lookup is over: every one of the \<open>\<beta>\<close> closest peers that are not
  unreachable was queried, or there is nobody left to query or to wait for.
\<close>

definition beta_closest_queried :: "lookup_cfg \<Rightarrow> QueryPeerset \<Rightarrow> bool" where
  "beta_closest_queried cfg qp \<longleftrightarrow>
     (\<exists>ps. closest_spec (lc_dist cfg) qp (nat (lc_beta cfg)) [PeerHeard, PeerWaiting, PeerQueried] ps \<and>
        (\<forall>p\<in>set ps. labels qp p = Some PeerQueried))"

definition starved :: "QueryPeerset \<Rightarrow> bool" where
  "starved qp \<longleftrightarrow> in_states qp [PeerHeard] = {} \<and> in_states qp [PeerWaiting] = {}"

fun reason_holds :: "lookup_cfg \<Rightarrow> QueryPeerset \<Rightarrow> LookupTerminationReason \<Rightarrow> bool" where
  "reason_holds cfg qp LookupStarvation = starved qp"
| "reason_holds cfg qp LookupCompleted = beta_closest_queried cfg qp"
| "reason_holds cfg qp r = True"

abbreviation sorted_query :: "query \<Rightarrow> query" where
  "sorted_query q \<equiv> q\<lparr>q_queryPeers := qp_sort (q_queryPeers q)\<rparr>"

lemma beta_closest_queried_sort [simp]:
  "qp_inv (lc_dist cfg) qp \<Longrightarrow> beta_closest_queried cfg (qp_sort qp) = beta_closest_queried cfg qp"
  by (simp add: beta_closest_queried_def qp_sort_labels closest_spec_sort)

lemma starved_sort [simp]: "qp_inv dist qp \<Longrightarrow> starved (qp_sort qp) = starved qp"
  by (simp add: starved_def)

lemma reason_holds_sort [simp]:
  "qp_inv (lc_dist cfg) qp \<Longrightarrow> reason_holds cfg (qp_sort qp) r = reason_holds cfg qp r"
  by (cases r) simp_all

lemma closest_heard_Some:
  assumes "qinv cfg q" and "0 \<le> n"
  shows "\<exists>ps. GetClosestNInStates n [PeerHeard] (qp_sort (q_queryPeers q)) =
      Some (ps, qp_sort (q_queryPeers q)) \<and> distinct ps \<and> set ps \<subseteq> peers_in q [PeerHeard] \<and>
      length ps = min (nat n) (card (peers_in q [PeerHeard]))"
  using GetClosestNInStates_Some [OF qp_sort_inv [OF assms(1)] assms(2), of "[PeerHeard]"] assms(1)
  by (auto simp: closest_spec_def)

lemma isReadyToTerminate_Some:
  assumes inv: "qinv cfg q" and "0 \<le> lc_beta cfg" and n: "0 \<le> n"
    and srt: "qp_sort (q_queryPeers q) = q_queryPeers q"
  shows "\<exists>reason ps. isReadyToTerminate cfg stop n q = Some (reason, ps, q) \<and>
    (case reason of
       Some r \<Rightarrow> ps = [] \<and> reason_holds cfg (q_queryPeers q) r \<and> r \<noteq> LookupCancelled
     | None \<Rightarrow> \<not> starved (q_queryPeers q) \<and> distinct ps \<and> set ps \<subseteq> peers_in q [PeerHeard] \<and>
         length ps = min (nat n) (card (peers_in q [PeerHeard])))"
proof -
  from lookup_termination_Some [OF assms(1,2)] obtain b where
    b: "isLookupTermination cfg q = Some (b, q)" "b \<Longrightarrow> beta_closest_queried cfg (q_queryPeers q)"
    unfolding srt by (auto simp: beta_closest_queried_def)
  from closest_heard_Some [OF inv n] obtain ps where
    ps: "GetClosestNInStates n [PeerHeard] (q_queryPeers q) = Some (ps, q_queryPeers q)"
      "distinct ps" "set ps \<subseteq> peers_in q [PeerHeard]"
      "length ps = min (nat n) (card (peers_in q [PeerHeard]))"
    unfolding srt by blast
  have st: "isStarvationTermination q = Some (starved (q_queryPeers q), q)"
    using starvation_Some [OF inv] by (simp add: srt starved_def)
  show ?thesis
    using b ps by (auto simp: isReadyToTerminate_def st split: option.splits)
qed

text \<open>Spawning one query labels its peer as waiting; the event it publishes is no termination.\<close>

definition term_reasons :: "query \<Rightarrow> LookupTerminationReason list" where
  "term_reasons q = map lt_Reason (List.map_filter le_Terminate (q_events q))"

lemma term_reasons_publish [simp]:
  "term_reasons (PublishLookupEvent cfg req resp None q) = term_reasons q"
  "term_reasons (PublishLookupEvent cfg req resp (Some t) q) = term_reasons q @ [lt_Reason t]"
  by (simp_all add: term_reasons_def PublishLookupEvent_def NewLookupEvent_def List.map_filter_def)

lemma publish_frame [simp]:
  "q_queryPeers (PublishLookupEvent cfg req resp t q) = q_queryPeers q"
  "q_terminated (PublishLookupEvent cfg req resp t q) = q_terminated q"
  "q_peerTimes (PublishLookupEvent cfg req resp t q) = q_peerTimes q"
  "same_lookup q (PublishLookupEvent cfg req resp t q)"
  by (simp_all add: PublishLookupEvent_def same_lookup_def)

lemma term_reasons_frame [simp]: "term_reasons (q\<lparr>q_queryPeers := qp\<rparr>) = term_reasons q"
  "term_reasons (q\<lparr>q_terminated := b\<rparr>) = term_reasons q"
  by (simp_all add: term_reasons_def)

lemma spawnQuery_Some:
  assumes inv: "qinv cfg q" and heard: "qlab q p = Some PeerHeard"
  shows "\<exists>q'. spawnQuery cfg cause p q = Some q' \<and> qinv cfg q' \<and> same_lookup q q' \<and>
    q_terminated q' = q_terminated q \<and> q_peerTimes q' = q_peerTimes q \<and>
    term_reasons q' = term_reasons q \<and> qlab q' = (qlab q)(p \<mapsto> PeerWaiting)"
proof -
  from heard obtain r where r: "GetReferrer p (q_queryPeers q) = Some r"
    using GetReferrer_defined [of "q_queryPeers q" p] by auto
  from heard obtain qp where qp: "SetState p PeerWaiting (q_queryPeers q) = Some qp"
    using SetState_defined [of "q_queryPeers q" p PeerWaiting] by auto
  from SetState_Some [OF inv qp] r qp show ?thesis
    by (simp add: spawnQuery_def Let_def) (simp add: same_lookup_def PublishLookupEvent_def)
qed

lemma spawnQueries_Some:
  "qinv cfg q \<Longrightarrow> distinct ps \<Longrightarrow> set ps \<subseteq> peers_in q [PeerHeard] \<Longrightarrow>
   \<exists>q'. spawnQueries cfg cause ps q = Some q' \<and> qinv cfg q' \<and> same_lookup q q' \<and>
    q_terminated q' = q_terminated q \<and> q_peerTimes q' = q_peerTimes q \<and>
    term_reasons q' = term_reasons q \<and>
    qlab q' = (\<lambda>p. if p \<in> set ps then Some PeerWaiting else qlab q p)"
proof (induction ps arbitrary: q)
  case (Cons p ps)
  from Cons.prems(3) have "qlab q p = Some PeerHeard" by (simp add: in_states_def)
  from spawnQuery_Some [OF Cons.prems(1) this, of cause] obtain q1 where
    q1: "spawnQuery cfg cause p q = Some q1" "qinv cfg q1" "same_lookup q q1"
      "q_terminated q1 = q_terminated q" "q_peerTimes q1 = q_peerTimes q"
      "term_reasons q1 = term_reasons q" "qlab q1 = (qlab q)(p \<mapsto> PeerWaiting)" by blast
  have "distinct ps" "set ps \<subseteq> peers_in q1 [PeerHeard]"
    using Cons.prems(2,3) q1(7) by (auto simp: in_states_def)
  from Cons.IH [OF q1(2) this] obtain q2 where
    q2: "spawnQueries cfg cause ps q1 = Some q2" "qinv cfg q2" "same_lookup q1 q2"
      "q_terminated q2 = q_terminated q1" "q_peerTimes q2 = q_peerTimes q1"
      "term_reasons q2 = term_reasons q1"
      "qlab q2 = (\<lambda>p'. if p' \<in> set ps then Some PeerWaiting else qlab q1 p')" by blast
  from q1 q2 same_lookup_trans [OF q1(3) q2(3)] show ?case
    by (auto simp: fun_eq_iff)
qed simp

lemma terminate_labels [simp]: "q_queryPeers (terminate cfg r q) = q_queryPeers q"
  "q_peerTimes (terminate cfg r q) = q_peerTimes q" "q_terminated (terminate cfg r q)"
  "same_lookup q (terminate cfg r q)"
  "term_reasons (terminate cfg r q) =
     (if q_terminated q then term_reasons q else term_reasons q @ [r])"
  by (auto simp: terminate_def NewLookupTerminateEvent_def same_lookup_def PublishLookupEvent_def
      term_reasons_def NewLookupEvent_def List.map_filter_def)

text \<open>
  How the tail of an iteration ends: either the lookup is over, with at most one new termination
  event whose reason holds, or new workers were started, as many as the limit \<open>\<alpha>\<close> allows.
\<close>

definition tail_outcome :: "lookup_cfg \<Rightarrow> query \<Rightarrow> query \<Rightarrow> peer_id list \<Rightarrow> bool" where
  "tail_outcome cfg q q' ps \<longleftrightarrow>
     (if q_terminated q'
      then ps = [] \<and>
        (if q_terminated q then term_reasons q' = term_reasons q
         else (\<exists>r. term_reasons q' = term_reasons q @ [r] \<and> r \<noteq> LookupCancelled \<and>
                 reason_holds cfg (q_queryPeers q) r))
      else \<not> q_terminated q \<and> term_reasons q' = term_reasons q \<and> \<not> starved (q_queryPeers q) \<and>
        length ps = min (nat (lc_alpha cfg - int (card (peers_in q [PeerWaiting]))))
                        (card (peers_in q [PeerHeard])))"

lemma loop_tail_Some:
  assumes inv: "qinv cfg q" and beta: "0 \<le> lc_beta cfg"
    and alpha: "int (card (peers_in q [PeerWaiting])) \<le> lc_alpha cfg"
  shows "\<exists>q' ps. loop_tail cfg stop cause q = Some (q', ps) \<and> qinv cfg q' \<and> same_lookup q q' \<and>
    q_peerTimes q' = q_peerTimes q \<and>
    qlab q' = (\<lambda>p. if p \<in> set ps then Some PeerWaiting else qlab q p) \<and>
    distinct ps \<and> set ps \<subseteq> peers_in q [PeerHeard] \<and> tail_outcome cfg q q' ps"
proof -
  let ?q = "sorted_query q"
  let ?n = "lc_alpha cfg - int (card (peers_in q [PeerWaiting]))"
  have inv1: "qinv cfg ?q" and lab1: "qlab ?q = qlab q"
    and frame: "same_lookup q ?q" "q_terminated ?q = q_terminated q" "term_reasons ?q = term_reasons q"
    using inv by (auto simp: qp_sort_labels same_lookup_def)
  have n: "0 \<le> ?n" using alpha by simp
  from isReadyToTerminate_Some [OF inv1 beta n, of stop] obtain reason ps where
    ready: "isReadyToTerminate cfg stop ?n ?q = Some (reason, ps, ?q)"
    and cases: "case reason of
       Some r \<Rightarrow> ps = [] \<and> reason_holds cfg (q_queryPeers ?q) r \<and> r \<noteq> LookupCancelled
     | None \<Rightarrow> \<not> starved (q_queryPeers ?q) \<and> distinct ps \<and> set ps \<subseteq> peers_in ?q [PeerHeard] \<and>
         length ps = min (nat ?n) (card (peers_in ?q [PeerHeard]))" by auto
  note tail = loop_tail_def NumWaiting_Some [OF inv] Let_def ready
  show ?thesis
  proof (cases reason)
    case (Some r)
    with cases inv have "reason_holds cfg (q_queryPeers q) r" "r \<noteq> LookupCancelled" "ps = []" by auto
    with Some inv1 lab1 frame show ?thesis
      by (auto simp: tail tail_outcome_def intro: same_lookup_trans [OF frame(1)])
  next
    case None
    show ?thesis
    proof (cases "q_terminated q")
      case True
      with None inv1 lab1 frame show ?thesis
        by (auto simp: tail tail_outcome_def)
    next
      case False
      from None cases inv have spawn: "\<not> starved (q_queryPeers q)" "distinct ps"
        "set ps \<subseteq> peers_in q [PeerHeard]" "length ps = min (nat ?n) (card (peers_in q [PeerHeard]))"
        by auto
      then have "set ps \<subseteq> peers_in ?q [PeerHeard]" using inv by simp
      from spawnQueries_Some [OF inv1 spawn(2) this, of cause] obtain q' where
        q': "spawnQueries cfg cause ps ?q = Some q'" "qinv cfg q'" "same_lookup ?q q'"
          "q_terminated q' = q_terminated ?q" "q_peerTimes q' = q_peerTimes ?q"
          "term_reasons q' = term_reasons ?q"
          "qlab q' = (\<lambda>p. if p \<in> set ps then Some PeerWaiting else qlab ?q p)" by blast
      have "loop_tail cfg stop cause q = Some (q', ps)"
        using None False q'(1) by (simp add: tail)
      moreover have "tail_outcome cfg q q' ps"
        using q' spawn False frame by (simp add: tail_outcome_def)
      ultimately show ?thesis
        using q' spawn lab1 same_lookup_trans [OF frame(1) q'(3)] by auto
    qed
  qed
qed

text \<open>A whole iteration, on an update that answers for waiting peers and on a cancellation.\<close>

lemma iteration_Update:
  assumes inv: "qinv cfg q" and live: "\<not> q_terminated q" and dist: "distinct (answered up)"
    and wait: "\<forall>p\<in>set (answered up). p \<noteq> lc_self cfg \<and> qlab q p = Some PeerWaiting"
    and beta: "0 \<le> lc_beta cfg"
    and alpha: "int (card (peers_in q [PeerWaiting])) \<le> lc_alpha cfg"
  shows "\<exists>q1 q' ps. updateState cfg up q = Some q1 \<and> qinv cfg q1 \<and> same_lookup q q1 \<and>
    \<not> q_terminated q1 \<and> term_reasons q1 = term_reasons q \<and>
    qlab q1 = update_labels (lc_self cfg) up (qlab q) \<and>
    run_iteration cfg stop (Update up) q = Some (q', ps) \<and> qinv cfg q' \<and> same_lookup q q' \<and>
    qlab q' = (\<lambda>p. if p \<in> set ps then Some PeerWaiting else qlab q1 p) \<and>
    distinct ps \<and> set ps \<subseteq> peers_in q1 [PeerHeard] \<and> tail_outcome cfg q1 q' ps"
proof -
  from updateState_Some [OF inv live dist wait] obtain q1 ev where
    q1: "updateState cfg up q = Some q1" "qinv cfg q1" "same_lookup q q1" "\<not> q_terminated q1"
      "qlab q1 = update_labels (lc_self cfg) up (qlab q)"
      "q_events q1 = q_events q @ [ev]" "le_Terminate ev = None" by blast
  then have tr: "term_reasons q1 = term_reasons q"
    by (simp add: term_reasons_def List.map_filter_def)
  have "peers_in q1 [PeerWaiting] \<subseteq> peers_in q [PeerWaiting]"
    by (auto simp: in_states_def q1(5) update_labels_def split: if_splits)
  from card_mono [OF _ this] alpha have "int (card (peers_in q1 [PeerWaiting])) \<le> lc_alpha cfg"
    by simp
  from loop_tail_Some [OF q1(2) beta this, of stop "up_cause up"] obtain q' ps where
    "loop_tail cfg stop (up_cause up) q1 = Some (q', ps)" "qinv cfg q'" "same_lookup q1 q'"
    "qlab q' = (\<lambda>p. if p \<in> set ps then Some PeerWaiting else qlab q1 p)"
    "distinct ps" "set ps \<subseteq> peers_in q1 [PeerHeard]" "tail_outcome cfg q1 q' ps" by blast
  with q1 tr same_lookup_trans [OF q1(3) this(3)] show ?thesis
    by (auto simp: run_iteration_def handle_event_def)
qed

lemma iteration_PathDone:
  assumes inv: "qinv cfg q" and live: "\<not> q_terminated q" and beta: "0 \<le> lc_beta cfg"
    and alpha: "int (card (peers_in q [PeerWaiting])) \<le> lc_alpha cfg"
  shows "\<exists>q'. run_iteration cfg stop PathDone q = Some (q', []) \<and> qinv cfg q' \<and> same_lookup q q' \<and>
    q_terminated q' \<and> qlab q' = qlab q \<and> term_reasons q' = term_reasons q @ [LookupCancelled]"
proof -
  let ?q = "terminate cfg LookupCancelled q"
  have "qinv cfg ?q" "int (card (peers_in ?q [PeerWaiting])) \<le> lc_alpha cfg"
    using inv alpha by simp_all
  from loop_tail_Some [OF this(1) beta this(2), of stop "[]"] obtain q' ps where
    q': "loop_tail cfg stop [] ?q = Some (q', ps)" "qinv cfg q'" "same_lookup ?q q'"
      "qlab q' = (\<lambda>p. if p \<in> set ps then Some PeerWaiting else qlab ?q p)"
      "tail_outcome cfg ?q q' ps" by blast
  from q'(5) have "q_terminated q'" "ps = []" "term_reasons q' = term_reasons ?q"
    by (auto simp: tail_outcome_def split: if_splits)
  with q' live same_lookup_trans [OF terminate_labels(4) q'(3)] show ?thesis
    by (auto simp: run_iteration_def handle_event_def)
qed

section \<open>The lookup's result\<close>

lemma those_GetState:
  "qp_inv dist qp \<Longrightarrow> \<forall>p\<in>set ps. labels qp p \<noteq> None \<Longrightarrow>
   those (map (\<lambda>p. GetState p qp) ps) = Some (map (\<lambda>p. the (labels qp p)) ps)"
  by (induction ps) (auto simp: GetState_labels)

lemma constructLookupResult_Some:
  assumes inv: "qinv cfg q" and beta: "0 \<le> lc_beta cfg" and size: "0 \<le> lc_bucketSize cfg"
  shows "\<exists>res. constructLookupResult cfg q = Some (res, sorted_query q) \<and>
    closest_spec (lc_dist cfg) (q_queryPeers q) (nat (lc_bucketSize cfg))
      [PeerHeard, PeerWaiting, PeerQueried] (lr_peers res) \<and>
    lr_state res = map (\<lambda>p. the (qlab q p)) (lr_peers res) \<and>
    closest_spec (lc_dist cfg) (q_queryPeers q) (nat (lc_bucketSize cfg))
      [PeerHeard, PeerWaiting, PeerQueried, PeerUnreachable] (lr_closest res) \<and>
    (lr_completed res \<longrightarrow> beta_closest_queried cfg (q_queryPeers q) \<or> starved (q_queryPeers q)) \<and>
    (starved (q_queryPeers q) \<longrightarrow> lr_completed res)"
proof -
  let ?q = "sorted_query q"
  let ?qp = "qp_sort (q_queryPeers q)"
  have inv1: "qp_inv (lc_dist cfg) ?qp" using inv by (rule qp_sort_inv)
  from lookup_termination_Some [OF inv beta] obtain b where
    b: "isLookupTermination cfg q = Some (b, ?q)" "b \<Longrightarrow> beta_closest_queried cfg (q_queryPeers q)"
    by (auto simp: beta_closest_queried_def)
  have st: "isStarvationTermination ?q = Some (starved (q_queryPeers q), ?q)"
    using starvation_Some [of cfg ?q] inv1 inv by (simp add: starved_def)
  from GetClosestNInStates_Some [OF inv1 size, of "[PeerHeard, PeerWaiting, PeerQueried]"] obtain ps
    where ps: "GetClosestNInStates (lc_bucketSize cfg) [PeerHeard, PeerWaiting, PeerQueried] ?qp =
      Some (ps, ?qp)" "closest_spec (lc_dist cfg) (q_queryPeers q) (nat (lc_bucketSize cfg))
      [PeerHeard, PeerWaiting, PeerQueried] ps"
    using inv by (auto simp: closest_spec_sort)
  from GetClosestNInStates_Some [OF inv1 size, of "[PeerHeard, PeerWaiting, PeerQueried, PeerUnreachable]"]
  obtain cs where cs: "GetClosestNInStates (lc_bucketSize cfg)
      [PeerHeard, PeerWaiting, PeerQueried, PeerUnreachable] ?qp = Some (cs, ?qp)"
    "closest_spec (lc_dist cfg) (q_queryPeers q) (nat (lc_bucketSize cfg))
      [PeerHeard, PeerWaiting, PeerQueried, PeerUnreachable] cs"
    using inv by (auto simp: closest_spec_sort)
  have "\<forall>p\<in>set ps. labels ?qp p \<noteq> None"
    using ps(2) inv by (auto simp: closest_spec_def in_states_def qp_sort_labels)
  from those_GetState [OF inv1 this] ps cs b st show ?thesis
    by (cases b) (auto simp: constructLookupResult_def qp_sort_labels [OF inv])
qed

section \<open>The follow-up\<close>

lemma followup_loop_steps:
  "n \<le> i \<Longrightarrow> followup_loop i n k c evs = Some (c, k)"
  "i < n \<Longrightarrow> followup_loop i n k c [] = None"
  "i < n \<Longrightarrow> followup_loop i n k c (FollowupDone stopped # es) =
     (if stopped then Some (if i + 1 < n then False else c, k + 1)
      else followup_loop (i + 1) n (k + 1) c es)"
  "i < n \<Longrightarrow> followup_loop i n k c (CtxDone # es) = Some (False, k)"
  by simp_all

declare followup_loop.simps [simp del]

lemma followup_loop_total:
  "n - i \<le> length (filter (\<lambda>e. e \<noteq> CtxDone) evs) \<Longrightarrow>
   \<exists>r. followup_loop i n k completed evs = Some r"
proof (induction evs arbitrary: i k)
  case Nil
  then show ?case by (simp add: followup_loop_steps)
next
  case (Cons e es)
  show ?case
  proof (cases "i < n")
    case True
    with Cons.prems Cons.IH [of "Suc i" "Suc k"] show ?thesis
      by (cases e) (auto simp: followup_loop_steps)
  qed (simp add: followup_loop_steps)
qed

lemma followup_loop_count:
  "followup_loop i n i completed evs = Some (c, k) \<Longrightarrow> i \<le> n \<Longrightarrow>
   k \<le> n \<and> (c \<longrightarrow> completed \<and> k = n)"
proof (induction evs arbitrary: i)
  case Nil
  then show ?case by (cases "i < n") (simp_all add: followup_loop_steps)
next
  case (Cons e es)
  show ?case
  proof (cases "i < n")
    case True
    with Cons.prems Cons.IH [of "Suc i"] show ?thesis
      by (cases e) (auto simp: followup_loop_steps split: if_splits)
  qed (use Cons.prems in \<open>simp add: followup_loop_steps\<close>)
qed

lemma followup_length: "length (followup_peers res) \<le> length (lr_peers res)"
  unfolding followup_peers_def length_map
  by (rule order.trans [OF length_filter_le]) simp

section \<open>Valuable peers\<close>

text \<open>The duration of the fastest seed, as a minimum over the seeds that answered.\<close>

definition seed_times :: "query \<Rightarrow> int list" where
  "seed_times q = map sint (List.map_filter (map_of (q_peerTimes q)) (q_seedPeers q))"

lemma mvp_fold:
  "sint (fold (\<lambda>p mvp. case map_of tms p of None \<Rightarrow> mvp
       | Some t \<Rightarrow> if word_sless t mvp then t else mvp) ps (m :: duration)) =
   Min (insert (sint m) (set (map sint (List.map_filter (map_of tms) ps))))"
proof (induction ps arbitrary: m)
  case (Cons p ps)
  show ?case
  proof (cases "map_of tms p")
    case None
    with Cons show ?thesis by (simp add: List.map_filter_def)
  next
    case (Some t)
    let ?S = "set (map sint (List.map_filter (map_of tms) ps))"
    have "sint (if word_sless t m then t else m) = min (sint m) (sint t)"
      by (auto simp: word_sless_alt min_def)
    moreover have "Min (insert (min (sint m) (sint t)) ?S) = Min (insert (sint m) (insert (sint t) ?S))"
      by (cases "?S = {}") (simp_all add: min.assoc)
    moreover have "List.map_filter (map_of tms) (p # ps) = t # List.map_filter (map_of tms) ps"
      using Some by (simp add: List.map_filter_def)
    ultimately show ?thesis using Cons Some by (simp add: insert_commute)
  qed
qed (simp add: List.map_filter_def)

lemma sint_max_duration: "sint (t :: duration) \<le> sint max_duration"
  using sint_lt [of t] by (simp add: max_duration_def)

lemma mvpDuration_Min:
  assumes "seed_times q \<noteq> []"
  shows "sint (mvpDuration q) = Min (set (seed_times q))"
proof -
  let ?S = "set (seed_times q)"
  have S: "finite ?S" "?S \<noteq> {}" using assms by simp_all
  have "\<forall>x\<in>?S. x \<le> sint max_duration" using sint_max_duration by (auto simp: seed_times_def)
  with Min_in [OF S] have "Min ?S \<le> sint max_duration" by blast
  moreover have "sint (mvpDuration q) = Min (insert (sint max_duration) ?S)"
    using mvp_fold [of "q_peerTimes q" "q_seedPeers q" max_duration]
    by (simp add: mvpDuration_def seed_times_def)
  ultimately show ?thesis using Min_insert [OF S] by (simp add: min_absorb2)
qed

lemma double_duration:
  assumes "0 \<le> sint (t :: duration)" and "sint t < 2 ^ 62"
  shows "sint (t * 2) = 2 * sint t"
  using assms by (simp add: sint_word_ariths signed_take_bit_int_eq_self)

lemma seed_times_iff:
  "x \<in> set (seed_times q) \<longleftrightarrow> (\<exists>p\<in>set (q_seedPeers q). \<exists>t. map_of (q_peerTimes q) p = Some t \<and> x = sint t)"
  by (force simp: seed_times_def List.map_filter_def image_iff)

section \<open>Properties\<close>

text \<open>C6: A lookup's result lists the \<open>bucketSize\<close> closest peers that are not unreachable, in ascending
  distance, each with its state, and the \<open>bucketSize\<close> closest peers of any state; it says completed
  only when the \<open>\<beta>\<close> closest peers were all queried or nobody was left to query, and always in the
  second case. Building it never panics.\<close>

theorem lookup_result_correct:
  assumes "qp_inv (lc_dist cfg) (q_queryPeers q)" and "0 \<le> lc_beta cfg" and "0 \<le> lc_bucketSize cfg"
  shows "\<exists>res q'. constructLookupResult cfg q = Some (res, q') \<and>
    closest_spec (lc_dist cfg) (q_queryPeers q) (nat (lc_bucketSize cfg))
      [PeerHeard, PeerWaiting, PeerQueried] (lr_peers res) \<and>
    closest_spec (lc_dist cfg) (q_queryPeers q) (nat (lc_bucketSize cfg))
      [PeerHeard, PeerWaiting, PeerQueried, PeerUnreachable] (lr_closest res) \<and>
    map Some (lr_state res) = map (\<lambda>p. GetState p (q_queryPeers q)) (lr_peers res) \<and>
    (lr_completed res \<longrightarrow> beta_closest_queried cfg (q_queryPeers q) \<or> starved (q_queryPeers q)) \<and>
    (starved (q_queryPeers q) \<longrightarrow> lr_completed res)"
proof -
  from constructLookupResult_Some [OF assms] obtain res where
    res: "constructLookupResult cfg q = Some (res, sorted_query q)"
      "lr_state res = map (\<lambda>p. the (qlab q p)) (lr_peers res)"
    and spec: "closest_spec (lc_dist cfg) (q_queryPeers q) (nat (lc_bucketSize cfg))
      [PeerHeard, PeerWaiting, PeerQueried] (lr_peers res)"
    and rest: "closest_spec (lc_dist cfg) (q_queryPeers q) (nat (lc_bucketSize cfg))
      [PeerHeard, PeerWaiting, PeerQueried, PeerUnreachable] (lr_closest res)"
      "lr_completed res \<longrightarrow> beta_closest_queried cfg (q_queryPeers q) \<or> starved (q_queryPeers q)"
      "starved (q_queryPeers q) \<longrightarrow> lr_completed res" by blast
  have "map Some (lr_state res) = map (\<lambda>p. GetState p (q_queryPeers q)) (lr_peers res)"
    using spec GetState_labels [OF assms(1)] by (auto simp: res(2) closest_spec_def in_states_def)
  with res(1) spec rest show ?thesis by blast
qed

definition sample_cfg :: lookup_cfg where
  "sample_cfg = \<lparr>lc_self = ''self'', lc_alpha = 2, lc_beta = 1, lc_bucketSize = 1,
     lc_dist = (\<lambda>p k. length p), lc_ConvertKey = id, lc_ConvertPeerID = id\<rparr>"

definition sample_query :: query where
  "sample_query = \<lparr>q_id = ''u'', q_key = ''k'', q_seedPeers = [''far'', ''a''],
     q_maxPeersPerIPGroup = 0, q_peerTimes = [(''a'', 7), (''far'', 13)], q_queryPeers = two_peers,
     q_terminated = False, q_events = []\<rparr>"

theorem lookup_result_correct_witness:
  "\<exists>res q'. constructLookupResult sample_cfg sample_query = Some (res, q') \<and>
     length (lr_peers res) = length (lr_state res)"
proof -
  have "qp_inv (lc_dist sample_cfg) (q_queryPeers sample_query)"
    "0 \<le> lc_beta sample_cfg" "0 \<le> lc_bucketSize sample_cfg"
    by (simp_all add: qp_inv_def two_peers_def sample_cfg_def sample_query_def)
  from lookup_result_correct [OF this] show ?thesis by (metis length_map)
qed

text \<open>When \<^verbatim>\<open>runLookupWithFollowup\<close> returns a result, it has waited for every follow-up query it
  started, whichever of completion, the stop function and cancellation ended its loop; and it says
  completed only if the lookup was.\<close>

theorem followup_waits_for_all:
  assumes "runLookupWithFollowup (Inr lookupRes) ctxErr stopped evs = Some (Inr (res, queried, waited))"
  shows "waited = length queried \<and> (lr_completed res \<longrightarrow> lr_completed lookupRes) \<and>
    (queried = [] \<or> queried = followup_peers lookupRes) \<and> lr_peers res = lr_peers lookupRes"
proof (cases "length (followup_peers lookupRes) = 0 \<or> ctxErr \<or> stopped")
  case True
  with assms show ?thesis by (auto simp: runLookupWithFollowup_def Let_def split: if_splits)
next
  case False
  let ?n = "length (followup_peers lookupRes)"
  from False assms obtain c k where
    loop: "followup_loop 0 ?n 0 (lr_completed lookupRes) evs = Some (c, k)"
    and res: "res = lookupRes\<lparr>lr_completed := c\<rparr>" "queried = followup_peers lookupRes"
      "waited = k + followup_drain ?n (c, k)"
    by (auto simp: runLookupWithFollowup_def Let_def)
  from followup_loop_count [OF loop] res show ?thesis
    by (auto simp: followup_drain_def)
qed

definition sample_result :: lookupWithFollowupResult where
  "sample_result = \<lparr>lr_peers = [''a'', ''b'', ''c''], lr_state = [PeerHeard, PeerQueried, PeerWaiting],
     lr_closest = [], lr_completed = True\<rparr>"

theorem followup_waits_for_all_witness:
  "\<exists>res. runLookupWithFollowup (Inr sample_result) False False [FollowupDone False, CtxDone] =
     Some (Inr (res, [''a'', ''c''], 2)) \<and> lr_peers res = [''a'', ''b'', ''c'']"
proof -
  have "runLookupWithFollowup (Inr sample_result) False False [FollowupDone False, CtxDone] =
     Some (Inr (sample_result\<lparr>lr_completed := False\<rparr>, [''a'', ''c''], 2))"
    by code_simp
  from this followup_waits_for_all [OF this] show ?thesis by (simp add: sample_result_def)
qed

text \<open>The follow-up loop returns as soon as as many follow-up queries have finished as were
  started, also when the stop function never fires and the context is never cancelled.\<close>

theorem followup_returns:
  assumes "length (filter (\<lambda>e. e \<noteq> CtxDone) evs) \<ge> length (followup_peers lookupRes)"
  shows "\<exists>res. runLookupWithFollowup (Inr lookupRes) ctxErr stopped evs = Some (Inr res)"
  using followup_loop_total [of "length (followup_peers lookupRes)" 0 evs 0 "lr_completed lookupRes"] assms
  by (auto simp: runLookupWithFollowup_def Let_def)

theorem followup_returns_witness:
  "\<exists>res. runLookupWithFollowup (Inr sample_result) False False [FollowupDone False, FollowupDone True] =
     Some (Inr res)"
  using followup_returns [of sample_result "[FollowupDone False, FollowupDone True]"]
  by (simp add: sample_result_def followup_peers_def)

text \<open>The peers recorded as valuable are exactly the seeds that answered in less than twice the
  time of the fastest seed, which is among them, as long as every duration is positive and below
  \<open>2 ^ 62\<close> nanoseconds, so that doubling does not overflow.\<close>

theorem valuable_peers_exact:
  assumes "\<forall>p t. map_of (q_peerTimes q) p = Some t \<longrightarrow> 0 < sint t \<and> sint t < 2 ^ 62"
    and "p \<in> set (q_seedPeers q)"
  shows "p \<in> set (recordValuablePeers q) \<longleftrightarrow>
      (\<exists>t. map_of (q_peerTimes q) p = Some t \<and>
        (\<forall>r\<in>set (q_seedPeers q). \<forall>t'. map_of (q_peerTimes q) r = Some t' \<longrightarrow> sint t < 2 * sint t'))"
proof (cases "map_of (q_peerTimes q) p")
  case None
  then show ?thesis by (simp add: recordValuablePeers_def)
next
  case (Some t)
  then have "sint t \<in> set (seed_times q)" using assms(2) by (auto simp: seed_times_iff)
  then have ne: "seed_times q \<noteq> []" by auto
  let ?S = "set (seed_times q)"
  have S: "finite ?S" "?S \<noteq> {}" using ne by simp_all
  note mvp = mvpDuration_Min [OF ne]
  have "Min ?S \<in> ?S" using S by (rule Min_in)
  then have "0 < Min ?S" "Min ?S < 2 ^ 62" using assms(1) by (auto simp: seed_times_iff)
  then have "sint (mvpDuration q * 2) = 2 * Min ?S"
    using double_duration [of "mvpDuration q"] mvp by simp
  then have "p \<in> set (recordValuablePeers q) \<longleftrightarrow> sint t < 2 * Min ?S"
    using Some assms(2) by (simp add: recordValuablePeers_def word_sless_alt)
  also have "\<dots> \<longleftrightarrow> (\<forall>x\<in>?S. sint t < 2 * x)"
    using Min_le [OF S(1)] Min_in [OF S] by (auto intro: less_le_trans)
  finally show ?thesis using Some by (force simp: Ball_def seed_times_iff)
qed

theorem valuable_peers_exact_witness:
  "''far'' \<in> set (recordValuablePeers sample_query)"
proof -
  have times: "map_of (q_peerTimes sample_query) p = Some t \<longleftrightarrow>
      p = ''a'' \<and> t = 7 \<or> p = ''far'' \<and> t = 13" for p t
    by (auto simp: sample_query_def)
  have hyp: "\<forall>p t. map_of (q_peerTimes sample_query) p = Some t \<longrightarrow> 0 < sint t \<and> sint t < 2 ^ 62"
    unfolding times by auto
  have seed: "''far'' \<in> set (q_seedPeers sample_query)" by (simp add: sample_query_def)
  show ?thesis
    unfolding valuable_peers_exact [OF hyp seed] times by auto
qed

end
