(* ===== verification/Lookup_Loop.thy ===== *)
theory Lookup_Loop
  imports Query
begin

text \<open>
  The concurrent execution of one lookup (\<^verbatim>\<open>query.go\<close>, \<^verbatim>\<open>run\<close>): the event loop, its buffered
  channel of updates and the worker goroutines, as a step relation over the loop's state, the
  channel's content and the workers still running. An action fixes everything the program does not
  decide: which worker reports and what the network answered it, what \<^verbatim>\<open>stopFn\<close> says, whether the
  context was cancelled. The invariant of the reachable states carries the theorems: the loop
  never panics, a worker never blocks on the channel, at most \<open>\<alpha>\<close> peers are queried at a time, a
  lookup that is not over can always move on, and it ends.
\<close>

section \<open>States and steps\<close>

record lookup_sys =
  ls_query :: query
  ls_chan :: "queryUpdate list"
  ls_inflight :: "peer_id list"

definition init_lookup :: "lookup_cfg \<Rightarrow> query \<Rightarrow> lookup_sys" where
  "init_lookup cfg q = \<lparr>ls_query = q, ls_chan = [seed_update cfg q], ls_inflight = []\<rparr>"

datatype lookup_action = Report peer_id query_env | Receive stopFn | Cancel stopFn

definition worker_update :: "lookup_cfg \<Rightarrow> query \<Rightarrow> query_env \<Rightarrow> peer_id \<Rightarrow> queryUpdate" where
  "worker_update cfg q env p = snd (queryPeer cfg env (q_key q) (q_maxPeersPerIPGroup q) p)"

text \<open>
  A send on the channel is possible only while it holds fewer than its capacity \<open>\<alpha>\<close> of updates. The
  loop takes events only while it has not terminated; workers may still report afterwards.
\<close>

inductive lookup_step :: "lookup_cfg \<Rightarrow> lookup_action \<Rightarrow> lookup_sys \<Rightarrow> lookup_sys \<Rightarrow> bool"
  for cfg :: lookup_cfg where
  report: "p \<in> set (ls_inflight s) \<Longrightarrow> int (length (ls_chan s)) < lc_alpha cfg \<Longrightarrow>
    lookup_step cfg (Report p env) s
      (s\<lparr>ls_chan := ls_chan s @ [worker_update cfg (ls_query s) env p],
         ls_inflight := remove1 p (ls_inflight s)\<rparr>)"
| receive: "\<not> q_terminated (ls_query s) \<Longrightarrow> ls_chan s = up # ups \<Longrightarrow>
    run_iteration cfg stop (Update up) (ls_query s) = Some (q', ps) \<Longrightarrow>
    lookup_step cfg (Receive stop) s
      \<lparr>ls_query = q', ls_chan = ups, ls_inflight = ls_inflight s @ ps\<rparr>"
| cancel: "\<not> q_terminated (ls_query s) \<Longrightarrow>
    run_iteration cfg stop PathDone (ls_query s) = Some (q', ps) \<Longrightarrow>
    lookup_step cfg (Cancel stop) s (s\<lparr>ls_query := q', ls_inflight := ls_inflight s @ ps\<rparr>)"

inductive_cases lookup_reportE: "lookup_step cfg (Report p env) s s'"
inductive_cases lookup_receiveE: "lookup_step cfg (Receive stop) s s'"
inductive_cases lookup_cancelE: "lookup_step cfg (Cancel stop) s s'"
inductive_simps lookup_report_iff: "lookup_step cfg (Report p env) s s'"

lemmas lookup_stepE = lookup_reportE lookup_receiveE lookup_cancelE

inductive lookup_exec :: "lookup_cfg \<Rightarrow> lookup_sys \<Rightarrow> lookup_action list \<Rightarrow> lookup_sys \<Rightarrow> bool"
  for cfg :: lookup_cfg and s0 :: lookup_sys where
  start: "lookup_exec cfg s0 [] s0"
| step: "lookup_exec cfg s0 as s \<Longrightarrow> lookup_step cfg a s s' \<Longrightarrow> lookup_exec cfg s0 (as @ [a]) s'"

text \<open>A lookup is done when the loop has returned and every worker has reported.\<close>

definition lookup_done :: "lookup_sys \<Rightarrow> bool" where
  "lookup_done s \<longleftrightarrow> q_terminated (ls_query s) \<and> ls_inflight s = []"

section \<open>The invariant\<close>

text \<open>
  The peers that are waiting are exactly those with a running worker or an unread report, each
  once; except for the seeding update, which is alone in the system, every update answers for one
  peer; and the reason of a finished lookup holds of its peer set.
\<close>

definition outstanding :: "lookup_sys \<Rightarrow> peer_id list" where
  "outstanding s = ls_inflight s @ concat (map answered (ls_chan s))"

definition end_reason_ok :: "lookup_cfg \<Rightarrow> query \<Rightarrow> bool" where
  "end_reason_ok cfg q \<longleftrightarrow>
     (if q_terminated q then \<exists>r. term_reasons q = [r] \<and> reason_holds cfg (q_queryPeers q) r
      else term_reasons q = [])"

definition sys_inv :: "lookup_cfg \<Rightarrow> lookup_sys \<Rightarrow> bool" where
  "sys_inv cfg s \<longleftrightarrow>
     qinv cfg (ls_query s) \<and> qlab (ls_query s) (lc_self cfg) = None \<and>
     distinct (outstanding s) \<and> set (outstanding s) = peers_in (ls_query s) [PeerWaiting] \<and>
     int (length (ls_chan s) + length (ls_inflight s)) \<le> lc_alpha cfg \<and>
     (\<forall>up\<in>set (tl (ls_chan s)). length (answered up) = 1) \<and>
     (ls_chan s \<noteq> [] \<longrightarrow> length (answered (hd (ls_chan s))) = 1 \<or>
        answered (hd (ls_chan s)) = [] \<and> ls_chan s = [hd (ls_chan s)] \<and> ls_inflight s = []) \<and>
     (q_terminated (ls_query s) \<or> ls_chan s \<noteq> [] \<or> ls_inflight s \<noteq> []) \<and>
     end_reason_ok cfg (ls_query s)"

definition valid_cfg :: "lookup_cfg \<Rightarrow> bool" where
  "valid_cfg cfg \<longleftrightarrow> 1 \<le> lc_alpha cfg \<and> 0 \<le> lc_beta cfg \<and> 0 \<le> lc_bucketSize cfg"

definition fresh_query :: "query \<Rightarrow> bool" where
  "fresh_query q \<longleftrightarrow> q_queryPeers q = NewQueryPeerset (q_key q) \<and> \<not> q_terminated q \<and>
     q_events q = [] \<and> q_peerTimes q = []"

lemma startQuery_fresh: "startQuery uid target seeds d = Inr q \<Longrightarrow>
    fresh_query q \<and> q_key q = target \<and> q_seedPeers q = seeds \<and> seeds \<noteq> []"
  by (auto simp: startQuery_def fresh_query_def Let_def split: if_splits)

lemma worker_update_answered [simp]: "answered (worker_update cfg q env p) = [p]"
  by (auto simp: worker_update_def queryPeer_def Let_def split: option.splits prod.splits)

lemma worker_update_length [simp]: "length (up_queried (worker_update cfg q env p)) +
    length (up_unreachable (worker_update cfg q env p)) = Suc 0"
  by (metis One_nat_def length_append list.size(3,4) worker_update_answered add.commute plus_1_eq_Suc)

lemma seed_update_answered [simp]: "answered (seed_update cfg q) = []"
  by (simp add: seed_update_def)

lemma sys_inv_init:
  assumes "valid_cfg cfg" and "fresh_query q"
  shows "sys_inv cfg (init_lookup cfg q)"
  using assms by (auto simp: sys_inv_def init_lookup_def valid_cfg_def fresh_query_def outstanding_def
      in_states_def end_reason_ok_def term_reasons_def List.map_filter_def)

text \<open>The number of waiting peers is bounded by the channel's content and the workers.\<close>

lemma concat_single: "\<forall>up\<in>set ups. length (f up) = 1 \<Longrightarrow> length (concat (map f ups)) = length ups"
  by (induction ups) auto

lemma sys_inv_waiting:
  assumes "sys_inv cfg s"
  shows "card (peers_in (ls_query s) [PeerWaiting]) \<le> length (ls_chan s) + length (ls_inflight s)"
    and "int (card (peers_in (ls_query s) [PeerWaiting])) \<le> lc_alpha cfg"
proof -
  have "length (concat (map answered (ls_chan s))) \<le> length (ls_chan s)"
  proof (cases "ls_chan s")
    case (Cons up ups)
    with assms have "\<forall>up\<in>set ups. length (answered up) = 1" "length (answered up) \<le> 1"
      by (auto simp: sys_inv_def)
    with concat_single [of ups answered] Cons show ?thesis by simp
  qed simp
  moreover have "card (peers_in (ls_query s) [PeerWaiting]) = length (outstanding s)"
    using assms by (auto simp: sys_inv_def simp flip: distinct_card)
  ultimately show "card (peers_in (ls_query s) [PeerWaiting]) \<le> length (ls_chan s) + length (ls_inflight s)"
    by (simp add: outstanding_def)
  with assms show "int (card (peers_in (ls_query s) [PeerWaiting])) \<le> lc_alpha cfg"
    by (auto simp: sys_inv_def)
qed

lemma reason_holds_cong:
  assumes "labels qp = labels qp'" and "qp_key qp = qp_key qp'"
  shows "reason_holds cfg qp r = reason_holds cfg qp' r"
  using assms by (cases r) (auto simp: starved_def beta_closest_queried_def closest_spec_def in_states_def)

section \<open>Preservation\<close>

lemma report_inv:
  assumes inv: "sys_inv cfg s" and step: "lookup_step cfg (Report p env) s s'"
  shows "sys_inv cfg s'"
proof -
  from step have p: "p \<in> set (ls_inflight s)"
    and s': "s' = s\<lparr>ls_chan := ls_chan s @ [worker_update cfg (ls_query s) env p],
               ls_inflight := remove1 p (ls_inflight s)\<rparr>"
    by (auto elim: lookup_reportE)
  have "mset (outstanding s') = mset (outstanding s)"
    using p by (simp add: s' outstanding_def)
  then have out: "distinct (outstanding s')" "set (outstanding s') = set (outstanding s)"
    using inv by (auto simp: sys_inv_def dest: mset_eq_imp_distinct_iff mset_eq_setD)
  have len: "length (ls_inflight s) = Suc (length (ls_inflight s'))"
    using p length_pos_if_in_set [OF p] by (simp add: s' length_remove1)
  have q: "ls_query s' = ls_query s" "ls_chan s' = ls_chan s @ [worker_update cfg (ls_query s) env p]"
    by (simp_all add: s')
  show ?thesis
    using inv out len p unfolding sys_inv_def q
    by (cases "ls_chan s") auto
qed

text \<open>The peers a received update answers for are waiting, and their answers are removed.\<close>

lemma receive_cond:
  assumes inv: "sys_inv cfg s" and chan: "ls_chan s = up # ups"
  shows "distinct (answered up)"
    and "\<forall>p\<in>set (answered up). p \<noteq> lc_self cfg \<and> qlab (ls_query s) p = Some PeerWaiting"
    and "length (concat (map answered ups)) = length ups"
    and "distinct (ls_inflight s @ concat (map answered ups))"
    and "set (ls_inflight s @ concat (map answered ups)) =
      peers_in (ls_query s) [PeerWaiting] - set (answered up)"
proof -
  have d: "distinct (ls_inflight s @ answered up @ concat (map answered ups))"
    and st: "set (ls_inflight s @ answered up @ concat (map answered ups)) =
      peers_in (ls_query s) [PeerWaiting]"
    using inv chan by (auto simp: sys_inv_def outstanding_def)
  from d show "distinct (answered up)" "distinct (ls_inflight s @ concat (map answered ups))"
    by auto
  have "set (answered up) \<subseteq> peers_in (ls_query s) [PeerWaiting]" using st by auto
  with inv show "\<forall>p\<in>set (answered up). p \<noteq> lc_self cfg \<and> qlab (ls_query s) p = Some PeerWaiting"
    by (auto simp: sys_inv_def in_states_def)
  show "length (concat (map answered ups)) = length ups"
    using inv chan by (intro concat_single) (simp add: sys_inv_def)
  show "set (ls_inflight s @ concat (map answered ups)) =
      peers_in (ls_query s) [PeerWaiting] - set (answered up)"
    using d st by auto
qed

lemma update_waiting:
  assumes "qlab q1 = update_labels self up (qlab q)"
  shows "peers_in q1 [PeerWaiting] = peers_in q [PeerWaiting] - set (answered up)"
  by (auto simp: in_states_def assms update_labels_def)

text \<open>What an iteration on a received update does; nothing in it can panic.\<close>

lemma receive_Some:
  assumes inv: "sys_inv cfg s" and cfg: "valid_cfg cfg" and live: "\<not> q_terminated (ls_query s)"
    and chan: "ls_chan s = up # ups"
  shows "\<exists>q1 q' ps. run_iteration cfg stop (Update up) (ls_query s) = Some (q', ps) \<and>
    qlab q1 = update_labels (lc_self cfg) up (qlab (ls_query s)) \<and>
    qlab q' = (\<lambda>p. if p \<in> set ps then Some PeerWaiting else qlab q1 p) \<and>
    distinct ps \<and> set ps \<subseteq> peers_in q1 [PeerHeard] \<and> qinv cfg q' \<and> same_lookup (ls_query s) q' \<and>
    tail_outcome cfg q1 q' ps \<and> same_lookup (ls_query s) q1 \<and>
    \<not> q_terminated q1 \<and> term_reasons q1 = term_reasons (ls_query s)"
proof -
  note rc = receive_cond [OF inv chan]
  have "qinv cfg (ls_query s)" "0 \<le> lc_beta cfg"
    using inv cfg by (auto simp: sys_inv_def valid_cfg_def)
  from iteration_Update [OF this(1) live rc(1) rc(2) this(2) sys_inv_waiting(2) [OF inv], of stop]
  show ?thesis by blast
qed

lemma cancel_Some:
  assumes inv: "sys_inv cfg s" and cfg: "valid_cfg cfg" and live: "\<not> q_terminated (ls_query s)"
  shows "\<exists>q'. run_iteration cfg stop PathDone (ls_query s) = Some (q', []) \<and> qinv cfg q' \<and>
    same_lookup (ls_query s) q' \<and> q_terminated q' \<and> qlab q' = qlab (ls_query s) \<and>
    term_reasons q' = term_reasons (ls_query s) @ [LookupCancelled]"
proof -
  have "qinv cfg (ls_query s)" "0 \<le> lc_beta cfg"
    using inv cfg by (auto simp: sys_inv_def valid_cfg_def)
  from iteration_PathDone [OF this(1) live this(2) sys_inv_waiting(2) [OF inv], of stop]
  show ?thesis by blast
qed

lemma cancel_inv:
  assumes inv: "sys_inv cfg s" and cfg: "valid_cfg cfg" and step: "lookup_step cfg (Cancel stop) s s'"
  shows "sys_inv cfg s'"
proof -
  from step obtain q1 ps where live: "\<not> q_terminated (ls_query s)"
    and run: "run_iteration cfg stop PathDone (ls_query s) = Some (q1, ps)"
    and s': "s' = s\<lparr>ls_query := q1, ls_inflight := ls_inflight s @ ps\<rparr>"
    by (auto elim: lookup_cancelE)
  from cancel_Some [OF inv cfg live, of stop] run have
    q1: "ps = []" "qinv cfg q1" "q_terminated q1" "qlab q1 = qlab (ls_query s)"
      "term_reasons q1 = term_reasons (ls_query s) @ [LookupCancelled]" by auto
  have "term_reasons (ls_query s) = []"
    using inv live by (simp add: sys_inv_def end_reason_ok_def)
  with q1 have "end_reason_ok cfg q1" by (simp add: end_reason_ok_def)
  moreover have "peers_in q1 sts = peers_in (ls_query s) sts" for sts
    using q1(4) by (simp add: in_states_def)
  ultimately show ?thesis
    using inv q1 unfolding s' sys_inv_def outstanding_def by auto
qed

lemma receive_inv:
  assumes inv: "sys_inv cfg s" and cfg: "valid_cfg cfg" and step: "lookup_step cfg (Receive stop) s s'"
  shows "sys_inv cfg s'"
proof -
  from step obtain up ups q' ps where live: "\<not> q_terminated (ls_query s)"
    and chan: "ls_chan s = up # ups"
    and run: "run_iteration cfg stop (Update up) (ls_query s) = Some (q', ps)"
    and s': "s' = \<lparr>ls_query = q', ls_chan = ups, ls_inflight = ls_inflight s @ ps\<rparr>"
    by (auto elim: lookup_receiveE)
  note rc = receive_cond [OF inv chan]
  from receive_Some [OF inv cfg live chan, of stop] run obtain q1 where
    lab1: "qlab q1 = update_labels (lc_self cfg) up (qlab (ls_query s))"
    and lab': "qlab q' = (\<lambda>p. if p \<in> set ps then Some PeerWaiting else qlab q1 p)"
    and ps: "distinct ps" "set ps \<subseteq> peers_in q1 [PeerHeard]"
    and q': "qinv cfg q'" "same_lookup (ls_query s) q'"
    and tail: "tail_outcome cfg q1 q' ps"
    and q1: "same_lookup (ls_query s) q1" "\<not> q_terminated q1"
      "term_reasons q1 = term_reasons (ls_query s)"
    by auto
  let ?rest = "ls_inflight s @ concat (map answered ups)"
  have W1: "peers_in q1 [PeerWaiting] = set ?rest"
    using update_waiting [OF lab1] rc(5) by simp
  have W': "peers_in q' [PeerWaiting] = set ?rest \<union> set ps"
    unfolding W1 [symmetric] by (auto simp: in_states_def lab')
  have "set ps \<inter> set ?rest = {}"
    unfolding W1 [symmetric] using ps(2) by (auto simp: in_states_def)
  with rc(4) ps(1) have out: "distinct (outstanding s')" "set (outstanding s') = peers_in q' [PeerWaiting]"
    unfolding W' by (auto simp: s' outstanding_def)
  have "int (card (peers_in q1 [PeerWaiting])) + int (length ps) \<le> lc_alpha cfg"
  proof (cases "q_terminated q'")
    case True
    with tail have "ps = []" by (simp add: tail_outcome_def)
    have "length ?rest \<le> length (outstanding s)" using chan by (simp add: outstanding_def)
    also have "\<dots> = card (peers_in (ls_query s) [PeerWaiting])"
      using inv by (auto simp: sys_inv_def simp flip: distinct_card)
    finally have "card (peers_in q1 [PeerWaiting]) \<le> card (peers_in (ls_query s) [PeerWaiting])"
      using distinct_card [OF rc(4)] W1 by simp
    with sys_inv_waiting(2) [OF inv] \<open>ps = []\<close> show ?thesis by simp
  next
    case False
    with tail have "length ps \<le> nat (lc_alpha cfg - int (card (peers_in q1 [PeerWaiting])))"
      unfolding tail_outcome_def by (metis min.cobounded1)
    moreover have "card (peers_in q1 [PeerWaiting]) \<le> card (peers_in (ls_query s) [PeerWaiting])"
      using update_waiting [OF lab1] by (intro card_mono) auto
    ultimately show ?thesis using sys_inv_waiting(2) [OF inv] by linarith
  qed
  then have bound: "int (length ups + length (ls_inflight s @ ps)) \<le> lc_alpha cfg"
    using distinct_card [OF rc(4)] rc(3) W1 by simp
  have moves: "q_terminated q' \<or> ups \<noteq> [] \<or> ls_inflight s @ ps \<noteq> []"
  proof (rule ccontr)
    assume stuck: "\<not> ?thesis"
    with tail have "\<not> starved (q_queryPeers q1)" "length ps = min (nat (lc_alpha cfg -
        int (card (peers_in q1 [PeerWaiting])))) (card (peers_in q1 [PeerHeard]))"
      by (auto simp: tail_outcome_def)
    moreover from stuck W1 have "peers_in q1 [PeerWaiting] = {}" by simp
    ultimately have "peers_in q1 [PeerHeard] \<noteq> {}"
      "min (nat (lc_alpha cfg)) (card (peers_in q1 [PeerHeard])) = 0"
      using stuck by (auto simp: starved_def)
    with cfg show False by (auto simp: valid_cfg_def min_def split: if_splits)
  qed
  have "qlab q1 (lc_self cfg) = None"
    using inv rc(2) by (auto simp: lab1 update_labels_def sys_inv_def)
  then have self: "qlab q' (lc_self cfg) = None"
    using ps(2) by (auto simp: lab' in_states_def)
  have "end_reason_ok cfg q'"
  proof (cases "q_terminated q'")
    case True
    with tail q1(2) obtain r where "ps = []" "term_reasons q' = term_reasons q1 @ [r]"
      "reason_holds cfg (q_queryPeers q1) r" by (auto simp: tail_outcome_def)
    moreover from this(1) lab' have "qlab q' = qlab q1" by (simp add: fun_eq_iff)
    moreover have "qp_key (q_queryPeers q') = qp_key (q_queryPeers q1)"
      using q' q1(1) by (simp add: same_lookup_def)
    ultimately have "term_reasons q' = term_reasons q1 @ [r]" "reason_holds cfg (q_queryPeers q') r"
      using reason_holds_cong by metis+
    then show ?thesis
      using True q1(3) inv live by (auto simp: end_reason_ok_def sys_inv_def)
  next
    case False
    with tail q1(3) inv live show ?thesis
      by (auto simp: tail_outcome_def end_reason_ok_def sys_inv_def)
  qed
  moreover have "\<forall>up\<in>set ups. length (answered up) = 1"
    using inv chan by (simp add: sys_inv_def)
  ultimately show ?thesis
    using q'(1) self out bound moves unfolding sys_inv_def
    by (cases ups) (simp_all add: s')
qed

lemma step_inv:
  assumes "sys_inv cfg s" and "valid_cfg cfg" and "lookup_step cfg a s s'"
  shows "sys_inv cfg s'"
  using assms by (cases a) (blast intro: report_inv receive_inv cancel_inv)+

lemma exec_inv:
  assumes "lookup_exec cfg s0 as s" and "sys_inv cfg s0" and "valid_cfg cfg"
  shows "sys_inv cfg s"
  using assms by (induction rule: lookup_exec.induct) (blast intro: step_inv)+

section \<open>Termination\<close>

text \<open>
  The network may invent new peers for ever, so a lookup ends on the assumption that the peers it
  is told of come from some finite set \<open>U\<close>. Every action then makes the measure smaller: a peer
  moves from unheard of, to heard of, to a running worker, to an unread update, to nothing.
\<close>

definition env_within :: "peer_id set \<Rightarrow> query_env \<Rightarrow> bool" where
  "env_within U env \<longleftrightarrow> (\<forall>p ais. qe_queryFn env p = Some ais \<longrightarrow> ai_ID ` set ais \<subseteq> U)"

fun action_within :: "peer_id set \<Rightarrow> lookup_action \<Rightarrow> bool" where
  "action_within U (Report p env) = env_within U env"
| "action_within U a = True"

definition chan_within :: "peer_id set \<Rightarrow> lookup_sys \<Rightarrow> bool" where
  "chan_within U s \<longleftrightarrow> (\<forall>up\<in>set (ls_chan s). set (up_heard up) \<subseteq> U)"

definition lookup_measure :: "peer_id set \<Rightarrow> lookup_sys \<Rightarrow> nat" where
  "lookup_measure U s = 4 * card (U - dom (qlab (ls_query s))) +
     3 * card (peers_in (ls_query s) [PeerHeard]) + 2 * length (ls_inflight s) + length (ls_chan s) +
     (if q_terminated (ls_query s) then 0 else 1)"

lemma process_new_peers_ids: "set (snd (process_new_peers cfg env key ais)) \<subseteq> ai_ID ` set ais"
  by (induction ais) (auto simp: Let_def split: prod.splits)

lemma filter_diversity_ids:
  "ai_ID ` set (filterPeersByIPDiversity toIP gk ais n) \<subseteq> ai_ID ` set ais"
  by (auto simp: filterPeersByIPDiversity_def Let_def)

lemma worker_update_within:
  assumes "env_within U env"
  shows "set (up_heard (worker_update cfg q env p)) \<subseteq> U"
proof (cases "dialPeer env p")
  case True
  then show ?thesis by (simp add: worker_update_def queryPeer_def Let_def)
next
  case False
  show ?thesis
  proof (cases "qe_queryFn env p")
    case None
    with False show ?thesis by (simp add: worker_update_def queryPeer_def Let_def)
  next
    case (Some ais)
    with assms have U: "ai_ID ` set ais \<subseteq> U" by (simp add: env_within_def)
    let ?ais = "if q_maxPeersPerIPGroup q \<noteq> 0
      then filterPeersByIPDiversity (qe_toIP env) (qe_groupKey env) ais (q_maxPeersPerIPGroup q) else ais"
    have "up_heard (worker_update cfg q env p) = snd (process_new_peers cfg env (q_key q) ?ais)"
      using False Some by (simp add: worker_update_def queryPeer_def Let_def case_prod_beta)
    also have "set \<dots> \<subseteq> ai_ID ` set ?ais" by (rule process_new_peers_ids)
    also have "\<dots> \<subseteq> U"
      using subset_trans [OF filter_diversity_ids U] U by (cases "q_maxPeersPerIPGroup q \<noteq> 0") simp_all
    finally show ?thesis .
  qed
qed

lemma report_measure:
  assumes "lookup_step cfg (Report p env) s s'" and "env_within U env" and "chan_within U s"
  shows "lookup_measure U s' < lookup_measure U s \<and> chan_within U s'"
proof -
  from assms(1) have p: "p \<in> set (ls_inflight s)"
    and s': "s' = s\<lparr>ls_chan := ls_chan s @ [worker_update cfg (ls_query s) env p],
               ls_inflight := remove1 p (ls_inflight s)\<rparr>"
    by (auto elim: lookup_reportE)
  have "length (ls_inflight s) = Suc (length (remove1 p (ls_inflight s)))"
    using p length_pos_if_in_set [OF p] by (simp add: length_remove1)
  with worker_update_within [OF assms(2)] assms(3) show ?thesis
    by (auto simp: s' lookup_measure_def chan_within_def)
qed

lemma cancel_measure:
  assumes "sys_inv cfg s" and "valid_cfg cfg" and "lookup_step cfg (Cancel stop) s s'"
    and "chan_within U s"
  shows "lookup_measure U s' < lookup_measure U s \<and> chan_within U s'"
proof -
  from assms(3) obtain q1 ps where live: "\<not> q_terminated (ls_query s)"
    and run: "run_iteration cfg stop PathDone (ls_query s) = Some (q1, ps)"
    and s': "s' = s\<lparr>ls_query := q1, ls_inflight := ls_inflight s @ ps\<rparr>"
    by (auto elim: lookup_cancelE)
  from cancel_Some [OF assms(1,2) live, of stop] run have
    "ps = []" "q_terminated q1" "qlab q1 = qlab (ls_query s)" by auto
  moreover from this(3) have "peers_in q1 [PeerHeard] = peers_in (ls_query s) [PeerHeard]"
    by (simp add: in_states_def)
  ultimately show ?thesis
    using live assms(4) by (simp add: s' lookup_measure_def chan_within_def)
qed

lemma receive_measure:
  assumes inv: "sys_inv cfg s" and cfg: "valid_cfg cfg" and step: "lookup_step cfg (Receive stop) s s'"
    and within: "chan_within U s" and fin: "finite U"
  shows "lookup_measure U s' < lookup_measure U s \<and> chan_within U s'"
proof -
  from step obtain up ups q' ps where live: "\<not> q_terminated (ls_query s)"
    and chan: "ls_chan s = up # ups"
    and run: "run_iteration cfg stop (Update up) (ls_query s) = Some (q', ps)"
    and s': "s' = \<lparr>ls_query = q', ls_chan = ups, ls_inflight = ls_inflight s @ ps\<rparr>"
    by (auto elim: lookup_receiveE)
  note rc = receive_cond [OF inv chan]
  from receive_Some [OF inv cfg live chan, of stop] run obtain q1 where
    lab1: "qlab q1 = update_labels (lc_self cfg) up (qlab (ls_query s))"
    and lab': "qlab q' = (\<lambda>p. if p \<in> set ps then Some PeerWaiting else qlab q1 p)"
    and ps: "distinct ps" "set ps \<subseteq> peers_in q1 [PeerHeard]"
    by auto
  let ?l = "qlab (ls_query s)"
  let ?H = "peers_in (ls_query s) [PeerHeard]"
  let ?N = "{p \<in> set (up_heard up). p \<noteq> lc_self cfg \<and> ?l p = None}"
  have N: "finite ?N" "?N \<subseteq> U - dom ?l"
    using within chan by (auto simp: chan_within_def)
  have ans: "p \<in> set (answered up) \<Longrightarrow> ?l p = Some PeerWaiting" for p
    using rc(2) by blast
  have H1: "peers_in q1 [PeerHeard] = ?H \<union> ?N"
    using ans by (auto simp: in_states_def lab1 update_labels_def split: if_splits)
  have H': "peers_in q' [PeerHeard] = (?H \<union> ?N) - set ps"
    unfolding H1 [symmetric] by (auto simp: in_states_def lab')
  have dom: "U - dom (qlab q') = (U - dom ?l) - ?N"
  proof -
    have "dom (qlab q') = dom (qlab q1)"
      using ps(2) by (auto simp: lab' in_states_def split: if_splits)
    also have "\<dots> = dom ?l \<union> ?N"
      using ans by (auto simp: lab1 update_labels_def split: if_splits)
    finally show ?thesis by auto
  qed
  have "card (U - dom (qlab q')) + card ?N = card (U - dom ?l)"
    unfolding dom using card_Diff_subset [OF N] card_mono [OF _ N(2)] fin by simp
  moreover have "card (peers_in q' [PeerHeard]) + length ps = card ?H + card ?N"
  proof -
    have "?H \<inter> ?N = {}" by (auto simp: in_states_def)
    then have "card (?H \<union> ?N) = card ?H + card ?N" by (simp add: card_Un_disjoint)
    moreover have "card ((?H \<union> ?N) - set ps) + card (set ps) = card (?H \<union> ?N)"
      using ps(2) H1 card_Diff_subset [of "set ps" "?H \<union> ?N"] card_mono [of "?H \<union> ?N" "set ps"] by simp
    ultimately show ?thesis unfolding H' using distinct_card [OF ps(1)] by simp
  qed
  ultimately show ?thesis
    using live chan within by (auto simp: s' lookup_measure_def chan_within_def)
qed

lemma step_measure:
  assumes "sys_inv cfg s" and "valid_cfg cfg" and "lookup_step cfg a s s'" and "chan_within U s"
    and "finite U" and "action_within U a"
  shows "lookup_measure U s' < lookup_measure U s \<and> chan_within U s'"
proof (cases a)
  case (Report p env)
  with assms show ?thesis using report_measure by simp
next
  case (Receive stop)
  with assms show ?thesis using receive_measure by simp
next
  case (Cancel stop)
  with assms show ?thesis using cancel_measure by simp
qed

lemma exec_measure:
  assumes "lookup_exec cfg s0 as s" and "sys_inv cfg s0" and "valid_cfg cfg" and "chan_within U s0"
    and "finite U" and "\<forall>a\<in>set as. action_within U a"
  shows "length as + lookup_measure U s \<le> lookup_measure U s0 \<and> chan_within U s"
  using assms
proof (induction rule: lookup_exec.induct)
  case (step as s a s')
  from step.prems step.IH have IH: "length as + lookup_measure U s \<le> lookup_measure U s0" "chan_within U s"
    by auto
  have "sys_inv cfg s" using step.hyps(1) step.prems(1,2) by (rule exec_inv)
  from step_measure [OF this step.prems(2) step.hyps(2) IH(2) step.prems(4)] step.prems(5) IH(1)
  show ?case by auto
qed simp

section \<open>The path of a peer's label\<close>

text \<open>A lookup moves a peer only forward, and a peer that answered or failed stays where it is.\<close>

fun may_become :: "PeerState option \<Rightarrow> PeerState option \<Rightarrow> bool" where
  "may_become None y = (y = None \<or> y = Some PeerHeard \<or> y = Some PeerWaiting)"
| "may_become (Some PeerHeard) y = (y = Some PeerHeard \<or> y = Some PeerWaiting)"
| "may_become (Some PeerWaiting) y =
     (y = Some PeerWaiting \<or> y = Some PeerQueried \<or> y = Some PeerUnreachable)"
| "may_become (Some x) y = (y = Some x)"

lemma may_become_refl [simp]: "may_become x x"
  by (cases x; cases "the x") auto

lemma step_labels:
  assumes "sys_inv cfg s" and "valid_cfg cfg" and "lookup_step cfg a s s'"
  shows "may_become (qlab (ls_query s) p) (qlab (ls_query s') p)"
proof (cases a)
  case (Report p env)
  with assms(3) show ?thesis by (auto elim: lookup_reportE)
next
  case (Cancel stop)
  with assms(3) obtain q' ps where live: "\<not> q_terminated (ls_query s)"
    and run: "run_iteration cfg stop PathDone (ls_query s) = Some (q', ps)" "ls_query s' = q'"
    by (auto elim: lookup_cancelE)
  from cancel_Some [OF assms(1,2) live, of stop] run show ?thesis by auto
next
  case (Receive stop)
  with assms(3) obtain up ups q' ps where live: "\<not> q_terminated (ls_query s)"
    and chan: "ls_chan s = up # ups"
    and run: "run_iteration cfg stop (Update up) (ls_query s) = Some (q', ps)" "ls_query s' = q'"
    by (auto elim: lookup_receiveE)
  from receive_Some [OF assms(1,2) live chan, of stop] run obtain q1 where
    lab1: "qlab q1 = update_labels (lc_self cfg) up (qlab (ls_query s))"
    and lab': "qlab q' = (\<lambda>p. if p \<in> set ps then Some PeerWaiting else qlab q1 p)"
    and ps: "set ps \<subseteq> peers_in q1 [PeerHeard]" by auto
  have "may_become (qlab (ls_query s) p) (qlab q1 p)"
    using receive_cond(2) [OF assms(1) chan] by (auto simp: lab1 update_labels_def)
  moreover have "p \<in> set ps \<Longrightarrow> qlab q1 p = Some PeerHeard"
    using ps by (auto simp: in_states_def)
  ultimately show ?thesis
    unfolding run(2) lab' by (cases "qlab (ls_query s) p"; cases "the (qlab (ls_query s) p)") auto
qed

text \<open>Which peers a list of actions reports on; a worker reports once, and its peer is then never
  queried again.\<close>

definition reported :: "lookup_action list \<Rightarrow> peer_id list" where
  "reported as = concat (map (\<lambda>a. case a of Report p env \<Rightarrow> [p] | _ \<Rightarrow> []) as)"

lemma reported_simps [simp]: "reported [] = []" "reported (as @ bs) = reported as @ reported bs"
  "reported (Report p env # as) = p # reported as" "reported (Receive stop # as) = reported as"
  "reported (Cancel stop # as) = reported as"
  by (simp_all add: reported_def)

definition queried_before :: "lookup_sys \<Rightarrow> peer_id \<Rightarrow> bool" where
  "queried_before s p \<longleftrightarrow> p \<notin> set (ls_inflight s) \<and>
     qlab (ls_query s) p \<in> {Some PeerWaiting, Some PeerQueried, Some PeerUnreachable}"

lemma inflight_waiting:
  "sys_inv cfg s \<Longrightarrow> p \<in> set (ls_inflight s) \<Longrightarrow> qlab (ls_query s) p = Some PeerWaiting"
  by (auto simp: sys_inv_def outstanding_def in_states_def)

lemma inflight_distinct: "sys_inv cfg s \<Longrightarrow> distinct (ls_inflight s)"
  by (auto simp: sys_inv_def outstanding_def)

lemma queried_before_step:
  assumes inv: "sys_inv cfg s" and cfg: "valid_cfg cfg" and step: "lookup_step cfg a s s'"
    and before: "queried_before s p"
  shows "queried_before s' p"
proof -
  have lab: "may_become (qlab (ls_query s) p) (qlab (ls_query s') p)"
    using inv cfg step by (rule step_labels)
  have "p \<notin> set (ls_inflight s')"
  proof (cases a)
    case (Report r env)
    with step before show ?thesis
      by (auto simp: queried_before_def elim!: lookup_reportE dest: notin_set_remove1)
  next
    case (Cancel stop)
    with step obtain q' ps where live: "\<not> q_terminated (ls_query s)"
      and run: "run_iteration cfg stop PathDone (ls_query s) = Some (q', ps)"
      and s': "s' = s\<lparr>ls_query := q', ls_inflight := ls_inflight s @ ps\<rparr>"
      by (auto elim: lookup_cancelE)
    from cancel_Some [OF inv cfg live, of stop] run have "ps = []" by auto
    with s' before show ?thesis by (simp add: queried_before_def)
  next
    case (Receive stop)
    with step obtain up ups q' ps where live: "\<not> q_terminated (ls_query s)"
      and chan: "ls_chan s = up # ups"
      and run: "run_iteration cfg stop (Update up) (ls_query s) = Some (q', ps)"
      and s': "s' = \<lparr>ls_query = q', ls_chan = ups, ls_inflight = ls_inflight s @ ps\<rparr>"
      by (auto elim: lookup_receiveE)
    from receive_Some [OF inv cfg live chan, of stop] run obtain q1 where
      lab1: "qlab q1 = update_labels (lc_self cfg) up (qlab (ls_query s))"
      and ps: "set ps \<subseteq> peers_in q1 [PeerHeard]" by auto
    have "qlab q1 p \<noteq> Some PeerHeard"
      using before by (auto simp: lab1 update_labels_def queried_before_def)
    with ps have "p \<notin> set ps" by (auto simp: in_states_def)
    with s' before show ?thesis by (simp add: queried_before_def)
  qed
  moreover have "qlab (ls_query s') p \<in> {Some PeerWaiting, Some PeerQueried, Some PeerUnreachable}"
    using before lab by (auto simp: queried_before_def)
  ultimately show ?thesis by (simp add: queried_before_def)
qed

lemma exec_reported:
  assumes "lookup_exec cfg s0 as s" and "sys_inv cfg s0" and "valid_cfg cfg"
  shows "distinct (reported as) \<and> (\<forall>p\<in>set (reported as). queried_before s p)"
  using assms
proof (induction rule: lookup_exec.induct)
  case (step as s a s')
  then have IH: "distinct (reported as)" "\<forall>p\<in>set (reported as). queried_before s p" by auto
  have inv: "sys_inv cfg s" using step.hyps(1) step.prems by (rule exec_inv)
  have old: "\<forall>p\<in>set (reported as). queried_before s' p"
    using IH(2) queried_before_step [OF inv step.prems(2) step.hyps(2)] by blast
  show ?case
  proof (cases a)
    case (Report p env)
    with step.hyps(2) have p: "p \<in> set (ls_inflight s)"
      and s': "ls_query s' = ls_query s" "ls_inflight s' = remove1 p (ls_inflight s)"
      by (auto elim: lookup_reportE)
    have "queried_before s' p"
      using inflight_waiting [OF inv p] inflight_distinct [OF inv] by (simp add: queried_before_def s')
    moreover have "p \<notin> set (reported as)"
      using IH(2) p by (auto simp: queried_before_def)
    ultimately show ?thesis using IH(1) old Report by simp
  qed (use IH(1) old in auto)
qed simp

section \<open>Running a list of actions\<close>

text \<open>The step relation as a function of the action, and a run as the fold of it.\<close>

fun lookup_do :: "lookup_cfg \<Rightarrow> lookup_action \<Rightarrow> lookup_sys \<Rightarrow> lookup_sys option" where
  "lookup_do cfg (Report p env) s =
     (if List.member (ls_inflight s) p \<and> int (length (ls_chan s)) < lc_alpha cfg
      then Some (s\<lparr>ls_chan := ls_chan s @ [worker_update cfg (ls_query s) env p],
                   ls_inflight := remove1 p (ls_inflight s)\<rparr>)
      else None)"
| "lookup_do cfg (Receive stop) s =
     (case ls_chan s of
        [] \<Rightarrow> None
      | up # ups \<Rightarrow>
          if q_terminated (ls_query s) then None
          else map_option (\<lambda>(q', ps). \<lparr>ls_query = q', ls_chan = ups, ls_inflight = ls_inflight s @ ps\<rparr>)
                 (run_iteration cfg stop (Update up) (ls_query s)))"
| "lookup_do cfg (Cancel stop) s =
     (if q_terminated (ls_query s) then None
      else map_option (\<lambda>(q', ps). s\<lparr>ls_query := q', ls_inflight := ls_inflight s @ ps\<rparr>)
             (run_iteration cfg stop PathDone (ls_query s)))"

fun lookup_dos :: "lookup_cfg \<Rightarrow> lookup_action list \<Rightarrow> lookup_sys \<Rightarrow> lookup_sys option" where
  "lookup_dos cfg [] s = Some s"
| "lookup_dos cfg (a # as) s = Option.bind (lookup_do cfg a s) (lookup_dos cfg as)"

lemma lookup_do_iff: "lookup_step cfg a s s' \<longleftrightarrow> lookup_do cfg a s = Some s'"
proof (cases a)
  case (Report p env)
  then show ?thesis by (auto simp: lookup_report_iff)
next
  case (Receive stop)
  then show ?thesis
    by (auto elim!: lookup_receiveE intro!: lookup_step.receive split: list.splits if_splits)
next
  case (Cancel stop)
  then show ?thesis
    by (auto elim!: lookup_cancelE intro!: lookup_step.cancel split: if_splits)
qed

lemma lookup_dos_append:
  "lookup_dos cfg (as @ bs) s = Option.bind (lookup_dos cfg as s) (lookup_dos cfg bs)"
  by (induction as arbitrary: s) (auto simp: Option.bind_assoc cong: Option.bind_cong)

lemma lookup_exec_do: "lookup_exec cfg s0 as s \<longleftrightarrow> lookup_dos cfg as s0 = Some s"
proof
  show "lookup_exec cfg s0 as s \<Longrightarrow> lookup_dos cfg as s0 = Some s"
    by (induction rule: lookup_exec.induct) (auto simp: lookup_dos_append lookup_do_iff)
  show "lookup_dos cfg as s0 = Some s \<Longrightarrow> lookup_exec cfg s0 as s"
    by (induction as arbitrary: s rule: rev_induct)
      (auto simp: lookup_dos_append lookup_do_iff bind_eq_Some_conv intro: lookup_exec.intros)
qed

section \<open>A concrete lookup\<close>

text \<open>
  Two seeds, one of which answers with a closer peer and one of which cannot be dialled; the closer
  peer is queried and the lookup completes.
\<close>

definition demo_cfg :: lookup_cfg where
  "demo_cfg = \<lparr>lc_self = ''self'', lc_alpha = 2, lc_beta = 1, lc_bucketSize = 2,
     lc_dist = (\<lambda>p k. length p), lc_ConvertKey = id, lc_ConvertPeerID = id\<rparr>"

definition demo_query :: query where
  "demo_query = \<lparr>q_id = ''u'', q_key = ''k'', q_seedPeers = [''ccc'', ''bb''],
     q_maxPeersPerIPGroup = 0, q_peerTimes = [], q_queryPeers = NewQueryPeerset ''k'',
     q_terminated = False, q_events = []\<rparr>"

definition demo_env :: query_env where
  "demo_env = \<lparr>qe_Connected = (\<lambda>p. p = ''bb''), qe_ConnectFails = (\<lambda>p. p = ''ccc''),
     qe_dialCtxErr = False,
     qe_queryFn = (\<lambda>p. Some (if p = ''bb'' then [\<lparr>ai_ID = ''a'', ai_Addrs = [''x'']\<rparr>] else [])),
     qe_queryCtxErr = False, qe_duration = 5, qe_PeerstoreAddrs = (\<lambda>p. []),
     qe_queryPeerFilter = (\<lambda>ai. True), qe_toIP = (\<lambda>a. None), qe_groupKey = id\<rparr>"

definition demo_run :: "lookup_action list" where
  "demo_run = (let go = Receive (\<lambda>qp. False) in
     [go, Report ''bb'' demo_env, Report ''ccc'' demo_env, go, go, Report ''a'' demo_env, go])"

definition demo_final :: lookup_sys where
  "demo_final = the (lookup_dos demo_cfg demo_run (init_lookup demo_cfg demo_query))"

definition demo_middle :: lookup_sys where
  "demo_middle = the (lookup_dos demo_cfg (take 2 demo_run) (init_lookup demo_cfg demo_query))"

lemma demo_exec:
  "lookup_exec demo_cfg (init_lookup demo_cfg demo_query) demo_run demo_final"
  "lookup_exec demo_cfg (init_lookup demo_cfg demo_query) (take 2 demo_run) demo_middle"
proof -
  have "lookup_dos demo_cfg demo_run (init_lookup demo_cfg demo_query) \<noteq> None"
    "lookup_dos demo_cfg (take 2 demo_run) (init_lookup demo_cfg demo_query) \<noteq> None" by code_simp+
  then show "lookup_exec demo_cfg (init_lookup demo_cfg demo_query) demo_run demo_final"
    "lookup_exec demo_cfg (init_lookup demo_cfg demo_query) (take 2 demo_run) demo_middle"
    by (auto simp: lookup_exec_do demo_final_def demo_middle_def)
qed

lemma demo_start: "startQuery ''u'' ''k'' [''ccc'', ''bb''] None = Inr demo_query" "valid_cfg demo_cfg"
  by (simp_all add: startQuery_def demo_query_def valid_cfg_def demo_cfg_def)

lemma demo_middle_facts: "\<not> q_terminated (ls_query demo_middle)" "ls_inflight demo_middle = [''ccc'']"
  "length (ls_chan demo_middle) = 1"
  by code_simp+

lemma demo_final_facts: "lookup_done demo_final" "q_terminated (ls_query demo_final)"
  "labels (q_queryPeers (ls_query demo_final)) ''a'' = Some PeerQueried"
  by code_simp+

section \<open>Properties\<close>

text \<open>What every reachable state of a started lookup has.\<close>

lemma lookup_reachable_inv:
  assumes "valid_cfg cfg" and "startQuery uid target seeds d = Inr q"
    and "lookup_exec cfg (init_lookup cfg q) as s"
  shows "sys_inv cfg s"
  using exec_inv [OF assms(3) sys_inv_init [OF assms(1)] assms(1)] startQuery_fresh [OF assms(2)] by blast

text \<open>C1: No reachable state of a lookup panics: whatever the peers answered, in whatever order their
  reports came, the next iteration on the first update in the channel, the iteration on a
  cancellation, and the construction of the result all succeed.\<close>

theorem lookup_never_panics:
  assumes "valid_cfg cfg" and "startQuery uid target seeds d = Inr q"
    and "lookup_exec cfg (init_lookup cfg q) as s"
  shows "(\<not> q_terminated (ls_query s) \<longrightarrow>
      (\<forall>stop. run_iteration cfg stop PathDone (ls_query s) \<noteq> None) \<and>
      (\<forall>up ups stop. ls_chan s = up # ups \<longrightarrow> run_iteration cfg stop (Update up) (ls_query s) \<noteq> None)) \<and>
    constructLookupResult cfg (ls_query s) \<noteq> None"
proof -
  have inv: "sys_inv cfg s" using assms by (rule lookup_reachable_inv)
  then have "qinv cfg (ls_query s)" by (simp add: sys_inv_def)
  from constructLookupResult_Some [OF this] assms(1)
  have "constructLookupResult cfg (ls_query s) \<noteq> None" by (auto simp: valid_cfg_def)
  moreover have "run_iteration cfg stop PathDone (ls_query s) \<noteq> None" if "\<not> q_terminated (ls_query s)" for stop
    using cancel_Some [OF inv assms(1) that, of stop] by auto
  moreover have "run_iteration cfg stop (Update up) (ls_query s) \<noteq> None"
    if "\<not> q_terminated (ls_query s)" "ls_chan s = up # ups" for stop up ups
    using receive_Some [OF inv assms(1) that, of stop] by auto
  ultimately show ?thesis by blast
qed

theorem lookup_never_panics_witness:
  "run_iteration demo_cfg (\<lambda>qp. False) PathDone (ls_query demo_middle) \<noteq> None"
  using lookup_never_panics [OF demo_start(2,1) demo_exec(2)] demo_middle_facts by blast

text \<open>C5: At most \<open>\<alpha>\<close> peers are queried at a time, each by one worker and never the node itself, the
  waiting peers are exactly those with a worker or an unread report, and a worker that has an answer
  can always send it: the channel of capacity \<open>\<alpha>\<close> has room.\<close>

theorem lookup_concurrency_bounded:
  assumes "valid_cfg cfg" and "startQuery uid target seeds d = Inr q"
    and "lookup_exec cfg (init_lookup cfg q) as s"
  shows "int (length (ls_inflight s)) \<le> lc_alpha cfg \<and> distinct (ls_inflight s) \<and>
    lc_self cfg \<notin> set (ls_inflight s) \<and>
    int (card {p. GetState p (q_queryPeers (ls_query s)) = Some PeerWaiting}) \<le> lc_alpha cfg \<and>
    (\<forall>p. GetState p (q_queryPeers (ls_query s)) = Some PeerWaiting \<longleftrightarrow>
       p \<in> set (ls_inflight s) \<or> (\<exists>up\<in>set (ls_chan s). p \<in> set (up_queried up @ up_unreachable up))) \<and>
    (ls_inflight s \<noteq> [] \<longrightarrow> int (length (ls_chan s)) < lc_alpha cfg)"
proof -
  have inv: "sys_inv cfg s" using assms by (rule lookup_reachable_inv)
  then have qi: "qinv cfg (ls_query s)" by (simp add: sys_inv_def)
  have len: "int (length (ls_chan s)) + int (length (ls_inflight s)) \<le> lc_alpha cfg"
    using inv by (simp add: sys_inv_def)
  have waiting: "qlab (ls_query s) p = Some PeerWaiting \<longleftrightarrow> p \<in> set (outstanding s)" for p
    using inv by (auto simp: sys_inv_def in_states_def)
  have "lc_self cfg \<notin> set (ls_inflight s)"
    using inflight_waiting [OF inv] inv by (auto simp: sys_inv_def)
  moreover have "int (card {p. qlab (ls_query s) p = Some PeerWaiting}) \<le> lc_alpha cfg"
    using sys_inv_waiting(2) [OF inv] by (simp add: in_states_def)
  moreover have "ls_inflight s \<noteq> [] \<longrightarrow> int (length (ls_chan s)) < lc_alpha cfg"
    using len by (cases "ls_inflight s") auto
  ultimately show ?thesis
    using len waiting inflight_distinct [OF inv] by (auto simp: GetState_labels [OF qi] outstanding_def)
qed

theorem lookup_concurrency_bounded_witness:
  "int (length (ls_chan demo_middle)) < lc_alpha demo_cfg"
  using lookup_concurrency_bounded [OF demo_start(2,1) demo_exec(2)] demo_middle_facts by simp

text \<open>C4: A lookup never gets stuck: as long as it is not over, either some worker is running, and
  each can report at once whatever its network said, or the loop has an update to process and can.\<close>

theorem lookup_progress:
  assumes "valid_cfg cfg" and "startQuery uid target seeds d = Inr q"
    and "lookup_exec cfg (init_lookup cfg q) as s" and "\<not> lookup_done s"
  shows "(ls_inflight s \<noteq> [] \<and>
      (\<forall>p\<in>set (ls_inflight s). \<forall>env. \<exists>s'. lookup_step cfg (Report p env) s s')) \<or>
    (ls_inflight s = [] \<and> (\<forall>stop. \<exists>s'. lookup_step cfg (Receive stop) s s'))"
proof -
  have inv: "sys_inv cfg s" using assms(1-3) by (rule lookup_reachable_inv)
  have len: "int (length (ls_chan s)) + int (length (ls_inflight s)) \<le> lc_alpha cfg"
    using inv by (simp add: sys_inv_def)
  show ?thesis
  proof (cases "ls_inflight s = []")
    case False
    moreover from this have "0 < length (ls_inflight s)" by simp
    with len have "int (length (ls_chan s)) < lc_alpha cfg" by linarith
    ultimately show ?thesis by (auto simp: lookup_report_iff)
  next
    case True
    with assms(4) have live: "\<not> q_terminated (ls_query s)" by (simp add: lookup_done_def)
    with True inv obtain up ups where chan: "ls_chan s = up # ups"
      by (cases "ls_chan s") (auto simp: sys_inv_def)
    have "\<exists>s'. lookup_step cfg (Receive stop) s s'" for stop
      using receive_Some [OF inv assms(1) live chan, of stop] lookup_step.receive [OF live chan] by blast
    with True show ?thesis by blast
  qed
qed

theorem lookup_progress_witness:
  "\<exists>s'. lookup_step demo_cfg (Report ''ccc'' demo_env) demo_middle s'"
  using lookup_progress [OF demo_start(2,1) demo_exec(2)] demo_middle_facts
  by (auto simp: lookup_done_def)

text \<open>C3: A lookup ends: if all the peers it is told of come from a finite set \<open>U\<close>, no execution has
  more than \<open>4 |U| + 2\<close> steps, so a longest one has reached a state that is over.\<close>

theorem lookup_terminates:
  assumes "valid_cfg cfg" and "startQuery uid target seeds d = Inr q"
    and "lookup_exec cfg (init_lookup cfg q) as s"
    and "finite U" and "set seeds \<subseteq> U"
    and "\<forall>p env. Report p env \<in> set as \<longrightarrow> env_within U env"
  shows "length as \<le> 4 * card U + 2 \<and>
    ((\<forall>a s'. \<not> lookup_step cfg a s s') \<longrightarrow> lookup_done s)"
proof -
  have fresh: "fresh_query q" "q_seedPeers q = seeds" using startQuery_fresh [OF assms(2)] by auto
  have inv0: "sys_inv cfg (init_lookup cfg q)" using assms(1) fresh(1) by (rule sys_inv_init)
  have "chan_within U (init_lookup cfg q)"
    using assms(5) fresh(2) by (simp add: chan_within_def init_lookup_def seed_update_def)
  moreover have "action_within U a" if "a \<in> set as" for a
    using assms(6) that by (cases a) auto
  ultimately have "length as + lookup_measure U s \<le> lookup_measure U (init_lookup cfg q)"
    using exec_measure [OF assms(3) inv0 assms(1) _ assms(4)] by blast
  moreover have "lookup_measure U (init_lookup cfg q) = 4 * card U + 2"
    using fresh by (simp add: lookup_measure_def init_lookup_def fresh_query_def in_states_def)
  moreover have "lookup_done s" if stuck: "\<forall>a s'. \<not> lookup_step cfg a s s'"
  proof (rule ccontr)
    assume not_done: "\<not> lookup_done s"
    have inv: "sys_inv cfg s" using assms(1-3) by (rule lookup_reachable_inv)
    show False
    proof (cases "ls_inflight s")
      case (Cons p ps)
      with inv have "int (length (ls_chan s)) < lc_alpha cfg" by (simp add: sys_inv_def)
      with Cons stuck show False using lookup_step.report [of p s cfg] by auto
    next
      case Nil
      with not_done have live: "\<not> q_terminated (ls_query s)" by (simp add: lookup_done_def)
      with cancel_Some [OF inv assms(1) live] stuck show False
        using lookup_step.cancel [OF live] by blast
    qed
  qed
  ultimately show ?thesis by simp
qed

theorem lookup_terminates_witness:
  "length demo_run \<le> 4 * card {''a'', ''bb'', ''ccc''} + 2"
proof -
  have "\<forall>p env. Report p env \<in> set demo_run \<longrightarrow> env_within {''a'', ''bb'', ''ccc''} env"
    by (auto simp: demo_run_def Let_def env_within_def demo_env_def)
  then show ?thesis
    using lookup_terminates [OF demo_start(2,1) demo_exec(1), of "{''a'', ''bb'', ''ccc''}"] by simp
qed

text \<open>C2: A lookup publishes exactly one termination event, when it terminates, and its reason is true
  of the peers: for completed, the \<open>\<beta>\<close> closest peers that are not unreachable were all queried; for
  starvation, nobody is left to query or to wait for. Before that it publishes none.\<close>

theorem lookup_end_reason:
  assumes "valid_cfg cfg" and "startQuery uid target seeds d = Inr q"
    and "lookup_exec cfg (init_lookup cfg q) as s"
  shows "if q_terminated (ls_query s)
    then \<exists>r. map lt_Reason (List.map_filter le_Terminate (q_events (ls_query s))) = [r] \<and>
      (r = LookupCompleted \<longrightarrow> beta_closest_queried cfg (q_queryPeers (ls_query s))) \<and>
      (r = LookupStarvation \<longrightarrow> starved (q_queryPeers (ls_query s)))
    else List.map_filter le_Terminate (q_events (ls_query s)) = []"
proof -
  have "end_reason_ok cfg (ls_query s)"
    using lookup_reachable_inv [OF assms] by (simp add: sys_inv_def)
  then show ?thesis
    by (auto simp: end_reason_ok_def term_reasons_def)
qed

theorem lookup_end_reason_witness:
  "\<exists>r. map lt_Reason (List.map_filter le_Terminate (q_events (ls_query demo_final))) = [r]"
  using lookup_end_reason [OF demo_start(2,1) demo_exec(1)] demo_final_facts(2) by auto

text \<open>A lookup asks no peer twice: the workers of one execution report on distinct peers, and none
  of these has a worker again.\<close>

theorem lookup_queries_once:
  assumes "valid_cfg cfg" and "startQuery uid target seeds d = Inr q"
    and "lookup_exec cfg (init_lookup cfg q) as s"
  shows "distinct (reported as) \<and> set (reported as) \<inter> set (ls_inflight s) = {}"
  using exec_reported [OF assms(3) sys_inv_init [OF assms(1)] assms(1)] startQuery_fresh [OF assms(2)]
  by (auto simp: queried_before_def)

theorem lookup_queries_once_witness:
  "distinct (reported demo_run) \<and> length (reported demo_run) = 3"
proof -
  have "length (reported demo_run) = 3" by (simp add: demo_run_def Let_def)
  then show ?thesis using lookup_queries_once [OF demo_start(2,1) demo_exec(1)] by simp
qed

text \<open>Along every step of a lookup each peer's state moves only forward, from heard to waiting to
  queried or unreachable, and the last two are final.\<close>

theorem lookup_states_forward:
  assumes "valid_cfg cfg" and "startQuery uid target seeds d = Inr q"
    and "lookup_exec cfg (init_lookup cfg q) as s" and "lookup_step cfg a s s'"
  shows "may_become (GetState p (q_queryPeers (ls_query s))) (GetState p (q_queryPeers (ls_query s')))"
proof -
  have inv: "sys_inv cfg s" using assms(1-3) by (rule lookup_reachable_inv)
  have inv': "sys_inv cfg s'" using inv assms(1,4) by (rule step_inv)
  from inv inv' have "qinv cfg (ls_query s)" "qinv cfg (ls_query s')" by (simp_all add: sys_inv_def)
  with step_labels [OF inv assms(1,4)] show ?thesis by (simp add: GetState_labels)
qed

theorem lookup_states_forward_witness:
  "\<exists>s'. lookup_step demo_cfg (Report ''ccc'' demo_env) demo_middle s' \<and>
     may_become (GetState ''ccc'' (q_queryPeers (ls_query demo_middle)))
       (GetState ''ccc'' (q_queryPeers (ls_query s')))"
proof -
  have "lookup_do demo_cfg (Report ''ccc'' demo_env) demo_middle \<noteq> None"
    by (simp add: demo_middle_facts demo_cfg_def)
  then obtain s' where "lookup_step demo_cfg (Report ''ccc'' demo_env) demo_middle s'"
    unfolding lookup_do_iff by blast
  with lookup_states_forward [OF demo_start(2,1) demo_exec(2) this] show ?thesis by blast
qed

end
