(* ===== verification/Go_Std.thy ===== *)
theory Go_Std
  imports DHT_Prelude
begin

unbundle bit_operations_syntax

text \<open>
  The pieces of Go's standard library the code computes with: instants and durations of package
  \<^verbatim>\<open>time\<close>, and the variable-length integers of \<^verbatim>\<open>encoding/binary\<close>.
\<close>

section \<open>Time\<close>

text \<open>
  An instant is its number of nanoseconds since the Unix epoch. A \<^verbatim>\<open>time.Duration\<close> is a signed 64-bit
  number of nanoseconds; \<^verbatim>\<open>Sub\<close> saturates, \<^verbatim>\<open>UnixNano\<close> wraps.
\<close>

type_synonym instant = int

definition time_Sub :: "instant \<Rightarrow> instant \<Rightarrow> duration" where
  "time_Sub t u = (let d = t - u in
     if d > 9223372036854775807 then 9223372036854775807
     else if d < -9223372036854775808 then word_of_int (-9223372036854775808)
     else word_of_int d)"

definition UnixNano :: "instant \<Rightarrow> 64 word" where
  "UnixNano t = word_of_int t"

definition time_Unix0 :: "64 word \<Rightarrow> instant" where
  "time_Unix0 nsec = sint nsec"

abbreviation hours :: "int \<Rightarrow> duration" where
  "hours n \<equiv> word_of_int (n * 3600000000000)"

lemma sint_of_int64:
  assumes "-9223372036854775808 \<le> x" and "x \<le> 9223372036854775807"
  shows "sint (word_of_int x :: 64 word) = x"
  using assms by (simp add: signed_of_int signed_take_bit_int_eq_self)

lemma time_Unix0_UnixNano:
  "-9223372036854775808 \<le> t \<Longrightarrow> t \<le> 9223372036854775807 \<Longrightarrow> time_Unix0 (UnixNano t) = t"
  by (simp add: time_Unix0_def UnixNano_def sint_of_int64)

lemma sint_time_Sub:
  "sint (time_Sub t u) = min 9223372036854775807 (max (-9223372036854775808) (t - u))"
proof -
  let ?d = "t - u"
  consider "?d > 9223372036854775807" | "?d < -9223372036854775808"
    | "-9223372036854775808 \<le> ?d" "?d \<le> 9223372036854775807" by linarith
  then show ?thesis
  proof cases
    case 3
    then have "sint (word_of_int ?d :: 64 word) = ?d" by (rule sint_of_int64)
    with 3 show ?thesis by (simp add: time_Sub_def Let_def del: of_int_diff)
  qed (simp_all add: time_Sub_def Let_def sint_of_int64)
qed

text \<open>Comparing a saturated difference with a bound below the largest duration is exact.\<close>

lemma time_Sub_greater:
  assumes "sint d < 9223372036854775807"
  shows "word_sless d (time_Sub t u) \<longleftrightarrow> sint d < t - u"
  using assms sint_ge [of d] by (auto simp: word_sless_alt sint_time_Sub)

section \<open>Variable-length integers\<close>

text \<open>
  \<^verbatim>\<open>binary.PutVarint\<close> writes seven bits per byte, least significant first, after the zig-zag map
  of signed to unsigned numbers. \<^verbatim>\<open>binary.Varint\<close> returns the number and how many bytes it read: 0
  when the buffer is too short, negative when the number does not fit into 64 bits.
\<close>

fun put_uvarint :: "nat \<Rightarrow> bytes" where
  "put_uvarint n =
     (if n < 128 then [char_of n] else char_of (n mod 128 + 128) # put_uvarint (n div 128))"

declare put_uvarint.simps [simp del]

definition PutVarint :: "64 word \<Rightarrow> bytes" where
  "PutVarint x =
     (let ux = push_bit 1 x in put_uvarint (unat (if word_sless x 0 then NOT ux else ux)))"

fun uvarint_from :: "nat \<Rightarrow> nat \<Rightarrow> bytes \<Rightarrow> nat \<times> int" where
  "uvarint_from i x [] = (0, 0)"
| "uvarint_from i x (c # cs) =
     (let b = of_char c
      in if i = 10 then (0, - (int i + 1))
         else if b < 128
         then (if i = 9 \<and> b > 1 then (0, - (int i + 1)) else (x + b * 2 ^ (7 * i), int i + 1))
         else uvarint_from (i + 1) (x + (b mod 128) * 2 ^ (7 * i)) cs)"

definition Varint :: "bytes \<Rightarrow> 64 word \<times> int" where
  "Varint buf =
     (let (u, n) = uvarint_from 0 0 buf; ux = of_nat u :: 64 word; x = drop_bit 1 ux
      in (if ux AND 1 \<noteq> 0 then NOT x else x, n))"

lemma uvarint_put:
  "i \<le> 9 \<Longrightarrow> n < 2 ^ (64 - 7 * i) \<Longrightarrow>
   uvarint_from i x (put_uvarint n @ rest) =
     (x + n * 2 ^ (7 * i), int i + int (length (put_uvarint n)))"
proof (induction n arbitrary: i x rule: put_uvarint.induct)
  case (1 n)
  show ?case
  proof (cases "n < 128")
    case True
    have "i = 9 \<Longrightarrow> n \<le> 1" using 1(3) by simp
    with True 1(2) show ?thesis by (auto simp: put_uvarint.simps [of n])
  next
    case False
    have i: "i < 9"
    proof (rule ccontr)
      assume "\<not> i < 9"
      with 1(2) have "i = 9" by simp
      with 1(3) False show False by simp
    qed
    have pow: "(2::nat) ^ (64 - 7 * i) = 128 * 2 ^ (64 - 7 * (i + 1))"
    proof -
      have "64 - 7 * i = 7 + (64 - 7 * (i + 1))" using i by simp
      then show ?thesis by (simp only: power_add) simp
    qed
    have small: "n div 128 < 2 ^ (64 - 7 * (i + 1))"
      using 1(3) unfolding pow by (simp add: less_mult_imp_div_less mult.commute)
    have byte: "of_char (char_of (n mod 128 + 128) :: char) = n mod 128 + 128"
      by (simp add: of_char_of)
    have "uvarint_from i x (put_uvarint n @ rest) =
      uvarint_from (i + 1) (x + (n mod 128) * 2 ^ (7 * i)) (put_uvarint (n div 128) @ rest)"
      using False i by (simp add: put_uvarint.simps [of n] byte)
    also have "\<dots> = (x + (n mod 128) * 2 ^ (7 * i) + (n div 128) * 2 ^ (7 * (i + 1)),
        int (i + 1) + int (length (put_uvarint (n div 128))))"
      using i small by (intro 1(1) [OF False]) simp_all
    also have "x + (n mod 128) * 2 ^ (7 * i) + (n div 128) * 2 ^ (7 * (i + 1)) = x + n * 2 ^ (7 * i)"
    proof -
      have "(2::nat) ^ (7 * (i + 1)) = 128 * 2 ^ (7 * i)" by (simp add: power_add)
      then have "(n mod 128) * 2 ^ (7 * i) + (n div 128) * 2 ^ (7 * (i + 1)) =
          (n mod 128 + 128 * (n div 128)) * 2 ^ (7 * i)"
        by (simp only: add_mult_distrib mult.assoc mult.left_commute)
      also have "n mod 128 + 128 * (n div 128) = n" by simp
      finally show ?thesis by simp
    qed
    finally show ?thesis using False by (simp add: put_uvarint.simps [of n])
  qed
qed

lemma zigzag: "(let ux = (if word_sless x 0 then NOT (push_bit 1 x) else push_bit 1 x); y = drop_bit 1 ux
   in if ux AND 1 \<noteq> 0 then NOT y else y) = (x :: 64 word)"
proof (cases "word_sless x 0")
  case True
  then have top: "bit x 63" using bit_last_iff [of x] by (simp add: word_sless_alt)
  have "NOT (push_bit 1 x) AND 1 \<noteq> (0 :: 64 word)"
  proof -
    have "odd (NOT (push_bit 1 x))" by (simp add: even_not_iff)
    then show ?thesis unfolding and_one_eq odd_iff_mod_2_eq_one by (metis one_neq_zero)
  qed
  moreover have "NOT (drop_bit 1 (NOT (push_bit 1 x))) = x"
  proof (rule bit_word_eqI)
    fix n assume n: "n < LENGTH(64)"
    show "bit (NOT (drop_bit 1 (NOT (push_bit 1 x)))) n = bit x n"
      using n top by (cases "n = 63") (auto simp: bit_not_iff bit_drop_bit_eq mult.commute [of x 2] bit_double_iff)
  qed
  ultimately show ?thesis using True by (simp add: Let_def)
next
  case False
  then have top: "\<not> bit x 63" using bit_last_iff [of x] by (simp add: word_sless_alt)
  have "even (push_bit 1 x)" by simp
  then have "push_bit 1 x AND 1 = (0 :: 64 word)" unfolding and_one_eq even_iff_mod_2_eq_zero .
  moreover have "drop_bit 1 (push_bit 1 x) = x"
  proof (rule bit_word_eqI)
    fix n assume n: "n < LENGTH(64)"
    show "bit (drop_bit 1 (push_bit 1 x)) n = bit x n"
      using n top by (cases "n = 63") (auto simp: bit_drop_bit_eq mult.commute [of x 2] bit_double_iff)
  qed
  ultimately show ?thesis using False by (simp add: Let_def)
qed

lemma Varint_PutVarint:
  "Varint (PutVarint x @ rest) = (x, int (length (PutVarint x)))"
proof -
  define ux where "ux = (if word_sless x 0 then NOT (push_bit 1 x) else push_bit 1 x)"
  have "unat ux < 2 ^ (64 - 7 * 0)" using unsigned_less [of ux, where ?'a = nat] by simp
  from uvarint_put [OF _ this, of 0 rest]
  have "uvarint_from 0 0 (put_uvarint (unat ux) @ rest) = (unat ux, int (length (put_uvarint (unat ux))))"
    by simp
  moreover have "PutVarint x = put_uvarint (unat ux)"
    unfolding PutVarint_def Let_def ux_def by simp
  moreover have "(let y = drop_bit 1 ux in if ux AND 1 \<noteq> 0 then NOT y else y) = x"
    using zigzag [of x] by (simp only: Let_def ux_def)
  ultimately show ?thesis
    by (auto simp: Varint_def Let_def split: if_splits)
qed

lemma PutVarint_pos: "0 < length (PutVarint x)"
  by (simp add: PutVarint_def Let_def put_uvarint.simps [of "unat _"])

lemma put_uvarint_length: "n < 128 ^ k \<Longrightarrow> 0 < k \<Longrightarrow> length (put_uvarint n) \<le> k"
proof (induction n arbitrary: k rule: put_uvarint.induct)
  case (1 n)
  show ?case
  proof (cases "n < 128")
    case False
    with 1(2,3) obtain k' where k: "k = Suc k'" "0 < k'"
      by (cases k; cases "k - 1") auto
    with 1(2) have "n div 128 < 128 ^ k'" by (simp add: less_mult_imp_div_less mult.commute)
    from 1(1) [OF False this k(2)] False k show ?thesis by (simp add: put_uvarint.simps [of n])
  qed (use 1(3) in \<open>simp add: put_uvarint.simps [of n]\<close>)
qed

text \<open>The code's 16-byte buffer is long enough for any value.\<close>

lemma PutVarint_length: "length (PutVarint x) \<le> 10"
proof -
  have "unat y < 128 ^ 10" for y :: "64 word"
    using unsigned_less [of y, where ?'a = nat] by (rule less_trans) simp
  then show ?thesis by (simp add: PutVarint_def Let_def put_uvarint_length)
qed

end
