(* ===== verification/Datastore.thy ===== *)
theory Datastore
  imports Go_Std
begin

text \<open>
  What the code relies on of two third-party packages: the datastore
  (\<^verbatim>\<open>go-datastore\<close> behind \<^verbatim>\<open>autobatch\<close>) and the LRU cache (\<^verbatim>\<open>golang-lru\<close>). Their operations
  are fields of a record that the definitions take as an argument; their documented contracts are
  predicates, the named hypotheses of the theorems. A store kept in memory and an unbounded cache
  satisfy them.
\<close>

section \<open>Datastore\<close>

text \<open>\<^verbatim>\<open>errors.Is(err, ErrNotFound)\<close> also sees a wrapped error; \<^verbatim>\<open>err == ErrNotFound\<close> does not.\<close>

datatype ds_error = DsNotFound | DsWrappedNotFound | DsOther

definition is_not_found :: "ds_error \<Rightarrow> bool" where
  "is_not_found e \<longleftrightarrow> e \<noteq> DsOther"

datatype query_result = QErr ds_error | QEntry string bytes

record 'd ds_ops =
  ds_put :: "string \<Rightarrow> bytes \<Rightarrow> 'd \<Rightarrow> ds_error option \<times> 'd"
  ds_get :: "string \<Rightarrow> 'd \<Rightarrow> ds_error + bytes"
  ds_delete :: "string \<Rightarrow> 'd \<Rightarrow> ds_error option \<times> 'd"
  ds_query :: "string \<Rightarrow> 'd \<Rightarrow> ds_error + query_result list"
  ds_flush :: "'d \<Rightarrow> ds_error option \<times> 'd"

text \<open>
  A query with prefix \<open>p\<close> is for the keys below \<open>p\<close> in the key hierarchy; a trailing slash of the
  prefix does not count.
\<close>

definition strip_slash :: "string \<Rightarrow> string" where
  "strip_slash p = (if p \<noteq> [] \<and> last p = CHR ''/'' then butlast p else p)"

definition below :: "string \<Rightarrow> string \<Rightarrow> bool" where
  "below p k \<longleftrightarrow> (\<exists>s. k = strip_slash p @ ''/'' @ s)"

text \<open>
  The contract over the contents of a store: a successful put or delete changes its key only, a
  failed one nothing; a get returns the value; a query returns entries of the store below its
  prefix, every one of them unless it reports an error, each key once.
\<close>

definition datastore_ok :: "'d ds_ops \<Rightarrow> ('d \<Rightarrow> string \<Rightarrow> bytes option) \<Rightarrow> bool" where
  "datastore_ok ops contents \<longleftrightarrow>
     (\<forall>k v d. contents (snd (ds_put ops k v d)) =
        (if fst (ds_put ops k v d) = None then (contents d)(k \<mapsto> v) else contents d)) \<and>
     (\<forall>k d. contents (snd (ds_delete ops k d)) =
        (if fst (ds_delete ops k d) = None then (contents d)(k := None) else contents d)) \<and>
     (\<forall>d. contents (snd (ds_flush ops d)) = contents d) \<and>
     (\<forall>k v d. ds_get ops k d = Inr v \<longrightarrow> contents d k = Some v) \<and>
     (\<forall>k d. ds_get ops k d = Inl DsNotFound \<longrightarrow> contents d k = None) \<and>
     (\<forall>p d rs. ds_query ops p d = Inr rs \<longrightarrow>
        (\<forall>k v. QEntry k v \<in> set rs \<longrightarrow> contents d k = Some v \<and> below p k) \<and>
        ((\<forall>e. QErr e \<notin> set rs) \<longrightarrow>
           (\<forall>k v. contents d k = Some v \<and> below p k \<longrightarrow> QEntry k v \<in> set rs)))"

lemma ds_put_ok:
  assumes "datastore_ok ops contents" and "ds_put ops k v d = (e, d')"
  shows "contents d' = (if e = None then (contents d)(k \<mapsto> v) else contents d)"
  using assms unfolding datastore_ok_def by (metis fst_conv snd_conv)

lemma ds_delete_ok:
  assumes "datastore_ok ops contents" and "ds_delete ops k d = (e, d')"
  shows "contents d' = (if e = None then (contents d)(k := None) else contents d)"
  using assms unfolding datastore_ok_def by (metis fst_conv snd_conv)

lemma ds_delete_other:
  assumes "datastore_ok ops contents" and "ds_delete ops k d = (e, d')" and "k' \<noteq> k"
  shows "contents d' k' = contents d k'"
  using ds_delete_ok [OF assms(1,2)] assms(3) by auto

lemma ds_delete_sub:
  assumes "datastore_ok ops contents" and "ds_delete ops k d = (e, d')" and "contents d' k' = Some v"
  shows "contents d k' = Some v"
  using ds_delete_ok [OF assms(1,2)] assms(3) by (auto split: if_splits)

lemma ds_get_ok:
  assumes "datastore_ok ops contents"
  shows "ds_get ops k d = Inr v \<Longrightarrow> contents d k = Some v"
    and "ds_get ops k d = Inl DsNotFound \<Longrightarrow> contents d k = None"
  using assms by (simp_all add: datastore_ok_def)

lemma ds_query_sound:
  assumes "datastore_ok ops contents" and "ds_query ops p d = Inr rs" and "QEntry k v \<in> set rs"
  shows "contents d k = Some v" and "below p k"
  using assms unfolding datastore_ok_def by blast+

lemma ds_query_complete:
  assumes "datastore_ok ops contents" and "ds_query ops p d = Inr rs"
    and "\<forall>e. QErr e \<notin> set rs" and "contents d k = Some v" and "below p k"
  shows "QEntry k v \<in> set rs"
  using assms unfolding datastore_ok_def by blast

text \<open>A store in memory.\<close>

definition is_below :: "string \<Rightarrow> string \<Rightarrow> bool" where
  "is_below p k \<longleftrightarrow> take (length (strip_slash p) + 1) k = strip_slash p @ ''/''"

lemma is_below_iff: "is_below p k \<longleftrightarrow> below p k"
proof
  assume "is_below p k"
  then have "k = (strip_slash p @ ''/'') @ drop (length (strip_slash p) + 1) k"
    unfolding is_below_def by (metis append_take_drop_id)
  then have "k = strip_slash p @ ''/'' @ drop (length (strip_slash p) + 1) k" by (simp only: append.assoc)
  then show "below p k" unfolding below_def by (rule exI)
qed (auto simp: below_def is_below_def)

definition mem_ds :: "(string, bytes) gomap ds_ops" where
  "mem_ds = \<lparr>ds_put = (\<lambda>k v d. (None, gm_put k v d)),
     ds_get = (\<lambda>k d. case map_of d k of None \<Rightarrow> Inl DsNotFound | Some v \<Rightarrow> Inr v),
     ds_delete = (\<lambda>k d. (None, gm_del k d)),
     ds_query = (\<lambda>p d. Inr (map (\<lambda>k. QEntry k (the (map_of d k)))
        (filter (is_below p) (remdups (map fst d))))),
     ds_flush = (\<lambda>d. (None, d))\<rparr>"

lemma mem_ds_query:
  "QEntry k v \<in> set (map (\<lambda>k. QEntry k (the (map_of d k))) (filter (is_below p) (remdups (map fst d))))
     \<longleftrightarrow> map_of d k = Some v \<and> below p k"
proof -
  have "k \<in> fst ` set d \<longleftrightarrow> (\<exists>v. map_of d k = Some v)"
    by (metis domIff dom_map_of_conv_image_fst not_None_eq)
  then show ?thesis by (auto simp: is_below_iff)
qed

lemma mem_ds_ok: "datastore_ok mem_ds map_of"
  unfolding datastore_ok_def
proof (intro conjI allI impI)
  fix p k v rs and d :: "(string, bytes) gomap"
  assume q: "ds_query mem_ds p d = Inr rs"
  show "QEntry k v \<in> set rs \<Longrightarrow> map_of d k = Some v" "QEntry k v \<in> set rs \<Longrightarrow> below p k"
    and "map_of d k = Some v \<and> below p k \<Longrightarrow> QEntry k v \<in> set rs"
    using q mem_ds_query [of k v d p] by (auto simp: mem_ds_def)
qed (auto simp: mem_ds_def gomap_simps split: option.splits)

section \<open>LRU cache\<close>

text \<open>
  A cache may forget an entry whenever another is added, but it never invents one. Its values are
  the addresses of the sets it holds, which the code updates in place.
\<close>

record 'c lru_ops =
  lru_Get :: "string \<Rightarrow> 'c \<Rightarrow> nat option \<times> 'c"
  lru_Add :: "string \<Rightarrow> nat \<Rightarrow> 'c \<Rightarrow> 'c"
  lru_Purge :: "'c \<Rightarrow> 'c"

definition lru_ok :: "'c lru_ops \<Rightarrow> ('c \<Rightarrow> string \<Rightarrow> nat option) \<Rightarrow> bool" where
  "lru_ok ops view \<longleftrightarrow>
     (\<forall>k c. fst (lru_Get ops k c) = view c k \<and> view (snd (lru_Get ops k c)) = view c) \<and>
     (\<forall>k v c. view (lru_Add ops k v c) \<subseteq>\<^sub>m (view c)(k \<mapsto> v)) \<and>
     (\<forall>c. view (lru_Purge ops c) = Map.empty)"

lemma lru_Get_ok:
  assumes "lru_ok ops view" and "lru_Get ops k c = (r, c')"
  shows "r = view c k \<and> view c' = view c"
  using assms unfolding lru_ok_def by (metis fst_conv snd_conv)

lemma lru_Add_ok:
  assumes "lru_ok ops view" and "view (lru_Add ops k v c) k' = Some a"
  shows "(k' = k \<and> a = v) \<or> (k' \<noteq> k \<and> view c k' = Some a)"
proof -
  have "view (lru_Add ops k v c) \<subseteq>\<^sub>m (view c)(k \<mapsto> v)"
    using assms(1) by (simp add: lru_ok_def)
  with assms(2) have "((view c)(k \<mapsto> v)) k' = Some a" by (force simp: map_le_def)
  then show ?thesis by (auto split: if_splits)
qed

definition mem_lru :: "(string, nat) gomap lru_ops" where
  "mem_lru = \<lparr>lru_Get = (\<lambda>k c. (map_of c k, c)), lru_Add = gm_put, lru_Purge = (\<lambda>c. [])\<rparr>"

lemma mem_lru_ok: "lru_ok mem_lru map_of"
  by (simp add: lru_ok_def mem_lru_def gomap_simps)

section \<open>A concrete coding of bytes\<close>

text \<open>
  Two letters per byte: a coding without slashes, with which the parameters for base32 and for the
  wire form of records can be instantiated.
\<close>

definition hexchar :: "nat \<Rightarrow> char" where
  "hexchar n = char_of (n + 65)"

fun hexenc :: "bytes \<Rightarrow> string" where
  "hexenc [] = []"
| "hexenc (c # cs) = hexchar (of_char c div 16) # hexchar (of_char c mod 16) # hexenc cs"

fun hexdec :: "string \<Rightarrow> bytes option" where
  "hexdec [] = Some []"
| "hexdec [x] = None"
| "hexdec (x # y # cs) =
     map_option ((#) (char_of ((of_char x - 65) * 16 + (of_char y - 65 :: nat)))) (hexdec cs)"

lemma of_char_hexchar: "n < 16 \<Longrightarrow> of_char (hexchar n) = n + 65"
  by (simp add: hexchar_def)

lemma hexdec_enc: "hexdec (hexenc x) = Some x"
proof (induction x)
  case (Cons c cs)
  have "of_char c < (256 :: nat)" by (rule nat_of_char_less_256)
  then have "of_char c div 16 < (16 :: nat)" by (simp add: less_mult_imp_div_less)
  with Cons show ?case by (simp add: of_char_hexchar)
qed simp

lemma hexenc_noslash: "CHR ''/'' \<notin> set (hexenc x)"
proof (induction x)
  case (Cons c cs)
  have less: "of_char c div 16 < (16 :: nat)" using nat_of_char_less_256 [of c] by (simp add: less_mult_imp_div_less)
  have ne: "CHR ''/'' \<noteq> hexchar n" if "n < 16" for n
  proof
    assume "CHR ''/'' = hexchar n"
    then have "of_char (CHR ''/'') = (of_char (hexchar n) :: nat)" by simp
    with of_char_hexchar [OF that] show False by simp
  qed
  from Cons ne [OF less] ne [of "of_char c mod 16"] show ?case by simp
qed simp

lemma hexenc_ne: "x \<noteq> [] \<Longrightarrow> hexenc x \<noteq> []"
  by (cases x) auto

definition pack3 :: "bytes \<Rightarrow> bytes \<Rightarrow> bytes \<Rightarrow> bytes" where
  "pack3 a b c = hexenc a @ CHR ''/'' # hexenc b @ CHR ''/'' # hexenc c"

definition unpack3 :: "bytes \<Rightarrow> (bytes \<times> bytes \<times> bytes) option" where
  "unpack3 s =
     (let a = takeWhile (\<lambda>c. c \<noteq> CHR ''/'') s; s = drop (length a + 1) s;
          b = takeWhile (\<lambda>c. c \<noteq> CHR ''/'') s; c = drop (length b + 1) s
      in case (hexdec a, hexdec b, hexdec c) of
           (Some a, Some b, Some c) \<Rightarrow> Some (a, b, c)
         | _ \<Rightarrow> None)"

lemma unpack_pack: "unpack3 (pack3 a b c) = Some (a, b, c)"
proof -
  have tw: "takeWhile (\<lambda>c. c \<noteq> CHR ''/'') (hexenc x @ CHR ''/'' # s) = hexenc x" for x s
    using hexenc_noslash [of x] by (subst takeWhile_append2) auto
  show ?thesis by (simp add: unpack3_def pack3_def Let_def tw hexdec_enc)
qed

end
