(* ===== verification/Providers.thy ===== *)
theory Providers
  imports Datastore
begin

text \<open>
  The provider manager (\<^verbatim>\<open>records/providers_manager.go\<close>, \<^verbatim>\<open>records/provider_set.go\<close>): provider
  records in a datastore behind a cache of provider sets, and the goroutine that serves additions,
  reads and the garbage collection of expired records. One turn of its \<^verbatim>\<open>select\<close> loop is
  \<open>pm_step\<close>; a run is a list of events.

  A provider set is shared between the cache and the code by pointer and updated in place: the
  cache holds addresses into \<open>pm_sets\<close>. What the code logs is recorded in \<open>pm_log\<close>, because the
  deprecated copy of this code in \<^verbatim>\<open>providers/providers_manager.go\<close> differs in that alone. The
  datastore, the cache, \<^verbatim>\<open>ds.NewKey\<close> and base32 are third-party: parameters.
\<close>

section \<open>Provider sets\<close>

record providerSet =
  ps_providers :: "peer_id list"
  ps_set :: "(peer_id, instant) gomap"

definition newProviderSet :: providerSet where
  "newProviderSet = \<lparr>ps_providers = [], ps_set = []\<rparr>"

definition setVal :: "peer_id \<Rightarrow> instant \<Rightarrow> providerSet \<Rightarrow> providerSet" where
  "setVal p t ps =
     (let found = gm_has (ps_set ps) p;
          ps = (if \<not> found then ps\<lparr>ps_providers := ps_providers ps @ [p]\<rparr> else ps)
      in ps\<lparr>ps_set := gm_put p t (ps_set ps)\<rparr>)"

section \<open>Keys and values of provider records\<close>

record ('c, 'd) pm_env =
  pe_ds :: "'d ds_ops"
  pe_lru :: "'c lru_ops"
  pe_NewKey :: "string \<Rightarrow> string"
  pe_b32enc :: "bytes \<Rightarrow> string"
  pe_b32dec :: "string \<Rightarrow> bytes option"

definition ProvideValidity :: duration where
  "ProvideValidity = hours 48"

definition ProvidersKeyPrefix :: string where
  "ProvidersKeyPrefix = ''/providers/''"

definition mkProvKey :: "('c, 'd) pm_env \<Rightarrow> bytes \<Rightarrow> string" where
  "mkProvKey env k = ProvidersKeyPrefix @ pe_b32enc env k"

definition mkProvKeyFor :: "('c, 'd) pm_env \<Rightarrow> bytes \<Rightarrow> peer_id \<Rightarrow> string" where
  "mkProvKeyFor env k p = mkProvKey env k @ ''/'' @ pe_b32enc env p"

definition readTimeValue :: "bytes \<Rightarrow> instant option" where
  "readTimeValue data =
     (let (nsec, n) = Varint data in if n \<le> 0 then None else Some (time_Unix0 nsec))"

definition writeProviderEntry :: "('c, 'd) pm_env \<Rightarrow> bytes \<Rightarrow> peer_id \<Rightarrow> instant \<Rightarrow> 'd \<Rightarrow>
    ds_error option \<times> 'd" where
  "writeProviderEntry env k p t d =
     (let dsk = mkProvKeyFor env k p
      in ds_put (pe_ds env) (pe_NewKey env dsk) (PutVarint (UnixNano t)) d)"

text \<open>\<^verbatim>\<open>e.Key[strings.LastIndex(e.Key, "/")+1:]\<close>\<close>

definition after_last_slash :: "string \<Rightarrow> string" where
  "after_last_slash s = rev (takeWhile (\<lambda>c. c \<noteq> CHR ''/'') (rev s))"

section \<open>Loading a provider set\<close>

datatype pm_log = LogAddProvider | LogReadProviders | LogGCEntry | LogGCQueryFailed | LogEntry |
  LogParseTime | LogBase32 | LogRemoveFailed | LogFlush

type_synonym log_rule = "ds_error \<Rightarrow> bool"

definition delete_record :: "('c, 'd) pm_env \<Rightarrow> log_rule \<Rightarrow> string \<Rightarrow> 'd \<times> pm_log list \<Rightarrow>
    'd \<times> pm_log list" where
  "delete_record env logs key s =
     (let (err, d) = ds_delete (pe_ds env) key (fst s)
      in (d, snd s @ (case err of None \<Rightarrow> [] | Some e \<Rightarrow> if logs e then [LogRemoveFailed] else [])))"

text \<open>One entry of the query: skipped, deleted when unreadable or expired, else added to the set.\<close>

definition load_entry :: "('c, 'd) pm_env \<Rightarrow> log_rule \<Rightarrow> instant \<Rightarrow> query_result \<Rightarrow>
    providerSet \<times> 'd \<times> pm_log list \<Rightarrow> providerSet \<times> 'd \<times> pm_log list" where
  "load_entry env logs now e st =
     (let (out, d, log) = st in
      case e of
        QErr err \<Rightarrow> (out, d, log @ [LogEntry])
      | QEntry key v \<Rightarrow>
          (case readTimeValue v of
             None \<Rightarrow> (out, delete_record env logs key (d, log @ [LogParseTime]))
           | Some t \<Rightarrow>
               if word_sless ProvideValidity (time_Sub now t)
               then (out, delete_record env logs key (d, log))
               else (case pe_b32dec env (after_last_slash key) of
                       None \<Rightarrow> (out, delete_record env logs key (d, log @ [LogBase32]))
                     | Some pid \<Rightarrow> (setVal pid t out, d, log))))"

definition load_with :: "('c, 'd) pm_env \<Rightarrow> log_rule \<Rightarrow> bytes \<Rightarrow> instant \<Rightarrow> 'd \<Rightarrow> pm_log list \<Rightarrow>
    (ds_error + providerSet) \<times> 'd \<times> pm_log list" where
  "load_with env logs k now d log =
     (case ds_query (pe_ds env) (mkProvKey env k) d of
        Inl err \<Rightarrow> (Inl err, d, log)
      | Inr rs \<Rightarrow>
          let (out, d, log) = fold (load_entry env logs now) rs (newProviderSet, d, log)
          in (Inr out, d, log))"

text \<open>The two copies of the code: they log a failed deletion under different conditions.\<close>

definition loadProviderSet :: "('c, 'd) pm_env \<Rightarrow> bytes \<Rightarrow> instant \<Rightarrow> 'd \<Rightarrow> pm_log list \<Rightarrow>
    (ds_error + providerSet) \<times> 'd \<times> pm_log list" where
  "loadProviderSet env k now d log = load_with env is_not_found k now d log"

definition deprecated_loadProviderSet :: "('c, 'd) pm_env \<Rightarrow> bytes \<Rightarrow> instant \<Rightarrow> 'd \<Rightarrow>
    pm_log list \<Rightarrow> (ds_error + providerSet) \<times> 'd \<times> pm_log list" where
  "deprecated_loadProviderSet env k now d log = load_with env (\<lambda>e. e \<noteq> DsNotFound) k now d log"

section \<open>The manager\<close>

record ('c, 'd) ProviderManager =
  pm_cache :: 'c
  pm_sets :: "providerSet list"
  pm_dstore :: 'd
  pm_cleanupInterval :: duration
  pm_timer :: bool
  pm_gcQueryRes :: "query_result list option"
  pm_gcSkip :: "string list option"
  pm_gcTime :: instant
  pm_closed :: bool
  pm_log :: "pm_log list"

text \<open>
  \<^verbatim>\<open>run\<close> starts with the timer armed and no collection in progress. Options may fail; their errors
  carry the option's index.
\<close>

type_synonym ('c, 'd) pm_option =
  "('c, 'd) ProviderManager \<Rightarrow> string + ('c, 'd) ProviderManager"

definition CleanupInterval :: "duration \<Rightarrow> ('c, 'd) pm_option" where
  "CleanupInterval d pm = Inr (pm\<lparr>pm_cleanupInterval := d\<rparr>)"

definition Cache :: "'c \<Rightarrow> ('c, 'd) pm_option" where
  "Cache c pm = Inr (pm\<lparr>pm_cache := c\<rparr>)"

fun applyOptions :: "nat \<Rightarrow> ('c, 'd) pm_option list \<Rightarrow> ('c, 'd) ProviderManager \<Rightarrow>
    (nat \<times> string) + ('c, 'd) ProviderManager" where
  "applyOptions i [] pm = Inr pm"
| "applyOptions i (opt # opts) pm =
     (case opt pm of Inl err \<Rightarrow> Inl (i, err) | Inr pm \<Rightarrow> applyOptions (Suc i) opts pm)"

definition NewProviderManager :: "'c \<Rightarrow> 'd \<Rightarrow> ('c, 'd) pm_option list \<Rightarrow>
    (nat \<times> string) + ('c, 'd) ProviderManager" where
  "NewProviderManager cache dstore opts =
     applyOptions 0 opts
       \<lparr>pm_cache = cache, pm_sets = [], pm_dstore = dstore, pm_cleanupInterval = hours 1,
        pm_timer = True, pm_gcQueryRes = None, pm_gcSkip = None, pm_gcTime = 0,
        pm_closed = False, pm_log = []\<rparr>"

type_synonym ('c, 'd) set_loader = "('c, 'd) pm_env \<Rightarrow> bytes \<Rightarrow> instant \<Rightarrow> 'd \<Rightarrow> pm_log list \<Rightarrow>
  (ds_error + providerSet) \<times> 'd \<times> pm_log list"

definition get_set_with :: "('c, 'd) set_loader \<Rightarrow> ('c, 'd) pm_env \<Rightarrow> bytes \<Rightarrow> instant \<Rightarrow>
    ('c, 'd) ProviderManager \<Rightarrow> (ds_error + providerSet) \<times> ('c, 'd) ProviderManager" where
  "get_set_with load env k now pm =
     (let (cached, c) = lru_Get (pe_lru env) k (pm_cache pm); pm = pm\<lparr>pm_cache := c\<rparr>
      in case cached of
           Some a \<Rightarrow> (Inr (pm_sets pm ! a), pm)
         | None \<Rightarrow>
             (let (r, d, log) = load env k now (pm_dstore pm) (pm_log pm);
                  pm = pm\<lparr>pm_dstore := d, pm_log := log\<rparr>
              in case r of
                   Inl err \<Rightarrow> (Inl err, pm)
                 | Inr pset \<Rightarrow>
                     (Inr pset,
                      if length (ps_providers pset) > 0
                      then pm\<lparr>pm_cache := lru_Add (pe_lru env) k (length (pm_sets pm)) (pm_cache pm),
                              pm_sets := pm_sets pm @ [pset]\<rparr>
                      else pm)))"

definition getProviderSetForKey :: "('c, 'd) pm_env \<Rightarrow> bytes \<Rightarrow> instant \<Rightarrow>
    ('c, 'd) ProviderManager \<Rightarrow> (ds_error + providerSet) \<times> ('c, 'd) ProviderManager" where
  "getProviderSetForKey env k now pm = get_set_with loadProviderSet env k now pm"

definition getProvidersForKey :: "('c, 'd) pm_env \<Rightarrow> bytes \<Rightarrow> instant \<Rightarrow>
    ('c, 'd) ProviderManager \<Rightarrow> (ds_error + peer_id list) \<times> ('c, 'd) ProviderManager" where
  "getProvidersForKey env k now pm =
     (let (r, pm) = getProviderSetForKey env k now pm
      in (case r of Inl err \<Rightarrow> Inl err | Inr pset \<Rightarrow> Inr (ps_providers pset), pm))"

definition addProv :: "('c, 'd) pm_env \<Rightarrow> bytes \<Rightarrow> peer_id \<Rightarrow> instant \<Rightarrow>
    ('c, 'd) ProviderManager \<Rightarrow> ds_error option \<times> ('c, 'd) ProviderManager" where
  "addProv env k p now pm =
     (let (cached, c) = lru_Get (pe_lru env) k (pm_cache pm);
          sets = (case cached of
                    None \<Rightarrow> pm_sets pm
                  | Some a \<Rightarrow> (pm_sets pm)[a := setVal p now (pm_sets pm ! a)]);
          (err, d) = writeProviderEntry env k p now (pm_dstore pm)
      in (err, pm\<lparr>pm_cache := c, pm_sets := sets, pm_dstore := d\<rparr>))"

section \<open>The loop\<close>

text \<open>
  The event the \<^verbatim>\<open>select\<close> chose: a request, the next result of a collection (the channel is nil,
  and blocks for ever, unless a collection runs), the timer, or the end of the context. The result
  is the answer to a read and the new state, \<open>None\<close> when the event is not possible.
\<close>

datatype pm_event = NewProv bytes peer_id instant | GetProv bytes instant | GCNext | GCTimer instant | Stop

definition on_add :: "('c, 'd) pm_env \<Rightarrow> bytes \<Rightarrow> peer_id \<Rightarrow> instant \<Rightarrow>
    ('c, 'd) ProviderManager \<Rightarrow> ('c, 'd) ProviderManager" where
  "on_add env k p now pm =
     (let (err, pm) = addProv env k p now pm
      in case err of
           Some e \<Rightarrow> pm\<lparr>pm_log := pm_log pm @ [LogAddProvider]\<rparr>
         | None \<Rightarrow> (case pm_gcSkip pm of
                      None \<Rightarrow> pm
                    | Some skip \<Rightarrow> pm\<lparr>pm_gcSkip := Some (List.insert (mkProvKeyFor env k p) skip)\<rparr>))"

definition on_gc :: "('c, 'd) pm_env \<Rightarrow> ('c, 'd) ProviderManager \<Rightarrow> ('c, 'd) ProviderManager option" where
  "on_gc env pm =
     (case pm_gcQueryRes pm of
        None \<Rightarrow> None
      | Some [] \<Rightarrow> Some (pm\<lparr>pm_timer := True, pm_gcQueryRes := None, pm_gcSkip := None\<rparr>)
      | Some (r # rs) \<Rightarrow>
          let pm = pm\<lparr>pm_gcQueryRes := Some rs\<rparr>;
              del = (\<lambda>key log. let (d, log) = delete_record env (\<lambda>e. e \<noteq> DsNotFound) key (pm_dstore pm, log)
                               in pm\<lparr>pm_dstore := d, pm_log := log\<rparr>)
          in (case r of
                QErr err \<Rightarrow> Some (pm\<lparr>pm_log := pm_log pm @ [LogGCEntry]\<rparr>)
              | QEntry key v \<Rightarrow>
                  if (case pm_gcSkip pm of None \<Rightarrow> False | Some skip \<Rightarrow> List.member skip key) then Some pm
                  else (case readTimeValue v of
                          None \<Rightarrow> Some (del key (pm_log pm @ [LogParseTime]))
                        | Some t \<Rightarrow>
                            if word_sless ProvideValidity (time_Sub (pm_gcTime pm) t)
                            then Some (del key (pm_log pm)) else Some pm)))"

definition on_timer :: "('c, 'd) pm_env \<Rightarrow> instant \<Rightarrow> ('c, 'd) ProviderManager \<Rightarrow>
    ('c, 'd) ProviderManager option" where
  "on_timer env now pm =
     (if \<not> pm_timer pm then None
      else
        let pm = pm\<lparr>pm_timer := False, pm_gcTime := now,
                    pm_cache := lru_Purge (pe_lru env) (pm_cache pm)\<rparr>
        in case ds_query (pe_ds env) ProvidersKeyPrefix (pm_dstore pm) of
             Inl err \<Rightarrow> Some (pm\<lparr>pm_log := pm_log pm @ [LogGCQueryFailed]\<rparr>)
           | Inr q \<Rightarrow> Some (pm\<lparr>pm_gcQueryRes := Some q, pm_gcSkip := Some []\<rparr>))"

definition on_stop :: "('c, 'd) pm_env \<Rightarrow> ('c, 'd) ProviderManager \<Rightarrow> ('c, 'd) ProviderManager" where
  "on_stop env pm =
     (let (err, d) = ds_flush (pe_ds env) (pm_dstore pm)
      in pm\<lparr>pm_timer := False, pm_gcQueryRes := None, pm_dstore := d, pm_closed := True,
            pm_log := pm_log pm @ (if err = None then [] else [LogFlush])\<rparr>)"

definition step_with :: "('c, 'd) set_loader \<Rightarrow> log_rule \<Rightarrow> ('c, 'd) pm_env \<Rightarrow> pm_event \<Rightarrow>
    ('c, 'd) ProviderManager \<Rightarrow> (peer_id list option \<times> ('c, 'd) ProviderManager) option" where
  "step_with load logs env ev pm =
     (if pm_closed pm then None
      else case ev of
        NewProv k p now \<Rightarrow> Some (None, on_add env k p now pm)
      | GetProv k now \<Rightarrow>
          (let (r, pm) = get_set_with load env k now pm
           in case r of
                Inl err \<Rightarrow> Some (Some [], if logs err then pm\<lparr>pm_log := pm_log pm @ [LogReadProviders]\<rparr> else pm)
              | Inr pset \<Rightarrow> Some (Some (ps_providers pset), pm))
      | GCNext \<Rightarrow> map_option (Pair None) (on_gc env pm)
      | GCTimer now \<Rightarrow> map_option (Pair None) (on_timer env now pm)
      | Stop \<Rightarrow> Some (None, on_stop env pm))"

definition pm_step :: "('c, 'd) pm_env \<Rightarrow> pm_event \<Rightarrow> ('c, 'd) ProviderManager \<Rightarrow>
    (peer_id list option \<times> ('c, 'd) ProviderManager) option" where
  "pm_step env ev pm = step_with loadProviderSet (\<lambda>e. \<not> is_not_found e) env ev pm"

definition deprecated_step :: "('c, 'd) pm_env \<Rightarrow> pm_event \<Rightarrow> ('c, 'd) ProviderManager \<Rightarrow>
    (peer_id list option \<times> ('c, 'd) ProviderManager) option" where
  "deprecated_step env ev pm = step_with deprecated_loadProviderSet (\<lambda>e. e \<noteq> DsNotFound) env ev pm"

fun pm_run :: "('c, 'd) pm_env \<Rightarrow> pm_event list \<Rightarrow> ('c, 'd) ProviderManager \<Rightarrow>
    (peer_id list list \<times> ('c, 'd) ProviderManager) option" where
  "pm_run env [] pm = Some ([], pm)"
| "pm_run env (ev # evs) pm =
     (case pm_step env ev pm of
        None \<Rightarrow> None
      | Some (r, pm) \<Rightarrow>
          map_option (apfst (\<lambda>rs. (case r of None \<Rightarrow> rs | Some ps \<Rightarrow> ps # rs))) (pm_run env evs pm))"

section \<open>The public operations\<close>

text \<open>
  \<^verbatim>\<open>AddProvider\<close> and \<^verbatim>\<open>GetProviders\<close> hand a request to the loop unless their context ends first
  (\<open>None\<close> for the context's error). The first result of \<open>AddProvider\<close> is what it adds to the
  peerstore, with the time to live \<^verbatim>\<open>ProviderAddrTTL\<close>.
\<close>

definition AddProvider :: "peer_id \<Rightarrow> bool \<Rightarrow> bytes \<Rightarrow> AddrInfo \<Rightarrow> instant \<Rightarrow>
    (peer_id \<times> multiaddr list \<times> duration) option \<times> pm_event option" where
  "AddProvider self ctxDone k provInfo now =
     ((if ai_ID provInfo \<noteq> self then Some (ai_ID provInfo, ai_Addrs provInfo, hours 24) else None),
      (if ctxDone then None else Some (NewProv k (ai_ID provInfo) now)))"

definition GetProviders :: "(peer_id list \<Rightarrow> AddrInfo list) \<Rightarrow> bool \<Rightarrow> peer_id list option \<Rightarrow>
    AddrInfo list option" where
  "GetProviders PeerInfos ctxDone resp =
     (if ctxDone then None else map_option PeerInfos resp)"

section \<open>Provider sets are duplicate-free\<close>

definition ps_wf :: "providerSet \<Rightarrow> bool" where
  "ps_wf ps \<longleftrightarrow> distinct (ps_providers ps) \<and> (\<forall>p. gm_has (ps_set ps) p \<longleftrightarrow> p \<in> set (ps_providers ps))"

lemma ps_wf_new [simp]: "ps_wf newProviderSet" "ps_providers newProviderSet = []"
  by (simp_all add: ps_wf_def newProviderSet_def gomap_simps)

lemma setVal_wf [simp, intro]: "ps_wf ps \<Longrightarrow> ps_wf (setVal p t ps)"
  by (auto simp: ps_wf_def setVal_def Let_def gomap_simps)

lemma setVal_providers:
  "ps_wf ps \<Longrightarrow> set (ps_providers (setVal p t ps)) = insert p (set (ps_providers ps))"
  by (auto simp: ps_wf_def setVal_def Let_def)

section \<open>What the environment promises\<close>

definition pe_ok :: "('c, 'd) pm_env \<Rightarrow> ('d \<Rightarrow> string \<Rightarrow> bytes option) \<Rightarrow> ('c \<Rightarrow> string \<Rightarrow> nat option) \<Rightarrow> bool" where
  "pe_ok env contents view \<longleftrightarrow>
     datastore_ok (pe_ds env) contents \<and> lru_ok (pe_lru env) view \<and>
     (\<forall>x. pe_b32dec env (pe_b32enc env x) = Some x) \<and> (\<forall>x. CHR ''/'' \<notin> set (pe_b32enc env x)) \<and>
     (\<forall>x. x \<noteq> [] \<longrightarrow> pe_b32enc env x \<noteq> []) \<and>
     (\<forall>k p. k \<noteq> [] \<and> p \<noteq> [] \<longrightarrow> pe_NewKey env (mkProvKeyFor env k p) = mkProvKeyFor env k p)"

text \<open>Queries of the datastore never fail, neither as a whole nor in an entry.\<close>

definition reliable_queries :: "('c, 'd) pm_env \<Rightarrow> bool" where
  "reliable_queries env \<longleftrightarrow>
     (\<forall>p d. \<exists>rs. ds_query (pe_ds env) p d = Inr rs \<and> (\<forall>e. QErr e \<notin> set rs))"

lemma after_last_slash_app: "CHR ''/'' \<notin> set s \<Longrightarrow> after_last_slash (a @ CHR ''/'' # s) = s"
proof -
  assume "CHR ''/'' \<notin> set s"
  then have "takeWhile (\<lambda>c. c \<noteq> CHR ''/'') (rev s @ CHR ''/'' # rev a) = rev s"
    by (subst takeWhile_append2) auto
  then show ?thesis by (simp add: after_last_slash_def)
qed

lemma pe_enc: 
  assumes "pe_ok env contents view"
  shows "CHR ''/'' \<notin> set (pe_b32enc env x)" and "pe_b32dec env (pe_b32enc env x) = Some x"
    and "x \<noteq> [] \<Longrightarrow> pe_b32enc env x \<noteq> []"
  using assms by (simp_all add: pe_ok_def)

lemma mkProvKeyFor_split:
  "mkProvKeyFor env k p = (mkProvKey env k) @ CHR ''/'' # pe_b32enc env p"
  by (simp add: mkProvKeyFor_def)

lemma dec_provKey:
  assumes "pe_ok env contents view"
  shows "pe_b32dec env (after_last_slash (mkProvKeyFor env k p)) = Some p"
  using pe_enc [OF assms] by (simp add: mkProvKeyFor_split after_last_slash_app)

lemma strip_provKey:
  assumes "pe_ok env contents view" and "k \<noteq> []"
  shows "strip_slash (mkProvKey env k) = mkProvKey env k"
proof -
  have "pe_b32enc env k \<noteq> []" "CHR ''/'' \<notin> set (pe_b32enc env k)"
    using pe_enc [OF assms(1)] assms(2) by blast+
  then have "last (mkProvKey env k) \<noteq> CHR ''/''"
    by (metis last_appendR last_in_set mkProvKey_def)
  then show ?thesis by (simp add: strip_slash_def)
qed

lemma below_provKey:
  assumes "pe_ok env contents view" and "k \<noteq> []"
  shows "below (mkProvKey env k) (mkProvKeyFor env k p)"
  using strip_provKey [OF assms] by (auto simp: below_def mkProvKeyFor_split)

lemma below_prefix: "below ProvidersKeyPrefix (mkProvKeyFor env k p)"
  by (simp add: below_def strip_slash_def ProvidersKeyPrefix_def mkProvKeyFor_def mkProvKey_def)

lemma slash_split:
  assumes "a @ CHR ''/'' # s = b @ CHR ''/'' # s'" and "CHR ''/'' \<notin> set a" and "CHR ''/'' \<notin> set b"
  shows "a = b \<and> s = s'"
proof -
  have "takeWhile (\<lambda>c. c \<noteq> CHR ''/'') (a @ CHR ''/'' # s) = a"
    "takeWhile (\<lambda>c. c \<noteq> CHR ''/'') (b @ CHR ''/'' # s') = b"
    using assms(2,3) by (auto simp: takeWhile_append2 takeWhile_tail)
  with assms(1) show ?thesis by auto
qed

lemma enc_inj: "pe_ok env contents view \<Longrightarrow> pe_b32enc env x = pe_b32enc env y \<Longrightarrow> x = y"
  by (metis pe_enc(2) option.inject)

lemma below_provKey_eq:
  assumes "pe_ok env contents view" and "k \<noteq> []" and "below (mkProvKey env k) (mkProvKeyFor env k' p')"
  shows "k = k'"
proof -
  from assms(3) obtain s where "mkProvKey env k @ CHR ''/'' # s = mkProvKeyFor env k' p'"
    unfolding below_def strip_provKey [OF assms(1,2)] by auto
  then have "pe_b32enc env k @ CHR ''/'' # s = pe_b32enc env k' @ CHR ''/'' # pe_b32enc env p'"
    by (simp add: mkProvKeyFor_split mkProvKey_def)
  then have "pe_b32enc env k = pe_b32enc env k'"
    using slash_split [OF _ pe_enc(1) [OF assms(1)] pe_enc(1) [OF assms(1)]] by blast
  with enc_inj [OF assms(1)] show ?thesis by blast
qed

lemma provKey_inj:
  assumes "pe_ok env contents view" and "mkProvKeyFor env k p = mkProvKeyFor env k' p'"
  shows "k = k' \<and> p = p'"
proof -
  have "pe_b32enc env k @ CHR ''/'' # pe_b32enc env p = pe_b32enc env k' @ CHR ''/'' # pe_b32enc env p'"
    using assms(2) by (simp add: mkProvKeyFor_split mkProvKey_def)
  then have "pe_b32enc env k = pe_b32enc env k' \<and> pe_b32enc env p = pe_b32enc env p'"
    using slash_split [OF _ pe_enc(1) [OF assms(1)] pe_enc(1) [OF assms(1)]] by blast
  with enc_inj [OF assms(1)] show ?thesis by blast
qed

lemma readTimeValue_PutVarint: "readTimeValue (PutVarint x) = Some (time_Unix0 x)"
  using Varint_PutVarint [of x "[]"] PutVarint_pos [of x] by (simp add: readTimeValue_def)

lemma ProvideValidity_less [simp]: "sint ProvideValidity = 172800000000000"
  by (simp add: ProvideValidity_def)

lemma expired_iff: "word_sless ProvideValidity (time_Sub now t) \<longleftrightarrow> 172800000000000 < now - t"
  by (simp add: time_Sub_greater)

section \<open>Loading\<close>

text \<open>The provider an entry of a query contributes.\<close>

definition entry_pid :: "('c, 'd) pm_env \<Rightarrow> instant \<Rightarrow> query_result \<Rightarrow> peer_id option" where
  "entry_pid env now e =
     (case e of
        QErr err \<Rightarrow> None
      | QEntry key v \<Rightarrow>
          (case readTimeValue v of
             None \<Rightarrow> None
           | Some t \<Rightarrow> if 172800000000000 < now - t then None
                        else pe_b32dec env (after_last_slash key)))"

lemma delete_record_sub:
  assumes "datastore_ok (pe_ds env) contents" and "delete_record env logs key (d, log) = (d', log')"
  shows "contents d' x = Some v \<Longrightarrow> contents d x = Some v"
    and "x \<noteq> key \<Longrightarrow> contents d' x = contents d x"
proof -
  obtain err d1 where del: "ds_delete (pe_ds env) key d = (err, d1)" by fastforce
  with assms(2) have d: "d' = d1" by (simp add: delete_record_def)
  show "contents d' x = Some v \<Longrightarrow> contents d x = Some v"
    unfolding d using ds_delete_sub [OF assms(1) del] .
  show "x \<noteq> key \<Longrightarrow> contents d' x = contents d x"
    unfolding d using ds_delete_other [OF assms(1) del] .
qed

text \<open>An entry either contributes its provider and leaves the store alone, or is at most deleted.\<close>

lemma load_entry_cases:
  assumes "load_entry env logs now e (out, d, log) = (out', d', log')"
  shows "(\<exists>pid t. entry_pid env now e = Some pid \<and> out' = setVal pid t out \<and> d' = d) \<or>
    (entry_pid env now e = None \<and> out' = out \<and>
      (d' = d \<or> (\<exists>key v l. e = QEntry key v \<and> delete_record env logs key (d, l) = (d', log'))))"
proof (cases e)
  case (QErr err)
  with assms show ?thesis by (simp add: load_entry_def entry_pid_def)
next
  case (QEntry key v)
  show ?thesis
  proof (cases "readTimeValue v")
    case None
    with QEntry assms show ?thesis by (auto simp: load_entry_def entry_pid_def)
  next
    case (Some t)
    note read = this
    show ?thesis
    proof (cases "172800000000000 < now - t")
      case True
      with QEntry read assms show ?thesis by (auto simp: load_entry_def entry_pid_def expired_iff)
    next
      case False
      with QEntry read assms show ?thesis
        by (cases "pe_b32dec env (after_last_slash key)")
          (auto simp: load_entry_def entry_pid_def expired_iff)
    qed
  qed
qed

lemma load_entry_effect:
  assumes ok: "datastore_ok (pe_ds env) contents" and wf: "ps_wf out"
    and load: "load_entry env logs now e (out, d, log) = (out', d', log')"
  shows "ps_wf out'"
    and "set (ps_providers out') = set (ps_providers out) \<union> set_option (entry_pid env now e)"
    and "contents d' x = Some v \<Longrightarrow> contents d x = Some v"
    and "(\<forall>v. e = QEntry x v \<longrightarrow> entry_pid env now e \<noteq> None) \<Longrightarrow> contents d' x = contents d x"
proof -
  note cases = load_entry_cases [OF load]
  show "ps_wf out'" using cases wf by auto
  show "set (ps_providers out') = set (ps_providers out) \<union> set_option (entry_pid env now e)"
    using cases by (auto simp: setVal_providers [OF wf])
  show "contents d' x = Some v \<Longrightarrow> contents d x = Some v"
    using cases delete_record_sub(1) [OF ok] by metis
  show "(\<forall>v. e = QEntry x v \<longrightarrow> entry_pid env now e \<noteq> None) \<Longrightarrow> contents d' x = contents d x"
    using cases delete_record_sub(2) [OF ok] by metis
qed

lemma load_fold_effect:
  assumes ok: "datastore_ok (pe_ds env) contents"
  shows "ps_wf out \<Longrightarrow> fold (load_entry env logs now) rs (out, d, log) = (out', d', log') \<Longrightarrow>
    ps_wf out' \<and>
    set (ps_providers out') = set (ps_providers out) \<union> (\<Union>e\<in>set rs. set_option (entry_pid env now e)) \<and>
    (contents d' x = Some v \<longrightarrow> contents d x = Some v) \<and>
    ((\<forall>v. QEntry x v \<in> set rs \<longrightarrow> entry_pid env now (QEntry x v) \<noteq> None) \<longrightarrow>
       contents d' x = contents d x)"
proof (induction rs arbitrary: out d log)
  case (Cons e rs)
  obtain out1 d1 log1 where e: "load_entry env logs now e (out, d, log) = (out1, d1, log1)"
    by (cases "load_entry env logs now e (out, d, log)")
  note one = load_entry_effect [OF ok Cons.prems(1) e]
  have "fold (load_entry env logs now) rs (out1, d1, log1) = (out', d', log')"
    using Cons.prems(2) e by simp
  note IH = Cons.IH [OF one(1) this]
  have "contents d' x = contents d x"
    if "\<forall>v. QEntry x v \<in> set (e # rs) \<longrightarrow> entry_pid env now (QEntry x v) \<noteq> None"
    using IH one(4) [of x] that by auto
  moreover have "contents d' x = Some v \<longrightarrow> contents d x = Some v"
    using IH one(3) [of x v] by blast
  moreover have "set (ps_providers out') = set (ps_providers out) \<union>
      (\<Union>e\<in>set (e # rs). set_option (entry_pid env now e))"
    using IH one(2) by auto
  ultimately show ?case using IH by blast
qed simp

lemma load_effect:
  assumes ok: "pe_ok env contents view" and load: "load_with env logs k now d log = (r, d', log')"
  shows "r = Inr out \<Longrightarrow> ps_wf out \<and> (\<exists>rs. ds_query (pe_ds env) (mkProvKey env k) d = Inr rs \<and>
      set (ps_providers out) = (\<Union>e\<in>set rs. set_option (entry_pid env now e)))"
    and "contents d' x = Some v \<Longrightarrow> contents d x = Some v"
    and "(\<forall>v. contents d x = Some v \<longrightarrow> entry_pid env now (QEntry x v) \<noteq> None) \<Longrightarrow>
      contents d' x = contents d x"
proof -
  have ds: "datastore_ok (pe_ds env) contents" using ok by (simp add: pe_ok_def)
  have "(r = Inr out \<longrightarrow> ps_wf out \<and> (\<exists>rs. ds_query (pe_ds env) (mkProvKey env k) d = Inr rs \<and>
      set (ps_providers out) = (\<Union>e\<in>set rs. set_option (entry_pid env now e)))) \<and>
    (contents d' x = Some v \<longrightarrow> contents d x = Some v) \<and>
    ((\<forall>v. contents d x = Some v \<longrightarrow> entry_pid env now (QEntry x v) \<noteq> None) \<longrightarrow>
      contents d' x = contents d x)"
  proof (cases "ds_query (pe_ds env) (mkProvKey env k) d")
    case (Inl e)
    with load show ?thesis by (auto simp: load_with_def)
  next
    case (Inr rs)
    with load obtain out' where out': "r = Inr out'"
      "fold (load_entry env logs now) rs (newProviderSet, d, log) = (out', d', log')"
      by (auto simp: load_with_def split: prod.splits)
    note eff = load_fold_effect [OF ds ps_wf_new(1) out'(2), of x v]
    have "contents d' x = contents d x"
      if "\<forall>v. contents d x = Some v \<longrightarrow> entry_pid env now (QEntry x v) \<noteq> None"
    proof -
      have "\<forall>v. QEntry x v \<in> set rs \<longrightarrow> entry_pid env now (QEntry x v) \<noteq> None"
        using that ds_query_sound(1) [OF ds Inr] by simp
      then show ?thesis using conjunct2 [OF conjunct2 [OF conjunct2 [OF eff]]] by (rule rev_mp)
    qed
    moreover have "contents d' x = Some v \<longrightarrow> contents d x = Some v"
      using conjunct1 [OF conjunct2 [OF conjunct2 [OF eff]]] .
    moreover have "ps_wf out'" using conjunct1 [OF eff] .
    moreover have "set (ps_providers out') = (\<Union>e\<in>set rs. set_option (entry_pid env now e))"
      using conjunct1 [OF conjunct2 [OF eff]] by simp
    ultimately show ?thesis unfolding out'(1) using Inr by blast
  qed
  note all = this
  show "ps_wf out \<and> (\<exists>rs. ds_query (pe_ds env) (mkProvKey env k) d = Inr rs \<and>
      set (ps_providers out) = (\<Union>e\<in>set rs. set_option (entry_pid env now e)))" if "r = Inr out"
    using conjunct1 [OF all] that by (rule mp)
  show "contents d x = Some v" if "contents d' x = Some v"
    using conjunct1 [OF conjunct2 [OF all]] that by (rule mp)
  show "contents d' x = contents d x"
    if "\<forall>v. contents d x = Some v \<longrightarrow> entry_pid env now (QEntry x v) \<noteq> None"
    using conjunct2 [OF conjunct2 [OF all]] that by (rule mp)
qed

section \<open>The invariant of the manager\<close>

definition pm_wf :: "('c \<Rightarrow> string \<Rightarrow> nat option) \<Rightarrow> ('c, 'd) ProviderManager \<Rightarrow> bool" where
  "pm_wf view pm \<longleftrightarrow>
     (\<forall>k a. view (pm_cache pm) k = Some a \<longrightarrow> a < length (pm_sets pm)) \<and>
     (\<forall>k k' a. view (pm_cache pm) k = Some a \<and> view (pm_cache pm) k' = Some a \<longrightarrow> k = k') \<and>
     (\<forall>ps\<in>set (pm_sets pm). ps_wf ps) \<and>
     (pm_gcQueryRes pm \<noteq> None \<longrightarrow> pm_gcSkip pm \<noteq> None)"

lemma pm_wf_sets: "pm_wf view pm \<Longrightarrow> view (pm_cache pm) k = Some a \<Longrightarrow>
    a < length (pm_sets pm) \<and> ps_wf (pm_sets pm ! a)"
  by (simp add: pm_wf_def)

text \<open>A read either hits the cache, or loads from the datastore and may fill the cache.\<close>

lemma get_set_cases:
  assumes ok: "pe_ok env contents view" and get: "get_set_with load env k now pm = (r, pm')"
  obtains (hit) a c where "view (pm_cache pm) k = Some a" "r = Inr (pm_sets pm ! a)"
      "view c = view (pm_cache pm)" "pm' = pm\<lparr>pm_cache := c\<rparr>"
  | (failed) c d log e where "view (pm_cache pm) k = None" "view c = view (pm_cache pm)" "r = Inl e"
      "load env k now (pm_dstore pm) (pm_log pm) = (Inl e, d, log)"
      "pm' = pm\<lparr>pm_cache := c, pm_dstore := d, pm_log := log\<rparr>"
  | (empty) c d log pset where "view (pm_cache pm) k = None" "view c = view (pm_cache pm)" "r = Inr pset"
      "load env k now (pm_dstore pm) (pm_log pm) = (Inr pset, d, log)" "ps_providers pset = []"
      "pm' = pm\<lparr>pm_cache := c, pm_dstore := d, pm_log := log\<rparr>"
  | (filled) c d log pset where "view (pm_cache pm) k = None" "view c = view (pm_cache pm)" "r = Inr pset"
      "load env k now (pm_dstore pm) (pm_log pm) = (Inr pset, d, log)"
      "pm' = pm\<lparr>pm_cache := lru_Add (pe_lru env) k (length (pm_sets pm)) c, pm_dstore := d,
                pm_log := log, pm_sets := pm_sets pm @ [pset]\<rparr>"
proof -
  obtain cached c where c: "lru_Get (pe_lru env) k (pm_cache pm) = (cached, c)" by fastforce
  have lru: "lru_ok (pe_lru env) view" using ok by (simp add: pe_ok_def)
  from lru_Get_ok [OF lru c] have view: "cached = view (pm_cache pm) k" "view c = view (pm_cache pm)" by auto
  obtain res d log where l: "load env k now (pm_dstore pm) (pm_log pm) = (res, d, log)"
    by (cases "load env k now (pm_dstore pm) (pm_log pm)")
  note eq = get [unfolded get_set_with_def c Let_def prod.case]
  show thesis
  proof (cases cached)
    case (Some a)
    from eq have "r = Inr (pm_sets pm ! a)" "pm' = pm\<lparr>pm_cache := c\<rparr>" by (simp_all add: Some)
    from hit [OF _ this(1) view(2) this(2)] view(1) Some show thesis by simp
  next
    case None
    then have miss: "view (pm_cache pm) k = None" using view(1) by simp
    note eq = eq [unfolded None option.case, simplified, unfolded l prod.case]
    show thesis
    proof (cases res)
      case (Inl e)
      from eq have "r = Inl e" "pm' = pm\<lparr>pm_cache := c, pm_dstore := d, pm_log := log\<rparr>"
        by (simp_all add: Inl)
      from failed [OF miss view(2) this(1) _ this(2)] l Inl show thesis by simp
    next
      case (Inr pset)
      from eq have r: "r = Inr pset" by (simp add: Inr)
      show thesis
      proof (cases "ps_providers pset = []")
        case True
        from eq have "pm' = pm\<lparr>pm_cache := c, pm_dstore := d, pm_log := log\<rparr>" by (simp add: Inr True)
        from empty [OF miss view(2) r _ True this] l Inr show thesis by simp
      next
        case False
        from eq have "pm' = pm\<lparr>pm_cache := lru_Add (pe_lru env) k (length (pm_sets pm)) c,
          pm_dstore := d, pm_log := log, pm_sets := pm_sets pm @ [pset]\<rparr>" by (auto simp: Inr False)
        from filled [OF miss view(2) r _ this] l Inr show thesis by simp
      qed
    qed
  qed
qed

lemma addProv_eq:
  assumes ok: "pe_ok env contents view" and add: "addProv env k p now pm = (err, pm')"
  shows "\<exists>c d. view c = view (pm_cache pm) \<and> writeProviderEntry env k p now (pm_dstore pm) = (err, d) \<and>
    pm' = pm\<lparr>pm_cache := c, pm_sets := (case view (pm_cache pm) k of None \<Rightarrow> pm_sets pm
        | Some a \<Rightarrow> (pm_sets pm)[a := setVal p now (pm_sets pm ! a)]), pm_dstore := d\<rparr>"
proof -
  obtain cached c where c: "lru_Get (pe_lru env) k (pm_cache pm) = (cached, c)" by fastforce
  have "lru_ok (pe_lru env) view" using ok by (simp add: pe_ok_def)
  from lru_Get_ok [OF this c] have "cached = view (pm_cache pm) k" "view c = view (pm_cache pm)" by auto
  with add c show ?thesis
    by (cases "writeProviderEntry env k p now (pm_dstore pm)") (auto simp: addProv_def Let_def)
qed

lemma pm_wf_frame:
  "pm_wf view pm \<Longrightarrow> view (pm_cache pm') = view (pm_cache pm) \<Longrightarrow> pm_sets pm' = pm_sets pm \<Longrightarrow>
   pm_gcQueryRes pm' = pm_gcQueryRes pm \<Longrightarrow> pm_gcSkip pm' = pm_gcSkip pm \<Longrightarrow> pm_wf view pm'"
  by (simp add: pm_wf_def)

lemma get_set_wf:
  assumes ok: "pe_ok env contents view" and wf: "pm_wf view pm"
    and get: "get_set_with (\<lambda>env. load_with env logs) env k now pm = (r, pm')"
  shows "pm_wf view pm' \<and> (\<forall>ps. r = Inr ps \<longrightarrow> ps_wf ps) \<and> pm_gcQueryRes pm' = pm_gcQueryRes pm \<and>
    pm_gcSkip pm' = pm_gcSkip pm \<and> pm_gcTime pm' = pm_gcTime pm"
  using ok get
proof (cases rule: get_set_cases)
  case (hit a c)
  with wf pm_wf_sets [OF wf hit(1)] show ?thesis by (auto intro: pm_wf_frame [OF wf])
next
  case (failed c d log e)
  with wf show ?thesis by (auto intro: pm_wf_frame [OF wf])
next
  case (empty c d log pset)
  with wf load_effect(1) [OF ok empty(4)] show ?thesis by (auto intro: pm_wf_frame [OF wf])
next
  case (filled c d log pset)
  have lru: "lru_ok (pe_lru env) view" using ok by (simp add: pe_ok_def)
  have new: "ps_wf pset" using load_effect(1) [OF ok filled(4)] by blast
  have entry: "(k' = k \<and> a = length (pm_sets pm)) \<or> (k' \<noteq> k \<and> view (pm_cache pm) k' = Some a)"
    if "view (pm_cache pm') k' = Some a" for k' a
  proof -
    have "view (lru_Add (pe_lru env) k (length (pm_sets pm)) c) k' = Some a"
      using that by (simp add: filled(5))
    from lru_Add_ok [OF lru this] show ?thesis unfolding filled(2) .
  qed
  have old: "a < length (pm_sets pm)" if "view (pm_cache pm) k' = Some a" for k' a
    using pm_wf_sets [OF wf that] by simp
  have "a < length (pm_sets pm')" if "view (pm_cache pm') k' = Some a" for k' a
    using entry [OF that] old [of k' a] by (auto simp: filled(5))
  moreover have "k1 = k2"
    if "view (pm_cache pm') k1 = Some a" "view (pm_cache pm') k2 = Some a" for k1 k2 a
    using entry [OF that(1)] entry [OF that(2)] old [of k1 a] old [of k2 a] wf
    by (auto simp: pm_wf_def)
  ultimately have "pm_wf view pm'"
    using wf new by (auto simp: pm_wf_def filled(5))
  with filled new show ?thesis by simp
qed

lemma on_add_wf:
  assumes ok: "pe_ok env contents view" and wf: "pm_wf view pm"
  shows "pm_wf view (on_add env k p now pm)"
proof -
  obtain err pm1 where add: "addProv env k p now pm = (err, pm1)" by fastforce
  from addProv_eq [OF ok add] obtain c d where view: "view c = view (pm_cache pm)" and
    pm1: "pm1 = pm\<lparr>pm_cache := c, pm_sets := (case view (pm_cache pm) k of None \<Rightarrow> pm_sets pm
        | Some a \<Rightarrow> (pm_sets pm)[a := setVal p now (pm_sets pm ! a)]), pm_dstore := d\<rparr>" by blast
  have len: "length (pm_sets pm1) = length (pm_sets pm)" by (simp add: pm1 split: option.splits)
  have sets: "\<forall>ps\<in>set (pm_sets pm1). ps_wf ps"
    using wf pm_wf_sets [OF wf, of k] set_update_subset_insert
    by (fastforce simp: pm1 pm_wf_def split: option.splits)
  have "pm_wf view pm1"
    using wf len sets view by (simp add: pm_wf_def pm1)
  then show ?thesis
    by (auto simp: on_add_def add pm_wf_def split: option.splits)
qed

lemma on_gc_fields:
  assumes "on_gc env pm = Some pm'"
  shows "pm_cache pm' = pm_cache pm \<and> pm_sets pm' = pm_sets pm \<and> pm_gcTime pm' = pm_gcTime pm \<and>
    pm_gcQueryRes pm \<noteq> None \<and> (pm_gcQueryRes pm' = None \<or> pm_gcSkip pm' = pm_gcSkip pm)"
  using assms by (auto simp: on_gc_def Let_def split: option.splits list.splits query_result.splits
      if_splits prod.splits)

lemma on_timer_fields:
  assumes "on_timer env now pm = Some pm'"
  shows "pm_cache pm' = lru_Purge (pe_lru env) (pm_cache pm) \<and> pm_sets pm' = pm_sets pm \<and>
    pm_gcTime pm' = now \<and> pm_dstore pm' = pm_dstore pm \<and>
    ((pm_gcQueryRes pm' = pm_gcQueryRes pm \<and> pm_gcSkip pm' = pm_gcSkip pm) \<or>
     (\<exists>rs. ds_query (pe_ds env) ProvidersKeyPrefix (pm_dstore pm) = Inr rs \<and>
        pm_gcQueryRes pm' = Some rs \<and> pm_gcSkip pm' = Some []))"
  using assms by (auto simp: on_timer_def Let_def split: sum.splits if_splits)

lemma loadProviderSet_fun: "loadProviderSet = (\<lambda>env. load_with env is_not_found)"
  by (intro ext) (simp add: loadProviderSet_def)

lemma deprecated_load_fun: "deprecated_loadProviderSet = (\<lambda>env. load_with env (\<lambda>e. e \<noteq> DsNotFound))"
  by (intro ext) (simp add: deprecated_loadProviderSet_def)

lemma pm_step_cases:
  assumes "pm_step env ev pm = Some (r, pm')"
  obtains (add) k p now where "ev = NewProv k p now" "r = None" "pm' = on_add env k p now pm"
  | (get) k now res pm1 where "ev = GetProv k now"
      "get_set_with (\<lambda>env. load_with env is_not_found) env k now pm = (res, pm1)"
      "r = Some (case res of Inl e \<Rightarrow> [] | Inr ps \<Rightarrow> ps_providers ps)"
      "\<exists>log. pm' = pm1\<lparr>pm_log := log\<rparr>"
  | (gc) "ev = GCNext" "r = None" "on_gc env pm = Some pm'"
  | (timer) now where "ev = GCTimer now" "r = None" "on_timer env now pm = Some pm'"
  | (stop) "ev = Stop" "r = None" "pm' = on_stop env pm"
proof (cases ev)
  case (NewProv k p now)
  with assms add show thesis by (auto simp: pm_step_def step_with_def split: if_splits)
next
  case (GetProv k now)
  obtain res pm1 where g: "get_set_with (\<lambda>env. load_with env is_not_found) env k now pm = (res, pm1)"
    by fastforce
  with GetProv assms have "r = Some (case res of Inl e \<Rightarrow> [] | Inr ps \<Rightarrow> ps_providers ps) \<and>
      (pm' = pm1 \<or> pm' = pm1\<lparr>pm_log := pm_log pm1 @ [LogReadProviders]\<rparr>)"
    by (auto simp: pm_step_def step_with_def loadProviderSet_fun split: if_splits sum.splits)
  moreover have "pm1 = pm1\<lparr>pm_log := pm_log pm1\<rparr>" by simp
  ultimately show thesis using get [OF GetProv g] by blast
next
  case GCNext
  with assms gc show thesis by (auto simp: pm_step_def step_with_def split: if_splits)
next
  case (GCTimer now)
  with assms timer show thesis by (auto simp: pm_step_def step_with_def split: if_splits)
next
  case Stop
  with assms stop show thesis by (auto simp: pm_step_def step_with_def split: if_splits)
qed

lemma pm_step_wf:
  assumes ok: "pe_ok env contents view" and wf: "pm_wf view pm" and step: "pm_step env ev pm = Some (r, pm')"
  shows "pm_wf view pm' \<and> (\<forall>ps. r = Some ps \<longrightarrow> distinct ps)"
  using step
proof (cases rule: pm_step_cases)
  case (add k p now)
  with on_add_wf [OF ok wf] show ?thesis by simp
next
  case (get k now res pm1)
  from get_set_wf [OF ok wf get(2)] get show ?thesis
    by (auto simp: pm_wf_def ps_wf_def split: sum.splits)
next
  case gc
  from on_gc_fields [OF gc(3)] wf gc(2) show ?thesis by (auto simp: pm_wf_def)
next
  case (timer now)
  have "view (lru_Purge (pe_lru env) (pm_cache pm)) = Map.empty"
    using ok by (simp add: pe_ok_def lru_ok_def)
  with on_timer_fields [OF timer(3)] wf timer(2) show ?thesis by (auto simp: pm_wf_def)
next
  case stop
  with wf show ?thesis by (auto simp: on_stop_def pm_wf_def split: prod.splits)
qed

section \<open>An added provider is kept while its record is valid\<close>

text \<open>
  \<open>kept\<close> is the invariant between the addition of provider \<open>p\<close> for key \<open>k\<close> at time \<open>T\<close> and the
  expiry of its record: the store has a record at least as recent, the cache, if it has the key,
  has the provider, and a running collection either skips the record or saw a recent one.
\<close>

definition kept :: "('c, 'd) pm_env \<Rightarrow> ('d \<Rightarrow> string \<Rightarrow> bytes option) \<Rightarrow> ('c \<Rightarrow> string \<Rightarrow> nat option) \<Rightarrow>
    bytes \<Rightarrow> peer_id \<Rightarrow> instant \<Rightarrow> ('c, 'd) ProviderManager \<Rightarrow> bool" where
  "kept env contents view k p T pm \<longleftrightarrow>
     (let key = mkProvKeyFor env k p in
      (\<exists>v t. contents (pm_dstore pm) key = Some v \<and> readTimeValue v = Some t \<and> T \<le> t) \<and>
      (\<forall>a. view (pm_cache pm) k = Some a \<longrightarrow> p \<in> set (ps_providers (pm_sets pm ! a))) \<and>
      (\<forall>rs. pm_gcQueryRes pm = Some rs \<longrightarrow>
         (\<exists>skip. pm_gcSkip pm = Some skip \<and> key \<in> set skip) \<or>
         (pm_gcTime pm \<le> T + 172800000000000 \<and>
          (\<forall>v. QEntry key v \<in> set rs \<longrightarrow> (\<exists>t. readTimeValue v = Some t \<and> T \<le> t)))))"

fun event_within :: "instant \<Rightarrow> instant \<Rightarrow> pm_event \<Rightarrow> bool" where
  "event_within t0 t1 (NewProv k p now) = (k \<noteq> [] \<and> p \<noteq> [] \<and> t0 \<le> now \<and> now \<le> t1)"
| "event_within t0 t1 (GetProv k now) = (k \<noteq> [] \<and> t0 \<le> now \<and> now \<le> t1)"
| "event_within t0 t1 (GCTimer now) = (t0 \<le> now \<and> now \<le> t1)"
| "event_within t0 t1 ev = True"

lemma keptD:
  assumes "kept env contents view k p T pm"
  shows "\<exists>v t. contents (pm_dstore pm) (mkProvKeyFor env k p) = Some v \<and> readTimeValue v = Some t \<and> T \<le> t"
    and "view (pm_cache pm) k = Some a \<Longrightarrow> p \<in> set (ps_providers (pm_sets pm ! a))"
    and "pm_gcQueryRes pm = Some rs \<Longrightarrow>
         (\<exists>skip. pm_gcSkip pm = Some skip \<and> mkProvKeyFor env k p \<in> set skip) \<or>
         (pm_gcTime pm \<le> T + 172800000000000 \<and>
          (\<forall>v. QEntry (mkProvKeyFor env k p) v \<in> set rs \<longrightarrow> (\<exists>t. readTimeValue v = Some t \<and> T \<le> t)))"
  using assms by (simp_all add: kept_def Let_def)

lemma write_effect:
  assumes ok: "pe_ok env contents view" and ne: "k \<noteq> []" "p \<noteq> []"
    and w: "writeProviderEntry env k p now d = (err, d')"
  shows "contents d' = (if err = None then (contents d)(mkProvKeyFor env k p \<mapsto> PutVarint (UnixNano now))
    else contents d)"
proof -
  have "pe_NewKey env (mkProvKeyFor env k p) = mkProvKeyFor env k p" "datastore_ok (pe_ds env) contents"
    using ok ne by (simp_all add: pe_ok_def)
  with w ds_put_ok [OF this(2)] show ?thesis by (simp add: writeProviderEntry_def)
qed

lemma setVal_keeps: "p \<in> set (ps_providers ps) \<Longrightarrow> p \<in> set (ps_providers (setVal q t ps))"
  by (simp add: setVal_def Let_def)

lemma setVal_adds: "ps_wf ps \<Longrightarrow> p \<in> set (ps_providers (setVal p t ps))"
  by (simp add: setVal_providers)

text \<open>What an addition does to the store, the cached sets and the skip list.\<close>

lemma on_add_effect:
  assumes ok: "pe_ok env contents view" and ne: "k \<noteq> []" "p \<noteq> []"
  shows "\<exists>err. contents (pm_dstore (on_add env k p now pm)) =
      (if err = None then (contents (pm_dstore pm))(mkProvKeyFor env k p \<mapsto> PutVarint (UnixNano now))
       else contents (pm_dstore pm)) \<and>
    err = fst (writeProviderEntry env k p now (pm_dstore pm)) \<and>
    view (pm_cache (on_add env k p now pm)) = view (pm_cache pm) \<and>
    pm_sets (on_add env k p now pm) = (case view (pm_cache pm) k of None \<Rightarrow> pm_sets pm
      | Some a \<Rightarrow> (pm_sets pm)[a := setVal p now (pm_sets pm ! a)]) \<and>
    pm_gcQueryRes (on_add env k p now pm) = pm_gcQueryRes pm \<and>
    pm_gcTime (on_add env k p now pm) = pm_gcTime pm \<and>
    (case pm_gcSkip pm of None \<Rightarrow> pm_gcSkip (on_add env k p now pm) = None
     | Some skip \<Rightarrow> \<exists>skip'. pm_gcSkip (on_add env k p now pm) = Some skip' \<and> set skip \<subseteq> set skip' \<and>
         (err = None \<longrightarrow> mkProvKeyFor env k p \<in> set skip'))"
proof -
  obtain err pm1 where add: "addProv env k p now pm = (err, pm1)" by fastforce
  from addProv_eq [OF ok add] obtain c d where view: "view c = view (pm_cache pm)"
    and w: "writeProviderEntry env k p now (pm_dstore pm) = (err, d)"
    and pm1: "pm1 = pm\<lparr>pm_cache := c, pm_sets := (case view (pm_cache pm) k of None \<Rightarrow> pm_sets pm
        | Some a \<Rightarrow> (pm_sets pm)[a := setVal p now (pm_sets pm ! a)]), pm_dstore := d\<rparr>" by blast
  from write_effect [OF ok ne w] view w show ?thesis
    by (intro exI [of _ err]) (auto simp: on_add_def add pm1 split: option.splits)
qed

lemma kept_by_add:
  assumes ok: "pe_ok env contents view" and wf: "pm_wf view pm" and ne: "k \<noteq> []" "p \<noteq> []"
    and time: "0 \<le> T" "T \<le> 9223372036854775807"
    and put: "fst (writeProviderEntry env k p T (pm_dstore pm)) = None"
  shows "kept env contents view k p T (on_add env k p T pm)"
proof -
  let ?pm = "on_add env k p T pm"
  from on_add_effect [OF ok ne, of T pm] put have
    con: "contents (pm_dstore ?pm) = (contents (pm_dstore pm))(mkProvKeyFor env k p \<mapsto> PutVarint (UnixNano T))"
    and view: "view (pm_cache ?pm) = view (pm_cache pm)"
    and sets: "pm_sets ?pm = (case view (pm_cache pm) k of None \<Rightarrow> pm_sets pm
      | Some a \<Rightarrow> (pm_sets pm)[a := setVal p T (pm_sets pm ! a)])"
    and gc: "pm_gcQueryRes ?pm = pm_gcQueryRes pm"
    and skip: "case pm_gcSkip pm of None \<Rightarrow> pm_gcSkip ?pm = None
     | Some skip \<Rightarrow> \<exists>skip'. pm_gcSkip ?pm = Some skip' \<and> mkProvKeyFor env k p \<in> set skip'"
    by (auto split: option.splits)
  have "readTimeValue (PutVarint (UnixNano T)) = Some T"
    using time by (simp add: readTimeValue_PutVarint time_Unix0_UnixNano)
  moreover have "p \<in> set (ps_providers (pm_sets ?pm ! a))" if "view (pm_cache ?pm) k = Some a" for a
    using that pm_wf_sets [OF wf, of k a] by (simp add: view sets setVal_adds)
  moreover have "\<exists>skip. pm_gcSkip ?pm = Some skip \<and> mkProvKeyFor env k p \<in> set skip"
    if "pm_gcQueryRes ?pm = Some rs" for rs
    using that wf skip by (auto simp: gc pm_wf_def split: option.splits)
  ultimately show ?thesis by (auto simp: kept_def Let_def con)
qed

lemma kept_entry_pid:
  assumes ok: "pe_ok env contents view" and kept: "kept env contents view k p T pm"
    and now: "now \<le> T + 172800000000000" and v: "contents (pm_dstore pm) (mkProvKeyFor env k p) = Some v"
  shows "entry_pid env now (QEntry (mkProvKeyFor env k p) v) = Some p"
proof -
  from keptD(1) [OF kept] v obtain t where "readTimeValue v = Some t" "T \<le> t" by auto
  with now dec_provKey [OF ok, of k p] show ?thesis by (simp add: entry_pid_def)
qed

lemma kept_add:
  assumes ok: "pe_ok env contents view" and wf: "pm_wf view pm" and kept: "kept env contents view k p T pm"
    and ne: "k' \<noteq> []" "p' \<noteq> []" and time: "0 \<le> T" "T \<le> now" "now \<le> 9223372036854775807"
  shows "kept env contents view k p T (on_add env k' p' now pm)"
proof -
  let ?pm = "on_add env k' p' now pm" and ?key = "mkProvKeyFor env k p"
  let ?err = "fst (writeProviderEntry env k' p' now (pm_dstore pm))"
  from on_add_effect [OF ok ne, of now pm] have
    con: "contents (pm_dstore ?pm) = (if ?err = None
      then (contents (pm_dstore pm))(mkProvKeyFor env k' p' \<mapsto> PutVarint (UnixNano now))
      else contents (pm_dstore pm))"
    and view: "view (pm_cache ?pm) = view (pm_cache pm)"
    and sets: "pm_sets ?pm = (case view (pm_cache pm) k' of None \<Rightarrow> pm_sets pm
      | Some a \<Rightarrow> (pm_sets pm)[a := setVal p' now (pm_sets pm ! a)])"
    and gc: "pm_gcQueryRes ?pm = pm_gcQueryRes pm" "pm_gcTime ?pm = pm_gcTime pm"
    and skip: "case pm_gcSkip pm of None \<Rightarrow> pm_gcSkip ?pm = None
     | Some skip \<Rightarrow> \<exists>skip'. pm_gcSkip ?pm = Some skip' \<and> set skip \<subseteq> set skip'"
    by (auto split: option.splits)
  have "readTimeValue (PutVarint (UnixNano now)) = Some now"
    using time by (simp add: readTimeValue_PutVarint time_Unix0_UnixNano)
  with keptD(1) [OF kept] time(2)
  have 1: "\<exists>v t. contents (pm_dstore ?pm) ?key = Some v \<and> readTimeValue v = Some t \<and> T \<le> t"
    by (auto simp: con)
  have 2: "p \<in> set (ps_providers (pm_sets ?pm ! a))" if "view (pm_cache ?pm) k = Some a" for a
  proof -
    have "view (pm_cache pm) k = Some a" using that by (simp add: view)
    with keptD(2) [OF kept] pm_wf_sets [OF wf] show ?thesis
      by (auto simp: sets nth_list_update setVal_keeps split: option.splits)
  qed
  have 3: "(\<exists>skip. pm_gcSkip ?pm = Some skip \<and> ?key \<in> set skip) \<or>
         (pm_gcTime ?pm \<le> T + 172800000000000 \<and>
          (\<forall>v. QEntry ?key v \<in> set rs \<longrightarrow> (\<exists>t. readTimeValue v = Some t \<and> T \<le> t)))"
    if "pm_gcQueryRes ?pm = Some rs" for rs
  proof (cases "\<exists>skip. pm_gcSkip pm = Some skip \<and> ?key \<in> set skip")
    case True
    then obtain sk where "pm_gcSkip pm = Some sk" "?key \<in> set sk" by blast
    with skip show ?thesis by (auto simp: subset_iff)
  next
    case False
    with keptD(3) [OF kept, of rs] that show ?thesis by (simp add: gc)
  qed
  from 1 2 3 show ?thesis by (simp add: kept_def Let_def)
qed

lemma kept_get:
  assumes ok: "pe_ok env contents view" and wf: "pm_wf view pm" and kept: "kept env contents view k p T pm"
    and rel: "reliable_queries env" and ne: "k \<noteq> []" and now: "now \<le> T + 172800000000000"
    and get: "get_set_with (\<lambda>env. load_with env logs) env k' now pm = (res, pm')"
  shows "kept env contents view k p T pm' \<and>
    (k' = k \<longrightarrow> (\<exists>ps. res = Inr ps \<and> p \<in> set (ps_providers ps)))"
proof -
  let ?key = "mkProvKeyFor env k p"
  have ds: "datastore_ok (pe_ds env) contents" and lru: "lru_ok (pe_lru env) view"
    using ok by (simp_all add: pe_ok_def)
  have live: "\<forall>v. contents (pm_dstore pm) ?key = Some v \<longrightarrow> entry_pid env now (QEntry ?key v) \<noteq> None"
    using kept_entry_pid [OF ok kept now] by simp
  have found: "p \<in> set (ps_providers pset)"
    if load: "load_with env logs k now (pm_dstore pm) l = (Inr pset, d, log)" for l pset d log
  proof -
    from load_effect(1) [OF ok load] obtain rs where rs:
      "ds_query (pe_ds env) (mkProvKey env k) (pm_dstore pm) = Inr rs"
      "set (ps_providers pset) = (\<Union>e\<in>set rs. set_option (entry_pid env now e))" by blast
    from rel rs(1) have noerr: "\<forall>e. QErr e \<notin> set rs"
      unfolding reliable_queries_def by (metis Inr_inject)
    from keptD(1) [OF kept] obtain v where v: "contents (pm_dstore pm) ?key = Some v" by auto
    from ds_query_complete [OF ds rs(1) noerr v below_provKey [OF ok ne]]
      kept_entry_pid [OF ok kept now v] show ?thesis unfolding rs(2) by force
  qed
  show ?thesis
    using ok get
  proof (cases rule: get_set_cases)
    case (hit a c)
    with kept show ?thesis by (auto simp: kept_def Let_def)
  next
    case (failed c d log e)
    from rel have "\<exists>rs. ds_query (pe_ds env) (mkProvKey env k') (pm_dstore pm) = Inr rs"
      unfolding reliable_queries_def by blast
    with failed(4) show ?thesis by (auto simp: load_with_def split: prod.splits)
  next
    case (empty c d log pset)
    have "contents d ?key = contents (pm_dstore pm) ?key"
      using load_effect(3) [OF ok empty(4) live] .
    with kept empty have "kept env contents view k p T pm'"
      by (simp add: kept_def Let_def)
    moreover have "k' \<noteq> k"
    proof
      assume "k' = k"
      with empty(4) have "p \<in> set (ps_providers pset)" using found by blast
      with empty(5) show False by simp
    qed
    ultimately show ?thesis by simp
  next
    case (filled c d log pset)
    have key: "contents d ?key = contents (pm_dstore pm) ?key"
      using load_effect(3) [OF ok filled(4) live] .
    have "p \<in> set (ps_providers (pm_sets pm' ! a))" if a: "view (pm_cache pm') k = Some a" for a
    proof -
      have "view (lru_Add (pe_lru env) k' (length (pm_sets pm)) c) k = Some a"
        using a by (simp add: filled(5))
      from lru_Add_ok [OF lru this]
      show ?thesis
      proof
        assume "k = k' \<and> a = length (pm_sets pm)"
        with found filled(4) show ?thesis by (simp add: filled(5))
      next
        assume "k \<noteq> k' \<and> view c k = Some a"
        then have "view (pm_cache pm) k = Some a" by (simp add: filled(2))
        with keptD(2) [OF kept] pm_wf_sets [OF wf] show ?thesis by (simp add: filled(5) nth_append)
      qed
    qed
    with kept key have "kept env contents view k p T pm'"
      by (simp add: kept_def Let_def filled(5))
    moreover have "k' = k \<longrightarrow> p \<in> set (ps_providers pset)" using found filled(4) by auto
    ultimately show ?thesis by (simp add: filled(3))
  qed
qed

lemma kept_gc:
  assumes ok: "pe_ok env contents view" and kept: "kept env contents view k p T pm"
    and gc: "on_gc env pm = Some pm'"
  shows "kept env contents view k p T pm'"
proof -
  let ?key = "mkProvKeyFor env k p"
  have ds: "datastore_ok (pe_ds env) contents" using ok by (simp add: pe_ok_def)
  obtain rs0 where rs0: "pm_gcQueryRes pm = Some rs0"
    using gc by (auto simp: on_gc_def split: option.splits)
  show ?thesis
  proof (cases rs0)
    case Nil
    with gc rs0 have "pm' = pm\<lparr>pm_timer := True, pm_gcQueryRes := None, pm_gcSkip := None\<rparr>"
      by (simp add: on_gc_def)
    with kept show ?thesis by (simp add: kept_def Let_def)
  next
    case (Cons e rs)
    have pending: "kept env contents view k p T (pm\<lparr>pm_gcQueryRes := Some rs\<rparr>)"
      using kept by (auto simp: kept_def Let_def rs0 Cons)
    have same: ?thesis if "contents (pm_dstore pm') ?key = contents (pm_dstore pm) ?key"
      "pm' = pm\<lparr>pm_gcQueryRes := Some rs, pm_dstore := pm_dstore pm', pm_log := pm_log pm'\<rparr>"
    proof -
      have f: "pm_cache pm' = pm_cache pm" "pm_sets pm' = pm_sets pm" "pm_gcQueryRes pm' = Some rs"
        "pm_gcSkip pm' = pm_gcSkip pm" "pm_gcTime pm' = pm_gcTime pm"
        by (subst that(2), simp)+
      show ?thesis using pending that(1) by (simp add: kept_def Let_def f)
    qed
    show ?thesis
    proof (cases "\<exists>v. e = QEntry ?key v")
      case False
      have "contents (pm_dstore pm') ?key = contents (pm_dstore pm) ?key \<and>
        pm' = pm\<lparr>pm_gcQueryRes := Some rs, pm_dstore := pm_dstore pm', pm_log := pm_log pm'\<rparr>"
        using gc False delete_record_sub(2) [OF ds]
        by (auto simp: on_gc_def rs0 Cons Let_def split: query_result.splits option.splits
            if_splits prod.splits)
      then show ?thesis using same by blast
    next
      case True
      then obtain v where e: "e = QEntry ?key v" by blast
      from keptD(3) [OF kept rs0] have "pm' = pm\<lparr>pm_gcQueryRes := Some rs\<rparr>"
      proof
        assume "\<exists>skip. pm_gcSkip pm = Some skip \<and> ?key \<in> set skip"
        with gc show ?thesis by (auto simp: on_gc_def rs0 Cons e Let_def)
      next
        assume "pm_gcTime pm \<le> T + 172800000000000 \<and>
          (\<forall>v. QEntry ?key v \<in> set rs0 \<longrightarrow> (\<exists>t. readTimeValue v = Some t \<and> T \<le> t))"
        then obtain t where "readTimeValue v = Some t" "\<not> 172800000000000 < pm_gcTime pm - t"
          by (auto simp: Cons e)
        with gc show ?thesis
          by (auto simp: on_gc_def rs0 Cons e expired_iff Let_def split: option.splits if_splits)
      qed
      with pending show ?thesis by simp
    qed
  qed
qed

lemma kept_timer:
  assumes ok: "pe_ok env contents view" and kept: "kept env contents view k p T pm"
    and timer: "on_timer env now pm = Some pm'" and now: "now \<le> T + 172800000000000"
  shows "kept env contents view k p T pm'"
proof -
  let ?key = "mkProvKeyFor env k p"
  have ds: "datastore_ok (pe_ds env) contents" and lru: "lru_ok (pe_lru env) view"
    using ok by (simp_all add: pe_ok_def)
  note f = on_timer_fields [OF timer]
  have store: "pm_dstore pm' = pm_dstore pm" "view (pm_cache pm') = Map.empty"
    using f lru by (simp_all add: lru_ok_def)
  have "(\<exists>skip. pm_gcSkip pm' = Some skip \<and> ?key \<in> set skip) \<or>
         (pm_gcTime pm' \<le> T + 172800000000000 \<and>
          (\<forall>v. QEntry ?key v \<in> set rs \<longrightarrow> (\<exists>t. readTimeValue v = Some t \<and> T \<le> t)))"
    if rs: "pm_gcQueryRes pm' = Some rs" for rs
  proof (cases "pm_gcQueryRes pm' = pm_gcQueryRes pm \<and> pm_gcSkip pm' = pm_gcSkip pm")
    case True
    with keptD(3) [OF kept, of rs] rs f now show ?thesis by auto
  next
    case False
    with f rs have q: "ds_query (pe_ds env) ProvidersKeyPrefix (pm_dstore pm) = Inr rs" by auto
    have "\<exists>t. readTimeValue v = Some t \<and> T \<le> t" if "QEntry ?key v \<in> set rs" for v
      using ds_query_sound(1) [OF ds q that] keptD(1) [OF kept] by auto
    with f now show ?thesis by blast
  qed
  with keptD(1) [OF kept] show ?thesis by (simp add: kept_def Let_def store)
qed

lemma kept_step:
  assumes ok: "pe_ok env contents view" and wf: "pm_wf view pm" and kept: "kept env contents view k p T pm"
    and rel: "reliable_queries env" and ne: "k \<noteq> []"
    and time: "0 \<le> T" "T + 172800000000000 \<le> 9223372036854775807"
    and ev: "event_within T (T + 172800000000000) ev"
    and step: "pm_step env ev pm = Some (r, pm')"
  shows "kept env contents view k p T pm' \<and> (\<forall>now. ev = GetProv k now \<longrightarrow> (\<exists>ps. r = Some ps \<and> p \<in> set ps))"
  using step
proof (cases rule: pm_step_cases)
  case (add k' p' now)
  with kept_add [OF ok wf kept, of k' p' now] ev time show ?thesis by simp
next
  case (get k' now res pm1)
  from kept_get [OF ok wf kept rel ne _ get(2)] ev get(1) have
    "kept env contents view k p T pm1" "k' = k \<longrightarrow> (\<exists>ps. res = Inr ps \<and> p \<in> set (ps_providers ps))"
    by simp_all
  with get show ?thesis by (auto simp: kept_def Let_def)
next
  case gc
  with kept_gc [OF ok kept gc(3)] show ?thesis by simp
next
  case (timer now)
  with kept_timer [OF ok kept timer(3)] ev show ?thesis by simp
next
  case stop
  have "contents (snd (ds_flush (pe_ds env) d)) = contents d" for d
    using ok by (simp add: pe_ok_def datastore_ok_def)
  then have "contents (pm_dstore pm') = contents (pm_dstore pm)"
    by (simp add: stop on_stop_def case_prod_beta)
  with kept stop show ?thesis by (auto simp: kept_def Let_def on_stop_def case_prod_beta)
qed

section \<open>The interface of a provider store\<close>

text \<open>
  What the message handlers rely on, over an abstract service: a provider that the store holds
  stays held over every permitted event, and a read of its key returns it.
\<close>

locale provider_store =
  fixes ok :: "'s \<Rightarrow> bool"
    and permitted :: "'e \<Rightarrow> bool"
    and reads :: "bytes \<Rightarrow> 'e \<Rightarrow> bool"
    and holds :: "bytes \<Rightarrow> peer_id \<Rightarrow> 's \<Rightarrow> bool"
    and step :: "'e \<Rightarrow> 's \<Rightarrow> (peer_id list option \<times> 's) option"
    and run :: "'e list \<Rightarrow> 's \<Rightarrow> (peer_id list list \<times> 's) option"
  assumes ok_step: "ok s \<Longrightarrow> step e s = Some (r, s') \<Longrightarrow> ok s'"
    and held_step: "ok s \<Longrightarrow> permitted e \<Longrightarrow> k \<noteq> [] \<Longrightarrow> holds k p s \<Longrightarrow> step e s = Some (r, s') \<Longrightarrow>
      holds k p s' \<and> (reads k e \<longrightarrow> (\<exists>ps. r = Some ps \<and> p \<in> set ps))"
    and answers_distinct: "ok s \<Longrightarrow> step e s = Some (Some ps, s') \<Longrightarrow> distinct ps"
    and run_Nil: "run [] s = Some (rs, s') \<Longrightarrow> s' = s"
    and run_Cons: "run (e # es) s = Some (rs, s') \<Longrightarrow>
      \<exists>r s1 rs1. step e s = Some (r, s1) \<and> run es s1 = Some (rs1, s')"
begin

lemma held_run:
  "ok s \<Longrightarrow> holds k p s \<Longrightarrow> k \<noteq> [] \<Longrightarrow> \<forall>e\<in>set es. permitted e \<Longrightarrow> run es s = Some (rs, s') \<Longrightarrow>
   ok s' \<and> holds k p s'"
proof (induction es arbitrary: s rs)
  case Nil
  with run_Nil [of s rs s'] show ?case by simp
next
  case (Cons e es)
  from run_Cons [OF Cons.prems(5)] obtain r s1 rs1 where
    step: "step e s = Some (r, s1)" and run: "run es s1 = Some (rs1, s')" by blast
  from Cons.prems(4) have "permitted e" by simp
  from held_step [OF Cons.prems(1) this Cons.prems(3,2) step] ok_step [OF Cons.prems(1) step]
    Cons.IH [OF _ _ Cons.prems(3) _ run] Cons.prems(4) show ?case by simp
qed

lemma read_after_run:
  assumes "ok s" and "holds k p s" and "k \<noteq> []" and "\<forall>e\<in>set es. permitted e" and "run es s = Some (rs, s1)"
    and "permitted e" and "reads k e" and "step e s1 = Some (r, s2)"
  shows "\<exists>ps. r = Some ps \<and> p \<in> set ps \<and> distinct ps"
proof -
  from held_run [OF assms(1-5)] have s1: "ok s1" "holds k p s1" by auto
  from held_step [OF s1(1) assms(6,3) s1(2) assms(8)] assms(7) obtain ps where "r = Some ps" "p \<in> set ps"
    by blast
  with answers_distinct [OF s1(1)] assms(8) show ?thesis by simp
qed

end

fun reads_key :: "bytes \<Rightarrow> pm_event \<Rightarrow> bool" where
  "reads_key k (GetProv k' now) = (k' = k)"
| "reads_key k ev = False"

definition pm_service_ok :: "('c, 'd) pm_env \<Rightarrow> ('d \<Rightarrow> string \<Rightarrow> bytes option) \<Rightarrow>
    ('c \<Rightarrow> string \<Rightarrow> nat option) \<Rightarrow> instant \<Rightarrow> ('c, 'd) ProviderManager \<Rightarrow> bool" where
  "pm_service_ok env contents view T pm \<longleftrightarrow>
     pe_ok env contents view \<and> reliable_queries env \<and> pm_wf view pm \<and>
     0 \<le> T \<and> T + 172800000000000 \<le> 9223372036854775807"

interpretation pms: provider_store "pm_service_ok env contents view T"
  "event_within T (T + 172800000000000)" reads_key "\<lambda>k p. kept env contents view k p T"
  "pm_step env" "pm_run env"
  for env contents view T
proof (unfold_locales, goal_cases)
  case (1 s e r s')
  then show ?case unfolding pm_service_ok_def using pm_step_wf by blast
next
  case (2 s e k p r s')
  then have "kept env contents view k p T s' \<and>
      (\<forall>now. e = GetProv k now \<longrightarrow> (\<exists>ps. r = Some ps \<and> p \<in> set ps))"
    by (intro kept_step [of env contents view s k p T e r s']) (simp_all add: pm_service_ok_def)
  then show ?case by (cases e) auto
next
  case (3 s e ps s')
  then show ?case unfolding pm_service_ok_def using pm_step_wf by blast
next
  case (5 e es s rs s')
  then show ?case by (auto split: option.splits)
qed simp

section \<open>Only added providers are returned\<close>

definition only_added :: "('c, 'd) pm_env \<Rightarrow> ('d \<Rightarrow> string \<Rightarrow> bytes option) \<Rightarrow> ('c \<Rightarrow> string \<Rightarrow> nat option) \<Rightarrow>
    (bytes \<times> peer_id) set \<Rightarrow> ('c, 'd) ProviderManager \<Rightarrow> bool" where
  "only_added env contents view A pm \<longleftrightarrow>
     (\<forall>x v. contents (pm_dstore pm) x = Some v \<and> below ProvidersKeyPrefix x \<longrightarrow>
        (\<exists>k p. (k, p) \<in> A \<and> x = mkProvKeyFor env k p)) \<and>
     (\<forall>k a p. view (pm_cache pm) k = Some a \<and> p \<in> set (ps_providers (pm_sets pm ! a)) \<longrightarrow> (k, p) \<in> A)"

fun added_by :: "pm_event \<Rightarrow> (bytes \<times> peer_id) set" where
  "added_by (NewProv k p now) = {(k, p)}"
| "added_by ev = {}"

fun nonempty_ids :: "pm_event \<Rightarrow> bool" where
  "nonempty_ids (NewProv k p now) = (k \<noteq> [] \<and> p \<noteq> [])"
| "nonempty_ids (GetProv k now) = (k \<noteq> [])"
| "nonempty_ids ev = True"

lemma only_added_store:
  assumes "only_added env contents view A pm"
    and "\<And>x v. contents (pm_dstore pm') x = Some v \<Longrightarrow> contents (pm_dstore pm) x = Some v"
    and "view (pm_cache pm') = view (pm_cache pm) \<or> view (pm_cache pm') = Map.empty"
    and "pm_sets pm' = pm_sets pm"
  shows "only_added env contents view A pm'"
proof -
  have "\<exists>k p. (k, p) \<in> A \<and> x = mkProvKeyFor env k p"
    if "contents (pm_dstore pm') x = Some v" "below ProvidersKeyPrefix x" for x v
    using assms(1) assms(2) [OF that(1)] that(2) unfolding only_added_def by blast
  moreover have "(k, p) \<in> A"
    if "view (pm_cache pm') k = Some a" "p \<in> set (ps_providers (pm_sets pm' ! a))" for k a p
    using assms(1,3) that unfolding only_added_def assms(4) by auto
  ultimately show ?thesis unfolding only_added_def by blast
qed

lemma load_only_added:
  assumes ok: "pe_ok env contents view" and add: "only_added env contents view A pm" and ne: "k \<noteq> []"
    and load: "load_with env logs k now (pm_dstore pm) l = (Inr pset, d, log)"
    and p: "p \<in> set (ps_providers pset)"
  shows "(k, p) \<in> A"
proof -
  have ds: "datastore_ok (pe_ds env) contents" using ok by (simp add: pe_ok_def)
  from load_effect(1) [OF ok load] p obtain rs e where q:
    "ds_query (pe_ds env) (mkProvKey env k) (pm_dstore pm) = Inr rs" "e \<in> set rs"
    "entry_pid env now e = Some p" by auto
  then obtain x v where e: "e = QEntry x v" and pid: "pe_b32dec env (after_last_slash x) = Some p"
    by (auto simp: entry_pid_def split: query_result.splits option.splits if_splits)
  from ds_query_sound [OF ds q(1)] q(2) e have x: "contents (pm_dstore pm) x = Some v"
    "below (mkProvKey env k) x" by auto
  have "below ProvidersKeyPrefix x"
    using x(2) unfolding below_def strip_provKey [OF ok ne]
    by (auto simp: mkProvKey_def ProvidersKeyPrefix_def strip_slash_def)
  with add x(1) obtain k' p' where k': "(k', p') \<in> A" "x = mkProvKeyFor env k' p'"
    unfolding only_added_def by blast
  with x(2) below_provKey_eq [OF ok ne] have "k = k'" by blast
  moreover from pid k'(2) dec_provKey [OF ok] have "p = p'" by auto
  ultimately show ?thesis using k'(1) by simp
qed

lemma only_added_step:
  assumes ok: "pe_ok env contents view" and wf: "pm_wf view pm" and add: "only_added env contents view A pm"
    and ev: "nonempty_ids ev" and step: "pm_step env ev pm = Some (r, pm')"
  shows "only_added env contents view (A \<union> added_by ev) pm' \<and>
    (\<forall>k now ps p. ev = GetProv k now \<and> r = Some ps \<and> p \<in> set ps \<longrightarrow> (k, p) \<in> A)"
  using step
proof (cases rule: pm_step_cases)
  case (add k p now)
  with ev have ne: "k \<noteq> []" "p \<noteq> []" by simp_all
  let ?err = "fst (writeProviderEntry env k p now (pm_dstore pm))"
  from on_add_effect [OF ok ne, of now pm] have
    con: "contents (pm_dstore pm') = (if ?err = None
      then (contents (pm_dstore pm))(mkProvKeyFor env k p \<mapsto> PutVarint (UnixNano now))
      else contents (pm_dstore pm))"
    and view: "view (pm_cache pm') = view (pm_cache pm)"
    and sets: "pm_sets pm' = (case view (pm_cache pm) k of None \<Rightarrow> pm_sets pm
      | Some a \<Rightarrow> (pm_sets pm)[a := setVal p now (pm_sets pm ! a)])"
    by (auto simp: add(3) split: option.splits)
  have "\<exists>k' p'. (k', p') \<in> insert (k, p) A \<and> x = mkProvKeyFor env k' p'"
    if "contents (pm_dstore pm') x = Some v" "below ProvidersKeyPrefix x" for x v
  proof (cases "x = mkProvKeyFor env k p")
    case False
    with that(1) have "contents (pm_dstore pm) x = Some v" by (simp add: con split: if_splits)
    with that(2) assms(3) show ?thesis unfolding only_added_def by blast
  qed blast
  moreover have "(k', p') \<in> insert (k, p) A"
    if v: "view (pm_cache pm') k' = Some a" and p': "p' \<in> set (ps_providers (pm_sets pm' ! a))" for k' a p'
  proof (cases "view (pm_cache pm) k = Some a")
    case True
    have "k' = k" using wf True v view by (simp add: pm_wf_def)
    moreover from pm_wf_sets [OF wf True] have "p' \<in> insert p (set (ps_providers (pm_sets pm ! a)))"
      using p' by (simp add: sets True setVal_providers)
    ultimately show ?thesis using assms(3) True by (auto simp: only_added_def)
  next
    case False
    then have "pm_sets pm' ! a = pm_sets pm ! a" by (auto simp: sets split: option.splits)
    with assms(3) v p' show ?thesis by (auto simp: only_added_def view)
  qed
  ultimately have "only_added env contents view (insert (k, p) A) pm'"
    unfolding only_added_def by blast
  with add show ?thesis by simp
next
  case (get k now res pm1)
  with ev have ne: "k \<noteq> []" by simp
  have "only_added env contents view A pm1 \<and> (\<forall>ps p. res = Inr ps \<and> p \<in> set (ps_providers ps) \<longrightarrow> (k, p) \<in> A)"
    using ok get(2)
  proof (cases rule: get_set_cases)
    case (hit a c)
    with assms(3) have "only_added env contents view A pm1" by (auto intro: only_added_store)
    with hit assms(3) show ?thesis by (auto simp: only_added_def)
  next
    case (failed c d log e)
    have "only_added env contents view A pm1"
      by (rule only_added_store [OF assms(3)]) (use failed load_effect(2) [OF ok failed(4)] in auto)
    with failed show ?thesis by simp
  next
    case (empty c d log pset)
    have "only_added env contents view A pm1"
      by (rule only_added_store [OF assms(3)]) (use empty load_effect(2) [OF ok empty(4)] in auto)
    with empty show ?thesis by simp
  next
    case (filled c d log pset)
    have lru: "lru_ok (pe_lru env) view" using ok by (simp add: pe_ok_def)
    have new: "p \<in> set (ps_providers pset) \<Longrightarrow> (k, p) \<in> A" for p
      using load_only_added [OF ok assms(3) ne filled(4)] .
    have "\<exists>k p. (k, p) \<in> A \<and> x = mkProvKeyFor env k p"
      if "contents (pm_dstore pm1) x = Some v" "below ProvidersKeyPrefix x" for x v
    proof -
      have "contents d x = Some v" using that(1) by (simp add: filled(5))
      from load_effect(2) [OF ok filled(4) this] that(2) assms(3) show ?thesis
        unfolding only_added_def by blast
    qed
    moreover have "(k', p) \<in> A"
      if "view (pm_cache pm1) k' = Some a" "p \<in> set (ps_providers (pm_sets pm1 ! a))" for k' a p
    proof -
      have "view (lru_Add (pe_lru env) k (length (pm_sets pm)) c) k' = Some a"
        using that(1) by (simp add: filled(5))
      from lru_Add_ok [OF lru this] show ?thesis
      proof
        assume "k' = k \<and> a = length (pm_sets pm)"
        with that(2) new show ?thesis by (simp add: filled(5))
      next
        assume "k' \<noteq> k \<and> view c k' = Some a"
        then have "view (pm_cache pm) k' = Some a" by (simp add: filled(2))
        with that(2) pm_wf_sets [OF wf] assms(3) show ?thesis
          by (auto simp: filled(5) nth_append only_added_def)
      qed
    qed
    ultimately have "only_added env contents view A pm1" unfolding only_added_def by blast
    with new filled(3) show ?thesis by auto
  qed
  with get show ?thesis by (auto simp: only_added_def split: sum.splits)
next
  case gc
  have ds: "datastore_ok (pe_ds env) contents" using ok by (simp add: pe_ok_def)
  have "pm_dstore pm' = pm_dstore pm \<or> (\<exists>key l log. delete_record env (\<lambda>e. e \<noteq> DsNotFound) key
      (pm_dstore pm, l) = (pm_dstore pm', log))"
    using gc(3) by (auto simp: on_gc_def Let_def split: option.splits list.splits query_result.splits
        if_splits prod.splits)
  then have "contents (pm_dstore pm') x = Some v \<Longrightarrow> contents (pm_dstore pm) x = Some v" for x v
    using delete_record_sub(1) [OF ds] by metis
  from only_added_store [OF assms(3) this] on_gc_fields [OF gc(3)] gc show ?thesis by simp
next
  case (timer now)
  have "lru_ok (pe_lru env) view" using ok by (simp add: pe_ok_def)
  then have "view (pm_cache pm') = Map.empty"
    using on_timer_fields [OF timer(3)] by (simp add: lru_ok_def)
  with only_added_store [OF assms(3), of pm'] on_timer_fields [OF timer(3)] timer show ?thesis by simp
next
  case stop
  have "contents (snd (ds_flush (pe_ds env) d)) = contents d" for d
    using ok by (simp add: pe_ok_def datastore_ok_def)
  then have "contents (pm_dstore pm') = contents (pm_dstore pm)" "pm_cache pm' = pm_cache pm"
    "pm_sets pm' = pm_sets pm"
    by (simp_all add: stop on_stop_def case_prod_beta)
  with only_added_store [OF assms(3), of pm'] stop show ?thesis by simp
qed

lemma only_added_run:
  assumes ok: "pe_ok env contents view"
  shows "pm_wf view pm \<Longrightarrow> only_added env contents view A pm \<Longrightarrow> \<forall>ev\<in>set evs. nonempty_ids ev \<Longrightarrow>
    pm_run env evs pm = Some (rs, pm') \<Longrightarrow>
    pm_wf view pm' \<and> only_added env contents view (A \<union> \<Union> (added_by ` set evs)) pm'"
proof (induction evs arbitrary: pm rs A)
  case (Cons ev evs)
  from Cons.prems(4) obtain r pm1 rs1 where step: "pm_step env ev pm = Some (r, pm1)"
    and run: "pm_run env evs pm1 = Some (rs1, pm')"
    by (auto split: option.splits)
  from Cons.prems(3) have "nonempty_ids ev" by simp
  from only_added_step [OF ok Cons.prems(1,2) this step] pm_step_wf [OF ok Cons.prems(1) step]
    Cons.IH [OF _ _ _ run, of "A \<union> added_by ev"] Cons.prems(3)
  show ?case by (simp add: Un_assoc)
qed simp

section \<open>A failed collection is the last one\<close>

text \<open>
  The timer is armed again only when a collection ends. When the query that starts one fails, the
  loop continues without a collection and without arming the timer.
\<close>

definition no_more_gc :: "('c, 'd) ProviderManager \<Rightarrow> bool" where
  "no_more_gc pm \<longleftrightarrow> \<not> pm_timer pm \<and> pm_gcQueryRes pm = None"

lemma get_set_gc: "get_set_with load env k now pm = (r, pm') \<Longrightarrow>
    pm_timer pm' = pm_timer pm \<and> pm_gcQueryRes pm' = pm_gcQueryRes pm"
  by (auto simp: get_set_with_def Let_def split: prod.splits option.splits sum.splits if_splits)

lemma on_add_gc: "pm_timer (on_add env k p now pm) = pm_timer pm \<and>
    pm_gcQueryRes (on_add env k p now pm) = pm_gcQueryRes pm"
  by (auto simp: on_add_def addProv_def Let_def split: prod.splits option.splits)

lemma no_more_gc_step:
  assumes "no_more_gc pm" and "pm_step env ev pm = Some (r, pm')"
  shows "no_more_gc pm' \<and> ev \<noteq> GCNext \<and> (\<forall>now. ev \<noteq> GCTimer now)"
  using assms(2)
proof (cases rule: pm_step_cases)
  case (get k now res pm1)
  with get_set_gc [OF get(2)] assms(1) show ?thesis by (auto simp: no_more_gc_def)
qed (use assms(1) in \<open>auto simp: no_more_gc_def on_add_gc on_gc_def on_timer_def on_stop_def split: prod.splits\<close>)

lemma no_more_gc_run:
  "no_more_gc pm \<Longrightarrow> pm_run env evs pm = Some (rs, pm') \<Longrightarrow>
   \<forall>ev\<in>set evs. ev \<noteq> GCNext \<and> (\<forall>now. ev \<noteq> GCTimer now)"
proof (induction evs arbitrary: pm rs)
  case (Cons ev evs)
  from Cons.prems(2) obtain r pm1 rs1 where step: "pm_step env ev pm = Some (r, pm1)"
    and run: "pm_run env evs pm1 = Some (rs1, pm')"
    by (auto split: option.splits)
  from no_more_gc_step [OF Cons.prems(1) step] Cons.IH [OF _ run] show ?case by simp
qed simp

section \<open>The deprecated copy\<close>

text \<open>States that differ at most in the log.\<close>

definition same_but_log :: "('c, 'd) ProviderManager \<Rightarrow> ('c, 'd) ProviderManager \<Rightarrow> bool" where
  "same_but_log pm pm' \<longleftrightarrow> pm\<lparr>pm_log := []\<rparr> = pm'\<lparr>pm_log := []\<rparr>"

lemma delete_record_log:
  "fst (delete_record env l1 key (d, log1)) = fst (delete_record env l2 key (d, log2))"
  by (simp add: delete_record_def case_prod_beta)

lemma load_entry_log:
  "fst (load_entry env l1 now e (out, d, log1)) = fst (load_entry env l2 now e (out, d, log2)) \<and>
   fst (snd (load_entry env l1 now e (out, d, log1))) = fst (snd (load_entry env l2 now e (out, d, log2)))"
  using delete_record_log [of env l1 _ d _ l2]
  by (auto simp: load_entry_def Let_def split: query_result.splits option.splits)

lemma load_fold_log:
  "fold (load_entry env l1 now) rs (out, d, log1) = (out1, d1, log1') \<Longrightarrow>
   fold (load_entry env l2 now) rs (out, d, log2) = (out2, d2, log2') \<Longrightarrow> out1 = out2 \<and> d1 = d2"
proof (induction rs arbitrary: out d log1 log2)
  case (Cons e rs)
  obtain o1 e1 g1 where 1: "load_entry env l1 now e (out, d, log1) = (o1, e1, g1)"
    by (cases "load_entry env l1 now e (out, d, log1)")
  obtain o2 e2 g2 where 2: "load_entry env l2 now e (out, d, log2) = (o2, e2, g2)"
    by (cases "load_entry env l2 now e (out, d, log2)")
  from load_entry_log [of env l1 now e out d log1 l2 log2] 1 2 have "o1 = o2" "e1 = e2" by auto
  with Cons.prems 1 2 Cons.IH [of o2 e2 g1 g2] show ?case by simp
qed simp

lemma load_with_log:
  "load_with env l1 k now d log1 = (r1, d1, log1') \<Longrightarrow>
   load_with env l2 k now d log2 = (r2, d2, log2') \<Longrightarrow> r1 = r2 \<and> d1 = d2"
  by (auto simp: load_with_def split: sum.splits prod.splits dest: load_fold_log)

lemma same_but_log_fields:
  "same_but_log pm pm' \<longleftrightarrow> pm_cache pm = pm_cache pm' \<and> pm_sets pm = pm_sets pm' \<and>
     pm_dstore pm = pm_dstore pm' \<and> pm_cleanupInterval pm = pm_cleanupInterval pm' \<and>
     pm_timer pm = pm_timer pm' \<and> pm_gcQueryRes pm = pm_gcQueryRes pm' \<and>
     pm_gcSkip pm = pm_gcSkip pm' \<and> pm_gcTime pm = pm_gcTime pm' \<and> pm_closed pm = pm_closed pm'"
  by (cases pm; cases pm') (auto simp: same_but_log_def)

lemma get_set_log:
  assumes "same_but_log pm1 pm2"
    and "get_set_with (\<lambda>env. load_with env l1) env k now pm1 = (r1, pm1')"
    and "get_set_with (\<lambda>env. load_with env l2) env k now pm2 = (r2, pm2')"
  shows "r1 = r2 \<and> same_but_log pm1' pm2'"
proof -
  obtain c r where c: "lru_Get (pe_lru env) k (pm_cache pm1) = (r, c)" by fastforce
  obtain s1 d1 g1 where 1: "load_with env l1 k now (pm_dstore pm1) (pm_log pm1) = (s1, d1, g1)"
    by (cases "load_with env l1 k now (pm_dstore pm1) (pm_log pm1)")
  obtain s2 d2 g2 where 2: "load_with env l2 k now (pm_dstore pm1) (pm_log pm2) = (s2, d2, g2)"
    by (cases "load_with env l2 k now (pm_dstore pm1) (pm_log pm2)")
  from load_with_log [OF 1 2] have "s1 = s2" "d1 = d2" by auto
  with assms c 1 2 show ?thesis
    by (cases r; cases s2) (auto simp: get_set_with_def Let_def same_but_log_fields split: if_splits)
qed

lemma on_add_log: "same_but_log pm1 pm2 \<Longrightarrow> same_but_log (on_add env k p now pm1) (on_add env k p now pm2)"
  by (auto simp: on_add_def addProv_def Let_def same_but_log_fields split: option.splits prod.splits)

lemma on_stop_log: "same_but_log pm1 pm2 \<Longrightarrow> same_but_log (on_stop env pm1) (on_stop env pm2)"
  by (auto simp: on_stop_def Let_def same_but_log_fields split: prod.splits)

lemma on_timer_log: "same_but_log pm1 pm2 \<Longrightarrow>
    rel_option same_but_log (on_timer env now pm1) (on_timer env now pm2)"
  by (auto simp: on_timer_def Let_def same_but_log_fields split: sum.splits)

lemma on_gc_log: "same_but_log pm1 pm2 \<Longrightarrow> rel_option same_but_log (on_gc env pm1) (on_gc env pm2)"
  using delete_record_log [of env "\<lambda>e. e \<noteq> DsNotFound" _ "pm_dstore pm2" _ "\<lambda>e. e \<noteq> DsNotFound"]
  by (auto simp: on_gc_def Let_def same_but_log_fields case_prod_beta
      split: option.splits list.splits query_result.splits)

lemma step_with_log:
  assumes "same_but_log pm1 pm2"
  shows "rel_option (rel_prod (=) same_but_log) (step_with (\<lambda>env. load_with env l1) g1 env ev pm1)
    (step_with (\<lambda>env. load_with env l2) g2 env ev pm2)"
proof (cases "pm_closed pm1")
  case True
  with assms show ?thesis by (simp add: step_with_def same_but_log_fields)
next
  case False
  then have open2: "\<not> pm_closed pm2" using assms by (simp add: same_but_log_fields)
  show ?thesis
  proof (cases ev)
    case (NewProv k p now)
    with False open2 on_add_log [OF assms] show ?thesis by (simp add: step_with_def)
  next
    case (GetProv k now)
    obtain r1 q1 where 1: "get_set_with (\<lambda>env. load_with env l1) env k now pm1 = (r1, q1)" by fastforce
    obtain r2 q2 where 2: "get_set_with (\<lambda>env. load_with env l2) env k now pm2 = (r2, q2)" by fastforce
    from get_set_log [OF assms 1 2] have "r1 = r2" "same_but_log q1 q2" by auto
    with False open2 GetProv 1 2 show ?thesis
      by (cases r2) (auto simp: step_with_def same_but_log_fields)
  next
    case GCNext
    with False open2 on_gc_log [OF assms, of env] show ?thesis
      by (cases "on_gc env pm1"; cases "on_gc env pm2") (simp_all add: step_with_def)
  next
    case (GCTimer now)
    with False open2 on_timer_log [OF assms, of env now] show ?thesis
      by (cases "on_timer env now pm1"; cases "on_timer env now pm2") (simp_all add: step_with_def)
  next
    case Stop
    with False open2 on_stop_log [OF assms] show ?thesis by (simp add: step_with_def)
  qed
qed

section \<open>A concrete manager\<close>

definition demo_pm_env :: "((string, nat) gomap, (string, bytes) gomap) pm_env" where
  "demo_pm_env = \<lparr>pe_ds = mem_ds, pe_lru = mem_lru, pe_NewKey = id, pe_b32enc = hexenc, pe_b32dec = hexdec\<rparr>"

lemma demo_pm_env_ok: "pe_ok demo_pm_env map_of map_of" "reliable_queries demo_pm_env"
  using mem_ds_ok mem_lru_ok
  by (auto simp: pe_ok_def demo_pm_env_def hexdec_enc hexenc_noslash hexenc_ne reliable_queries_def mem_ds_def)

definition demo_pm :: "((string, nat) gomap, (string, bytes) gomap) ProviderManager" where
  "demo_pm = \<lparr>pm_cache = [], pm_sets = [], pm_dstore = [], pm_cleanupInterval = hours 1,
     pm_timer = True, pm_gcQueryRes = None, pm_gcSkip = None, pm_gcTime = 0,
     pm_closed = False, pm_log = []\<rparr>"

lemma demo_pm_new: "NewProviderManager [] [] [] = Inr demo_pm"
  by (simp add: NewProviderManager_def demo_pm_def)

lemma new_manager_wf: "lru_ok ops view \<Longrightarrow> view cache = Map.empty \<Longrightarrow>
    NewProviderManager cache dstore [] = Inr pm \<Longrightarrow> pm_wf view pm"
  by (auto simp: NewProviderManager_def pm_wf_def)

lemma demo_pm_wf: "pm_wf map_of demo_pm"
  by (simp add: pm_wf_def demo_pm_def)

section \<open>Properties\<close>

text \<open>The time stamp of a provider record survives its encoding: what \<open>writeProviderEntry\<close> stores
  for an instant is read back as that instant, for every instant that fits into 64 bits, and it fits
  into the code's 16-byte buffer.\<close>

theorem provider_time_roundtrip:
  assumes "-9223372036854775808 \<le> t" and "t \<le> 9223372036854775807"
    and "pe_ok env contents view" and "k \<noteq> []" and "p \<noteq> []"
    and "writeProviderEntry env k p t d = (None, d')"
  shows "\<exists>v. contents d' (mkProvKeyFor env k p) = Some v \<and> readTimeValue v = Some t \<and> length v \<le> 16"
  using write_effect [OF assms(3-6)] PutVarint_length [of "UnixNano t"] assms(1,2)
  by (simp add: readTimeValue_PutVarint time_Unix0_UnixNano)

theorem provider_time_roundtrip_witness:
  "\<exists>d' v. writeProviderEntry demo_pm_env ''k'' ''p'' 1000 [] = (None, d') \<and> readTimeValue v = Some 1000 \<and>
     map_of d' (mkProvKeyFor demo_pm_env ''k'' ''p'') = Some v"
proof -
  obtain d' where "writeProviderEntry demo_pm_env ''k'' ''p'' 1000 [] = (None, d')"
    by (simp add: writeProviderEntry_def demo_pm_env_def mem_ds_def)
  with provider_time_roundtrip [OF _ _ demo_pm_env_ok(1) _ _ this] show ?thesis by auto
qed

text \<open>C8: A provider that was added is found: after a successful addition of peer \<open>p\<close> for key \<open>k\<close> at
  time \<open>T\<close>, whatever additions, reads, collections and restarts of the collection timer follow within
  the validity of 48 hours, in any order, a read of \<open>k\<close> returns \<open>p\<close>, and no provider twice.\<close>

theorem provider_found:
  assumes "pe_ok env contents view" and "reliable_queries env" and "pm_wf view pm"
    and "0 \<le> T" and "T + 172800000000000 \<le> 9223372036854775807" and "k \<noteq> []" and "p \<noteq> []"
    and "fst (writeProviderEntry env k p T (pm_dstore pm)) = None"
    and "pm_run env (NewProv k p T # evs) pm = Some (rs, pm1)"
    and "\<forall>ev\<in>set evs. event_within T (T + 172800000000000) ev"
    and "event_within T (T + 172800000000000) (GetProv k now)"
    and "pm_step env (GetProv k now) pm1 = Some (r, pm2)"
  shows "\<exists>ps. r = Some ps \<and> p \<in> set ps \<and> distinct ps"
proof -
  from assms(9) obtain rs1 where run: "pm_run env evs (on_add env k p T pm) = Some (rs1, pm1)"
    by (auto simp: pm_step_def step_with_def split: if_splits)
  have "pm_service_ok env contents view T (on_add env k p T pm)"
    using assms(1-5) on_add_wf by (simp add: pm_service_ok_def)
  moreover have "kept env contents view k p T (on_add env k p T pm)"
    using assms by (intro kept_by_add) simp_all
  ultimately show ?thesis
    using pms.read_after_run [of env contents view T _ k p evs rs1 pm1 "GetProv k now" r pm2]
      assms(6,10-12) run by simp
qed

theorem provider_found_witness:
  "\<exists>ps. map_option fst (pm_run demo_pm_env
      [NewProv ''k'' ''p'' 5, GCTimer 6, NewProv ''k'' ''q'' 7, GCNext, GetProv ''k'' 8] demo_pm) = Some [ps] \<and>
     ''p'' \<in> set ps"
proof -
  let ?evs = "[GCTimer 6, NewProv ''k'' ''q'' 7, GCNext]"
  have "pm_run demo_pm_env (NewProv ''k'' ''p'' 5 # ?evs) demo_pm \<noteq> None" by code_simp
  then obtain rs pm1 where run: "pm_run demo_pm_env (NewProv ''k'' ''p'' 5 # ?evs) demo_pm = Some (rs, pm1)"
    by auto
  have full: "map_option fst (pm_run demo_pm_env
      [NewProv ''k'' ''p'' 5, GCTimer 6, NewProv ''k'' ''q'' 7, GCNext, GetProv ''k'' 8] demo_pm) = Some [[''p'', ''q'']]"
    by code_simp
  have "\<not> pm_closed (snd (the (pm_run demo_pm_env (NewProv ''k'' ''p'' 5 # ?evs) demo_pm)))" by code_simp
  with run have "\<not> pm_closed pm1" by simp
  then obtain r pm2 where step: "pm_step demo_pm_env (GetProv ''k'' 8) pm1 = Some (r, pm2)"
    by (cases "get_set_with loadProviderSet demo_pm_env ''k'' 8 pm1"; cases "fst (get_set_with loadProviderSet demo_pm_env ''k'' 8 pm1)")
      (auto simp: pm_step_def step_with_def)
  have put: "fst (writeProviderEntry demo_pm_env ''k'' ''p'' 5 (pm_dstore demo_pm)) = None"
    by (simp add: writeProviderEntry_def demo_pm_env_def mem_ds_def)
  have "\<exists>ps. r = Some ps \<and> ''p'' \<in> set ps \<and> distinct ps"
    by (rule provider_found [OF demo_pm_env_ok demo_pm_wf _ _ _ _ put run _ _ step]) simp_all
  with full show ?thesis by auto
qed

text \<open>C9: Starting from an empty store, a read of a key returns only peers that were added for that
  very key before, whatever the cache evicted and the collection deleted in between.\<close>

theorem provider_only_added:
  assumes "pe_ok env contents view" and "view cache = Map.empty" and "contents d = Map.empty"
    and "NewProviderManager cache d [] = Inr pm"
    and "pm_run env evs pm = Some (rs, pm1)" and "\<forall>ev\<in>set evs. nonempty_ids ev" and "k \<noteq> []"
    and "pm_step env (GetProv k now) pm1 = Some (Some ps, pm2)"
  shows "\<forall>p\<in>set ps. \<exists>t. NewProv k p t \<in> set evs"
proof -
  have wf: "pm_wf view pm"
    using assms(1,2,4) new_manager_wf by (auto simp: pe_ok_def)
  have "only_added env contents view {} pm"
    using assms(2-4) by (auto simp: only_added_def NewProviderManager_def)
  from only_added_run [OF assms(1) wf this assms(6,5)] have
    pm1: "pm_wf view pm1" "only_added env contents view (\<Union> (added_by ` set evs)) pm1" by simp_all
  have "nonempty_ids (GetProv k now)" using assms(7) by simp
  from only_added_step [OF assms(1) pm1 this assms(8)]
  have "(k, p) \<in> \<Union> (added_by ` set evs)" if "p \<in> set ps" for p using that by blast
  moreover have "(k, p) \<in> added_by ev \<Longrightarrow> \<exists>t. ev = NewProv k p t" for p ev by (cases ev) auto
  ultimately show ?thesis by blast
qed

theorem provider_only_added_witness:
  "\<exists>t. NewProv ''k'' ''p'' t \<in> set [NewProv ''k'' ''p'' 5, NewProv ''kk'' ''q'' 5]"
proof -
  let ?evs = "[NewProv ''k'' ''p'' 5, NewProv ''kk'' ''q'' 5]"
  have "pm_run demo_pm_env ?evs demo_pm \<noteq> None" by code_simp
  then obtain rs pm1 where run: "pm_run demo_pm_env ?evs demo_pm = Some (rs, pm1)" by auto
  have "map_option fst (pm_step demo_pm_env (GetProv ''k'' 8)
      (snd (the (pm_run demo_pm_env ?evs demo_pm)))) = Some (Some [''p''])" by code_simp
  with run obtain pm2 where "pm_step demo_pm_env (GetProv ''k'' 8) pm1 = Some (Some [''p''], pm2)" by auto
  with provider_only_added [OF demo_pm_env_ok(1) _ _ demo_pm_new run _ _ this] show ?thesis by simp
qed

text \<open>When the query that starts a garbage collection fails, no collection ever runs again: the
  timer is not armed again, so no later event of the loop is a timer or a collection event.\<close>

theorem gc_failed_query_is_last:
  assumes "ds_query (pe_ds env) ProvidersKeyPrefix (pm_dstore pm) = Inl e" and "pm_gcQueryRes pm = None"
    and "pm_step env (GCTimer now) pm = Some (r, pm1)" and "pm_run env evs pm1 = Some (rs, pm2)"
  shows "\<forall>ev\<in>set evs. ev \<noteq> GCNext \<and> (\<forall>now. ev \<noteq> GCTimer now)"
proof -
  from assms(1-3) have "no_more_gc pm1"
    by (auto simp: pm_step_def step_with_def on_timer_def Let_def no_more_gc_def split: if_splits)
  then show ?thesis using assms(4) by (rule no_more_gc_run)
qed

definition failing_env :: "((string, nat) gomap, (string, bytes) gomap) pm_env" where
  "failing_env = demo_pm_env\<lparr>pe_ds := mem_ds\<lparr>ds_query := \<lambda>p d. Inl DsOther\<rparr>\<rparr>"

theorem gc_failed_query_is_last_witness:
  "\<exists>pm1. pm_step failing_env (GCTimer 1) demo_pm = Some (None, pm1) \<and>
     (\<forall>ev\<in>set [NewProv ''k'' ''p'' 5]. ev \<noteq> GCNext)"
proof -
  have "map_option fst (pm_step failing_env (GCTimer 1) demo_pm) = Some None" by code_simp
  then obtain pm1 where step: "pm_step failing_env (GCTimer 1) demo_pm = Some (None, pm1)" by auto
  have "pm_run failing_env [NewProv ''k'' ''p'' 5] (snd (the (pm_step failing_env (GCTimer 1) demo_pm))) \<noteq> None"
    by code_simp
  with step obtain rs pm2 where run: "pm_run failing_env [NewProv ''k'' ''p'' 5] pm1 = Some (rs, pm2)" by auto
  have "ds_query (pe_ds failing_env) ProvidersKeyPrefix (pm_dstore demo_pm) = Inl DsOther"
    by (simp add: failing_env_def)
  from gc_failed_query_is_last [OF this _ step run] step show ?thesis by (simp add: demo_pm_def)
qed

text \<open>The deprecated copy of the manager in package \<^verbatim>\<open>providers\<close> and the one in \<^verbatim>\<open>records\<close> agree
  in everything but their log: from states that differ in the log only, every event is possible in
  both or in neither, gives the same answer and leads to states that differ in the log only.\<close>

theorem deprecated_manager_equivalent:
  assumes "same_but_log pm1 pm2"
  shows "rel_option (rel_prod (=) same_but_log) (pm_step env ev pm1) (deprecated_step env ev pm2)"
  using step_with_log [OF assms]
  by (simp add: pm_step_def deprecated_step_def loadProviderSet_fun deprecated_load_fun)

theorem deprecated_manager_equivalent_witness:
  "rel_option (rel_prod (=) same_but_log) (pm_step demo_pm_env (GetProv ''k'' 8) demo_pm)
     (deprecated_step demo_pm_env (GetProv ''k'' 8) (demo_pm\<lparr>pm_log := [LogFlush]\<rparr>))"
proof -
  have "same_but_log demo_pm (demo_pm\<lparr>pm_log := [LogFlush]\<rparr>)" by (simp add: same_but_log_def)
  then show ?thesis by (rule deprecated_manager_equivalent)
qed

end
