(* ===== verification/Messages.thy ===== *)
theory Messages
  imports Go_Std
begin

text \<open>
  The wire messages (\<^verbatim>\<open>pb/message.go\<close>, the struct and enumerations of \<^verbatim>\<open>pb/dht.pb.go\<close>) and the
  client side of the protocol (\<^verbatim>\<open>pb/protocol_messenger.go\<close>). The message sender, the decoding of
  multiaddresses and the record type of \<^verbatim>\<open>go-libp2p-record\<close> are third-party: the first two are
  parameters, the third is the record of the fields the code reads and writes.

  Enumerations travel as 32-bit numbers, so a peer may send one without a name: the last
  constructor. Decoded lists of peers hold no nil pointers. Tracing is left out.
\<close>

section \<open>Messages\<close>

datatype MessageType = PUT_VALUE | GET_VALUE | ADD_PROVIDER | GET_PROVIDERS | FIND_NODE | PING |
  UnknownType "32 word"

datatype ConnType = NOT_CONNECTED | CONNECTED | CAN_CONNECT | CANNOT_CONNECT | UnknownConn "32 word"

text \<open>\<^verbatim>\<open>network.Connectedness\<close>, third-party: the values the code names, and the others.\<close>

datatype connectedness = NetNotConnected | NetConnected | NetLimited | NetOther nat

record Record =
  rec_Key :: bytes
  rec_Value :: bytes
  rec_TimeReceived :: string

record Message_Peer =
  mp_Id :: bytes
  mp_Addrs :: "bytes list"
  mp_Connection :: ConnType

record Message =
  m_Type :: MessageType
  m_ClusterLevelRaw :: "32 word"
  m_Key :: bytes
  m_Record :: "Record option"
  m_CloserPeers :: "Message_Peer list"
  m_ProviderPeers :: "Message_Peer list"

text \<open>
  The cluster level is stored plus one, in 32 bits: a conversion of the \<^verbatim>\<open>int\<close> to \<^verbatim>\<open>int32\<close>
  truncates, and the addition and subtraction wrap around.
\<close>

definition SetClusterLevel :: "int \<Rightarrow> Message \<Rightarrow> Message" where
  "SetClusterLevel level m = (let lvl = word_of_int level :: 32 word in m\<lparr>m_ClusterLevelRaw := lvl + 1\<rparr>)"

definition GetClusterLevel :: "Message \<Rightarrow> int" where
  "GetClusterLevel m = (let level = m_ClusterLevelRaw m - 1 in if word_sless level 0 then 0 else sint level)"

definition NewMessage :: "MessageType \<Rightarrow> bytes \<Rightarrow> int \<Rightarrow> Message" where
  "NewMessage typ key level =
     SetClusterLevel level \<lparr>m_Type = typ, m_ClusterLevelRaw = 0, m_Key = key, m_Record = None,
       m_CloserPeers = [], m_ProviderPeers = []\<rparr>"

fun ConnectionType :: "connectedness \<Rightarrow> ConnType" where
  "ConnectionType NetConnected = CONNECTED"
| "ConnectionType NetNotConnected = NOT_CONNECTED"
| "ConnectionType c = NOT_CONNECTED"

fun Connectedness :: "ConnType \<Rightarrow> connectedness" where
  "Connectedness CONNECTED = NetConnected"
| "Connectedness NOT_CONNECTED = NetNotConnected"
| "Connectedness c = NetNotConnected"

section \<open>Peers in messages\<close>

text \<open>A multiaddress is its bytes; \<open>validAddr\<close> is the success of \<^verbatim>\<open>ma.NewMultiaddrBytes\<close>.\<close>

record PeerRoutingInfo =
  pr_AddrInfo :: AddrInfo
  pr_Connectedness :: connectedness

definition peerInfoToPBPeer :: "AddrInfo \<Rightarrow> Message_Peer" where
  "peerInfoToPBPeer p = \<lparr>mp_Id = ai_ID p, mp_Addrs = ai_Addrs p, mp_Connection = NOT_CONNECTED\<rparr>"

definition peerRoutingInfoToPBPeer :: "PeerRoutingInfo \<Rightarrow> Message_Peer" where
  "peerRoutingInfoToPBPeer p =
     \<lparr>mp_Id = ai_ID (pr_AddrInfo p), mp_Addrs = ai_Addrs (pr_AddrInfo p),
      mp_Connection = ConnectionType (pr_Connectedness p)\<rparr>"

definition RawPeerInfosToPBPeers :: "AddrInfo list \<Rightarrow> Message_Peer list" where
  "RawPeerInfosToPBPeers peers = map peerInfoToPBPeer peers"

definition PeerInfosToPBPeers :: "(peer_id \<Rightarrow> connectedness) \<Rightarrow> AddrInfo list \<Rightarrow> Message_Peer list" where
  "PeerInfosToPBPeers conn peers =
     (let pbps = RawPeerInfosToPBPeers peers
      in map (\<lambda>i. (pbps ! i)\<lparr>mp_Connection := ConnectionType (conn (ai_ID (peers ! i)))\<rparr>) [0..<length pbps])"

definition PeerRoutingInfosToPBPeers :: "PeerRoutingInfo list \<Rightarrow> Message_Peer list" where
  "PeerRoutingInfosToPBPeers peers = map peerRoutingInfoToPBPeer peers"

definition Addresses :: "(bytes \<Rightarrow> bool) \<Rightarrow> Message_Peer \<Rightarrow> multiaddr list" where
  "Addresses validAddr m = filter validAddr (mp_Addrs m)"

definition PBPeerToPeerInfo :: "(bytes \<Rightarrow> bool) \<Rightarrow> Message_Peer \<Rightarrow> AddrInfo" where
  "PBPeerToPeerInfo validAddr pbp = \<lparr>ai_ID = mp_Id pbp, ai_Addrs = Addresses validAddr pbp\<rparr>"

definition PBPeersToPeerInfos :: "(bytes \<Rightarrow> bool) \<Rightarrow> Message_Peer list \<Rightarrow> AddrInfo list" where
  "PBPeersToPeerInfos validAddr pbps = map (PBPeerToPeerInfo validAddr) pbps"

section \<open>The client side of the protocol\<close>

text \<open>
  A sender answers a request with an error or a message and a one-way message with an error or
  nothing. In \<open>pm_PutValue\<close> the outer \<open>None\<close> is a panic: the code reads the value of the response's
  record without checking that there is one.
\<close>

datatype messenger_error = SendFailed string | ValueNotPut | ErrIncorrectRecord | NoAddrs |
  UnexpectedType MessageType

type_synonym send_request = "peer_id \<Rightarrow> Message \<Rightarrow> string + Message"
type_synonym send_message = "peer_id \<Rightarrow> Message \<Rightarrow> string option"

text \<open>
  A messenger holds the sender its calls go through; an option may replace it or fail, and the first
  failure ends the construction.
\<close>

record 'm ProtocolMessenger =
  pm_m :: 'm

type_synonym 'm ProtocolMessengerOption = "'m ProtocolMessenger \<Rightarrow> string + 'm ProtocolMessenger"

fun pm_options :: "'m ProtocolMessengerOption list \<Rightarrow> 'm ProtocolMessenger \<Rightarrow> string + 'm ProtocolMessenger" where
  "pm_options [] pm = Inr pm"
| "pm_options (o1 # opts) pm = (case o1 pm of Inl err \<Rightarrow> Inl err | Inr pm' \<Rightarrow> pm_options opts pm')"

definition NewProtocolMessenger :: "'m \<Rightarrow> 'm ProtocolMessengerOption list \<Rightarrow> string + 'm ProtocolMessenger" where
  "NewProtocolMessenger msgSender opts = pm_options opts \<lparr>pm_m = msgSender\<rparr>"

definition pm_PutValue :: "send_request \<Rightarrow> peer_id \<Rightarrow> Record \<Rightarrow> messenger_error option option" where
  "pm_PutValue send p r =
     (let pmes = (NewMessage PUT_VALUE (rec_Key r) 0)\<lparr>m_Record := Some r\<rparr>
      in case send p pmes of
           Inl err \<Rightarrow> Some (Some (SendFailed err))
         | Inr rpmes \<Rightarrow>
             (case m_Record rpmes of
                None \<Rightarrow> None
              | Some rr \<Rightarrow> if rec_Value rr \<noteq> rec_Value r then Some (Some ValueNotPut) else Some None))"

definition pm_GetValue :: "(bytes \<Rightarrow> bool) \<Rightarrow> send_request \<Rightarrow> peer_id \<Rightarrow> string \<Rightarrow>
    messenger_error + Record option \<times> AddrInfo list" where
  "pm_GetValue validAddr send p key =
     (case send p (NewMessage GET_VALUE key 0) of
        Inl err \<Rightarrow> Inl (SendFailed err)
      | Inr respMsg \<Rightarrow>
          let peers = PBPeersToPeerInfos validAddr (m_CloserPeers respMsg)
          in (case m_Record respMsg of
                Some r \<Rightarrow> if key \<noteq> rec_Key r then Inl ErrIncorrectRecord else Inr (Some r, peers)
              | None \<Rightarrow> Inr (None, peers)))"

definition pm_GetClosestPeers :: "(bytes \<Rightarrow> bool) \<Rightarrow> send_request \<Rightarrow> peer_id \<Rightarrow> peer_id \<Rightarrow>
    messenger_error + AddrInfo list" where
  "pm_GetClosestPeers validAddr send p target =
     (case send p (NewMessage FIND_NODE target 0) of
        Inl err \<Rightarrow> Inl (SendFailed err)
      | Inr respMsg \<Rightarrow> Inr (PBPeersToPeerInfos validAddr (m_CloserPeers respMsg)))"

definition pm_PutProviderAddrs :: "send_message \<Rightarrow> peer_id \<Rightarrow> bytes \<Rightarrow> AddrInfo \<Rightarrow>
    messenger_error option" where
  "pm_PutProviderAddrs send p key self =
     (if length (ai_Addrs self) < 1 then Some NoAddrs
      else map_option SendFailed
        (send p ((NewMessage ADD_PROVIDER key 0)\<lparr>m_ProviderPeers := RawPeerInfosToPBPeers [self]\<rparr>)))"

definition pm_PutProvider :: "send_message \<Rightarrow> peer_id \<Rightarrow> bytes \<Rightarrow> peer_id \<Rightarrow> multiaddr list \<Rightarrow>
    messenger_error option" where
  "pm_PutProvider send p key hostID hostAddrs =
     pm_PutProviderAddrs send p key \<lparr>ai_ID = hostID, ai_Addrs = hostAddrs\<rparr>"

definition pm_GetProviders :: "(bytes \<Rightarrow> bool) \<Rightarrow> send_request \<Rightarrow> peer_id \<Rightarrow> bytes \<Rightarrow>
    messenger_error + AddrInfo list \<times> AddrInfo list" where
  "pm_GetProviders validAddr send p key =
     (case send p (NewMessage GET_PROVIDERS key 0) of
        Inl err \<Rightarrow> Inl (SendFailed err)
      | Inr respMsg \<Rightarrow> Inr (PBPeersToPeerInfos validAddr (m_ProviderPeers respMsg),
                            PBPeersToPeerInfos validAddr (m_CloserPeers respMsg)))"

definition pm_Ping :: "send_request \<Rightarrow> peer_id \<Rightarrow> messenger_error option" where
  "pm_Ping send p =
     (case send p (NewMessage PING [] 0) of
        Inl err \<Rightarrow> Some (SendFailed err)
      | Inr resp \<Rightarrow> if m_Type resp \<noteq> PING then Some (UnexpectedType (m_Type resp)) else None)"

section \<open>Laws\<close>

lemma NewMessage_fields [simp]:
  "m_Type (NewMessage t k l) = t" "m_Key (NewMessage t k l) = k" "m_Record (NewMessage t k l) = None"
  "m_CloserPeers (NewMessage t k l) = []" "m_ProviderPeers (NewMessage t k l) = []"
  by (simp_all add: NewMessage_def SetClusterLevel_def)

lemma PeerInfosToPBPeers_map:
  "PeerInfosToPBPeers conn peers =
     map (\<lambda>p. (peerInfoToPBPeer p)\<lparr>mp_Connection := ConnectionType (conn (ai_ID p))\<rparr>) peers"
  by (rule nth_equalityI) (simp_all add: PeerInfosToPBPeers_def Let_def RawPeerInfosToPBPeers_def)

lemma PBPeers_roundtrip:
  assumes "\<forall>p\<in>set peers. \<forall>a\<in>set (ai_Addrs p). validAddr a"
  shows "PBPeersToPeerInfos validAddr (PeerInfosToPBPeers conn peers) = peers"
    and "PBPeersToPeerInfos validAddr (RawPeerInfosToPBPeers peers) = peers"
proof -
  have "PBPeerToPeerInfo validAddr ((peerInfoToPBPeer p)\<lparr>mp_Connection := c\<rparr>) = p"
    and "PBPeerToPeerInfo validAddr (peerInfoToPBPeer p) = p" if "p \<in> set peers" for p c
    using assms that by (simp_all add: PBPeerToPeerInfo_def Addresses_def peerInfoToPBPeer_def)
  then show "PBPeersToPeerInfos validAddr (PeerInfosToPBPeers conn peers) = peers"
    and "PBPeersToPeerInfos validAddr (RawPeerInfosToPBPeers peers) = peers"
    by (auto simp: PBPeersToPeerInfos_def PeerInfosToPBPeers_map RawPeerInfosToPBPeers_def comp_def
        intro: map_idI)
qed

lemma cluster_level:
  assumes "-2147483648 \<le> l" and "l < 2147483648"
  shows "GetClusterLevel (SetClusterLevel l m) = max 0 l"
proof -
  have "sint (word_of_int l :: 32 word) = l"
    using assms by (simp add: signed_of_int signed_take_bit_int_eq_self)
  then show ?thesis by (simp add: GetClusterLevel_def SetClusterLevel_def Let_def word_sless_alt)
qed

lemma NewMessage_level:
  "-2147483648 \<le> l \<Longrightarrow> l < 2147483648 \<Longrightarrow> GetClusterLevel (NewMessage t k l) = max 0 l"
  by (simp add: NewMessage_def cluster_level)

section \<open>Properties\<close>

text \<open>The cluster level of a message survives its storage plus one in 32 bits for every
  non-negative 32-bit level, the largest one included, where the stored number wraps around; a
  negative level is read back as 0. Every message built for a level carries it.\<close>

theorem cluster_level_roundtrip:
  assumes "-2147483648 \<le> level" and "level < 2147483648"
  shows "GetClusterLevel (SetClusterLevel level m) = max 0 level \<and>
    GetClusterLevel (NewMessage typ key level) = max 0 level"
  using cluster_level [OF assms] NewMessage_level [OF assms] by simp

theorem cluster_level_roundtrip_witness:
  "GetClusterLevel (NewMessage PING [] 2147483647) = 2147483647"
  using cluster_level_roundtrip [of 2147483647] by simp

text \<open>The peers of a message survive their translation to the wire form and back when their
  addresses are valid, with the connection type only saying whether the peer is connected.\<close>

theorem message_peers_roundtrip:
  assumes "\<forall>p\<in>set peers. \<forall>a\<in>set (ai_Addrs p). validAddr a"
  shows "PBPeersToPeerInfos validAddr (PeerInfosToPBPeers conn peers) = peers \<and>
    PBPeersToPeerInfos validAddr (RawPeerInfosToPBPeers peers) = peers \<and>
    map (\<lambda>m. Connectedness (mp_Connection m)) (PeerInfosToPBPeers conn peers) =
      map (\<lambda>p. if conn (ai_ID p) = NetConnected then NetConnected else NetNotConnected) peers"
proof -
  have "Connectedness (ConnectionType c) = (if c = NetConnected then NetConnected else NetNotConnected)" for c
    by (cases c) auto
  with PBPeers_roundtrip [OF assms] show ?thesis by (simp add: PeerInfosToPBPeers_map comp_def)
qed

theorem message_peers_roundtrip_witness:
  "PBPeersToPeerInfos (\<lambda>a. a \<noteq> []) (RawPeerInfosToPBPeers [\<lparr>ai_ID = ''p'', ai_Addrs = [''a'']\<rparr>]) =
     [\<lparr>ai_ID = ''p'', ai_Addrs = [''a'']\<rparr>]"
  using message_peers_roundtrip [of "[\<lparr>ai_ID = ''p'', ai_Addrs = [''a'']\<rparr>]" "\<lambda>a. a \<noteq> []"] by simp

end
