(* ===== verification/Go_Time.thy ===== *)
theory Go_Time
  imports Go_Std
begin

text \<open>
  Go's calendar and the time stamps of records: what \<^verbatim>\<open>FormatRFC3339\<close> and \<^verbatim>\<open>ParseRFC3339\<close>
  (\<^verbatim>\<open>internal/util.go\<close>) do with package \<^verbatim>\<open>time\<close> for instants in UTC and the layout
  \<^verbatim>\<open>2006-01-02T15:04:05.999999999Z07:00\<close>.
\<close>

section \<open>Digits\<close>

definition digit :: "int \<Rightarrow> char" where
  "digit d = char_of (48 + d)"

definition digit_val :: "char \<Rightarrow> int option" where
  "digit_val c = (let b = of_char c :: int in if 48 \<le> b \<and> b \<le> 57 then Some (b - 48) else None)"

fun pad_digits :: "nat \<Rightarrow> int \<Rightarrow> string" where
  "pad_digits 0 n = []"
| "pad_digits (Suc w) n = pad_digits w (n div 10) @ [digit (n mod 10)]"

text \<open>\<open>atoi\<close> of a run of digits; the accumulator is what was read so far.\<close>

fun digits_val :: "int \<Rightarrow> string \<Rightarrow> int option" where
  "digits_val acc [] = Some acc"
| "digits_val acc (c # cs) = (case digit_val c of None \<Rightarrow> None | Some d \<Rightarrow> digits_val (10 * acc + d) cs)"

lemma digit_val_digit [simp]: "0 \<le> d \<Longrightarrow> d < 10 \<Longrightarrow> digit_val (digit d) = Some d"
  by (simp add: digit_val_def digit_def)

lemma digit_val_less: "digit_val c = Some d \<Longrightarrow> 0 \<le> d \<and> d < 10"
  by (auto simp: digit_val_def Let_def split: if_splits)

lemma digit_inj: "digit_val c = Some d \<Longrightarrow> c = digit d"
  by (auto simp: digit_val_def digit_def Let_def split: if_splits)

lemma length_pad_digits [simp]: "length (pad_digits w n) = w"
  by (induction w n rule: pad_digits.induct) simp_all

lemma digits_val_append:
  "digits_val acc (xs @ ys) = Option.bind (digits_val acc xs) (\<lambda>acc. digits_val acc ys)"
  by (induction xs arbitrary: acc) (simp_all split: option.splits)

lemma digits_val_pad: "digits_val acc (pad_digits w n) = Some (acc * 10 ^ w + n mod 10 ^ w)"
proof (induction w n rule: pad_digits.induct)
  case (2 w n)
  have "n mod (10 * 10 ^ w) = 10 * (n div 10 mod 10 ^ w) + n mod 10"
    by (simp add: zmod_zmult2_eq)
  then show ?case using 2 by (simp add: digits_val_append algebra_simps)
qed simp

lemma digits_pad: "c \<in> set (pad_digits w n) \<Longrightarrow> \<exists>d. 0 \<le> d \<and> d < 10 \<and> c = digit d"
proof (induction w n rule: pad_digits.induct)
  case (2 w n)
  moreover have "\<exists>d. 0 \<le> d \<and> d < 10 \<and> digit (n mod 10) = digit d" by (rule exI [of _ "n mod 10"]) simp
  ultimately show ?case by auto
qed simp

section \<open>The calendar\<close>

definition isLeap :: "int \<Rightarrow> bool" where
  "isLeap year \<longleftrightarrow> year mod 4 = 0 \<and> (year mod 100 \<noteq> 0 \<or> year mod 400 = 0)"

definition month_lengths :: "bool \<Rightarrow> int list" where
  "month_lengths leap = [31, if leap then 29 else 28, 31, 30, 31, 30, 31, 31, 30, 31, 30, 31]"

text \<open>The days from 1 January of year 1 to 1 January of a year.\<close>

definition days_before_year :: "int \<Rightarrow> int" where
  "days_before_year year = (let y = year - 1 in 365 * y + y div 4 - y div 100 + y div 400)"

text \<open>The year of a day and the day in the year, by cycles of 400, 100, 4 and one years, as the package computes it.\<close>

definition year_of_day :: "int \<Rightarrow> int \<times> int" where
  "year_of_day d =
     (let n400 = d div 146097; d = d mod 146097;
          n100 = min 3 (d div 36524); d = d - 36524 * n100;
          n4 = d div 1461; d = d mod 1461;
          n1 = min 3 (d div 365); d = d - 365 * n1
      in (400 * n400 + 100 * n100 + 4 * n4 + n1 + 1, d))"

fun month_of_yday :: "int \<Rightarrow> int list \<Rightarrow> int \<Rightarrow> int \<times> int" where
  "month_of_yday m [] d = (m, d + 1)"
| "month_of_yday m (l # ls) d = (if d < l \<or> ls = [] then (m, d + 1) else month_of_yday (m + 1) ls (d - l))"

definition civil_of_day :: "int \<Rightarrow> int \<times> int \<times> int" where
  "civil_of_day d =
     (let (year, yday) = year_of_day d; (month, day) = month_of_yday 1 (month_lengths (isLeap year)) yday
      in (year, month, day))"

definition day_of_civil :: "int \<Rightarrow> int \<Rightarrow> int \<Rightarrow> int" where
  "day_of_civil year month day =
     days_before_year year + sum_list (take (nat (month - 1)) (month_lengths (isLeap year))) + (day - 1)"

lemma int_block: "0 \<le> r \<Longrightarrow> r < k \<Longrightarrow> (k * q + r) div k = (q :: int)"
  by simp

lemma int_block_full: "0 < r \<Longrightarrow> r \<le> k \<Longrightarrow> (k * q + r) mod k = 0 \<longleftrightarrow> r = (k :: int)"
  by (cases "r = k") (simp_all add: mod_pos_pos_trivial)

lemma year_parts:
  assumes "0 \<le> n100" "n100 \<le> 3" "0 \<le> n4" "n4 \<le> 24" "0 \<le> n1" "n1 \<le> (3::int)"
  shows "days_before_year (400 * n400 + 100 * n100 + 4 * n4 + n1 + 1) = 146097 * n400 + 36524 * n100 + 1461 * n4 + 365 * n1"
    and "isLeap (400 * n400 + 100 * n100 + 4 * n4 + n1 + 1) \<longleftrightarrow> n1 = 3 \<and> (n4 \<noteq> 24 \<or> n100 = 3)"
proof -
  let ?y = "400 * n400 + 100 * n100 + 4 * n4 + n1"
  have "(4 * (100 * n400 + 25 * n100 + n4) + n1) div 4 = 100 * n400 + 25 * n100 + n4"
    "(100 * (4 * n400 + n100) + (4 * n4 + n1)) div 100 = 4 * n400 + n100"
    "(400 * n400 + (100 * n100 + 4 * n4 + n1)) div 400 = n400"
    using assms by (simp_all only: int_block)
  then have d: "?y div 4 = 100 * n400 + 25 * n100 + n4" "?y div 100 = 4 * n400 + n100" "?y div 400 = n400"
    by (simp_all add: algebra_simps)
  show "days_before_year (?y + 1) = 146097 * n400 + 36524 * n100 + 1461 * n4 + 365 * n1"
    by (simp add: days_before_year_def d Let_def)
  have "(4 * (100 * n400 + 25 * n100 + n4) + (n1 + 1)) mod 4 = 0 \<longleftrightarrow> n1 + 1 = 4"
    "(100 * (4 * n400 + n100) + (4 * n4 + n1 + 1)) mod 100 = 0 \<longleftrightarrow> 4 * n4 + n1 + 1 = 100"
    "(400 * n400 + (100 * n100 + 4 * n4 + n1 + 1)) mod 400 = 0 \<longleftrightarrow> 100 * n100 + 4 * n4 + n1 + 1 = 400"
    using assms by (simp_all only: int_block_full)
  moreover have "4 * (100 * n400 + 25 * n100 + n4) + (n1 + 1) = ?y + 1"
    "100 * (4 * n400 + n100) + (4 * n4 + n1 + 1) = ?y + 1" "400 * n400 + (100 * n100 + 4 * n4 + n1 + 1) = ?y + 1"
    by simp_all
  ultimately have "(?y + 1) mod 4 = 0 \<longleftrightarrow> n1 + 1 = 4" "(?y + 1) mod 100 = 0 \<longleftrightarrow> 4 * n4 + n1 + 1 = 100"
    "(?y + 1) mod 400 = 0 \<longleftrightarrow> 100 * n100 + 4 * n4 + n1 + 1 = 400"
    by (simp_all only:)
  moreover have "4 * n4 + n1 + 1 = 100 \<longleftrightarrow> n1 = 3 \<and> n4 = 24" "100 * n100 + 4 * n4 + n1 + 1 = 400 \<longleftrightarrow> n1 = 3 \<and> n4 = 24 \<and> n100 = 3"
    "n1 + 1 = 4 \<longleftrightarrow> n1 = 3"
    using assms by linarith+
  ultimately have m4: "(?y + 1) mod 4 = 0 \<longleftrightarrow> n1 = 3" and m100: "(?y + 1) mod 100 = 0 \<longleftrightarrow> n1 = 3 \<and> n4 = 24" and
    m400: "(?y + 1) mod 400 = 0 \<longleftrightarrow> n1 = 3 \<and> n4 = 24 \<and> n100 = 3"
    by simp_all
  show "isLeap (?y + 1) \<longleftrightarrow> n1 = 3 \<and> (n4 \<noteq> 24 \<or> n100 = 3)"
    unfolding isLeap_def m4 m100 m400 by blast
qed

lemma capped_block:
  assumes "0 \<le> r" and "0 < (k :: int)" and "r < 4 * k + 1"
  shows "0 \<le> min 3 (r div k) \<and> min 3 (r div k) \<le> 3 \<and> 0 \<le> r - k * min 3 (r div k) \<and>
    r - k * min 3 (r div k) < k + 1 \<and> (min 3 (r div k) < 3 \<longrightarrow> r - k * min 3 (r div k) < k)"
proof -
  define q m where "q = r div k" and "m = r mod k"
  have d: "r = k * q + m" "0 \<le> m" "m < k" "0 \<le> q"
    using assms by (simp_all add: q_def m_def pos_imp_zdiv_nonneg_iff)
  show ?thesis
    unfolding q_def [symmetric]
  proof (cases "q \<le> 3")
    case True
    then have "min 3 q = q" by simp
    moreover have "r - k * q = m" using d(1) by simp
    ultimately show "0 \<le> min 3 q \<and> min 3 q \<le> 3 \<and> 0 \<le> r - k * min 3 q \<and> r - k * min 3 q < k + 1 \<and>
        (min 3 q < 3 \<longrightarrow> r - k * min 3 q < k)"
      using d(2-4) True by (simp only:) simp
  next
    case False
    then have m: "min 3 q = 3" by simp
    from False have "k * 4 \<le> k * q" using assms(2) by (intro mult_left_mono) simp_all
    then have "k * 4 \<le> r" using d(1,2) by linarith
    then have "0 \<le> r - k * 3" "r - k * 3 < k + 1" using assms(2,3) by linarith+
    then show "0 \<le> min 3 q \<and> min 3 q \<le> 3 \<and> 0 \<le> r - k * min 3 q \<and> r - k * min 3 q < k + 1 \<and>
        (min 3 q < 3 \<longrightarrow> r - k * min 3 q < k)"
      unfolding m by simp
  qed
qed

lemma year_of_day_spec:
  assumes "year_of_day d = (year, yday)"
  shows "d = days_before_year year + yday" and "0 \<le> yday" and "yday < (if isLeap year then 366 else 365)"
proof -
  define n400 r where "n400 = d div 146097" and "r = d mod 146097"
  define n100 where "n100 = min 3 (r div 36524)"
  define r1 where "r1 = r - 36524 * n100"
  define n4 r2 where "n4 = r1 div 1461" and "r2 = r1 mod 1461"
  define n1 where "n1 = min 3 (r2 div 365)"
  have "year_of_day d = (400 * n400 + 100 * n100 + 4 * n4 + n1 + 1, r2 - 365 * n1)"
    unfolding year_of_day_def Let_def n1_def r2_def n4_def r1_def n100_def r_def n400_def by (rule refl)
  with assms have y: "year = 400 * n400 + 100 * n100 + 4 * n4 + n1 + 1" "yday = r2 - 365 * n1" by (simp_all only: prod.inject)
  have r1: "r1 = r - 36524 * n100" by (rule r1_def)
  have r: "0 \<le> r" "r < 146097" "d = 146097 * n400 + r" by (simp_all add: r_def n400_def)
  have n100: "0 \<le> n100" "n100 \<le> 3" "0 \<le> r1" "r1 < 36525" "n100 < 3 \<longrightarrow> r1 < 36524"
    using capped_block [of r 36524] r(1,2) unfolding r1_def n100_def by auto
  have "r1 = 1461 * n4 + r2" "0 \<le> r2" "r2 < 1461" by (simp_all add: n4_def r2_def)
  then have n4: "0 \<le> n4" "n4 \<le> 24" "0 \<le> r2" "r2 < 1461" "r1 = 1461 * n4 + r2"
    using n100(3,4) by linarith+
  have n1: "0 \<le> n1" "n1 \<le> 3" "0 \<le> r2 - 365 * n1" "r2 - 365 * n1 < 366" "n1 < 3 \<longrightarrow> r2 - 365 * n1 < 365"
    using capped_block [of r2 365] n4(3,4) unfolding n1_def by auto
  note parts = year_parts [OF n100(1,2) n4(1,2) n1(1,2), of n400]
  show "d = days_before_year year + yday" unfolding y parts using r(3) n4(5) r1 by linarith
  show "0 \<le> yday" using n1(3) by (simp add: y)
  show "yday < (if isLeap year then 366 else 365)"
  proof (cases "n1 = 3 \<and> (n4 \<noteq> 24 \<or> n100 = 3)")
    case True
    then show ?thesis unfolding y(1) parts(2) y(2) using n1(4) by simp
  next
    case False
    have "r2 - 365 * n1 < 365"
    proof (cases "n1 = 3")
      case True
      with False have "n4 = 24" "n100 \<noteq> 3" by blast+
      moreover from this n100(2) have "n100 < 3" by linarith
      ultimately have "1461 * 24 + r2 < 36524" using n100(5) n4(5) by simp
      then show ?thesis using True by linarith
    next
      case False
      then show ?thesis using n1(2,5) by linarith
    qed
    then show ?thesis unfolding y(1) parts(2) y(2) using False by simp
  qed
qed

lemma month_of_yday_spec:
  assumes "month_of_yday m ls d = (month, day)" and "0 \<le> d" and "d < sum_list ls" and "\<forall>l\<in>set ls. 0 < l"
  shows "m \<le> month \<and> month < m + int (length ls) \<and> 1 \<le> day \<and> day \<le> ls ! nat (month - m) \<and>
    d = sum_list (take (nat (month - m)) ls) + (day - 1)"
  using assms
proof (induction m ls d rule: month_of_yday.induct)
  case (2 m l ls d)
  show ?case
  proof (cases "d < l \<or> ls = []")
    case True
    then show ?thesis using 2(2-) by auto
  next
    case False
    then have "m + 1 \<le> month \<and> month < m + 1 + int (length ls) \<and> 1 \<le> day \<and> day \<le> ls ! nat (month - (m + 1)) \<and>
        d - l = sum_list (take (nat (month - (m + 1))) ls) + (day - 1)"
      using 2 by auto
    moreover from this have "nat (month - m) = Suc (nat (month - (m + 1)))" by linarith
    ultimately show ?thesis by auto
  qed
qed simp

lemma month_lengths_sum: "sum_list (month_lengths leap) = (if leap then 366 else 365)"
  by (simp add: month_lengths_def)

text \<open>Every day is a date, and the date is that day.\<close>

lemma civil_of_day_spec:
  assumes "civil_of_day d = (year, month, day)"
  shows "day_of_civil year month day = d" and "1 \<le> month" and "month \<le> 12" and "1 \<le> day"
    and "day \<le> month_lengths (isLeap year) ! nat (month - 1)"
proof -
  obtain yday where y: "year_of_day d = (year, yday)" and m: "month_of_yday 1 (month_lengths (isLeap year)) yday = (month, day)"
    using assms by (auto simp: civil_of_day_def Let_def split: prod.splits)
  note ys = year_of_day_spec [OF y]
  have "yday < sum_list (month_lengths (isLeap year))" using ys(3) by (simp add: month_lengths_sum)
  moreover have "\<forall>l\<in>set (month_lengths (isLeap year)). 0 < l" by (simp add: month_lengths_def)
  moreover have "length (month_lengths (isLeap year)) = 12" by (simp add: month_lengths_def)
  ultimately have ms: "1 \<le> month" "month < 13" "1 \<le> day" "day \<le> month_lengths (isLeap year) ! nat (month - 1)"
    "yday = sum_list (take (nat (month - 1)) (month_lengths (isLeap year))) + (day - 1)"
    using month_of_yday_spec [OF m ys(2)] by simp_all
  then show "day_of_civil year month day = d" "1 \<le> month" "month \<le> 12" "1 \<le> day"
    "day \<le> month_lengths (isLeap year) ! nat (month - 1)"
    using ys(1) by (simp_all add: day_of_civil_def)
qed

lemma month_length_bound: "1 \<le> month \<Longrightarrow> month \<le> 12 \<Longrightarrow> month_lengths leap ! nat (month - 1) \<le> 31"
proof -
  assume "1 \<le> month" "month \<le> 12"
  then have "month_lengths leap ! nat (month - 1) \<in> set (month_lengths leap)"
    by (intro nth_mem) (simp add: month_lengths_def)
  then show ?thesis by (auto simp: month_lengths_def split: if_splits)
qed

section \<open>Writing a time stamp\<close>

text \<open>Day 719162 of the calendar is 1 January 1970. A year outside 0 to 9999 is written with a sign or more digits.\<close>

function decimal_width :: "int \<Rightarrow> nat" where
  "decimal_width n = (if n < 10 then 1 else Suc (decimal_width (n div 10)))"
  by pat_completeness auto
termination
  by (relation "measure nat") auto

declare decimal_width.simps [simp del]

definition append_year :: "int \<Rightarrow> string" where
  "append_year y =
     (let n = \<bar>y\<bar>; ds = pad_digits (max 4 (decimal_width n)) n in if y < 0 then CHR ''-'' # ds else ds)"

definition append_nanos :: "int \<Rightarrow> string" where
  "append_nanos ns =
     (let ds = rev (dropWhile (\<lambda>c. c = CHR ''0'') (rev (pad_digits 9 ns))) in if ds = [] then [] else CHR ''.'' # ds)"

definition FormatRFC3339 :: "instant \<Rightarrow> string" where
  "FormatRFC3339 t =
     (let secs = t div 1000000000; (year, month, day) = civil_of_day (secs div 86400 + 719162); sod = secs mod 86400
      in append_year year @ ''-'' @ pad_digits 2 month @ ''-'' @ pad_digits 2 day @ ''T'' @
         pad_digits 2 (sod div 3600) @ '':'' @ pad_digits 2 (sod mod 3600 div 60) @ '':'' @ pad_digits 2 (sod mod 60) @
         append_nanos (t mod 1000000000) @ ''Z'')"

section \<open>Reading a time stamp\<close>

text \<open>Every step returns what it read and the rest of the string; hours may have one digit, fractions any number.\<close>

definition is_digit :: "char \<Rightarrow> bool" where
  "is_digit c \<longleftrightarrow> digit_val c \<noteq> None"

fun getnum :: "bool \<Rightarrow> string \<Rightarrow> (int \<times> string) option" where
  "getnum fixed [] = None"
| "getnum fixed (c # cs) =
     (case digit_val c of
        None \<Rightarrow> None
      | Some d \<Rightarrow>
          (case cs of
             [] \<Rightarrow> if fixed then None else Some (d, cs)
           | c' # cs' \<Rightarrow>
               (case digit_val c' of
                  None \<Rightarrow> if fixed then None else Some (d, cs)
                | Some d' \<Rightarrow> Some (10 * d + d', cs'))))"

definition getnum_in :: "bool \<Rightarrow> int \<Rightarrow> int \<Rightarrow> string \<Rightarrow> (int \<times> string) option" where
  "getnum_in fixed lo hi s =
     (case getnum fixed s of Some (n, s) \<Rightarrow> if lo \<le> n \<and> n \<le> hi then Some (n, s) else None | None \<Rightarrow> None)"

fun lit :: "char \<Rightarrow> string \<Rightarrow> string option" where
  "lit c [] = None"
| "lit c (x # xs) = (if x = c then Some xs else None)"

definition parse_year :: "string \<Rightarrow> (int \<times> string) option" where
  "parse_year s =
     (if length s < 4 then None else map_option (\<lambda>n. (n, drop 4 s)) (digits_val 0 (take 4 s)))"

text \<open>A fraction is cut after nine digits.\<close>

definition parse_fraction :: "string \<Rightarrow> int \<times> string" where
  "parse_fraction s =
     (case s of
        c # d # cs \<Rightarrow>
          (if (c = CHR ''.'' \<or> c = CHR '','') \<and> is_digit d
           then (let ds = takeWhile is_digit (d # cs); used = take 9 ds
                 in (the (digits_val 0 used) * 10 ^ (9 - length used), drop (length ds) (d # cs)))
           else (0, s))
      | _ \<Rightarrow> (0, s))"

definition parse_zone :: "string \<Rightarrow> (int \<times> string) option" where
  "parse_zone s =
     (if s \<noteq> [] \<and> hd s = CHR ''Z'' then Some (0, tl s)
      else if length s < 6 \<or> s ! 3 \<noteq> CHR '':'' then None
      else
        (case (getnum_in True 0 24 (take 2 (drop 1 s)), getnum_in True 0 60 (take 2 (drop 4 s))) of
           (Some (hr, _), Some (mm, _)) \<Rightarrow>
             (let off = (hr * 60 + mm) * 60
              in if s ! 0 = CHR ''+'' then Some (off, drop 6 s)
                 else if s ! 0 = CHR ''-'' then Some (- off, drop 6 s) else None)
         | _ \<Rightarrow> None))"

definition ParseRFC3339 :: "string \<Rightarrow> instant option" where
  "ParseRFC3339 s =
     Option.bind (parse_year s) (\<lambda>(year, s). Option.bind (lit CHR ''-'' s) (\<lambda>s.
     Option.bind (getnum_in True 1 12 s) (\<lambda>(month, s). Option.bind (lit CHR ''-'' s) (\<lambda>s.
     Option.bind (getnum True s) (\<lambda>(day, s). Option.bind (lit CHR ''T'' s) (\<lambda>s.
     Option.bind (getnum_in False 0 23 s) (\<lambda>(hour, s). Option.bind (lit CHR '':'' s) (\<lambda>s.
     Option.bind (getnum_in True 0 59 s) (\<lambda>(minute, s). Option.bind (lit CHR '':'' s) (\<lambda>s.
     Option.bind (getnum_in True 0 59 s) (\<lambda>(sec, s).
       let (ns, s) = parse_fraction s
       in Option.bind (parse_zone s) (\<lambda>(off, s).
            if s \<noteq> [] \<or> day < 1 \<or> day > month_lengths (isLeap year) ! nat (month - 1) then None
            else Some (((day_of_civil year month day - 719162) * 86400 +
                         hour * 3600 + minute * 60 + sec - off) * 1000000000 + ns)))))))))))))"

lemma getnum_pad [simp]: "0 \<le> n \<Longrightarrow> n < 100 \<Longrightarrow> getnum fixed (pad_digits 2 n @ s) = Some (n, s)"
proof -
  assume "0 \<le> n" "n < 100"
  then have d: "0 \<le> n div 10" "n div 10 < 10" "10 * (n div 10) + n mod 10 = n" by simp_all
  have "pad_digits 2 n @ s = digit (n div 10 mod 10) # digit (n mod 10) # s" by (simp add: numeral_2_eq_2)
  then show ?thesis using d by simp
qed

lemma getnum_in_pad [simp]: "0 \<le> n \<Longrightarrow> n < 100 \<Longrightarrow> lo \<le> n \<Longrightarrow> n \<le> hi \<Longrightarrow> getnum_in fixed lo hi (pad_digits 2 n @ s) = Some (n, s)"
  by (simp add: getnum_in_def)

lemma int_div_less: "n < 10 * k \<Longrightarrow> n div 10 < (k :: int)"
  by linarith

lemma decimal_width_le: "n < 10 ^ Suc w \<Longrightarrow> decimal_width n \<le> Suc w"
proof (induction n arbitrary: w rule: decimal_width.induct)
  case (1 n)
  show ?case
  proof (cases "n < 10")
    case False
    then obtain v where v: "w = Suc v" using "1.prems" by (cases w) auto
    then have "n div 10 < 10 ^ Suc v" using "1.prems" by (simp add: int_div_less)
    from "1.IH" [OF False this] show ?thesis using False by (simp add: decimal_width.simps [of n] v)
  qed (simp add: decimal_width.simps [of n])
qed

lemma parse_append_year:
  assumes "0 \<le> y" and "y \<le> 9999"
  shows "parse_year (append_year y @ s) = Some (y, s)"
proof -
  have "y < 10 ^ Suc 3" using assms by simp
  then have w: "decimal_width y \<le> 4" using decimal_width_le [of y 3] by simp
  have "append_year y = pad_digits 4 y" using assms w by (simp add: append_year_def Let_def max_def)
  then show ?thesis
    using assms by (simp add: parse_year_def digits_val_pad)
qed

lemma digits_val_zeros: "digits_val acc (replicate k CHR ''0'') = Some (acc * 10 ^ k)"
  by (induction k arbitrary: acc) (simp_all add: digit_val_def)

lemma trailing_zeros:
  "\<exists>k. xs = rev (dropWhile (\<lambda>c. c = z) (rev xs)) @ replicate k z"
proof -
  have "rev xs = takeWhile (\<lambda>c. c = z) (rev xs) @ dropWhile (\<lambda>c. c = z) (rev xs)" by simp
  then have "xs = rev (dropWhile (\<lambda>c. c = z) (rev xs)) @ rev (takeWhile (\<lambda>c. c = z) (rev xs))"
    by (metis rev_append rev_rev_ident)
  moreover have "rev (takeWhile (\<lambda>c. c = z) (rev xs)) = replicate (length (takeWhile (\<lambda>c. c = z) (rev xs))) z"
    by (intro replicate_eqI) (auto dest: set_takeWhileD)
  ultimately show ?thesis by fastforce
qed

lemma parse_append_nanos:
  assumes "0 \<le> ns" and "ns < 1000000000"
  shows "parse_fraction (append_nanos ns @ ''Z'') = (ns, ''Z'')"
proof -
  define ds where "ds = rev (dropWhile (\<lambda>c. c = CHR ''0'') (rev (pad_digits 9 ns)))"
  obtain k where k: "pad_digits 9 ns = ds @ replicate k CHR ''0''"
    using trailing_zeros [of "pad_digits 9 ns" "CHR ''0''"] unfolding ds_def by blast
  have "length (pad_digits 9 ns) = length ds + k" unfolding k by simp
  then have len: "length ds + k = 9" by (simp only: length_pad_digits)
  have v: "digits_val 0 (pad_digits 9 ns) = Some ns" using assms by (simp add: digits_val_pad)
  obtain n where n: "digits_val 0 ds = Some n" "n * 10 ^ k = ns"
    using v unfolding k digits_val_append by (auto simp: digits_val_zeros bind_eq_Some_conv)
  have dig: "\<forall>c\<in>set ds. is_digit c"
  proof
    fix c assume "c \<in> set ds"
    then have "c \<in> set (pad_digits 9 ns)" unfolding k by simp
    from digits_pad [OF this] show "is_digit c" by (auto simp: is_digit_def)
  qed
  show ?thesis
  proof (cases "ds = []")
    case True
    then have "append_nanos ns = []" unfolding append_nanos_def Let_def ds_def by simp
    then show ?thesis using n True by (simp add: parse_fraction_def)
  next
    case False
    then obtain d cs where ds: "ds = d # cs" by (cases ds) auto
    have z: "\<not> is_digit CHR ''Z''" by (simp add: is_digit_def digit_val_def)
    have tw: "takeWhile is_digit (ds @ ''Z'') = ds" using dig z by (simp add: takeWhile_append2)
    have "length ds \<le> 9" "9 - length ds = k" using len by simp_all
    moreover have "append_nanos ns @ ''Z'' = CHR ''.'' # (d # cs) @ ''Z''"
      using False ds unfolding append_nanos_def Let_def ds_def by simp
    moreover have "is_digit d" using dig ds by simp
    moreover from this obtain v where "digit_val d = Some v" by (auto simp: is_digit_def)
    ultimately show ?thesis
      using n tw unfolding ds by (simp add: parse_fraction_def Let_def)
  qed
qed

section \<open>The round trip\<close>

lemma days_before_year_step: "days_before_year y + 365 \<le> days_before_year (y + 1)"
proof -
  have e: "z div 100 = z div 4 div 25" for z :: int by (simp add: zdiv_zmult2_eq [symmetric])
  have "y div 4 = (y - 1) div 4 \<or> y div 4 = (y - 1) div 4 + 1" by linarith
  then have "y div 100 - (y - 1) div 100 \<le> y div 4 - (y - 1) div 4"
  proof
    assume "y div 4 = (y - 1) div 4 + 1"
    moreover have "(a + 1) div 25 \<le> a div 25 + 1" for a :: int by linarith
    ultimately show ?thesis unfolding e by simp
  qed (simp add: e)
  moreover have "(y - 1) div 400 \<le> y div 400" by (rule zdiv_mono1) simp_all
  ultimately show ?thesis by (simp add: days_before_year_def Let_def)
qed

lemma days_before_year_mono: "a \<le> b \<Longrightarrow> days_before_year a + 365 * (b - a) \<le> days_before_year b"
proof (induction b rule: int_ge_induct)
  case (step b)
  then show ?case using days_before_year_step [of b] by (simp add: algebra_simps)
qed simp

text \<open>The instants of the years 0 to 9999.\<close>

definition stamp_ok :: "instant \<Rightarrow> bool" where
  "stamp_ok t \<longleftrightarrow> - 62167219200000000000 \<le> t \<and> t < 253402300800000000000"

lemma stamp_year:
  assumes "stamp_ok t" and "civil_of_day (t div 1000000000 div 86400 + 719162) = (year, month, day)"
  shows "0 \<le> year \<and> year \<le> 9999"
proof -
  define d where "d = t div 1000000000 div 86400 + 719162"
  have e: "d = t div 86400000000000 + 719162" unfolding d_def by (simp add: zdiv_zmult2_eq [symmetric])
  have "- 719528 \<le> t div 86400000000000" "t div 86400000000000 < 2932897"
    using assms(1) unfolding stamp_ok_def by linarith+
  then have b: "- 366 \<le> d" "d < 3652059" unfolding e by simp_all
  obtain yday where y: "year_of_day d = (year, yday)"
    using assms(2) unfolding d_def [symmetric] by (auto simp: civil_of_day_def Let_def split: prod.splits)
  note ys = year_of_day_spec [OF y]
  have "\<not> year \<le> -1"
  proof
    assume "year \<le> -1"
    then have "days_before_year year \<le> - 366 + 365 * year"
      using days_before_year_mono [of year 0] by (simp add: days_before_year_def)
    moreover have "isLeap year \<Longrightarrow> year \<le> - 4" using \<open>year \<le> -1\<close> unfolding isLeap_def by presburger
    ultimately show False using ys(1,3) b(1) \<open>year \<le> -1\<close> by (cases "isLeap year") simp_all
  qed
  moreover have "\<not> 10000 \<le> year"
  proof
    assume "10000 \<le> year"
    from days_before_year_mono [OF this] have "3652059 + 365 * (year - 10000) \<le> days_before_year year"
      by (simp add: days_before_year_def)
    then have "3652059 \<le> days_before_year year" using \<open>10000 \<le> year\<close> by simp
    then show False using ys(1,2) b(2) by simp
  qed
  ultimately show ?thesis by simp
qed

lemma hms_bounds:
  "0 \<le> s \<Longrightarrow> s < 86400 \<Longrightarrow> 0 \<le> s div 3600 \<and> s div 3600 \<le> (23 :: int)"
  "0 \<le> s mod 3600 div 60 \<and> s mod 3600 div 60 \<le> (59 :: int)"
proof -
  show "0 \<le> s \<Longrightarrow> s < 86400 \<Longrightarrow> 0 \<le> s div 3600 \<and> s div 3600 \<le> (23 :: int)" by linarith
  have "0 \<le> s mod 3600" "s mod 3600 < 3600" by simp_all
  then show "0 \<le> s mod 3600 div 60 \<and> s mod 3600 div 60 \<le> (59 :: int)" by linarith
qed

text \<open>A time stamp written for an instant of these years is read back as that very instant.\<close>

lemma ParseRFC3339_Format:
  assumes "stamp_ok t"
  shows "ParseRFC3339 (FormatRFC3339 t) = Some t"
proof -
  define secs where "secs = t div 1000000000"
  define sod where "sod = secs mod 86400"
  define ns where "ns = t mod 1000000000"
  obtain year month day where c: "civil_of_day (secs div 86400 + 719162) = (year, month, day)"
    by (rule prod_cases3 [of "civil_of_day (secs div 86400 + 719162)"])
  note cs = civil_of_day_spec [OF c]
  have y: "0 \<le> year" "year \<le> 9999" using stamp_year [OF assms c [unfolded secs_def]] by simp_all
  have day: "day < 100" using cs(5) month_length_bound [OF cs(2,3), of "isLeap year"] by simp
  have sod: "0 \<le> sod" "sod < 86400" by (simp_all add: sod_def)
  define hh mi ss where "hh = sod div 3600" and "mi = sod mod 3600 div 60" and "ss = sod mod 60"
  have hms: "0 \<le> hh" "hh \<le> 23" "0 \<le> mi" "mi \<le> 59" "0 \<le> ss" "ss \<le> 59"
    using hms_bounds(1) [OF sod] hms_bounds(2) [of sod] by (simp_all add: hh_def mi_def ss_def)
  have ns: "0 \<le> ns" "ns < 1000000000" by (simp_all add: ns_def)
  have f: "FormatRFC3339 t = append_year year @ CHR ''-'' # pad_digits 2 month @ CHR ''-'' # pad_digits 2 day @
      CHR ''T'' # pad_digits 2 hh @ CHR '':'' # pad_digits 2 mi @ CHR '':'' # pad_digits 2 ss @ append_nanos ns @ ''Z''"
    using c by (simp add: FormatRFC3339_def Let_def secs_def sod_def ns_def hh_def mi_def ss_def)
  have h: "hh * 3600 + mi * 60 + ss = sod"
  proof -
    have c: "sod mod 3600 mod 60 = sod mod 60" by (simp add: mod_mod_cancel)
    have "sod mod 3600 div 60 * 60 + sod mod 3600 mod 60 = sod mod 3600" by (rule div_mult_mod_eq)
    then have a: "sod mod 3600 div 60 * 60 + sod mod 60 = sod mod 3600" unfolding c .
    show ?thesis unfolding hh_def mi_def ss_def add.assoc a by (rule div_mult_mod_eq)
  qed
  have t: "(secs div 86400 * 86400 + sod) * 1000000000 + ns = t" unfolding sod_def ns_def secs_def by simp
  have "ParseRFC3339 (FormatRFC3339 t) =
      Some (((day_of_civil year month day - 719162) * 86400 + hh * 3600 + mi * 60 + ss - 0) * 1000000000 + ns)"
    unfolding ParseRFC3339_def f
    using y cs(2-5) day hms parse_append_nanos [OF ns]
    by (simp add: parse_append_year parse_zone_def)
  moreover have "(day_of_civil year month day - 719162) * 86400 + hh * 3600 + mi * 60 + ss - 0 = secs div 86400 * 86400 + sod"
    unfolding h [symmetric] cs(1) by simp
  ultimately show ?thesis using t by (simp only:)
qed

end
