(* ===== verification/Handlers.thy ===== *)
theory Handlers
  imports Messages Datastore Go_Time
begin

text \<open>
  The server side of the protocol: the handler of every message type (\<^verbatim>\<open>handlers.go\<close>), the local
  record store and the choice of closer peers (\<^verbatim>\<open>dht.go\<close>: \<open>getLocal\<close>, \<open>putLocal\<close>,
  \<open>betterPeersToQuery\<close>, \<open>maybeAddAddrs\<close>), the loop that serves one stream (\<^verbatim>\<open>dht_net.go\<close>) and the
  switch between server and client mode (\<^verbatim>\<open>dht.go\<close>: \<open>setMode\<close>).

  Parameters, because they are code outside the repository: the datastore and its keys, base32, the
  protobuf coding of records, the validator, the routing table, the peerstore, the network, the
  address filter and the provider store that the node was built with. The time stamps of records
  are written and read as theory \<open>Go_Time\<close> models it. A nil slice of peers and an
  empty one are the same list. Log lines and metrics are left out.
\<close>

section \<open>Environment and state\<close>

record 'd handler_env =
  he_ds :: "'d ds_ops"
  he_NewKey :: "string \<Rightarrow> string"
  he_b32enc :: "bytes \<Rightarrow> string"
  he_Marshal :: "Record \<Rightarrow> bytes option"
  he_Unmarshal :: "bytes \<Rightarrow> Record option"
  he_Validate :: "string \<Rightarrow> bytes \<Rightarrow> string option"
  he_Select :: "string \<Rightarrow> bytes list \<Rightarrow> string + int"
  he_NearestPeers :: "bytes \<Rightarrow> int \<Rightarrow> peer_id list"
  he_PeerInfo :: "peer_id \<Rightarrow> AddrInfo"
  he_Connectedness :: "peer_id \<Rightarrow> connectedness"
  he_validAddr :: "bytes \<Rightarrow> bool"
  he_addrFilter :: "(multiaddr list \<Rightarrow> multiaddr list) option"
  he_GetProviders :: "bytes \<Rightarrow> string + AddrInfo list"

datatype dht_mode = modeServer | modeClient | modeUnknown int

record 'd dht_node =
  dn_self :: peer_id
  dn_bucketSize :: int
  dn_enableValues :: bool
  dn_enableProviders :: bool
  dn_maxRecordAge :: duration
  dn_datastore :: 'd

datatype handler_error =
  NoKeyProvided | NilRecord | KeyMismatch | InvalidRecord string | DatastoreError ds_error |
  SelectFailed string | OldRecord | MarshalFailed | UnmarshalFailed |
  KeyTooLarge | KeyEmpty | NoValidProvider | ProviderStoreError string

section \<open>Addresses and peers\<close>

definition filterAddrs :: "'d handler_env \<Rightarrow> multiaddr list \<Rightarrow> multiaddr list" where
  "filterAddrs env addrs = (case he_addrFilter env of Some f \<Rightarrow> f addrs | None \<Rightarrow> addrs)"

definition hasValidConnectedness :: "'d handler_env \<Rightarrow> peer_id \<Rightarrow> bool" where
  "hasValidConnectedness env p =
     (let c = he_Connectedness env p in c = NetConnected \<or> c = NetLimited)"

text \<open>What \<^verbatim>\<open>maybeAddAddrs\<close> adds to the peerstore.\<close>

definition maybeAddAddrs :: "'d handler_env \<Rightarrow> 'd dht_node \<Rightarrow> peer_id \<Rightarrow> multiaddr list \<Rightarrow> duration \<Rightarrow>
    (peer_id \<times> multiaddr list \<times> duration) option" where
  "maybeAddAddrs env n p addrs ttl =
     (if p = dn_self n \<or> hasValidConnectedness env p then None
      else Some (p, filterAddrs env addrs, ttl))"

definition nearestPeersToQuery :: "'d handler_env \<Rightarrow> Message \<Rightarrow> int \<Rightarrow> peer_id list" where
  "nearestPeersToQuery env pmes cnt = he_NearestPeers env (m_Key pmes) cnt"

fun better_from :: "peer_id \<Rightarrow> peer_id \<Rightarrow> peer_id list \<Rightarrow> peer_id list \<Rightarrow> peer_id list" where
  "better_from self from [] filtered = filtered"
| "better_from self from (clp # rest) filtered =
     (if clp = self then []
      else if clp = from then better_from self from rest filtered
      else better_from self from rest (filtered @ [clp]))"

definition betterPeersToQuery :: "'d handler_env \<Rightarrow> 'd dht_node \<Rightarrow> Message \<Rightarrow> peer_id \<Rightarrow> int \<Rightarrow> peer_id list" where
  "betterPeersToQuery env n pmes from cnt =
     better_from (dn_self n) from (nearestPeersToQuery env pmes cnt) []"

section \<open>The local record store\<close>

definition convertToDsKey :: "'d handler_env \<Rightarrow> bytes \<Rightarrow> string" where
  "convertToDsKey env s = he_NewKey env (he_b32enc env s)"

definition mkDsKey :: "'d handler_env \<Rightarrow> string \<Rightarrow> string" where
  "mkDsKey env s = he_NewKey env (he_b32enc env s)"

definition getRecordFromDatastore :: "'d handler_env \<Rightarrow> string \<Rightarrow> 'd dht_node \<Rightarrow>
    handler_error + Record option" where
  "getRecordFromDatastore env dskey n =
     (case ds_get (he_ds env) dskey (dn_datastore n) of
        Inl err \<Rightarrow> if err = DsNotFound then Inr None else Inl (DatastoreError err)
      | Inr buf \<Rightarrow>
          (case he_Unmarshal env buf of
             None \<Rightarrow> Inr None
           | Some r \<Rightarrow>
               (case he_Validate env (rec_Key r) (rec_Value r) of
                  Some err \<Rightarrow> Inr None
                | None \<Rightarrow> Inr (Some r))))"

definition getLocal :: "'d handler_env \<Rightarrow> string \<Rightarrow> 'd dht_node \<Rightarrow> handler_error + Record option" where
  "getLocal env key n =
     (case getRecordFromDatastore env (mkDsKey env key) n of
        Inl err \<Rightarrow> Inl err
      | Inr None \<Rightarrow> Inr None
      | Inr (Some r) \<Rightarrow> if rec_Key r \<noteq> key then Inr None else Inr (Some r))"

definition putLocal :: "'d handler_env \<Rightarrow> string \<Rightarrow> Record \<Rightarrow> 'd dht_node \<Rightarrow>
    handler_error option \<times> 'd dht_node" where
  "putLocal env key r n =
     (case he_Marshal env r of
        None \<Rightarrow> (Some MarshalFailed, n)
      | Some data \<Rightarrow>
          let (err, d) = ds_put (he_ds env) (mkDsKey env key) data (dn_datastore n)
          in (map_option DatastoreError err, n\<lparr>dn_datastore := d\<rparr>))"

text \<open>
  \<^verbatim>\<open>checkLocalDatastore\<close> does not validate: it returns the stored record unless its time stamp is
  unreadable or too old, and deletes it then.
\<close>

definition checkLocalDatastore :: "'d handler_env \<Rightarrow> bytes \<Rightarrow> instant \<Rightarrow> 'd dht_node \<Rightarrow>
    (handler_error + Record option) \<times> 'd dht_node" where
  "checkLocalDatastore env k now n =
     (let dskey = convertToDsKey env k in
      case ds_get (he_ds env) dskey (dn_datastore n) of
        Inl err \<Rightarrow> (if err = DsNotFound then Inr None else Inl (DatastoreError err), n)
      | Inr buf \<Rightarrow>
          (case he_Unmarshal env buf of
             None \<Rightarrow> (Inl UnmarshalFailed, n)
           | Some r \<Rightarrow>
               let recordIsBad = (case ParseRFC3339 (rec_TimeReceived r) of
                     None \<Rightarrow> True
                   | Some recvtime \<Rightarrow> word_sless (dn_maxRecordAge n) (time_Sub now recvtime))
               in if recordIsBad
                  then (Inr None,
                        n\<lparr>dn_datastore := snd (ds_delete (he_ds env) dskey (dn_datastore n))\<rparr>)
                  else (Inr (Some r), n)))"

section \<open>The handlers\<close>

text \<open>
  A handler returns an error or the response, if any, with the new state. What \<open>handleAddProvider\<close>
  hands to the provider store is returned in order.
\<close>

definition cleanRecord :: "Record \<Rightarrow> Record" where
  "cleanRecord r = r\<lparr>rec_TimeReceived := []\<rparr>"

definition handleGetValue :: "'d handler_env \<Rightarrow> instant \<Rightarrow> peer_id \<Rightarrow> Message \<Rightarrow> 'd dht_node \<Rightarrow>
    (handler_error + Message option) \<times> 'd dht_node" where
  "handleGetValue env now p pmes n =
     (let k = m_Key pmes in
      if length k = 0 then (Inl NoKeyProvided, n)
      else
        let resp = NewMessage (m_Type pmes) (m_Key pmes) (GetClusterLevel pmes);
            (res, n) = checkLocalDatastore env k now n
        in case res of
             Inl err \<Rightarrow> (Inl err, n)
           | Inr r \<Rightarrow>
               let resp = resp\<lparr>m_Record := r\<rparr>;
                   closer = betterPeersToQuery env n pmes p (dn_bucketSize n);
                   resp = (if length closer > 0
                     then resp\<lparr>m_CloserPeers :=
                       PeerInfosToPBPeers (he_Connectedness env) (map (he_PeerInfo env) closer)\<rparr>
                     else resp)
               in (Inr (Some resp), n))"

definition handlePutValue :: "'d handler_env \<Rightarrow> instant \<Rightarrow> peer_id \<Rightarrow> Message \<Rightarrow> 'd dht_node \<Rightarrow>
    (handler_error + Message option) \<times> 'd dht_node" where
  "handlePutValue env now p pmes n =
     (if length (m_Key pmes) = 0 then (Inl NoKeyProvided, n)
      else case m_Record pmes of
        None \<Rightarrow> (Inl NilRecord, n)
      | Some r \<Rightarrow>
          if m_Key pmes \<noteq> rec_Key r then (Inl KeyMismatch, n)
          else
            let r = cleanRecord r in
            (case he_Validate env (rec_Key r) (rec_Value r) of
               Some err \<Rightarrow> (Inl (InvalidRecord err), n)
             | None \<Rightarrow>
                 let dskey = convertToDsKey env (rec_Key r);
                     store = (\<lambda>_ :: unit.
                       let r = r\<lparr>rec_TimeReceived := FormatRFC3339 now\<rparr> in
                       case he_Marshal env r of
                         None \<Rightarrow> (Inl MarshalFailed, n)
                       | Some data \<Rightarrow>
                           let (err, d) = ds_put (he_ds env) dskey data (dn_datastore n)
                           in ((case err of
                                  None \<Rightarrow> Inr (Some (pmes\<lparr>m_Record := Some r\<rparr>))
                                | Some e \<Rightarrow> Inl (DatastoreError e)), n\<lparr>dn_datastore := d\<rparr>))
                 in (case getRecordFromDatastore env dskey n of
                       Inl err \<Rightarrow> (Inl err, n)
                     | Inr None \<Rightarrow> store ()
                     | Inr (Some existing) \<Rightarrow>
                         (case he_Select env (rec_Key r) [rec_Value r, rec_Value existing] of
                            Inl err \<Rightarrow> (Inl (SelectFailed err), n)
                          | Inr i \<Rightarrow> if i \<noteq> 0 then (Inl OldRecord, n) else store ()))))"

definition handlePing :: "peer_id \<Rightarrow> Message \<Rightarrow> 'd dht_node \<Rightarrow>
    (handler_error + Message option) \<times> 'd dht_node" where
  "handlePing p pmes n = (Inr (Some pmes), n)"

definition handleFindPeer :: "'d handler_env \<Rightarrow> peer_id \<Rightarrow> Message \<Rightarrow> 'd dht_node \<Rightarrow>
    (handler_error + Message option) \<times> 'd dht_node" where
  "handleFindPeer env from pmes n =
     (let resp = NewMessage (m_Type pmes) [] (GetClusterLevel pmes) in
      if length (m_Key pmes) = 0 then (Inl KeyEmpty, n)
      else
        let targetPid = m_Key pmes;
            closest = betterPeersToQuery env n pmes from (dn_bucketSize n);
            closest = (if targetPid \<noteq> from
              then (if targetPid \<in> set closest then closest else closest @ [targetPid])
              else closest)
        in if closest = [] then (Inr (Some resp), n)
           else
             let withAddresses = filter (\<lambda>pi. length (ai_Addrs pi) > 0) (map (he_PeerInfo env) closest)
             in (Inr (Some (resp\<lparr>m_CloserPeers := PeerInfosToPBPeers (he_Connectedness env) withAddresses\<rparr>)), n))"

definition handleGetProviders :: "'d handler_env \<Rightarrow> peer_id \<Rightarrow> Message \<Rightarrow> 'd dht_node \<Rightarrow>
    (handler_error + Message option) \<times> 'd dht_node" where
  "handleGetProviders env p pmes n =
     (let key = m_Key pmes in
      if length key > 80 then (Inl KeyTooLarge, n)
      else if length key = 0 then (Inl KeyEmpty, n)
      else
        let resp = NewMessage (m_Type pmes) (m_Key pmes) (GetClusterLevel pmes) in
        case he_GetProviders env key of
          Inl err \<Rightarrow> (Inl (ProviderStoreError err), n)
        | Inr providers \<Rightarrow>
            let filtered = map (\<lambda>pr. \<lparr>ai_ID = ai_ID pr, ai_Addrs = filterAddrs env (ai_Addrs pr)\<rparr>) providers;
                resp = resp\<lparr>m_ProviderPeers := PeerInfosToPBPeers (he_Connectedness env) filtered\<rparr>;
                closer = betterPeersToQuery env n pmes p (dn_bucketSize n);
                resp = (if closer \<noteq> []
                  then resp\<lparr>m_CloserPeers :=
                    PeerInfosToPBPeers (he_Connectedness env) (map (he_PeerInfo env) closer)\<rparr>
                  else resp)
            in (Inr (Some resp), n))"

fun accept_providers :: "'d handler_env \<Rightarrow> bytes \<Rightarrow> peer_id \<Rightarrow> AddrInfo list \<Rightarrow> (bytes \<times> AddrInfo) list" where
  "accept_providers env key p [] = []"
| "accept_providers env key p (pi # rest) =
     (if ai_ID pi \<noteq> p then accept_providers env key p rest
      else if length (ai_Addrs pi) < 1 then accept_providers env key p rest
      else (key, \<lparr>ai_ID = ai_ID pi, ai_Addrs = filterAddrs env (ai_Addrs pi)\<rparr>) #
             accept_providers env key p rest)"

definition handleAddProvider :: "'d handler_env \<Rightarrow> peer_id \<Rightarrow> Message \<Rightarrow> 'd dht_node \<Rightarrow>
    (handler_error + Message option) \<times> (bytes \<times> AddrInfo) list \<times> 'd dht_node" where
  "handleAddProvider env p pmes n =
     (let key = m_Key pmes in
      if length key > 80 then (Inl KeyTooLarge, [], n)
      else if length key = 0 then (Inl KeyEmpty, [], n)
      else
        let pinfos = PBPeersToPeerInfos (he_validAddr env) (m_ProviderPeers pmes);
            added = accept_providers env key p pinfos
        in if added = [] then (Inl NoValidProvider, [], n) else (Inr None, added, n))"

section \<open>Dispatch and the stream loop\<close>

datatype dht_handler = HFindPeer | HPing | HGetValue | HPutValue | HAddProvider | HGetProviders

definition handlerForMsgType :: "'d dht_node \<Rightarrow> MessageType \<Rightarrow> dht_handler option" where
  "handlerForMsgType n t =
     (if t = FIND_NODE then Some HFindPeer
      else if t = PING then Some HPing
      else if dn_enableValues n \<and> t = GET_VALUE then Some HGetValue
      else if dn_enableValues n \<and> t = PUT_VALUE then Some HPutValue
      else if dn_enableProviders n \<and> t = ADD_PROVIDER then Some HAddProvider
      else if dn_enableProviders n \<and> t = GET_PROVIDERS then Some HGetProviders
      else None)"

fun run_handler :: "dht_handler \<Rightarrow> 'd handler_env \<Rightarrow> instant \<Rightarrow> peer_id \<Rightarrow> Message \<Rightarrow> 'd dht_node \<Rightarrow>
    (handler_error + Message option) \<times> (bytes \<times> AddrInfo) list \<times> 'd dht_node" where
  "run_handler HFindPeer env now p m n = (let (r, n) = handleFindPeer env p m n in (r, [], n))"
| "run_handler HPing env now p m n = (let (r, n) = handlePing p m n in (r, [], n))"
| "run_handler HGetValue env now p m n = (let (r, n) = handleGetValue env now p m n in (r, [], n))"
| "run_handler HPutValue env now p m n = (let (r, n) = handlePutValue env now p m n in (r, [], n))"
| "run_handler HAddProvider env now p m n = handleAddProvider env p m n"
| "run_handler HGetProviders env now p m n = (let (r, n) = handleGetProviders env p m n in (r, [], n))"

text \<open>
  What the loop meets in one turn: the mode it reads, then what the reader yields (the end of the
  stream, an error, or a message that may not decode), the environment and the time of handling,
  and whether writing the response succeeds. The result is whether the stream is closed in order
  (else it is reset), the responses written and the additions to the provider store; \<open>None\<close> while the
  loop waits for more input.
\<close>

datatype read_event = ReadEOF | ReadError | ReadMsg "Message option"

record 'd turn =
  tu_mode :: dht_mode
  tu_read :: read_event
  tu_env :: "'d handler_env"
  tu_now :: instant
  tu_writeOk :: bool

record 'd stream_result =
  sr_orderly :: "bool option"
  sr_responses :: "Message list"
  sr_added :: "(bytes \<times> AddrInfo) list"
  sr_node :: "'d dht_node"

fun handleNewMessage :: "peer_id \<Rightarrow> 'd turn list \<Rightarrow> 'd dht_node \<Rightarrow> 'd stream_result" where
  "handleNewMessage mPeer [] n =
     \<lparr>sr_orderly = None, sr_responses = [], sr_added = [], sr_node = n\<rparr>"
| "handleNewMessage mPeer (tu # turns) n =
     (let stop = (\<lambda>b added n. \<lparr>sr_orderly = Some b, sr_responses = [], sr_added = added, sr_node = n\<rparr>) in
      if tu_mode tu \<noteq> modeServer then stop False [] n
      else case tu_read tu of
        ReadEOF \<Rightarrow> stop True [] n
      | ReadError \<Rightarrow> stop False [] n
      | ReadMsg None \<Rightarrow> stop False [] n
      | ReadMsg (Some req) \<Rightarrow>
          (case handlerForMsgType n (m_Type req) of
             None \<Rightarrow> stop False [] n
           | Some h \<Rightarrow>
               (case run_handler h (tu_env tu) (tu_now tu) mPeer req n of
                  (Inl err, added, n) \<Rightarrow> stop False added n
                | (Inr None, added, n) \<Rightarrow>
                    (let rest = handleNewMessage mPeer turns n
                     in rest\<lparr>sr_added := added @ sr_added rest\<rparr>)
                | (Inr (Some resp), added, n) \<Rightarrow>
                    if \<not> tu_writeOk tu then stop False added n
                    else (let rest = handleNewMessage mPeer turns n
                          in rest\<lparr>sr_responses := resp # sr_responses rest,
                                  sr_added := added @ sr_added rest\<rparr>))))"

text \<open>\<^verbatim>\<open>handleNewStream\<close> closes the stream after an orderly end and resets it otherwise.\<close>

datatype stream_end = StreamClosed | StreamReset | StreamOpen

definition handleNewStream :: "peer_id \<Rightarrow> 'd turn list \<Rightarrow> 'd dht_node \<Rightarrow> stream_end" where
  "handleNewStream mPeer turns n =
     (case sr_orderly (handleNewMessage mPeer turns n) of
        None \<Rightarrow> StreamOpen
      | Some b \<Rightarrow> if b then StreamClosed else StreamReset)"

section \<open>Mode\<close>

record stream_info =
  si_Protocol :: string
  si_Inbound :: bool
  si_Reset :: bool

record mode_state =
  ms_mode :: dht_mode
  ms_serverProtocols :: "string list"
  ms_handlers :: "string list"
  ms_conns :: "stream_info list list"

definition moveToServerMode :: "mode_state \<Rightarrow> mode_state" where
  "moveToServerMode s =
     s\<lparr>ms_mode := modeServer, ms_handlers := fold List.insert (ms_serverProtocols s) (ms_handlers s)\<rparr>"

definition moveToClientMode :: "mode_state \<Rightarrow> mode_state" where
  "moveToClientMode s =
     (let pset = ms_serverProtocols s in
      s\<lparr>ms_mode := modeClient,
        ms_handlers := fold removeAll (ms_serverProtocols s) (ms_handlers s),
        ms_conns := map (map (\<lambda>st. if List.member pset (si_Protocol st) \<and> si_Inbound st
                                     then st\<lparr>si_Reset := True\<rparr> else st)) (ms_conns s)\<rparr>)"

text \<open>The first result is the error of an unrecognised mode.\<close>

definition setMode :: "dht_mode \<Rightarrow> mode_state \<Rightarrow> bool \<times> mode_state" where
  "setMode m s =
     (if m = ms_mode s then (False, s)
      else case m of
        modeServer \<Rightarrow> (False, moveToServerMode s)
      | modeClient \<Rightarrow> (False, moveToClientMode s)
      | modeUnknown i \<Rightarrow> (True, s))"

section \<open>Lemmas\<close>

text \<open>What the handlers rely on of the store and the record coding.\<close>

definition he_ok :: "'d handler_env \<Rightarrow> ('d \<Rightarrow> string \<Rightarrow> bytes option) \<Rightarrow> bool" where
  "he_ok env contents \<longleftrightarrow>
     datastore_ok (he_ds env) contents \<and>
     (\<forall>r data. he_Marshal env r = Some data \<longrightarrow> he_Unmarshal env data = Some r)"

text \<open>Reading the datastore fails only for a missing key.\<close>

definition reliable_gets :: "'d ds_ops \<Rightarrow> bool" where
  "reliable_gets ops \<longleftrightarrow> (\<forall>k d e. ds_get ops k d = Inl e \<longrightarrow> e = DsNotFound)"

lemma reliable_get:
  assumes "datastore_ok ops contents" and "reliable_gets ops" and "contents d k = Some v"
  shows "ds_get ops k d = Inr v"
proof (cases "ds_get ops k d")
  case (Inl e)
  with assms(2) have "ds_get ops k d = Inl DsNotFound" by (simp add: reliable_gets_def)
  with ds_get_ok(2) [OF assms(1)] assms(3) show ?thesis by simp
next
  case (Inr w)
  with ds_get_ok(1) [OF assms(1) Inr] assms(3) show ?thesis by simp
qed

lemma better_from_spec:
  "better_from self from ps acc = (if self \<in> set ps then [] else acc @ filter (\<lambda>p. p \<noteq> from) ps)"
  by (induction ps arbitrary: acc) auto

lemma betterPeersToQuery_set:
  "set (betterPeersToQuery env n pmes from cnt) \<subseteq> set (he_NearestPeers env (m_Key pmes) cnt) - {from, dn_self n}"
  by (auto simp: betterPeersToQuery_def better_from_spec nearestPeersToQuery_def)

lemma betterPeersToQuery_length:
  "length (betterPeersToQuery env n pmes from cnt) \<le> length (he_NearestPeers env (m_Key pmes) cnt)"
  by (simp add: betterPeersToQuery_def better_from_spec nearestPeersToQuery_def)

lemma accept_providers_spec:
  "accept_providers env key p pis =
     map (\<lambda>pi. (key, \<lparr>ai_ID = ai_ID pi, ai_Addrs = filterAddrs env (ai_Addrs pi)\<rparr>))
       (filter (\<lambda>pi. ai_ID pi = p \<and> ai_Addrs pi \<noteq> []) pis)"
  by (induction pis) (auto simp: Suc_le_eq)

text \<open>How a successful put ended: what it stored, and under which conditions.\<close>

lemma handlePutValue_Inr:
  assumes "handlePutValue env now p pmes n = (Inr resp, n')"
  shows "\<exists>r r' data d. m_Record pmes = Some r \<and> m_Key pmes = rec_Key r \<and> m_Key pmes \<noteq> [] \<and>
    he_Validate env (rec_Key r) (rec_Value r) = None \<and>
    r' = r\<lparr>rec_TimeReceived := FormatRFC3339 now\<rparr> \<and> he_Marshal env r' = Some data \<and>
    ds_put (he_ds env) (convertToDsKey env (rec_Key r)) data (dn_datastore n) = (None, d) \<and>
    resp = Some (pmes\<lparr>m_Record := Some r'\<rparr>) \<and> n' = n\<lparr>dn_datastore := d\<rparr> \<and>
    (\<forall>existing. getRecordFromDatastore env (convertToDsKey env (rec_Key r)) n = Inr (Some existing) \<longrightarrow>
       he_Select env (rec_Key r) [rec_Value r, rec_Value existing] = Inr 0)"
  using assms
  by (auto simp: handlePutValue_def Let_def cleanRecord_def split: option.splits sum.splits if_splits prod.splits)

lemma handlePutValue_Inl:
  assumes "handlePutValue env now p pmes n = (Inl err, n')" and "datastore_ok (he_ds env) contents"
  shows "contents (dn_datastore n') = contents (dn_datastore n) \<and> n' = n\<lparr>dn_datastore := dn_datastore n'\<rparr>"
proof -
  have "n' = n \<or> (\<exists>k data e. ds_put (he_ds env) k data (dn_datastore n) = (Some e, dn_datastore n') \<and>
      n' = n\<lparr>dn_datastore := dn_datastore n'\<rparr>)"
    using assms(1)
    by (auto simp: handlePutValue_def Let_def cleanRecord_def split: option.splits sum.splits if_splits prod.splits)
      blast+
  with ds_put_ok [OF assms(2)] show ?thesis by auto
qed

lemma checkLocalDatastore_stored:
  assumes ok: "he_ok env contents" and rel: "reliable_gets (he_ds env)"
    and store: "contents (dn_datastore n) (convertToDsKey env k) = Some data" "he_Marshal env r = Some data"
      "rec_TimeReceived r = FormatRFC3339 t" "stamp_ok t"
    and age: "now - t \<le> sint (dn_maxRecordAge n)" "sint (dn_maxRecordAge n) < 9223372036854775807"
  shows "checkLocalDatastore env k now n = (Inr (Some r), n)"
proof -
  have "ds_get (he_ds env) (convertToDsKey env k) (dn_datastore n) = Inr data"
  proof -
    have "datastore_ok (he_ds env) contents" using ok by (simp add: he_ok_def)
    then show ?thesis using rel store(1) by (rule reliable_get)
  qed
  moreover have "he_Unmarshal env data = Some r" "ParseRFC3339 (rec_TimeReceived r) = Some t"
    using ok store(2-4) ParseRFC3339_Format by (auto simp: he_ok_def)
  ultimately show ?thesis
    using age by (simp add: checkLocalDatastore_def Let_def time_Sub_greater)
qed

lemma handleGetValue_fields:
  assumes "checkLocalDatastore env (m_Key pmes) now n = (Inr r, n')" and "m_Key pmes \<noteq> []"
  shows "\<exists>resp. handleGetValue env now p pmes n = (Inr (Some resp), n') \<and> m_Record resp = r \<and>
    m_Key resp = m_Key pmes"
  using assms by (auto simp: handleGetValue_def Let_def)

section \<open>A concrete node\<close>

definition demo_he :: "(string, bytes) gomap handler_env" where
  "demo_he = \<lparr>he_ds = mem_ds, he_NewKey = id, he_b32enc = hexenc,
     he_Marshal = (\<lambda>r. Some (pack3 (rec_Key r) (rec_Value r) (rec_TimeReceived r))),
     he_Unmarshal = (\<lambda>b. map_option (\<lambda>(k, v, t). \<lparr>rec_Key = k, rec_Value = v, rec_TimeReceived = t\<rparr>) (unpack3 b)),
     he_Validate = (\<lambda>k v. if v = [] then Some ''empty'' else None),
     he_Select = (\<lambda>k vs. Inr (if length (vs ! 0) < length (vs ! 1) then 1 else 0)),
     he_NearestPeers = (\<lambda>k n. [''a'', ''b'']),
     he_PeerInfo = (\<lambda>p. \<lparr>ai_ID = p, ai_Addrs = [p]\<rparr>), he_Connectedness = (\<lambda>p. NetConnected),
     he_validAddr = (\<lambda>a. True), he_addrFilter = None, he_GetProviders = (\<lambda>k. Inr [])\<rparr>"

definition demo_node :: "(string, bytes) gomap dht_node" where
  "demo_node = \<lparr>dn_self = ''self'', dn_bucketSize = 2, dn_enableValues = True,
     dn_enableProviders = True, dn_maxRecordAge = hours 48, dn_datastore = []\<rparr>"

lemma demo_he_ok: "he_ok demo_he map_of" "reliable_gets (he_ds demo_he)"
  using mem_ds_ok
  by (auto simp: he_ok_def demo_he_def unpack_pack reliable_gets_def mem_ds_def split: option.splits)

section \<open>Properties\<close>

text \<open>C10: A value that was put is got back: when the server accepts a client's put of a record, the
  client sees success, and until the record is older than the server's maximal record age any later
  get of the key at this server returns the same value, also through the client's checks. The time of the put
  is of the years 0 to 9999, which a time stamp can express.\<close>

theorem put_then_get:
  assumes "he_ok env contents" and "reliable_gets (he_ds env)"
    and "sint (dn_maxRecordAge n) < 9223372036854775807"
    and "pmes = (NewMessage PUT_VALUE (rec_Key r) 0)\<lparr>m_Record := Some r\<rparr>"
    and "handlePutValue env t0 p pmes n = (Inr resp, n1)"
    and "t1 - t0 \<le> sint (dn_maxRecordAge n)" and "stamp_ok t0"
  shows "(\<exists>m. resp = Some m \<and> pm_PutValue (\<lambda>_ _. Inr m) q r = Some None) \<and>
    (\<exists>m r' peers. handleGetValue env t1 p' (NewMessage GET_VALUE (rec_Key r) 0) n1 = (Inr (Some m), n1) \<and>
      pm_GetValue validAddr (\<lambda>_ _. Inr m) q (rec_Key r) = Inr (Some r', peers) \<and>
      rec_Key r' = rec_Key r \<and> rec_Value r' = rec_Value r)"
proof -
  let ?r = "r\<lparr>rec_TimeReceived := FormatRFC3339 t0\<rparr>"
  from handlePutValue_Inr [OF assms(5)] obtain data d where
    put: "rec_Key r \<noteq> []" "he_Marshal env ?r = Some data"
      "ds_put (he_ds env) (convertToDsKey env (rec_Key r)) data (dn_datastore n) = (None, d)"
      "resp = Some (pmes\<lparr>m_Record := Some ?r\<rparr>)" "n1 = n\<lparr>dn_datastore := d\<rparr>"
    by (auto simp: assms(4))
  have ds: "datastore_ok (he_ds env) contents" using assms(1) by (simp add: he_ok_def)
  have "contents (dn_datastore n1) (convertToDsKey env (rec_Key r)) = Some data"
    using ds_put_ok [OF ds put(3)] by (simp add: put(5))
  from checkLocalDatastore_stored [OF assms(1,2) this put(2), of t0 t1] assms(3,6,7)
  have "checkLocalDatastore env (m_Key (NewMessage GET_VALUE (rec_Key r) 0)) t1 n1 = (Inr (Some ?r), n1)"
    by (simp add: put(5))
  from handleGetValue_fields [OF this] put(1) obtain m where
    "handleGetValue env t1 p' (NewMessage GET_VALUE (rec_Key r) 0) n1 = (Inr (Some m), n1)"
    "m_Record m = Some ?r" by auto
  moreover have "\<exists>m. resp = Some m \<and> pm_PutValue (\<lambda>_ _. Inr m) q r = Some None"
    by (simp add: put(4) pm_PutValue_def)
  ultimately show ?thesis by (auto simp: pm_GetValue_def Let_def)
qed

definition demo_record :: Record where
  "demo_record = \<lparr>rec_Key = ''k'', rec_Value = ''v'', rec_TimeReceived = ''junk''\<rparr>"

lemma stamp_ok_small [simp]: "0 \<le> t \<Longrightarrow> t < 253402300800000000000 \<Longrightarrow> stamp_ok t"
  by (simp add: stamp_ok_def)

theorem put_then_get_witness:
  "\<exists>m n1 r'. handlePutValue demo_he 10 ''p'' ((NewMessage PUT_VALUE ''k'' 0)\<lparr>m_Record := Some demo_record\<rparr>)
      demo_node = (Inr (Some m), n1) \<and>
    m_Record (the (projr (fst (handleGetValue demo_he 20 ''q'' (NewMessage GET_VALUE ''k'' 0) n1)))) = Some r' \<and>
    rec_Value r' = ''v''"
proof -
  let ?pmes = "(NewMessage PUT_VALUE (rec_Key demo_record) 0)\<lparr>m_Record := Some demo_record\<rparr>"
  have "\<not> isl (fst (handlePutValue demo_he 10 ''p'' ?pmes demo_node))" by code_simp
  then obtain resp n1 where put: "handlePutValue demo_he 10 ''p'' ?pmes demo_node = (Inr resp, n1)"
    by (cases "fst (handlePutValue demo_he 10 ''p'' ?pmes demo_node)";
        cases "handlePutValue demo_he 10 ''p'' ?pmes demo_node") auto
  have age: "sint (dn_maxRecordAge demo_node) = 172800000000000" by (simp add: demo_node_def)
  from put_then_get [OF demo_he_ok _ refl put, of 20 "[]" "''q''" "\<lambda>a. True"] age stamp_ok_small
  obtain m m2 r' peers where "resp = Some m"
    "handleGetValue demo_he 20 ''q'' (NewMessage GET_VALUE (rec_Key demo_record) 0) n1 = (Inr (Some m2), n1)"
    "pm_GetValue (\<lambda>a. True) (\<lambda>_ _. Inr m2) [] (rec_Key demo_record) = Inr (Some r', peers)"
    "rec_Value r' = rec_Value demo_record" by auto
  with put show ?thesis
    by (auto simp: pm_GetValue_def Let_def demo_record_def split: option.splits if_splits)
qed

text \<open>C11: A put changes the store only for an acceptable record: its key is not empty and is the
  message's key, the validator accepts it, and if a valid record is stored already the validator
  selects the new one. Then the record is stored stamped with the time of receipt and without what
  the sender put there. In every other case the contents of the store stay as they were.\<close>

theorem put_value_guarded:
  assumes "datastore_ok (he_ds env) contents" and "handlePutValue env now p pmes n = (res, n')"
  shows "case res of
      Inl err \<Rightarrow> contents (dn_datastore n') = contents (dn_datastore n)
    | Inr resp \<Rightarrow> (\<exists>r data. m_Record pmes = Some r \<and> m_Key pmes = rec_Key r \<and> rec_Key r \<noteq> [] \<and>
        he_Validate env (rec_Key r) (rec_Value r) = None \<and>
        (\<forall>existing. getRecordFromDatastore env (convertToDsKey env (rec_Key r)) n = Inr (Some existing) \<longrightarrow>
           he_Select env (rec_Key r) [rec_Value r, rec_Value existing] = Inr 0) \<and>
        he_Marshal env (r\<lparr>rec_TimeReceived := FormatRFC3339 now\<rparr>) = Some data \<and>
        contents (dn_datastore n') =
          (contents (dn_datastore n))(convertToDsKey env (rec_Key r) \<mapsto> data))"
proof (cases res)
  case (Inl err)
  with handlePutValue_Inl assms show ?thesis by fastforce
next
  case (Inr resp)
  from handlePutValue_Inr [OF assms(2) [unfolded Inr]] obtain r data d where
    "m_Record pmes = Some r" "m_Key pmes = rec_Key r" "rec_Key r \<noteq> []"
    "he_Validate env (rec_Key r) (rec_Value r) = None"
    "he_Marshal env (r\<lparr>rec_TimeReceived := FormatRFC3339 now\<rparr>) = Some data"
    "ds_put (he_ds env) (convertToDsKey env (rec_Key r)) data (dn_datastore n) = (None, d)"
    "n' = n\<lparr>dn_datastore := d\<rparr>"
    "\<forall>existing. getRecordFromDatastore env (convertToDsKey env (rec_Key r)) n = Inr (Some existing) \<longrightarrow>
       he_Select env (rec_Key r) [rec_Value r, rec_Value existing] = Inr 0"
    by auto
  with ds_put_ok [OF assms(1)] show ?thesis by (auto simp: Inr)
qed

theorem put_value_guarded_witness:
  "\<exists>n'. handlePutValue demo_he 10 ''p'' ((NewMessage PUT_VALUE ''x'' 0)\<lparr>m_Record := Some demo_record\<rparr>)
      demo_node = (Inl KeyMismatch, n') \<and> map_of (dn_datastore n') = map_of []"
proof -
  let ?m = "(NewMessage PUT_VALUE ''x'' 0)\<lparr>m_Record := Some demo_record\<rparr>"
  have put: "handlePutValue demo_he 10 ''p'' ?m demo_node = (Inl KeyMismatch, demo_node)"
    by (simp add: handlePutValue_def demo_record_def)
  have "datastore_ok (he_ds demo_he) map_of" using demo_he_ok(1) by (simp add: he_ok_def)
  from put_value_guarded [OF this put] put show ?thesis by (simp add: demo_node_def)
qed

text \<open>The answer to a peer search names, each with at least one address, only the peers the routing
  table holds nearest to the target and the target itself; never the asking peer, never more than
  \<open>bucketSize + 1\<close> peers, and the node itself only when it is the target.\<close>

theorem find_peer_answer:
  assumes "\<forall>p. ai_ID (he_PeerInfo env p) = p"
    and "length (he_NearestPeers env (m_Key pmes) (dn_bucketSize n)) \<le> nat (dn_bucketSize n)"
    and "handleFindPeer env from pmes n = (Inr (Some resp), n')"
  shows "n' = n \<and> length (m_CloserPeers resp) \<le> nat (dn_bucketSize n) + 1 \<and>
    (\<forall>m\<in>set (m_CloserPeers resp). mp_Id m \<noteq> from \<and> mp_Addrs m \<noteq> [] \<and>
       (mp_Id m = m_Key pmes \<or> mp_Id m \<noteq> dn_self n \<and>
          mp_Id m \<in> set (he_NearestPeers env (m_Key pmes) (dn_bucketSize n))))"
proof -
  let ?near = "he_NearestPeers env (m_Key pmes) (dn_bucketSize n)"
  let ?better = "betterPeersToQuery env n pmes from (dn_bucketSize n)"
  let ?closest = "if m_Key pmes \<noteq> from
    then (if m_Key pmes \<in> set ?better then ?better else ?better @ [m_Key pmes]) else ?better"
  let ?with = "filter (\<lambda>pi. length (ai_Addrs pi) > 0) (map (he_PeerInfo env) ?closest)"
  define W where "W = PeerInfosToPBPeers (he_Connectedness env) ?with"
  have resp: "m_CloserPeers resp = [] \<or> m_CloserPeers resp = W"
    and n': "n' = n"
    using assms(3) by (auto simp: handleFindPeer_def Let_def W_def split: if_splits)
  have ids: "p \<noteq> from \<and> (p = m_Key pmes \<or> p \<noteq> dn_self n \<and> p \<in> set ?near)" if "p \<in> set ?closest" for p
    using that betterPeersToQuery_set [of env n pmes "from" "dn_bucketSize n"] by (auto split: if_splits)
  have "length ?closest \<le> length ?better + 1" by simp
  then have "length ?with \<le> nat (dn_bucketSize n) + 1"
    using betterPeersToQuery_length [of env n pmes "from" "dn_bucketSize n"] assms(2)
      length_filter_le [of "\<lambda>pi. length (ai_Addrs pi) > 0" "map (he_PeerInfo env) ?closest"]
    unfolding length_map by linarith
  moreover have "mp_Id m \<noteq> from \<and> mp_Addrs m \<noteq> [] \<and>
       (mp_Id m = m_Key pmes \<or> mp_Id m \<noteq> dn_self n \<and> mp_Id m \<in> set ?near)"
    if "m \<in> set W" for m
  proof -
    from that obtain p where p: "p \<in> set ?closest" "ai_Addrs (he_PeerInfo env p) \<noteq> []"
      "mp_Id m = ai_ID (he_PeerInfo env p)" "mp_Addrs m = ai_Addrs (he_PeerInfo env p)"
      by (auto simp: W_def PeerInfosToPBPeers_map peerInfoToPBPeer_def simp del: set_append split del: if_split)
    with ids [OF p(1)] assms(1) show ?thesis by simp
  qed
  moreover have "length W = length ?with"
    by (simp only: W_def PeerInfosToPBPeers_map length_map)
  ultimately have "length W \<le> nat (dn_bucketSize n) + 1" "\<forall>m\<in>set W. mp_Id m \<noteq> from \<and> mp_Addrs m \<noteq> [] \<and>
       (mp_Id m = m_Key pmes \<or> mp_Id m \<noteq> dn_self n \<and> mp_Id m \<in> set ?near)"
    by (simp_all only: split del: if_split) blast
  with resp n' show ?thesis by auto
qed

theorem find_peer_answer_witness:
  "\<exists>resp. handleFindPeer demo_he ''b'' (NewMessage FIND_NODE ''t'' 0) demo_node = (Inr (Some resp), demo_node) \<and>
     length (m_CloserPeers resp) \<le> 3"
proof -
  have "\<exists>resp. handleFindPeer demo_he ''b'' (NewMessage FIND_NODE ''t'' 0) demo_node = (Inr (Some resp), demo_node)"
    by (simp add: handleFindPeer_def Let_def)
  then obtain resp where r: "handleFindPeer demo_he ''b'' (NewMessage FIND_NODE ''t'' 0) demo_node =
    (Inr (Some resp), demo_node)" by blast
  have "\<forall>p. ai_ID (he_PeerInfo demo_he p) = p" "length (he_NearestPeers demo_he k 2) \<le> nat 2" for k
    by (simp_all add: demo_he_def)
  with find_peer_answer [OF _ _ r] r show ?thesis by (auto simp: demo_node_def)
qed

text \<open>C12: A node accepts provider records only from the provider itself: an announcement is accepted
  exactly when its key has 1 to 80 bytes and some announced peer is the sender with an address, and
  everything handed to the provider store then names the sender, for that key.\<close>

theorem add_provider_only_sender:
  "(fst (handleAddProvider env p pmes n) = Inr None \<longleftrightarrow>
      0 < length (m_Key pmes) \<and> length (m_Key pmes) \<le> 80 \<and>
       (\<exists>m\<in>set (m_ProviderPeers pmes). mp_Id m = p \<and> (\<exists>a\<in>set (mp_Addrs m). he_validAddr env a))) \<and>
    (\<forall>(k, ai)\<in>set (fst (snd (handleAddProvider env p pmes n))). k = m_Key pmes \<and> ai_ID ai = p)"
  by (auto simp: handleAddProvider_def Let_def accept_providers_spec filter_empty_conv
      PBPeersToPeerInfos_def PBPeerToPeerInfo_def Addresses_def not_le)

abbreviation demo_announcement :: Message where
  "demo_announcement \<equiv> (NewMessage ADD_PROVIDER ''k'' 0)\<lparr>m_ProviderPeers :=
     [\<lparr>mp_Id = ''q'', mp_Addrs = [''b''], mp_Connection = NOT_CONNECTED\<rparr>,
      \<lparr>mp_Id = ''p'', mp_Addrs = [''a''], mp_Connection = NOT_CONNECTED\<rparr>]\<rparr>"

theorem add_provider_only_sender_witness:
  "fst (handleAddProvider demo_he ''p'' demo_announcement demo_node) = Inr None"
proof -
  have "0 < length (m_Key demo_announcement) \<and> length (m_Key demo_announcement) \<le> 80 \<and>
    (\<exists>m\<in>set (m_ProviderPeers demo_announcement). mp_Id m = ''p'' \<and> (\<exists>a\<in>set (mp_Addrs m). he_validAddr demo_he a))"
    by (simp add: demo_he_def)
  with add_provider_only_sender [of demo_he "''p''" demo_announcement demo_node] show ?thesis by blast
qed

lemma fold_removeAll: "set (fold removeAll ps hs) = set hs - set ps"
  by (induction ps arbitrary: hs) auto

lemma fold_insert: "set (fold List.insert ps hs) = set hs \<union> set ps"
  by (induction ps arbitrary: hs) auto

text \<open>Leaving server mode rescinds every server protocol and resets exactly the inbound streams that
  use one, outbound and foreign streams are left alone; a stream still being served ends at its next
  turn without its message being handled; and going back to server mode sets all handlers again.\<close>

theorem client_mode_serves_nothing:
  assumes "ms_mode s = modeServer" and "setMode modeClient s = (err, s')"
  shows "\<not> err \<and> ms_mode s' = modeClient \<and>
    set (ms_handlers s') = set (ms_handlers s) - set (ms_serverProtocols s) \<and>
    ms_conns s' = map (map (\<lambda>st. if si_Protocol st \<in> set (ms_serverProtocols s) \<and> si_Inbound st
        then st\<lparr>si_Reset := True\<rparr> else st)) (ms_conns s) \<and>
    (\<forall>tu turns n. tu_mode tu = ms_mode s' \<longrightarrow>
       handleNewMessage mPeer (tu # turns) n =
         \<lparr>sr_orderly = Some False, sr_responses = [], sr_added = [], sr_node = n\<rparr>) \<and>
    set (ms_handlers (snd (setMode modeServer s'))) = set (ms_handlers s) \<union> set (ms_serverProtocols s)"
  using assms
  by (auto simp: setMode_def moveToClientMode_def moveToServerMode_def Let_def fold_removeAll fold_insert)

definition demo_modes :: mode_state where
  "demo_modes = \<lparr>ms_mode = modeServer, ms_serverProtocols = [''kad''], ms_handlers = [''kad'', ''id''],
     ms_conns = [[\<lparr>si_Protocol = ''kad'', si_Inbound = True, si_Reset = False\<rparr>]]\<rparr>"

theorem client_mode_serves_nothing_witness:
  "set (ms_handlers (snd (setMode modeClient demo_modes))) = {''id''}"
proof -
  have "ms_mode demo_modes = modeServer" by (simp add: demo_modes_def)
  from client_mode_serves_nothing [OF this, of "fst (setMode modeClient demo_modes)"
      "snd (setMode modeClient demo_modes)"]
  have "set (ms_handlers (snd (setMode modeClient demo_modes))) =
    set (ms_handlers demo_modes) - set (ms_serverProtocols demo_modes)" by (metis prod.collapse)
  then show ?thesis by (auto simp: demo_modes_def)
qed

end
