(* ===== verification/Routing.thy ===== *)
theory Routing
  imports Query Handlers
begin

text \<open>
  The client side of the DHT: storing and searching values, searching a peer and fetching a public
  key (\<^verbatim>\<open>routing.go\<close>, \<^verbatim>\<open>lookup.go\<close>, \<^verbatim>\<open>records.go\<close>,
  \<^verbatim>\<open>routing_options.go\<close>, \<^verbatim>\<open>internal/config/quorum.go\<close>). Announcing and searching providers is theory
  \<open>Provider_Routing\<close>.

  The lookups these operations run are theory \<open>Query\<close>: an operation takes the lookup's result and the
  answers of the queried peers in the order they arrive. Which branch a \<^verbatim>\<open>select\<close> takes, and what a
  context answers when it is asked, are inputs. Third-party code is a parameter: record making, public
  keys, what the handler environment already abstracts and \<^verbatim>\<open>routing.Options.Apply\<close>, whose outcome on
  the caller's options the operations take. A nil byte slice and an empty one are both \<open>[]\<close>: record
  values are decoded from protobuf, which yields nil for an empty field. Query events published to
  the caller's context, tracing and log lines are left out.
\<close>

section \<open>Environment and errors\<close>

type_synonym pub_key = bytes

record 'd routing_env =
  re_h :: "'d handler_env"
  re_send :: send_request
  re_sendMsg :: send_message
  re_MakePutRecord :: "string \<Rightarrow> bytes \<Rightarrow> Record"
  re_PubKey :: "peer_id \<Rightarrow> pub_key option"
  re_UnmarshalPublicKey :: "bytes \<Rightarrow> pub_key option"
  re_IDFromPublicKey :: "pub_key \<Rightarrow> peer_id option"
  re_KeyForPublicKey :: "peer_id \<Rightarrow> string"
  re_ValidateID :: "peer_id \<Rightarrow> bool"
  re_hostAddrs :: "multiaddr list"

datatype ctx_err = Canceled | DeadlineExceeded

datatype routing_error =
  ErrNotSupported | ErrNotFound | BadOptions string | InvalidValue string | LocalStore handler_error |
  NoSelection string | OlderValue | EmptyLookupKey | LookupFailed lookup_error | CtxError ctx_err |
  UndefinedCid | ErrNotEnoughData | ProvideFailed string | MessengerFailed messenger_error |
  InvalidPeerID | NoPublicKey peer_id | BadPublicKey | KeyMismatchesPeer

section \<open>Options\<close>

record routing_options =
  ro_Offline :: bool
  ro_Quorum :: "int option"

definition defaultQuorum :: int where
  "defaultQuorum = 0"

definition GetQuorum :: "routing_options \<Rightarrow> int" where
  "GetQuorum opts = (case ro_Quorum opts of None \<Rightarrow> defaultQuorum | Some n \<Rightarrow> n)"

definition Quorum :: "int \<Rightarrow> routing_options \<Rightarrow> routing_options" where
  "Quorum n opts = opts\<lparr>ro_Quorum := Some n\<rparr>"

section \<open>Closest peers\<close>

text \<open>
  \<^verbatim>\<open>GetClosestPeers\<close> returns peers and an error independently. It also returns what it hands to the
  network size estimator, and whether it resets the refresh time of the key's bucket.
\<close>

record closest_result =
  cr_peers :: "peer_id list"
  cr_err :: "routing_error option"
  cr_track :: "(string \<times> peer_id list) option"
  cr_reset :: bool

definition GetClosestPeers :: "string \<Rightarrow> lookup_error + lookupWithFollowupResult \<Rightarrow> ctx_err option \<Rightarrow>
    closest_result" where
  "GetClosestPeers key lookup ctxErr =
     (let result = (\<lambda>peers err. \<lparr>cr_peers = peers, cr_err = err, cr_track = None, cr_reset = False\<rparr>) in
      if key = [] then result [] (Some EmptyLookupKey)
      else case lookup of
        Inl err \<Rightarrow> result [] (Some (LookupFailed err))
      | Inr lookupRes \<Rightarrow>
          if ctxErr \<noteq> None \<or> \<not> lr_completed lookupRes
          then result (lr_peers lookupRes) (map_option CtxError ctxErr)
          else (result (lr_peers lookupRes) None)
                 \<lparr>cr_track := Some (key, lr_closest lookupRes), cr_reset := True\<rparr>)"

text \<open>The query function of the lookup: what it asks one peer.\<close>

definition pmGetClosestPeers :: "'d routing_env \<Rightarrow> string \<Rightarrow> peer_id \<Rightarrow> messenger_error + AddrInfo list" where
  "pmGetClosestPeers env key p = pm_GetClosestPeers (he_validAddr (re_h env)) (re_send env) p key"

section \<open>Storing a value\<close>

text \<open>
  The second result are the puts sent to peers with their outcomes, as \<open>pm_PutValue\<close> gives them; the
  code only logs the failures.
\<close>

definition PutValue :: "'d routing_env \<Rightarrow> instant \<Rightarrow> string \<Rightarrow> bytes \<Rightarrow> closest_result \<Rightarrow> 'd dht_node \<Rightarrow>
    routing_error option \<times> (peer_id \<times> messenger_error option option) list \<times> 'd dht_node" where
  "PutValue env now key val closest n =
     (let h = re_h env in
      if \<not> dn_enableValues n then (Some ErrNotSupported, [], n)
      else case he_Validate h key val of
        Some err \<Rightarrow> (Some (InvalidValue err), [], n)
      | None \<Rightarrow>
          (case getLocal h key n of
             Inl err \<Rightarrow> (Some (LocalStore err), [], n)
           | Inr old \<Rightarrow>
               (let refused =
                  (case old of
                     None \<Rightarrow> None
                   | Some r \<Rightarrow>
                       if rec_Value r = val then None
                       else (case he_Select h key [val, rec_Value r] of
                               Inl err \<Rightarrow> Some (NoSelection err)
                             | Inr i \<Rightarrow> if i \<noteq> 0 then Some OlderValue else None))
                in case refused of
                     Some err \<Rightarrow> (Some err, [], n)
                   | None \<Rightarrow>
                       (let r = (re_MakePutRecord env key val)\<lparr>rec_TimeReceived := FormatRFC3339 now\<rparr>;
                            (err, n) = putLocal h key r n
                        in case err of
                             Some e \<Rightarrow> (Some (LocalStore e), [], n)
                           | None \<Rightarrow>
                               (case cr_err closest of
                                  Some e \<Rightarrow> (Some e, [], n)
                                | None \<Rightarrow>
                                    (None, map (\<lambda>p. (p, pm_PutValue (re_send env) p r)) (cr_peers closest), n))))))"

section \<open>Searching a value\<close>

record recvdVal =
  rv_Val :: bytes
  rv_From :: peer_id

text \<open>
  \<open>processValues\<close> consumes what its \<^verbatim>\<open>select\<close> yields: a value, the end of the values or the end of the
  context. The flag of a received value says whether the consumer takes it from the output channel
  in case it is offered there, rather than the context ending first. The result is the best value,
  the peers that sent it, the abort flag and the state of \<open>newVal\<close>; \<open>None\<close> while it waits.
\<close>

datatype value_event = ReceivedVal recvdVal bool | ValsClosed | ValsCtxDone

datatype verdict = SameAsBest | SelectError | NotBetter | Better

definition judge :: "(bytes list \<Rightarrow> string + int) \<Rightarrow> bytes \<Rightarrow> bytes \<Rightarrow> verdict" where
  "judge select best val =
     (if best \<noteq> []
      then if best = val then SameAsBest
           else case select [best, val] of
                  Inl err \<Rightarrow> SelectError
                | Inr sel \<Rightarrow> if sel \<noteq> 1 then NotBetter else Better
      else Better)"

fun processValues :: "(bytes list \<Rightarrow> string + int) \<Rightarrow> ('s \<Rightarrow> recvdVal \<Rightarrow> bool \<Rightarrow> bool \<Rightarrow> bool \<times> 's) \<Rightarrow>
    value_event list \<Rightarrow> bytes \<Rightarrow> peer_id set \<Rightarrow> bool \<Rightarrow> 's \<Rightarrow> (bytes \<times> peer_id set \<times> bool \<times> 's) option" where
  "processValues select newVal evs best peersWithBest aborted s =
     (if aborted then Some (best, peersWithBest, aborted, s)
      else case evs of
        [] \<Rightarrow> None
      | ValsClosed # es \<Rightarrow> Some (best, peersWithBest, aborted, s)
      | ValsCtxDone # es \<Rightarrow> Some (best, peersWithBest, aborted, s)
      | ReceivedVal v taken # es \<Rightarrow>
          (case judge select best (rv_Val v) of
             SameAsBest \<Rightarrow>
               (let (aborted, s) = newVal s v False taken
                in processValues select newVal es best (insert (rv_From v) peersWithBest) aborted s)
           | SelectError \<Rightarrow> processValues select newVal es best peersWithBest aborted s
           | NotBetter \<Rightarrow>
               (let (aborted, s) = newVal s v False taken
                in processValues select newVal es best peersWithBest aborted s)
           | Better \<Rightarrow>
               (let (aborted, s) = newVal s v True taken
                in processValues select newVal es (rv_Val v) {rv_From v} aborted s)))"

record quorum_state =
  qs_numResponses :: int
  qs_out :: "bytes list"
  qs_stopClosed :: bool

definition quorum_newVal :: "int \<Rightarrow> quorum_state \<Rightarrow> recvdVal \<Rightarrow> bool \<Rightarrow> bool \<Rightarrow> bool \<times> quorum_state" where
  "quorum_newVal nvals s v better taken =
     (let s = s\<lparr>qs_numResponses := qs_numResponses s + 1\<rparr> in
      if better \<and> \<not> taken then (False, s)
      else
        let s = (if better then s\<lparr>qs_out := qs_out s @ [rv_Val v]\<rparr> else s)
        in if nvals > 0 \<and> qs_numResponses s > nvals
           then (True, s\<lparr>qs_stopClosed := True\<rparr>)
           else (False, s))"

definition searchValueQuorum :: "'d handler_env \<Rightarrow> string \<Rightarrow> value_event list \<Rightarrow> int \<Rightarrow>
    (bytes \<times> peer_id set \<times> bool \<times> quorum_state) option" where
  "searchValueQuorum h key evs nvals =
     processValues (he_Select h key) (quorum_newVal nvals) evs [] {} False
       \<lparr>qs_numResponses = 0, qs_out = [], qs_stopClosed = False\<rparr>"

text \<open>
  The query function of \<^verbatim>\<open>getValues\<close>: what it returns to the lookup and the value it sends, if any;
  \<open>delivered\<close> is whether the send succeeds before the context ends.
\<close>

definition getValuesQuery :: "'d routing_env \<Rightarrow> string \<Rightarrow> bool \<Rightarrow> ctx_err \<Rightarrow> peer_id \<Rightarrow>
    (routing_error + AddrInfo list) \<times> recvdVal option" where
  "getValuesQuery env key delivered ctxErr p =
     (case pm_GetValue (he_validAddr (re_h env)) (re_send env) p key of
        Inl err \<Rightarrow> (Inl (MessengerFailed err), None)
      | Inr (None, peers) \<Rightarrow> (Inr peers, None)
      | Inr (Some r, peers) \<Rightarrow>
          (let val = rec_Value r in
           if val = [] then (Inr peers, None)
           else case he_Validate (re_h env) key val of
             Some err \<Rightarrow> (Inr peers, None)
           | None \<Rightarrow>
               if delivered then (Inr peers, Some \<lparr>rv_Val = val, rv_From = p\<rparr>)
               else (Inl (CtxError ctxErr), None)))"

text \<open>
  What reaches \<^verbatim>\<open>processValues\<close> during a search: the local value first, then the delivered values of
  the peers in the order they arrive, until the lookup ends or the context does.
\<close>

datatype search_event = PeerAnswered peer_id bool | LookupEnded | SearchCtxDone

definition localValue :: "'d handler_env \<Rightarrow> string \<Rightarrow> 'd dht_node \<Rightarrow> recvdVal option" where
  "localValue h key n =
     (case getLocal h key n of
        Inr (Some r) \<Rightarrow> Some \<lparr>rv_Val = rec_Value r, rv_From = dn_self n\<rparr>
      | _ \<Rightarrow> None)"

fun value_events :: "'d routing_env \<Rightarrow> string \<Rightarrow> search_event list \<Rightarrow> value_event list" where
  "value_events env key [] = []"
| "value_events env key (PeerAnswered p taken # evs) =
     (case snd (getValuesQuery env key True Canceled p) of
        None \<Rightarrow> value_events env key evs
      | Some v \<Rightarrow> ReceivedVal v taken # value_events env key evs)"
| "value_events env key (LookupEnded # evs) = ValsClosed # value_events env key evs"
| "value_events env key (SearchCtxDone # evs) = ValsCtxDone # value_events env key evs"

definition getValues :: "'d routing_env \<Rightarrow> string \<Rightarrow> bool \<Rightarrow> search_event list \<Rightarrow> 'd dht_node \<Rightarrow> value_event list" where
  "getValues env key taken evs n =
     (case localValue (re_h env) key n of None \<Rightarrow> [] | Some v \<Rightarrow> [ReceivedVal v taken]) @
     value_events env key evs"

text \<open>Who is sent the best value afterwards; a nil lookup result is \<open>None\<close>.\<close>

datatype lookup_wait = LookupResult "lookupWithFollowupResult option" | WaitCtxDone

definition updatePeers :: "lookup_wait \<Rightarrow> peer_id set \<Rightarrow> peer_id list" where
  "updatePeers wait peersWithBest =
     (case wait of
        LookupResult (Some l) \<Rightarrow> filter (\<lambda>p. p \<notin> peersWithBest) (lr_peers l)
      | _ \<Rightarrow> [])"

fun updatePeerValues :: "'d routing_env \<Rightarrow> string \<Rightarrow> bytes \<Rightarrow> peer_id list \<Rightarrow> 'd dht_node \<Rightarrow>
    (peer_id \<times> messenger_error option option) list \<times> 'd dht_node" where
  "updatePeerValues env key val [] n = ([], n)"
| "updatePeerValues env key val (p # ps) n =
     (let fixupRec = re_MakePutRecord env key val in
      if p = dn_self n
      then (let (_, n) = putLocal (re_h env) key fixupRec n in updatePeerValues env key val ps n)
      else (let (sent, n) = updatePeerValues env key val ps n
            in ((p, pm_PutValue (re_send env) p fixupRec) # sent, n)))"

text \<open>The outcome of a search: the values put out in order, the corrections sent, the node.\<close>

definition SearchValue :: "'d routing_env \<Rightarrow> string \<Rightarrow> string + routing_options \<Rightarrow> bool \<Rightarrow> search_event list \<Rightarrow>
    lookup_wait \<Rightarrow> 'd dht_node \<Rightarrow>
    (routing_error + bytes list \<times> (peer_id \<times> messenger_error option option) list \<times> 'd dht_node) option" where
  "SearchValue env key opts taken evs wait n =
     (if \<not> dn_enableValues n then Some (Inl ErrNotSupported)
      else case opts of
        Inl err \<Rightarrow> Some (Inl (BadOptions err))
      | Inr cfg \<Rightarrow>
          (let responsesNeeded = (if \<not> ro_Offline cfg then GetQuorum cfg else 0)
           in case searchValueQuorum (re_h env) key (getValues env key taken evs n) responsesNeeded of
                None \<Rightarrow> None
              | Some (best, peersWithBest, aborted, s) \<Rightarrow>
                  if best = [] \<or> aborted then Some (Inr (qs_out s, [], n))
                  else (let (sent, n) = updatePeerValues env key best (updatePeers wait peersWithBest) n
                        in Some (Inr (qs_out s, sent, n)))))"

text \<open>\<^verbatim>\<open>GetValue\<close> returns a value and an error independently.\<close>

definition GetValue :: "'d routing_env \<Rightarrow> string \<Rightarrow> string + routing_options \<Rightarrow> bool \<Rightarrow> search_event list \<Rightarrow>
    lookup_wait \<Rightarrow> ctx_err option \<Rightarrow> 'd dht_node \<Rightarrow> (bytes \<times> routing_error option \<times> 'd dht_node) option" where
  "GetValue env key opts taken evs wait ctxErr n =
     (if \<not> dn_enableValues n then Some ([], Some ErrNotSupported, n)
      else case opts of
        Inl err \<Rightarrow> Some ([], Some (BadOptions err), n)
      | Inr cfg \<Rightarrow>
          (case SearchValue env key (Inr (Quorum (GetQuorum cfg) cfg)) taken evs wait n of
             None \<Rightarrow> None
           | Some (Inl err) \<Rightarrow> Some ([], Some err, n)
           | Some (Inr (responses, sent, n)) \<Rightarrow>
               (let best = fold (\<lambda>r best. r) responses []
                in case ctxErr of
                     Some c \<Rightarrow> Some (best, Some (CtxError c), n)
                   | None \<Rightarrow> if best = [] then Some ([], Some ErrNotFound, n)
                             else Some (best, None, n))))"

section \<open>Searching a peer\<close>

definition FindLocal :: "'d handler_env \<Rightarrow> peer_id \<Rightarrow> AddrInfo" where
  "FindLocal h p = (if hasValidConnectedness h p then he_PeerInfo h p else \<lparr>ai_ID = [], ai_Addrs = []\<rparr>)"

fun dialedPeer :: "peer_id \<Rightarrow> (peer_id \<times> PeerState) list \<Rightarrow> bool" where
  "dialedPeer pid [] = False"
| "dialedPeer pid ((p, st) # rest) =
     (if p = pid then st = PeerQueried \<or> st = PeerUnreachable \<or> st = PeerWaiting
      else dialedPeer pid rest)"

text \<open>\<open>h1\<close> and \<open>h2\<close> are the host before and after the lookup.\<close>

definition FindPeer :: "'d routing_env \<Rightarrow> 'd handler_env \<Rightarrow> 'd handler_env \<Rightarrow> peer_id \<Rightarrow>
    lookup_error + lookupWithFollowupResult \<Rightarrow> routing_error + AddrInfo" where
  "FindPeer env h1 h2 pid lookup =
     (if \<not> re_ValidateID env pid then Inl InvalidPeerID
      else
        let pi = FindLocal h1 pid in
        if ai_ID pi \<noteq> [] then Inr pi
        else case lookup of
          Inl err \<Rightarrow> Inl (LookupFailed err)
        | Inr lookupRes \<Rightarrow>
            (let dialedPeerDuringQuery = dialedPeer pid (zip (lr_peers lookupRes) (lr_state lookupRes))
             in if dialedPeerDuringQuery \<or> hasValidConnectedness h2 pid
                then Inr (he_PeerInfo h2 pid) else Inl ErrNotFound))"

section \<open>Public keys\<close>

definition getPublicKeyFromNode :: "'d routing_env \<Rightarrow> peer_id \<Rightarrow> routing_error + pub_key" where
  "getPublicKeyFromNode env p =
     (case re_PubKey env p of
        Some pk \<Rightarrow> Inr pk
      | None \<Rightarrow>
          (case pm_GetValue (he_validAddr (re_h env)) (re_send env) p (re_KeyForPublicKey env p) of
             Inl err \<Rightarrow> Inl (MessengerFailed err)
           | Inr (None, _) \<Rightarrow> Inl (NoPublicKey p)
           | Inr (Some r, _) \<Rightarrow>
               (case re_UnmarshalPublicKey env (rec_Value r) of
                  None \<Rightarrow> Inl BadPublicKey
                | Some pubk \<Rightarrow>
                    (case re_IDFromPublicKey env pubk of
                       None \<Rightarrow> Inl BadPublicKey
                     | Some pid \<Rightarrow> if pid \<noteq> p then Inl KeyMismatchesPeer else Inr pubk))))"

text \<open>The search for the key's record asks for one response.\<close>

definition getPublicKeyFromDHT :: "'d routing_env \<Rightarrow> peer_id \<Rightarrow> bool \<Rightarrow> search_event list \<Rightarrow> lookup_wait \<Rightarrow>
    ctx_err option \<Rightarrow> 'd dht_node \<Rightarrow> (routing_error + pub_key) option" where
  "getPublicKeyFromDHT env p taken evs wait ctxErr n =
     (case GetValue env (re_KeyForPublicKey env p) (Inr (Quorum 1 \<lparr>ro_Offline = False, ro_Quorum = None\<rparr>))
             taken evs wait ctxErr n of
        None \<Rightarrow> None
      | Some (val, Some err, _) \<Rightarrow> Some (Inl err)
      | Some (val, None, _) \<Rightarrow>
          (case re_UnmarshalPublicKey env val of
             None \<Rightarrow> Some (Inl BadPublicKey)
           | Some pubk \<Rightarrow> Some (Inr pubk)))"

text \<open>
  \<^verbatim>\<open>GetPublicKey\<close> takes the first success of the two searches, in the order their responses arrive;
  \<open>None\<close> while it waits. The second result is the key it adds to the peerstore.
\<close>

fun first_key :: "nat \<Rightarrow> routing_error option \<Rightarrow> (routing_error + pub_key) list \<Rightarrow>
    (routing_error option + pub_key) option" where
  "first_key 0 err rs = Some (Inl err)"
| "first_key (Suc i) err [] = None"
| "first_key (Suc i) err (r # rs) =
     (case r of Inr pubk \<Rightarrow> Some (Inr pubk) | Inl e \<Rightarrow> first_key i (Some e) rs)"

definition GetPublicKey :: "'d routing_env \<Rightarrow> 'd dht_node \<Rightarrow> peer_id \<Rightarrow> (routing_error + pub_key) list \<Rightarrow>
    ((routing_error option + pub_key) \<times> pub_key option) option" where
  "GetPublicKey env n p resps =
     (if \<not> dn_enableValues n then Some (Inl (Some ErrNotSupported), None)
      else case re_PubKey env p of
        Some pk \<Rightarrow> Some (Inr pk, None)
      | None \<Rightarrow> map_option (\<lambda>r. (r, case r of Inr pubk \<Rightarrow> Some pubk | Inl _ \<Rightarrow> None)) (first_key 2 None resps))"

section \<open>Lemmas: the best value\<close>

declare processValues.simps [simp del]

lemma processValues_end [simp]:
  "processValues select newVal evs best with True s = Some (best, with, True, s)"
  "processValues select newVal [] best with False s = None"
  "processValues select newVal (ValsClosed # es) best with False s = Some (best, with, False, s)"
  "processValues select newVal (ValsCtxDone # es) best with False s = Some (best, with, False, s)"
  by (subst processValues.simps, simp)+

lemma processValues_received:
  "processValues select newVal (ReceivedVal v taken # es) best with False s =
     (case judge select best (rv_Val v) of
        SameAsBest \<Rightarrow> (case newVal s v False taken of (aborted, s) \<Rightarrow>
          processValues select newVal es best (insert (rv_From v) with) aborted s)
      | SelectError \<Rightarrow> processValues select newVal es best with False s
      | NotBetter \<Rightarrow> (case newVal s v False taken of (aborted, s) \<Rightarrow>
          processValues select newVal es best with aborted s)
      | Better \<Rightarrow> (case newVal s v True taken of (aborted, s) \<Rightarrow>
          processValues select newVal es (rv_Val v) {rv_From v} aborted s))"
  by (subst processValues.simps, unfold Let_def, simp)

lemma processValues_stops:
  assumes "processValues select newVal (ev # evs) best with aborted s = Some r"
    and "aborted \<or> (\<forall>v t. ev \<noteq> ReceivedVal v t)"
  shows "r = (best, with, aborted, s)"
  using assms by (cases aborted; cases ev) auto




fun received_vals :: "value_event list \<Rightarrow> recvdVal list" where
  "received_vals (ReceivedVal v taken # es) = v # received_vals es"
| "received_vals _ = []"









lemma received_answers:
  "u \<in> set (received_vals (value_events env key evs)) \<Longrightarrow>
   rv_Val u \<noteq> [] \<and> he_Validate (re_h env) key (rv_Val u) = None \<and>
   (\<exists>r peers. pm_GetValue (he_validAddr (re_h env)) (re_send env) (rv_From u) key = Inr (Some r, peers) \<and>
      rec_Value r = rv_Val u)"
  by (induction env key evs rule: value_events.induct)
    (auto simp: getValuesQuery_def Let_def split: option.splits sum.splits if_splits)

lemma localValue_valid:
  "localValue h key n = Some v \<Longrightarrow> he_Validate h key (rv_Val v) = None \<and> rv_From v = dn_self n"
  by (auto simp: localValue_def getLocal_def getRecordFromDatastore_def
      split: sum.splits option.splits if_splits)

lemma received_valid:
  assumes "u \<in> set (received_vals (getValues env key t evs n))"
  shows "he_Validate (re_h env) key (rv_Val u) = None"
  using assms received_answers [of u env key evs] localValue_valid [of "re_h env" key n u]
  by (auto simp: getValues_def split: option.splits)



lemma processValues_out:
  "processValues select (quorum_newVal q) evs best with aborted s = Some (best', with', aborted', s') \<Longrightarrow>
   set (qs_out s') \<subseteq> set (qs_out s) \<union> rv_Val ` set (received_vals evs)"
proof (induction evs arbitrary: best "with" aborted s)
  case (Cons ev evs)
  have step: "set (qs_out s1) \<subseteq> set (qs_out s) \<union> {rv_Val v}"
    if "quorum_newVal q s v b t = (ab, s1)" for v b t ab s1
    using that by (auto simp: quorum_newVal_def Let_def split: if_splits)
  show ?case
  proof (cases "aborted \<or> (\<forall>v t. ev \<noteq> ReceivedVal v t)")
    case True
    from processValues_stops [OF Cons.prems this] show ?thesis by simp
  next
    case False
    then obtain v t where ev: "ev = ReceivedVal v t" and na: "\<not> aborted" by auto
    obtain ab1 s1 ab2 s2 where q: "quorum_newVal q s v False t = (ab1, s1)"
      "quorum_newVal q s v True t = (ab2, s2)" by fastforce
    have pv: "processValues select (quorum_newVal q) (ReceivedVal v t # evs) best with False s =
        Some (best', with', aborted', s')" using Cons.prems ev na by simp
    have "\<exists>b1 w1 ab3 s3. processValues select (quorum_newVal q) evs b1 w1 ab3 s3 =
        Some (best', with', aborted', s') \<and> set (qs_out s3) \<subseteq> set (qs_out s) \<union> {rv_Val v}"
      using pv step [OF q(1)] step [OF q(2)]
      by (cases "judge select best (rv_Val v)") (auto simp: processValues_received q intro!: exI)
    then obtain b1 w1 ab3 s3 where nx: "processValues select (quorum_newVal q) evs b1 w1 ab3 s3 =
        Some (best', with', aborted', s')" and sub: "set (qs_out s3) \<subseteq> set (qs_out s) \<union> {rv_Val v}"
      by blast
    from Cons.IH [OF nx] sub show ?thesis by (auto simp: ev)
  qed
next
  case Nil
  then show ?case by (cases aborted) auto
qed

lemma searchValueQuorum_out:
  "searchValueQuorum h key evs q = Some (best, with, aborted, s) \<Longrightarrow>
   set (qs_out s) \<subseteq> rv_Val ` set (received_vals evs)"
  unfolding searchValueQuorum_def by (drule processValues_out) simp

lemma fold_last: "fold (\<lambda>r best. r) xs b = (if xs = [] then b else last xs)"
  by (induction xs arbitrary: b) auto

lemma GetValue_valid:
  assumes "GetValue env key opts t evs wait ctxErr n = Some (val, None, n')"
  shows "he_Validate (re_h env) key val = None"
proof -
  from assms obtain out where "val = fold (\<lambda>r best. r) out []" "val \<noteq> []"
    "set out \<subseteq> rv_Val ` set (received_vals (getValues env key t evs n))"
    by (auto simp: GetValue_def SearchValue_def Let_def split: if_splits sum.splits option.splits prod.splits
        dest!: searchValueQuorum_out)
  then have "val \<in> rv_Val ` set (received_vals (getValues env key t evs n))"
    by (auto simp: fold_last split: if_splits)
  with received_valid show ?thesis by auto
qed


section \<open>Properties\<close>



text \<open>C15: A public key that \<^verbatim>\<open>GetPublicKey\<close> returns is the peer's own, whichever search answers first:
  the one that asks the peer checks it, and the one that searches the DHT returns only values that
  the validator accepts. What is added to the peerstore is that key.\<close>

theorem public_key_authentic:
  assumes "\<forall>v k. he_Validate (re_h env) (re_KeyForPublicKey env p) v = None \<and>
      re_UnmarshalPublicKey env v = Some k \<longrightarrow> re_IDFromPublicKey env k = Some p"
    and "\<forall>k. re_PubKey env p = Some k \<longrightarrow> re_IDFromPublicKey env k = Some p"
    and "getPublicKeyFromDHT env p taken evs wait ctxErr n = Some fromDHT"
    and "set resps \<subseteq> {getPublicKeyFromNode env p, fromDHT}"
    and "GetPublicKey env n p resps = Some (Inr k, stored)"
  shows "re_IDFromPublicKey env k = Some p \<and> (stored = None \<or> stored = Some k)"
proof -
  have node: "re_IDFromPublicKey env k' = Some p" if "getPublicKeyFromNode env p = Inr k'" for k'
    using that assms(2)
    by (auto simp: getPublicKeyFromNode_def split: option.splits sum.splits if_splits)
  have dht: "re_IDFromPublicKey env k' = Some p" if "fromDHT = Inr k'" for k'
    using assms(3) that assms(1)
    by (auto simp: getPublicKeyFromDHT_def split: option.splits prod.splits dest!: GetValue_valid)
  have first: "Inr k' \<in> set rs" if "first_key i e rs = Some (Inr k')" for i e rs k'
    using that by (induction i e rs rule: first_key.induct) (auto split: sum.splits)
  show ?thesis
  proof (cases "re_PubKey env p")
    case (Some k')
    with assms(2,5) show ?thesis by (auto simp: GetPublicKey_def split: if_splits)
  next
    case None
    with assms(5) have r: "first_key 2 None resps = Some (Inr k)" "stored = Some k"
      by (auto simp: GetPublicKey_def split: if_splits sum.splits)
    from first [OF r(1)] assms(4) node dht r(2) show ?thesis by auto
  qed
qed

text \<open>A valid record that is put into the local store is there afterwards.\<close>

lemma putLocal_stored:
  assumes "he_ok h contents" and "reliable_gets (he_ds h)" and "putLocal h key r n = (e, n1)"
    and "rec_Key r = key" and "he_Validate h key (rec_Value r) = None"
  shows "(e = None \<longrightarrow> getLocal h key n1 = Inr (Some r)) \<and>
    (e \<noteq> None \<longrightarrow> contents (dn_datastore n1) = contents (dn_datastore n))"
proof (cases "he_Marshal h r")
  case None
  with assms(3) show ?thesis by (auto simp: putLocal_def)
next
  case (Some data)
  have ds: "datastore_ok (he_ds h) contents" using assms(1) by (simp add: he_ok_def)
  obtain e' d where d: "ds_put (he_ds h) (mkDsKey h key) data (dn_datastore n) = (e', d)" by fastforce
  with assms(3) Some have e: "e = map_option DatastoreError e'" "n1 = n\<lparr>dn_datastore := d\<rparr>"
    by (simp_all add: putLocal_def)
  show ?thesis
  proof (cases e')
    case None
    from ds_put_ok [OF ds d [unfolded None]] have "contents d (mkDsKey h key) = Some data" by simp
    from reliable_get [OF ds assms(2) this] Some assms(1,4,5)
    show ?thesis by (auto simp: e None getLocal_def getRecordFromDatastore_def he_ok_def)
  next
    case (Some x)
    with ds_put_ok [OF ds d] show ?thesis by (simp add: e)
  qed
qed

text \<open>What \<^verbatim>\<open>PutValue\<close> does: on success the value is stored locally, valid, and selected over a
  different one that was stored before, and it is put to every closest peer; when it refuses the
  value or the store fails, nothing is sent and the local contents stay; when only the lookup fails
  nothing is sent.\<close>

theorem put_value_publishes:
  assumes "he_ok (re_h env) contents" and "reliable_gets (he_ds (re_h env))"
    and "\<forall>k v. rec_Key (re_MakePutRecord env k v) = k \<and> rec_Value (re_MakePutRecord env k v) = v"
    and "dn_enableValues n" and "PutValue env now key val closest n = (err, sent, n')"
  shows "case err of
      None \<Rightarrow> map fst sent = cr_peers closest \<and> he_Validate (re_h env) key val = None \<and>
        (\<forall>old. getLocal (re_h env) key n = Inr (Some old) \<longrightarrow> rec_Value old = val \<or>
           he_Select (re_h env) key [val, rec_Value old] = Inr 0) \<and>
        (\<exists>r. getLocal (re_h env) key n' = Inr (Some r) \<and> rec_Key r = key \<and> rec_Value r = val \<and>
           (\<forall>(p, res)\<in>set sent. res = pm_PutValue (re_send env) p r))
    | Some e \<Rightarrow> sent = [] \<and>
        (cr_err closest = Some e \<or> contents (dn_datastore n') = contents (dn_datastore n))"
proof -
  let ?h = "re_h env"
  let ?r = "(re_MakePutRecord env key val)\<lparr>rec_TimeReceived := FormatRFC3339 now\<rparr>"
  have put: "(e = None \<longrightarrow> getLocal ?h key n1 = Inr (Some ?r)) \<and>
      (e \<noteq> None \<longrightarrow> contents (dn_datastore n1) = contents (dn_datastore n))"
    if "putLocal ?h key ?r n = (e, n1)" and "he_Validate ?h key val = None" for e n1
    using putLocal_stored [OF assms(1,2) that(1)] that(2) assms(3) by simp
  show ?thesis
  proof (cases "he_Validate ?h key val")
    case v: None
    obtain e n1 where p: "putLocal ?h key ?r n = (e, n1)" by fastforce
    note put = put [OF p v]
    show ?thesis
      using assms(3-5) put v
      by (auto simp: PutValue_def Let_def p comp_def split: sum.splits option.splits if_splits)
  next
    case (Some x)
    with assms(4,5) show ?thesis by (auto simp: PutValue_def Let_def)
  qed
qed



section \<open>Witnesses\<close>

text \<open>A network in which every peer answers with a record whose value is its own identifier.\<close>

definition demo_re :: "(string, bytes) gomap routing_env" where
  "demo_re = \<lparr>re_h = demo_he,
     re_send = (\<lambda>p m. Inr ((NewMessage (m_Type m) (m_Key m) 0)
        \<lparr>m_Record := Some \<lparr>rec_Key = m_Key m, rec_Value = p, rec_TimeReceived = []\<rparr>\<rparr>)),
     re_sendMsg = (\<lambda>p m. None),
     re_MakePutRecord = (\<lambda>k v. \<lparr>rec_Key = k, rec_Value = v, rec_TimeReceived = []\<rparr>),
     re_PubKey = (\<lambda>p. None), re_UnmarshalPublicKey = (\<lambda>b. Some b), re_IDFromPublicKey = (\<lambda>k. Some k),
     re_KeyForPublicKey = (\<lambda>p. p), re_ValidateID = (\<lambda>p. p \<noteq> []), re_hostAddrs = [''addr'']\<rparr>"





abbreviation demo_lookup :: lookupWithFollowupResult where
  "demo_lookup \<equiv> \<lparr>lr_peers = [''bb'', ''a'', ''z''], lr_state = [PeerQueried, PeerQueried, PeerQueried],
     lr_closest = [''bb'', ''a'', ''z''], lr_completed = True\<rparr>"



definition pk_re :: "(string, bytes) gomap routing_env" where
  "pk_re = demo_re\<lparr>re_h := demo_he\<lparr>he_Validate := \<lambda>k v. if k = v then None else Some ''bad''\<rparr>\<rparr>"

theorem public_key_authentic_witness:
  "\<exists>k. GetPublicKey pk_re demo_node ''a'' [Inl ErrNotFound, getPublicKeyFromNode pk_re ''a''] = Some (Inr k, Some k) \<and>
     re_IDFromPublicKey pk_re k = Some ''a''"
proof -
  have 1: "he_Validate (re_h pk_re) (re_KeyForPublicKey pk_re ''a'') v = None \<and>
      re_UnmarshalPublicKey pk_re v = Some k \<longrightarrow> re_IDFromPublicKey pk_re k = Some ''a''" for v k
    by (auto simp: pk_re_def demo_re_def)
  have 2: "re_PubKey pk_re ''a'' = Some k \<longrightarrow> re_IDFromPublicKey pk_re k = Some ''a''" for k
    by (simp add: pk_re_def demo_re_def)
  have 3: "getPublicKeyFromDHT pk_re ''a'' True [LookupEnded] (LookupResult None) None demo_node =
      Some (Inl ErrNotFound)" by code_simp
  have "GetPublicKey pk_re demo_node ''a'' [Inl ErrNotFound, getPublicKeyFromNode pk_re ''a''] =
      Some (Inr ''a'', Some ''a'')" by code_simp
  with public_key_authentic [OF _ _ 3 _ this] 1 2 show ?thesis by auto
qed

theorem put_value_publishes_witness:
  "\<exists>sent n' r. PutValue demo_re 10 ''k'' ''v'' (GetClosestPeers ''k'' (Inr demo_lookup) None) demo_node =
      (None, sent, n') \<and> map fst sent = [''bb'', ''a'', ''z''] \<and>
     getLocal demo_he ''k'' n' = Inr (Some r) \<and> rec_Value r = ''v''"
proof -
  let ?put = "PutValue demo_re 10 ''k'' ''v'' (GetClosestPeers ''k'' (Inr demo_lookup) None) demo_node"
  have "fst ?put = None" by code_simp
  then obtain sent n' where put: "?put = (None, sent, n')" by (cases ?put) auto
  have h: "re_h demo_re = demo_he" by (simp add: demo_re_def)
  have rec: "\<forall>k v. rec_Key (re_MakePutRecord demo_re k v) = k \<and> rec_Value (re_MakePutRecord demo_re k v) = v"
    by (simp add: demo_re_def)
  have "dn_enableValues demo_node" by (simp add: demo_node_def)
  with put_value_publishes [of demo_re map_of, OF _ _ rec this put] demo_he_ok
  obtain r where "map fst sent = [''bb'', ''a'', ''z'']" "getLocal demo_he ''k'' n' = Inr (Some r)"
    "rec_Value r = ''v''" by (auto simp: h GetClosestPeers_def Let_def)
  with put show ?thesis by (intro exI [of _ sent] exI [of _ n'] exI [of _ r] conjI)
qed

end
