(* ===== verification/Provider_Routing.thy ===== *)
theory Provider_Routing
  imports Routing "HOL-Library.Signed_Division"
begin

text \<open>
  Announcing and searching providers (\<^verbatim>\<open>routing.go\<close>): the deadline arithmetic and the puts of the
  classic provide, and the search routine with its workers, which share the table of known providers
  under a lock. The environment is the one of theory \<open>Routing\<close>.
\<close>

section \<open>Announcing a provider\<close>

text \<open>
  The deadline of the lookup inside a classic provide: some time is reserved for the final puts.
  \<^verbatim>\<open>Time.Add\<close> adds a signed duration; Go's division of durations truncates towards zero.
\<close>

definition time_Add :: "instant \<Rightarrow> duration \<Rightarrow> instant" where
  "time_Add t d = t + sint d"

definition time_Second :: duration where
  "time_Second = 1000000000"

definition duration_div10 :: "duration \<Rightarrow> duration" where
  "duration_div10 d = word_of_int (sint d sdiv 10)"

definition classicDeadline :: "instant \<Rightarrow> instant \<Rightarrow> routing_error + instant" where
  "classicDeadline now deadline =
     (let timeout = time_Sub deadline now in
      if word_sless timeout 0 then Inl (CtxError DeadlineExceeded)
      else if word_sless timeout (10 * time_Second)
      then Inr (time_Add deadline (duration_div10 (- timeout)))
      else Inr (time_Add deadline (- time_Second)))"

text \<open>
  The classic provide: \<open>closest\<close> is what \<open>GetClosestPeers\<close> returns under the inner deadline, \<open>ctxErr1\<close>
  and \<open>ctxErr2\<close> what the outer context answers after the lookup and at the end. The second result
  are the records sent.
\<close>

definition classicProvide :: "'d routing_env \<Rightarrow> bytes \<Rightarrow> instant option \<Rightarrow> instant \<Rightarrow>
    (instant option \<Rightarrow> closest_result) \<Rightarrow> ctx_err option \<Rightarrow> ctx_err option \<Rightarrow> 'd dht_node \<Rightarrow>
    routing_error option \<times> (peer_id \<times> messenger_error option) list" where
  "classicProvide env keyMH ctxDeadline now closest ctxErr1 ctxErr2 n =
     (let inner = (case ctxDeadline of
                     None \<Rightarrow> Inr None
                   | Some deadline \<Rightarrow> map_sum id Some (classicDeadline now deadline))
      in case inner of
           Inl err \<Rightarrow> (Some err, [])
         | Inr innerDeadline \<Rightarrow>
             (let res = closest innerDeadline;
                  exceeded = (cr_err res = Some (CtxError DeadlineExceeded));
                  sent = map (\<lambda>p. (p, pm_PutProviderAddrs (re_sendMsg env) p keyMH
                              \<lparr>ai_ID = dn_self n, ai_Addrs = filterAddrs (re_h env) (re_hostAddrs env)\<rparr>))
                           (cr_peers res)
              in if exceeded
                 then (case ctxErr1 of
                         Some c \<Rightarrow> (Some (CtxError c), [])
                       | None \<Rightarrow> (Some (CtxError DeadlineExceeded), sent))
                 else case cr_err res of
                   Some err \<Rightarrow> (Some err, [])
                 | None \<Rightarrow> (map_option CtxError ctxErr2, sent)))"

text \<open>
  \<^verbatim>\<open>Provide\<close>: the record it adds to the local provider store, and its error. An undefined content
  identifier is \<open>None\<close>, a defined one is its multihash; \<open>optimistic\<close> and \<open>classic\<close> are the outcomes of
  the two ways to announce.
\<close>

definition Provide :: "'d dht_node \<Rightarrow> bool \<Rightarrow> bytes option \<Rightarrow> bool \<Rightarrow>
    routing_error option \<Rightarrow> routing_error option \<Rightarrow> (bytes \<times> AddrInfo) option \<times> routing_error option" where
  "Provide n enableOptProv key brdcst optimistic classic =
     (if \<not> dn_enableProviders n then (None, Some ErrNotSupported)
      else case key of
        None \<Rightarrow> (None, Some UndefinedCid)
      | Some keyMH \<Rightarrow>
          (Some (keyMH, \<lparr>ai_ID = dn_self n, ai_Addrs = []\<rparr>),
           if \<not> brdcst then None
           else if enableOptProv
           then (if optimistic = Some ErrNotEnoughData then classic else optimistic)
           else classic))"

section \<open>Searching providers\<close>

text \<open>
  The routine of \<^verbatim>\<open>FindProvidersAsync\<close> first offers the local providers, then the query function
  offers those every queried peer returns, concurrently. A worker is one list being offered. Its
  steps interleave with the other workers' at the lock that guards \<open>ps\<close>: the attempt to add, the send
  (or the end of the context), and the check of the size. The local list is one more worker, which
  runs alone: it is spawned before any other.
\<close>

definition psTryAdd :: "int \<Rightarrow> AddrInfo \<Rightarrow> (peer_id, AddrInfo) gomap \<Rightarrow> bool \<times> (peer_id, AddrInfo) gomap" where
  "psTryAdd cnt p ps =
     (let findAll = (cnt = 0);
          pi = gm_get \<lparr>ai_ID = [], ai_Addrs = []\<rparr> ps (ai_ID p); ok = gm_has ps (ai_ID p)
      in if (\<not> ok \<or> length (ai_Addrs pi) = 0 \<and> length (ai_Addrs p) > 0) \<and> (int (length ps) < cnt \<or> findAll)
         then (True, gm_put (ai_ID p) p ps)
         else (False, ps))"

datatype fp_exit = Exhausted | Enough | CtxEnded

datatype fp_worker = Offering "AddrInfo list" | Sending AddrInfo "AddrInfo list" |
  Checking "AddrInfo list" | FpEnd fp_exit

record fp_state =
  fp_ps :: "(peer_id, AddrInfo) gomap"
  fp_out :: "AddrInfo list"
  fp_workers :: "fp_worker list"

datatype fp_action = Spawn "AddrInfo list" | Step nat | EndCtx nat

text \<open>One step of a worker: its new state, the providers known and what it sends.\<close>

fun fp_worker_step :: "int \<Rightarrow> (peer_id, AddrInfo) gomap \<Rightarrow> fp_worker \<Rightarrow>
    (fp_worker \<times> (peer_id, AddrInfo) gomap \<times> AddrInfo list) option" where
  "fp_worker_step cnt ps (Offering []) = Some (FpEnd Exhausted, ps, [])"
| "fp_worker_step cnt ps (Offering (p # rest)) =
     (let (added, ps) = psTryAdd cnt p ps
      in Some (if added then Sending p rest else Checking rest, ps, []))"
| "fp_worker_step cnt ps (Sending p rest) = Some (Checking rest, ps, [p])"
| "fp_worker_step cnt ps (Checking rest) =
     Some (if cnt \<noteq> 0 \<and> int (length ps) \<ge> cnt then FpEnd Enough else Offering rest, ps, [])"
| "fp_worker_step cnt ps (FpEnd e) = None"

definition fp_step :: "int \<Rightarrow> fp_action \<Rightarrow> fp_state \<Rightarrow> fp_state option" where
  "fp_step cnt act s =
     (case act of
        Spawn provs \<Rightarrow> Some (s\<lparr>fp_workers := fp_workers s @ [Offering provs]\<rparr>)
      | Step i \<Rightarrow>
          (if i < length (fp_workers s)
           then map_option (\<lambda>(w, ps, out).
                    s\<lparr>fp_ps := ps, fp_out := fp_out s @ out, fp_workers := (fp_workers s)[i := w]\<rparr>)
                  (fp_worker_step cnt (fp_ps s) (fp_workers s ! i))
           else None)
      | EndCtx i \<Rightarrow>
          (if i < length (fp_workers s)
           then (case fp_workers s ! i of
                   Sending p rest \<Rightarrow> Some (s\<lparr>fp_workers := (fp_workers s)[i := FpEnd CtxEnded]\<rparr>)
                 | _ \<Rightarrow> None)
           else None))"

fun fp_run :: "int \<Rightarrow> fp_action list \<Rightarrow> fp_state \<Rightarrow> fp_state option" where
  "fp_run cnt [] s = Some s"
| "fp_run cnt (a # as) s = Option.bind (fp_step cnt a s) (fp_run cnt as)"

definition fp_init :: fp_state where
  "fp_init = \<lparr>fp_ps = [], fp_out = [], fp_workers = []\<rparr>"

text \<open>
  The whole routine: the local providers alone, and a lookup only if they were exhausted without
  reaching the wanted number. The actions after it are those of the lookup's workers.
\<close>

definition findProvidersAsyncRoutine :: "int \<Rightarrow> string + AddrInfo list \<Rightarrow> fp_action list \<Rightarrow> fp_action list \<Rightarrow>
    fp_state option" where
  "findProvidersAsyncRoutine cnt localProvs localActs lookupActs =
     (case localProvs of
        Inl err \<Rightarrow> Some fp_init
      | Inr provs \<Rightarrow>
          Option.bind (fp_run cnt (Spawn provs # localActs) fp_init) (\<lambda>s.
            if fp_workers s = [FpEnd Exhausted] then fp_run cnt lookupActs s
            else if lookupActs = [] then Some s else None))"

text \<open>The stop function of the lookup, and what a worker returns to it when it ends.\<close>

definition fp_stop :: "int \<Rightarrow> fp_state \<Rightarrow> bool" where
  "fp_stop cnt s \<longleftrightarrow> cnt \<noteq> 0 \<and> int (length (fp_ps s)) \<ge> cnt"

fun fp_queryResult :: "fp_exit \<Rightarrow> ctx_err \<Rightarrow> AddrInfo list \<Rightarrow> ctx_err + AddrInfo list" where
  "fp_queryResult Exhausted c closest = Inr closest"
| "fp_queryResult Enough c closest = Inr []"
| "fp_queryResult CtxEnded c closest = Inl c"

definition FindProvidersAsync :: "'d dht_node \<Rightarrow> bytes option \<Rightarrow> fp_state option \<Rightarrow> AddrInfo list option" where
  "FindProvidersAsync n key routine =
     (if \<not> dn_enableProviders n \<or> key = None then Some [] else map_option fp_out routine)"

definition FindProviders :: "'d dht_node \<Rightarrow> bytes option \<Rightarrow> (int \<Rightarrow> fp_state option) \<Rightarrow>
    (routing_error + AddrInfo list) option" where
  "FindProviders n key routine =
     (if \<not> dn_enableProviders n then Some (Inl ErrNotSupported)
      else if key = None then Some (Inl UndefinedCid)
      else map_option Inr (FindProvidersAsync n key (routine (dn_bucketSize n))))"

section \<open>Lemmas: searching providers\<close>

text \<open>
  How many records of an identifier, with addresses or without, were sent or are about to be: no
  more than the table of known providers accounts for.
\<close>

definition records_of :: "peer_id \<Rightarrow> bool \<Rightarrow> AddrInfo list \<Rightarrow> AddrInfo list" where
  "records_of pid b xs = filter (\<lambda>p. ai_ID p = pid \<and> (ai_Addrs p \<noteq> []) = b) xs"

fun pending :: "fp_worker \<Rightarrow> AddrInfo list" where
  "pending (Sending p rest) = [p]"
| "pending _ = []"

fun rest_of :: "fp_worker \<Rightarrow> AddrInfo list" where
  "rest_of (Offering ps) = ps"
| "rest_of (Sending p ps) = ps"
| "rest_of (Checking ps) = ps"
| "rest_of (FpEnd e) = []"

abbreviation in_flight :: "fp_state \<Rightarrow> AddrInfo list" where
  "in_flight s \<equiv> fp_out s @ concat (map pending (fp_workers s))"

definition accounted :: "(peer_id, AddrInfo) gomap \<Rightarrow> peer_id \<Rightarrow> bool \<Rightarrow> nat" where
  "accounted ps pid b = (case map_of ps pid of
     None \<Rightarrow> 0 | Some p \<Rightarrow> if b then (if ai_Addrs p \<noteq> [] then 1 else 0) else 1)"

definition fp_inv :: "int \<Rightarrow> fp_state \<Rightarrow> bool" where
  "fp_inv cnt s \<longleftrightarrow> gm_wf (fp_ps s) \<and> (0 < cnt \<longrightarrow> int (length (fp_ps s)) \<le> cnt) \<and>
     (\<forall>pid p. map_of (fp_ps s) pid = Some p \<longrightarrow> ai_ID p = pid) \<and>
     (\<forall>pid b. length (records_of pid b (in_flight s)) \<le> accounted (fp_ps s) pid b)"

lemma records_of_simps [simp]:
  "records_of pid b [] = []"
  "records_of pid b (xs @ ys) = records_of pid b xs @ records_of pid b ys"
  by (simp_all add: records_of_def)

lemma length_gm_put:
  "length (gm_put k v m) = (if gm_has m k then length m else Suc (length m))"
  by (induction m) (auto simp: gm_has_def)

lemma psTryAdd_refused: "psTryAdd cnt p ps = (False, ps') \<Longrightarrow> ps' = ps"
  by (auto simp: psTryAdd_def Let_def split: if_splits)

lemma concat_pending_update:
  "i < length ws \<Longrightarrow>
   mset (concat (map pending (ws[i := w]))) + mset (pending (ws ! i)) =
   mset (concat (map pending ws)) + mset (pending w)"
proof (induction ws arbitrary: i)
  case (Cons v ws)
  show ?case
  proof (cases i)
    case (Suc j)
    from Cons.IH [of j] Cons.prems Suc show ?thesis by (simp add: ac_simps)
  qed simp
qed simp

lemma records_of_mset: "mset xs = mset ys \<Longrightarrow> length (records_of pid b xs) = length (records_of pid b ys)"
  unfolding records_of_def by (drule arg_cong [of _ _ "\<lambda>m. size (filter_mset (\<lambda>p. ai_ID p = pid \<and> (ai_Addrs p \<noteq> []) = b) m)"])
    (simp flip: mset_filter)

text \<open>An accepted provider is accounted for.\<close>

lemma psTryAdd_added:
  assumes "psTryAdd cnt p ps = (True, ps')" and "gm_wf ps" and "0 < cnt \<longrightarrow> int (length ps) \<le> cnt"
  shows "gm_wf ps' \<and> (0 < cnt \<longrightarrow> int (length ps') \<le> cnt) \<and> ps' = gm_put (ai_ID p) p ps \<and>
    accounted ps pid b + length (records_of pid b [p]) \<le> accounted ps' pid b"
proof -
  have add: "\<not> gm_has ps (ai_ID p) \<or> ai_Addrs (gm_get \<lparr>ai_ID = [], ai_Addrs = []\<rparr> ps (ai_ID p)) = [] \<and> ai_Addrs p \<noteq> []"
    "cnt = 0 \<or> int (length ps) < cnt" "ps' = gm_put (ai_ID p) p ps"
    using assms(1) by (auto simp: psTryAdd_def Let_def split: if_splits)
  have "int (length ps') \<le> cnt" if "0 < cnt"
    using add(2) assms(3) that by (auto simp: add(3) length_gm_put)
  moreover have "accounted ps pid b + length (records_of pid b [p]) \<le> accounted ps' pid b"
  proof (cases "ai_ID p = pid")
    case True
    with add(1) show ?thesis
      by (cases "map_of ps pid"; cases b)
        (auto simp: add(3) accounted_def gm_has_def gm_get_def gomap_simps records_of_def)
  qed (simp add: add(3) accounted_def gomap_simps records_of_def)
  ultimately show ?thesis using assms(2) by (simp add: add(3))
qed

lemma fp_inv_step:
  assumes "fp_inv cnt s" and "fp_step cnt act s = Some s'"
  shows "fp_inv cnt s'"
proof (cases act)
  case (Spawn provs)
  with assms show ?thesis by (auto simp: fp_inv_def fp_step_def)
next
  case (EndCtx i)
  with assms obtain p rest where i: "i < length (fp_workers s)" "fp_workers s ! i = Sending p rest"
    "s' = s\<lparr>fp_workers := (fp_workers s)[i := FpEnd CtxEnded]\<rparr>"
    by (auto simp: fp_step_def split: if_splits fp_worker.splits)
  from concat_pending_update [OF i(1), of "FpEnd CtxEnded"] i(2) have
    "mset (in_flight s) = mset (in_flight s' @ [p])" by (simp add: i(3))
  from records_of_mset [OF this] have
    "length (records_of pid b (in_flight s')) \<le> length (records_of pid b (in_flight s))" for pid b by simp
  moreover have "length (records_of pid b (in_flight s)) \<le> accounted (fp_ps s) pid b" for pid b
    using assms(1) by (simp add: fp_inv_def)
  ultimately have "length (records_of pid b (in_flight s')) \<le> accounted (fp_ps s) pid b" for pid b
    using le_trans by blast
  then show ?thesis using assms(1) unfolding fp_inv_def by (simp add: i(3))
next
  case (Step i)
  with assms(2) obtain w ps out where i: "i < length (fp_workers s)"
    "fp_worker_step cnt (fp_ps s) (fp_workers s ! i) = Some (w, ps, out)"
    "s' = s\<lparr>fp_ps := ps, fp_out := fp_out s @ out, fp_workers := (fp_workers s)[i := w]\<rparr>"
    by (auto simp: fp_step_def split: if_splits)
  from concat_pending_update [OF i(1), of w] have
    "mset (in_flight s' @ pending (fp_workers s ! i)) = mset (in_flight s @ out @ pending w)"
    by (simp add: i(3) ac_simps)
  have len:
    "length (records_of pid b (in_flight s')) + length (records_of pid b (pending (fp_workers s ! i))) =
     length (records_of pid b (in_flight s)) + length (records_of pid b (out @ pending w))" for pid b
    using records_of_mset [OF \<open>mset _ = _\<close>, of pid b] by simp
  show ?thesis
  proof (cases "out @ pending w = pending (fp_workers s ! i) \<and> ps = fp_ps s")
    case True
    with len have "length (records_of pid b (in_flight s')) = length (records_of pid b (in_flight s))" for pid b
      by (metis add_right_cancel)
    with True assms(1) show ?thesis by (simp add: fp_inv_def i(3))
  next
    case False
    then obtain p rest where w: "fp_workers s ! i = Offering (p # rest)" "w = Sending p rest" "out = []"
      "psTryAdd cnt p (fp_ps s) = (True, ps)"
      using i(2)
      by (cases "(cnt, fp_ps s, fp_workers s ! i)" rule: fp_worker_step.cases)
        (auto split: prod.splits if_splits dest: psTryAdd_refused)
    have inv: "gm_wf (fp_ps s)" "0 < cnt \<longrightarrow> int (length (fp_ps s)) \<le> cnt"
      "\<forall>pid p. map_of (fp_ps s) pid = Some p \<longrightarrow> ai_ID p = pid"
      "length (records_of pid b (in_flight s)) \<le> accounted (fp_ps s) pid b" for pid b
      using assms(1) by (simp_all add: fp_inv_def)
    have put: "gm_wf ps" "0 < cnt \<longrightarrow> int (length ps) \<le> cnt" "ps = gm_put (ai_ID p) p (fp_ps s)"
      "accounted (fp_ps s) pid b + length (records_of pid b [p]) \<le> accounted ps pid b" for pid b
      using psTryAdd_added [OF w(4) inv(1,2)] by blast+
    have "length (records_of pid b (in_flight s')) \<le> accounted ps pid b" for pid b
    proof -
      have "length (records_of pid b (in_flight s')) =
          length (records_of pid b (in_flight s)) + length (records_of pid b [p])"
        using len [of pid b] by (simp add: w)
      with inv(4) [of pid b] put(4) [of pid b] show ?thesis by linarith
    qed
    moreover have "\<forall>pid q. map_of ps pid = Some q \<longrightarrow> ai_ID q = pid"
      using inv(3) by (auto simp: put(3) gomap_simps)
    ultimately show ?thesis using put(1,2) unfolding fp_inv_def by (simp add: i(3))
  qed
qed

lemma fp_inv_init: "fp_inv cnt fp_init"
  by (simp add: fp_inv_def fp_init_def)

lemma fp_inv_run: "fp_run cnt acts s = Some s' \<Longrightarrow> fp_inv cnt s \<Longrightarrow> fp_inv cnt s'"
  by (induction acts arbitrary: s) (auto simp: fp_inv_step split: Option.bind_splits)

text \<open>Everything sent, about to be sent or left to be offered was offered.\<close>

fun offered :: "fp_action list \<Rightarrow> AddrInfo set" where
  "offered [] = {}"
| "offered (Spawn ps # as) = set ps \<union> offered as"
| "offered (_ # as) = offered as"

definition fp_from :: "AddrInfo set \<Rightarrow> fp_state \<Rightarrow> bool" where
  "fp_from A s \<longleftrightarrow> set (fp_out s) \<subseteq> A \<and>
     (\<forall>w\<in>set (fp_workers s). set (pending w) \<union> set (rest_of w) \<subseteq> A)"

lemma in_update_cases: "v \<in> set (ws[i := w]) \<Longrightarrow> v = w \<or> v \<in> set ws"
  using set_update_subset_insert [of ws i w] by auto

lemma fp_worker_from:
  assumes "fp_worker_step cnt ps w = Some (w', ps', out)"
  shows "set out \<union> set (pending w') \<union> set (rest_of w') \<subseteq> set (pending w) \<union> set (rest_of w)"
  using assms by (cases "(cnt, ps, w)" rule: fp_worker_step.cases) (auto split: prod.splits if_splits)

lemma fp_from_step:
  assumes "fp_from A s" and "fp_step cnt act s = Some s'"
  shows "fp_from (A \<union> offered [act]) s'"
proof (cases act)
  case (Step i)
  with assms(2) obtain w ps out where i: "i < length (fp_workers s)"
    "fp_worker_step cnt (fp_ps s) (fp_workers s ! i) = Some (w, ps, out)"
    "s' = s\<lparr>fp_ps := ps, fp_out := fp_out s @ out, fp_workers := (fp_workers s)[i := w]\<rparr>"
    by (auto simp: fp_step_def split: if_splits)
  have "fp_workers s ! i \<in> set (fp_workers s)" using i(1) by simp
  with fp_worker_from [OF i(2)] assms(1) have "set out \<union> set (pending w) \<union> set (rest_of w) \<subseteq> A"
    unfolding fp_from_def by blast
  with assms(1) have "set (pending v) \<union> set (rest_of v) \<subseteq> A" if "v \<in> set ((fp_workers s)[i := w])" for v
    using in_update_cases [OF that] unfolding fp_from_def by blast
  moreover have "set (fp_out s @ out) \<subseteq> A"
    using assms(1) \<open>set out \<union> _ \<union> _ \<subseteq> A\<close> by (simp add: fp_from_def)
  ultimately show ?thesis unfolding fp_from_def i(3) by (simp add: le_supI1)
next
  case (EndCtx i)
  with assms obtain p rest where "s' = s\<lparr>fp_workers := (fp_workers s)[i := FpEnd CtxEnded]\<rparr>"
    by (auto simp: fp_step_def split: if_splits fp_worker.splits)
  moreover have "set (pending v) \<union> set (rest_of v) \<subseteq> A"
    if "v \<in> set ((fp_workers s)[i := FpEnd CtxEnded])" for v
    using in_update_cases [OF that] assms(1) unfolding fp_from_def by auto
  ultimately show ?thesis using assms(1) unfolding fp_from_def by (simp add: le_supI1)
qed (use assms in \<open>auto simp: fp_step_def fp_from_def\<close>)

lemma fp_from_run: "fp_run cnt acts s = Some s' \<Longrightarrow> fp_from A s \<Longrightarrow> fp_from (A \<union> offered acts) s'"
proof (induction acts arbitrary: A s)
  case (Cons a as)
  then obtain s1 where "fp_step cnt a s = Some s1" "fp_run cnt as s1 = Some s'"
    by (auto split: Option.bind_splits)
  with Cons.IH [OF _ fp_from_step] Cons.prems(2) have "fp_from (A \<union> offered [a] \<union> offered as) s'" by blast
  then show ?case by (cases a) (simp_all add: Un_assoc)
qed simp

text \<open>Without a bound every offered provider is left to be offered or known, and what is known is sent.\<close>

definition covered :: "(peer_id, AddrInfo) gomap \<Rightarrow> AddrInfo \<Rightarrow> bool" where
  "covered ps p \<longleftrightarrow> (\<exists>q. map_of ps (ai_ID p) = Some q \<and> (ai_Addrs p \<noteq> [] \<longrightarrow> ai_Addrs q \<noteq> []))"

definition fp_all :: "AddrInfo set \<Rightarrow> fp_state \<Rightarrow> bool" where
  "fp_all A s \<longleftrightarrow> FpEnd CtxEnded \<in> set (fp_workers s) \<or>
     (\<forall>p\<in>A. covered (fp_ps s) p \<or> (\<exists>w\<in>set (fp_workers s). p \<in> set (rest_of w))) \<and>
     (\<forall>pid q. map_of (fp_ps s) pid = Some q \<longrightarrow> ai_ID q = pid \<and>
        (q \<in> set (fp_out s) \<or> (\<exists>w\<in>set (fp_workers s). q \<in> set (pending w))))"

lemma psTryAdd_all:
  assumes "psTryAdd 0 p ps = (added, ps')"
  shows "covered ps' p \<and> (\<forall>q. covered ps q \<longrightarrow> covered ps' q) \<and> (added \<longrightarrow> ps' = gm_put (ai_ID p) p ps) \<and>
    (\<not> added \<longrightarrow> ps' = ps)"
  using assms
  by (auto simp: psTryAdd_def Let_def covered_def gm_has_def gm_get_def gomap_simps split: if_splits option.splits)

lemma in_update:
  assumes "i < length ws"
  shows "w \<in> set (ws[i := w])" and "v \<in> set ws \<Longrightarrow> v \<noteq> ws ! i \<Longrightarrow> v \<in> set (ws[i := w])"
proof -
  show "w \<in> set (ws[i := w])" using assms by (rule set_update_memI)
  assume "v \<in> set ws" "v \<noteq> ws ! i"
  then obtain j where "j < length ws" "ws ! j = v" "j \<noteq> i" by (auto simp: in_set_conv_nth)
  then show "v \<in> set (ws[i := w])" by (metis length_list_update nth_list_update_neq nth_mem)
qed

lemma fp_worker_all:
  assumes "fp_worker_step 0 ps w = Some (w', ps', out)"
  shows "(\<forall>q. covered ps q \<longrightarrow> covered ps' q) \<and> (\<forall>q\<in>set (rest_of w). covered ps' q \<or> q \<in> set (rest_of w')) \<and>
    (\<forall>q\<in>set (pending w). q \<in> set out) \<and>
    (\<forall>pid q. map_of ps' pid = Some q \<longrightarrow> map_of ps pid = Some q \<or> ai_ID q = pid \<and> q \<in> set (pending w'))"
  using assms
  by (cases "(0 :: int, ps, w)" rule: fp_worker_step.cases)
    (auto split: prod.splits if_splits dest!: psTryAdd_all simp: gomap_simps)

lemma fp_all_step:
  assumes "fp_all A s" and "fp_step 0 act s = Some s'"
  shows "fp_all (A \<union> offered [act]) s'"
proof (cases act)
  case (Spawn ps)
  then have s': "s' = s\<lparr>fp_workers := fp_workers s @ [Offering ps]\<rparr>"
    using assms(2) by (simp add: fp_step_def)
  show ?thesis using assms(1) unfolding fp_all_def s' Spawn by (simp, blast)
next
  case (EndCtx i)
  with assms(2) have "FpEnd CtxEnded \<in> set (fp_workers s')"
    by (auto simp: fp_step_def set_update_memI split: if_splits fp_worker.splits)
  then show ?thesis by (simp add: fp_all_def)
next
  case (Step i)
  with assms(2) obtain w ps out where i: "i < length (fp_workers s)"
    "fp_worker_step 0 (fp_ps s) (fp_workers s ! i) = Some (w, ps, out)"
    "s' = s\<lparr>fp_ps := ps, fp_out := fp_out s @ out, fp_workers := (fp_workers s)[i := w]\<rparr>"
    by (auto simp: fp_step_def split: if_splits)
  let ?ws = "fp_workers s" and ?ws' = "(fp_workers s)[i := w]"
  note st = fp_worker_all [OF i(2)]
  have keep: "v \<in> set ?ws' \<or> v = ?ws ! i" if "v \<in> set ?ws" for v
    using in_update(2) [OF i(1) that] by blast
  have w: "w \<in> set ?ws'" using in_update(1) [OF i(1)] .
  show ?thesis
  proof (cases "FpEnd CtxEnded \<in> set ?ws")
    case True
    moreover have "?ws ! i \<noteq> FpEnd CtxEnded" using i(2) by auto
    ultimately have "FpEnd CtxEnded \<in> set ?ws'" using keep by metis
    then show ?thesis by (simp add: fp_all_def i(3))
  next
    case False
    with assms(1) have inv:
      "\<forall>p\<in>A. covered (fp_ps s) p \<or> (\<exists>w\<in>set ?ws. p \<in> set (rest_of w))"
      "\<forall>pid q. map_of (fp_ps s) pid = Some q \<longrightarrow> ai_ID q = pid \<and>
        (q \<in> set (fp_out s) \<or> (\<exists>w\<in>set ?ws. q \<in> set (pending w)))"
      by (simp_all add: fp_all_def)
    have "covered ps p \<or> (\<exists>w\<in>set ?ws'. p \<in> set (rest_of w))" if "p \<in> A" for p
      using inv(1) that st w keep by metis
    moreover have "ai_ID q = pid \<and>
        (q \<in> set (fp_out s @ out) \<or> (\<exists>w\<in>set ?ws'. q \<in> set (pending w)))"
      if "map_of ps pid = Some q" for pid q
    proof (cases "map_of (fp_ps s) pid = Some q")
      case True
      with inv(2) st keep show ?thesis by (metis UnCI set_append)
    next
      case False
      with st that w show ?thesis by blast
    qed
    ultimately show ?thesis using Step by (simp add: fp_all_def i(3))
  qed
qed

lemma fp_all_run: "fp_run 0 acts s = Some s' \<Longrightarrow> fp_all A s \<Longrightarrow> fp_all (A \<union> offered acts) s'"
proof (induction acts arbitrary: A s)
  case (Cons a as)
  then obtain s1 where "fp_step 0 a s = Some s1" "fp_run 0 as s1 = Some s'"
    by (auto split: Option.bind_splits)
  with Cons.IH [OF _ fp_all_step] Cons.prems(2) have "fp_all (A \<union> offered [a] \<union> offered as) s'" by blast
  then show ?case by (cases a) (simp_all add: Un_assoc)
qed simp

lemma fp_run_append: "fp_run cnt (as @ bs) s = Option.bind (fp_run cnt as s) (fp_run cnt bs)"
  by (induction as arbitrary: s) (simp_all add: bind_assoc split: Option.bind_splits)

lemma offered_append: "offered (as @ bs) = offered as \<union> offered bs"
  by (induction as rule: offered.induct) auto

lemma routine_run:
  assumes "findProvidersAsyncRoutine cnt (Inr provs) localActs lookupActs = Some s"
  shows "fp_run cnt (Spawn provs # localActs @ lookupActs) fp_init = Some s"
  using assms
  by (auto simp: findProvidersAsyncRoutine_def fp_run_append split: Option.bind_splits if_splits)

section \<open>Properties\<close>

text \<open>C16: Whatever the workers of a provider search interleave, only offered providers are sent; with a
  bound no more than that many different peers are; and a peer is sent at most once with addresses
  and at most once without.\<close>

theorem find_providers_bounded:
  assumes "findProvidersAsyncRoutine cnt (Inr provs) localActs lookupActs = Some s"
  shows "set (fp_out s) \<subseteq> set provs \<union> offered localActs \<union> offered lookupActs \<and>
    (0 < cnt \<longrightarrow> int (card (ai_ID ` set (fp_out s))) \<le> cnt) \<and>
    length (records_of pid True (fp_out s)) \<le> 1 \<and> length (records_of pid False (fp_out s)) \<le> 1"
proof -
  note run = routine_run [OF assms]
  have "fp_from {} fp_init" by (simp add: fp_from_def fp_init_def)
  from fp_from_run [OF run this] have "set (fp_out s) \<subseteq> set provs \<union> offered localActs \<union> offered lookupActs"
    by (auto simp: fp_from_def offered_append)
  moreover from fp_inv_run [OF run fp_inv_init] have inv:
    "0 < cnt \<longrightarrow> int (length (fp_ps s)) \<le> cnt"
    "length (records_of i b (in_flight s)) \<le> accounted (fp_ps s) i b" for i b
    unfolding fp_inv_def by blast+
  have "ai_ID ` set (fp_out s) \<subseteq> fst ` set (fp_ps s)"
  proof
    fix i assume "i \<in> ai_ID ` set (fp_out s)"
    then obtain p where p: "p \<in> set (fp_out s)" "i = ai_ID p" by blast
    then have "p \<in> set (records_of i (ai_Addrs p \<noteq> []) (in_flight s))" by (simp add: records_of_def)
    then have "0 < accounted (fp_ps s) i (ai_Addrs p \<noteq> [])"
      using inv(2) [of i "ai_Addrs p \<noteq> []"] by (metis length_pos_if_in_set less_le_trans)
    then have "map_of (fp_ps s) i \<noteq> None" by (auto simp: accounted_def split: option.splits)
    then show "i \<in> fst ` set (fp_ps s)" by (simp add: map_of_eq_None_iff)
  qed
  then have "card (ai_ID ` set (fp_out s)) \<le> length (fp_ps s)"
    by (metis card_image_le card_length card_mono finite_imageI finite_set le_trans)
  moreover have "length (records_of pid b (fp_out s)) \<le> 1" for b
    using inv(2) [of pid b] by (auto simp: accounted_def split: option.splits if_splits)
  ultimately show ?thesis using inv(1) by auto
qed

text \<open>Without a bound a provider search misses nothing: when every worker has run to the end of its
  list, each offered peer has been sent, with addresses if any offer of it had some.\<close>

theorem find_providers_complete:
  assumes "findProvidersAsyncRoutine 0 (Inr provs) localActs lookupActs = Some s"
    and "set (fp_workers s) \<subseteq> {FpEnd Exhausted}"
    and "p \<in> set provs \<union> offered localActs \<union> offered lookupActs"
  shows "\<exists>q\<in>set (fp_out s). ai_ID q = ai_ID p \<and> (ai_Addrs p = [] \<or> ai_Addrs q \<noteq> [])"
proof -
  have "fp_all {} fp_init" by (simp add: fp_all_def fp_init_def)
  from fp_all_run [OF routine_run [OF assms(1)] this] have
    "fp_all (set provs \<union> offered localActs \<union> offered lookupActs) s" by (simp add: offered_append Un_assoc)
  moreover have "FpEnd CtxEnded \<notin> set (fp_workers s)" using assms(2) by auto
  moreover have "rest_of w = [] \<and> pending w = []" if "w \<in> set (fp_workers s)" for w
    using assms(2) that by auto
  ultimately have all: "\<forall>p\<in>set provs \<union> offered localActs \<union> offered lookupActs. covered (fp_ps s) p"
    "\<forall>pid q. map_of (fp_ps s) pid = Some q \<longrightarrow> ai_ID q = pid \<and> q \<in> set (fp_out s)"
    unfolding fp_all_def by (fastforce, fastforce)
  from bspec [OF all(1) assms(3)] obtain q where
    q: "map_of (fp_ps s) (ai_ID p) = Some q" "ai_Addrs p \<noteq> [] \<longrightarrow> ai_Addrs q \<noteq> []"
    by (auto simp: covered_def)
  with all(2) have "ai_ID q = ai_ID p \<and> q \<in> set (fp_out s)" by blast
  with q(2)
show ?thesis by blast
qed

text \<open>A classic provide reserves a tenth of its remaining time, but at most a second, for the final
  puts, and gives up at once when no time remains.\<close>

theorem classic_deadline_reserve:
  "classicDeadline now deadline =
     (if deadline < now then Inl (CtxError DeadlineExceeded)
      else Inr (deadline - min 1000000000 ((deadline - now) div 10)))"
proof -
  let ?t = "time_Sub deadline now"
  have t: "sint ?t = min 9223372036854775807 (max (-9223372036854775808) (deadline - now))"
    by (rule sint_time_Sub)
  have neg: "word_sless ?t 0 \<longleftrightarrow> deadline < now" by (auto simp: word_sless_alt t min_def max_def)
  have lim: "word_sless ?t (10 * time_Second) \<longleftrightarrow> deadline - now < 10000000000"
    by (auto simp: word_sless_alt t time_Second_def min_def max_def)
  have "sint (duration_div10 (- ?t)) = - ((deadline - now) div 10)"
    if "now \<le> deadline" "deadline - now < 10000000000"
  proof -
    have s: "sint ?t = deadline - now" using that unfolding t by linarith
    have "sint (word_of_int (- sint ?t) :: 64 word) = - sint ?t"
      unfolding s using that by (intro sint_of_int64) auto
    then have "sint (- ?t) = - sint ?t" by (simp only: of_int_minus of_int_sint scast_id)
    then have "sint (- ?t) = - (deadline - now)" unfolding s .
    moreover have "(- (deadline - now)) sdiv 10 = - ((deadline - now) div 10)"
      using that by (simp add: signed_divide_int_def sgn_if)
    moreover have "sint (word_of_int (- ((deadline - now) div 10)) :: 64 word) = - ((deadline - now) div 10)"
      using that by (intro sint_of_int64) auto
    ultimately show ?thesis by (simp add: duration_div10_def)
  qed
  moreover have "sint (- time_Second) = -1000000000" by (simp add: time_Second_def)
  ultimately show ?thesis
    by (auto simp: classicDeadline_def Let_def neg lim time_Add_def min_def)
qed

section \<open>Witnesses\<close>

abbreviation demo_prov :: "string \<Rightarrow> AddrInfo" where
  "demo_prov p \<equiv> \<lparr>ai_ID = p, ai_Addrs = []\<rparr>"

theorem find_providers_bounded_witness:
  "\<exists>s. findProvidersAsyncRoutine 2 (Inr [demo_prov ''p'']) [Step 0, Step 0, Step 0, Step 0]
      [Spawn [demo_prov ''q'', demo_prov ''r''], Step 1, Step 1, Step 1] = Some s \<and>
     card (ai_ID ` set (fp_out s)) \<le> 2"
proof -
  let ?local = "[Step 0, Step 0, Step 0, Step 0]"
  let ?acts = "[Spawn [demo_prov ''q'', demo_prov ''r''], Step 1, Step 1, Step 1]"
  have "findProvidersAsyncRoutine 2 (Inr [demo_prov ''p'']) ?local ?acts \<noteq> None" by code_simp
  then obtain s where s: "findProvidersAsyncRoutine 2 (Inr [demo_prov ''p'']) ?local ?acts = Some s" by auto
  from find_providers_bounded [OF this] have "int (card (ai_ID ` set (fp_out s))) \<le> 2" by simp
  with s show ?thesis by auto
qed

theorem find_providers_complete_witness:
  "\<exists>s. findProvidersAsyncRoutine 0 (Inr [demo_prov ''p'']) [Step 0, Step 0, Step 0, Step 0]
      [Spawn [demo_prov ''q''], Step 1, Step 1, Step 1, Step 1] = Some s \<and>
     (\<exists>q\<in>set (fp_out s). ai_ID q = ''q'')"
proof -
  let ?local = "[Step 0, Step 0, Step 0, Step 0]"
  let ?acts = "[Spawn [demo_prov ''q''], Step 1, Step 1, Step 1, Step 1]"
  have "map_option fp_workers (findProvidersAsyncRoutine 0 (Inr [demo_prov ''p'']) ?local ?acts) =
      Some [FpEnd Exhausted, FpEnd Exhausted]" by code_simp
  then obtain s where s: "findProvidersAsyncRoutine 0 (Inr [demo_prov ''p'']) ?local ?acts = Some s"
    "fp_workers s = [FpEnd Exhausted, FpEnd Exhausted]" by auto
  from find_providers_complete [OF s(1), of "demo_prov ''q''"] s show ?thesis by auto
qed

end
