(* ===== verification/Message_Sender.thy ===== *)
theory Message_Sender
  imports Messages
begin

text \<open>
  Sending messages over reused streams (\<^verbatim>\<open>internal/net/message_manager.go\<close>,
  \<^verbatim>\<open>internal/ctx_mutex.go\<close>): one sender per peer, guarded by its own lock, and the table of senders,
  guarded by another. Calls and disconnections run concurrently: a thread is the sequence of critical
  sections its code runs, one step each, because between two of them other threads may run.

  Streams are numbered in the order they are opened. Opening, writing, reading and closing are
  third-party: how they end is an input of the step. Metrics and log lines are left out.
\<close>

section \<open>The lock\<close>

text \<open>
  A \<^verbatim>\<open>CtxMutex\<close> is a channel with one place: whether it is taken. Locking may block (\<open>None\<close>); when the
  context is done as well, \<open>ctxFirst\<close> is which branch the \<^verbatim>\<open>select\<close> takes. Unlocking a free one panics.
\<close>

type_synonym CtxMutex = bool

definition NewCtxMutex :: CtxMutex where
  "NewCtxMutex = False"

definition CtxMutex_Lock :: "bool \<Rightarrow> string option \<Rightarrow> CtxMutex \<Rightarrow> (string option \<times> CtxMutex) option" where
  "CtxMutex_Lock ctxFirst ctxErr m =
     (case ctxErr of
        None \<Rightarrow> if m then None else Some (None, True)
      | Some e \<Rightarrow> if m \<or> ctxFirst then Some (Some e, m) else Some (None, True))"

definition CtxMutex_Unlock :: "CtxMutex \<Rightarrow> CtxMutex option" where
  "CtxMutex_Unlock m = (if m then Some False else None)"

section \<open>One sender\<close>

record peerMessageSender =
  ms_s :: "nat option"
  ms_invalid :: bool
  ms_singleMes :: int

record streams =
  st_open :: "nat list"
  st_next :: nat

datatype send_error = LockFailed string | Invalidated | NewStreamFailed string | WriteFailed string |
  ReadCanceled | ReadFailed string | ErrReadTimeout | CloseFailed string | MarshalError

text \<open>How the network answers in one attempt.\<close>

datatype read_result = ReadMessage Message | ReadError string | ReadCtxCanceled | ReadTimeout

record attempt =
  at_newStream :: "string option"
  at_write :: "string option"
  at_read :: read_result
  at_close :: "string option"

definition close_stream :: "nat option \<Rightarrow> streams \<Rightarrow> streams" where
  "close_stream s st = (case s of None \<Rightarrow> st | Some i \<Rightarrow> st\<lparr>st_open := removeAll i (st_open st)\<rparr>)"

definition invalidate :: "peerMessageSender \<Rightarrow> streams \<Rightarrow> peerMessageSender \<times> streams" where
  "invalidate ms st = (ms\<lparr>ms_invalid := True, ms_s := None\<rparr>, close_stream (ms_s ms) st)"

definition prep :: "attempt \<Rightarrow> peerMessageSender \<Rightarrow> streams \<Rightarrow> send_error option \<times> peerMessageSender \<times> streams" where
  "prep att ms st =
     (if ms_invalid ms then (Some Invalidated, ms, st)
      else if ms_s ms \<noteq> None then (None, ms, st)
      else case at_newStream att of
        Some e \<Rightarrow> (Some (NewStreamFailed e), ms, st)
      | None \<Rightarrow> (None, ms\<lparr>ms_s := Some (st_next st)\<rparr>,
                  \<lparr>st_open = st_next st # st_open st, st_next = st_next st + 1\<rparr>))"

definition prepOrInvalidate :: "string option \<Rightarrow> attempt \<Rightarrow> peerMessageSender \<Rightarrow> streams \<Rightarrow>
    send_error option \<times> peerMessageSender \<times> streams" where
  "prepOrInvalidate lockErr att ms st =
     (case lockErr of
        Some e \<Rightarrow> (Some (LockFailed e), ms, st)
      | None \<Rightarrow>
          (case prep att ms st of
             (None, ms, st) \<Rightarrow> (None, ms, st)
           | (Some err, ms, st) \<Rightarrow> (let (ms, st) = invalidate ms st in (Some err, ms, st))))"

definition streamReuseTries :: int where
  "streamReuseTries = 3"

text \<open>Dropping a stream that failed, and what happens to it after a success.\<close>

definition reset_stream :: "peerMessageSender \<Rightarrow> streams \<Rightarrow> peerMessageSender \<times> streams" where
  "reset_stream ms st = (ms\<lparr>ms_s := None\<rparr>, close_stream (ms_s ms) st)"

definition finish_stream :: "attempt \<Rightarrow> bool \<Rightarrow> peerMessageSender \<Rightarrow> streams \<Rightarrow>
    send_error option \<times> peerMessageSender \<times> streams" where
  "finish_stream att retry ms st =
     (if ms_singleMes ms > streamReuseTries
      then (map_option CloseFailed (at_close att), ms\<lparr>ms_s := None\<rparr>, close_stream (ms_s ms) st)
      else if retry then (None, ms\<lparr>ms_singleMes := ms_singleMes ms + 1\<rparr>, st)
      else (None, ms, st))"

text \<open>
  The two loops: the attempt is chosen by the retry flag, since there are at most two. The result is
  what the call returns; the message of a request comes with the error of closing the stream, if any.
\<close>

function ms_SendMessage :: "(bool \<Rightarrow> attempt) \<Rightarrow> bool \<Rightarrow> peerMessageSender \<Rightarrow> streams \<Rightarrow>
    send_error option \<times> peerMessageSender \<times> streams" where
  "ms_SendMessage att retry ms st =
     (case prep (att retry) ms st of
        (Some err, ms, st) \<Rightarrow> (Some err, ms, st)
      | (None, ms, st) \<Rightarrow>
          (case at_write (att retry) of
             Some e \<Rightarrow>
               (let (ms, st) = reset_stream ms st
                in if retry then (Some (WriteFailed e), ms, st) else ms_SendMessage att True ms st)
           | None \<Rightarrow> finish_stream (att retry) retry ms st))"
  by pat_completeness auto
termination by (relation "measure (\<lambda>(att, retry, ms, st). if retry then 0 else 1)") auto

fun ctxReadMsg :: "read_result \<Rightarrow> send_error + Message" where
  "ctxReadMsg (ReadMessage m) = Inr m"
| "ctxReadMsg (ReadError e) = Inl (ReadFailed e)"
| "ctxReadMsg ReadCtxCanceled = Inl ReadCanceled"
| "ctxReadMsg ReadTimeout = Inl ErrReadTimeout"

function ms_SendRequest :: "(bool \<Rightarrow> attempt) \<Rightarrow> bool \<Rightarrow> peerMessageSender \<Rightarrow> streams \<Rightarrow>
    (send_error + Message \<times> send_error option) \<times> peerMessageSender \<times> streams" where
  "ms_SendRequest att retry ms st =
     (case prep (att retry) ms st of
        (Some err, ms, st) \<Rightarrow> (Inl err, ms, st)
      | (None, ms, st) \<Rightarrow>
          (case at_write (att retry) of
             Some e \<Rightarrow>
               (let (ms, st) = reset_stream ms st
                in if retry then (Inl (WriteFailed e), ms, st) else ms_SendRequest att True ms st)
           | None \<Rightarrow>
               (case ctxReadMsg (at_read (att retry)) of
                  Inl err \<Rightarrow>
                    (let (ms, st) = reset_stream ms st
                     in if err = ReadCanceled then (Inl err, ms, st)
                        else if retry then (Inl err, ms, st)
                        else ms_SendRequest att True ms st)
                | Inr mes \<Rightarrow>
                    (let (err, ms, st) = finish_stream (att retry) retry ms st
                     in (Inr (mes, err), ms, st)))))"
  by pat_completeness auto
termination by (relation "measure (\<lambda>(att, retry, ms, st). if retry then 0 else 1)") auto

declare ms_SendMessage.simps [simp del] ms_SendRequest.simps [simp del]

section \<open>The table of senders and its threads\<close>

text \<open>
  A sender is referred to by its place in the list of all senders ever made. A thread is in one of
  the stages of a call (\<open>SendRequest\<close>/\<open>SendMessage\<close> of \<^verbatim>\<open>messageSenderImpl\<close>), or it is the goroutine
  that invalidates a sender after a disconnection.
\<close>

datatype call = Request Message | OneWay Message

datatype thread =
    Lookup peer_id call
  | Prep nat peer_id call
  | Cleanup nat peer_id call send_error
  | Sending nat peer_id call
  | Returned "send_error + Message option"
  | Invalidating nat
  | Gone

record sm_state =
  sm_strmap :: "(peer_id, nat) gomap"
  sm_senders :: "peerMessageSender list"
  sm_streams :: streams
  sm_threads :: "thread list"

definition NewMessageSenderImpl :: sm_state where
  "NewMessageSenderImpl =
     \<lparr>sm_strmap = [], sm_senders = [], sm_streams = \<lparr>st_open = [], st_next = 0\<rparr>, sm_threads = []\<rparr>"

text \<open>What a step meets: the error of taking the sender's lock, if any, and the network.\<close>

record meets =
  me_lockErr :: "string option"
  me_att :: "bool \<Rightarrow> attempt"
  me_marshalOk :: bool

text \<open>\<^verbatim>\<open>messageSenderForPeer\<close>: its three critical sections.\<close>

definition lookup_sender :: "peer_id \<Rightarrow> call \<Rightarrow> sm_state \<Rightarrow> thread \<times> sm_state" where
  "lookup_sender p c s =
     (case map_of (sm_strmap s) p of
        Some ref \<Rightarrow> (Sending ref p c, s)
      | None \<Rightarrow>
          (let ref = length (sm_senders s); ms = \<lparr>ms_s = None, ms_invalid = False, ms_singleMes = 0\<rparr>
           in (Prep ref p c, s\<lparr>sm_senders := sm_senders s @ [ms], sm_strmap := gm_put p ref (sm_strmap s)\<rparr>)))"

definition prep_sender :: "meets \<Rightarrow> nat \<Rightarrow> peer_id \<Rightarrow> call \<Rightarrow> sm_state \<Rightarrow> thread \<times> sm_state" where
  "prep_sender me ref p c s =
     (let (err, ms, st) = prepOrInvalidate (me_lockErr me) (me_att me False) (sm_senders s ! ref) (sm_streams s);
          s = s\<lparr>sm_senders := (sm_senders s)[ref := ms], sm_streams := st\<rparr>
      in (case err of None \<Rightarrow> Sending ref p c | Some e \<Rightarrow> Cleanup ref p c e, s))"

definition cleanup_sender :: "nat \<Rightarrow> peer_id \<Rightarrow> call \<Rightarrow> send_error \<Rightarrow> sm_state \<Rightarrow> thread \<times> sm_state" where
  "cleanup_sender ref p c err s =
     (case map_of (sm_strmap s) p of
        Some cur \<Rightarrow> if ref \<noteq> cur then (Sending cur p c, s)
                     else (Returned (Inl err), s\<lparr>sm_strmap := gm_del p (sm_strmap s)\<rparr>)
      | None \<Rightarrow> (Returned (Inl err), s))"

text \<open>The call itself, once it has a sender.\<close>

definition use_sender :: "meets \<Rightarrow> nat \<Rightarrow> peer_id \<Rightarrow> call \<Rightarrow> sm_state \<Rightarrow> thread \<times> sm_state" where
  "use_sender me ref p c s =
     (if \<not> me_marshalOk me then (Returned (Inl MarshalError), s)
      else case me_lockErr me of
        Some e \<Rightarrow> (Returned (Inl (LockFailed e)), s)
      | None \<Rightarrow>
          (let ms = sm_senders s ! ref; st = sm_streams s;
               (res, ms, st) = (case c of
                   OneWay m \<Rightarrow> (let (err, ms, st) = ms_SendMessage (me_att me) False ms st
                                 in (case err of None \<Rightarrow> Inr None | Some e \<Rightarrow> Inl e, ms, st))
                 | Request m \<Rightarrow> (let (r, ms, st) = ms_SendRequest (me_att me) False ms st
                                 in (case r of Inl e \<Rightarrow> Inl e
                                     | Inr (mes, None) \<Rightarrow> Inr (Some mes)
                                     | Inr (mes, Some e) \<Rightarrow> Inl e, ms, st)))
           in (Returned res, s\<lparr>sm_senders := (sm_senders s)[ref := ms], sm_streams := st\<rparr>)))"

definition invalidate_sender :: "meets \<Rightarrow> nat \<Rightarrow> sm_state \<Rightarrow> thread \<times> sm_state" where
  "invalidate_sender me ref s =
     (case me_lockErr me of
        Some e \<Rightarrow> (Gone, s)
      | None \<Rightarrow>
          (let (ms, st) = invalidate (sm_senders s ! ref) (sm_streams s)
           in (Gone, s\<lparr>sm_senders := (sm_senders s)[ref := ms], sm_streams := st\<rparr>)))"

fun thread_step :: "meets \<Rightarrow> thread \<Rightarrow> sm_state \<Rightarrow> (thread \<times> sm_state) option" where
  "thread_step me (Lookup p c) s = Some (lookup_sender p c s)"
| "thread_step me (Prep ref p c) s = Some (prep_sender me ref p c s)"
| "thread_step me (Cleanup ref p c e) s = Some (cleanup_sender ref p c e s)"
| "thread_step me (Sending ref p c) s = Some (use_sender me ref p c s)"
| "thread_step me (Invalidating ref) s = Some (invalidate_sender me ref s)"
| "thread_step me (Returned r) s = None"
| "thread_step me Gone s = None"

text \<open>\<^verbatim>\<open>OnDisconnect\<close>: its critical section, which starts the goroutine.\<close>

definition OnDisconnect :: "peer_id \<Rightarrow> sm_state \<Rightarrow> sm_state" where
  "OnDisconnect p s =
     (case map_of (sm_strmap s) p of
        None \<Rightarrow> s
      | Some ref \<Rightarrow> s\<lparr>sm_strmap := gm_del p (sm_strmap s), sm_threads := sm_threads s @ [Invalidating ref]\<rparr>)"

datatype sm_action = Call peer_id call | Disconnect peer_id | Run nat meets

definition sm_step :: "sm_action \<Rightarrow> sm_state \<Rightarrow> sm_state option" where
  "sm_step act s =
     (case act of
        Call p c \<Rightarrow> Some (s\<lparr>sm_threads := sm_threads s @ [Lookup p c]\<rparr>)
      | Disconnect p \<Rightarrow> Some (OnDisconnect p s)
      | Run i me \<Rightarrow>
          (if i < length (sm_threads s)
           then map_option (\<lambda>(t, s'). s'\<lparr>sm_threads := (sm_threads s)[i := t]\<rparr>)
                  (thread_step me (sm_threads s ! i) s)
           else None))"

fun sm_run :: "sm_action list \<Rightarrow> sm_state \<Rightarrow> sm_state option" where
  "sm_run [] s = Some s"
| "sm_run (a # as) s = Option.bind (sm_step a s) (sm_run as)"

section \<open>Lemmas: who owns a stream\<close>















section \<open>Lemmas: the table\<close>


















section \<open>Properties\<close>


definition demo_att :: attempt where
  "demo_att = \<lparr>at_newStream = None, at_write = None, at_read = ReadMessage (NewMessage PING [] 0), at_close = None\<rparr>"

definition demo_meets :: "string option \<Rightarrow> meets" where
  "demo_meets e = \<lparr>me_lockErr = e, me_att = (\<lambda>_. demo_att), me_marshalOk = True\<rparr>"

abbreviation demo_ping :: call where
  "demo_ping \<equiv> Request (NewMessage PING [] 0)"


text \<open>Without that condition a stream can be lost for good. When the call that made a sender gives up
  waiting for the sender's lock, it takes the sender out of the table without invalidating it; a
  second call that had already fetched the sender then opens a stream on it. Both calls have returned,
  the stream is open, its sender valid, but in no table and about to be invalidated by nobody.\<close>

theorem refused_lock_loses_stream:
  "\<exists>s. sm_run [Call ''p'' demo_ping, Run 0 (demo_meets None), Call ''p'' demo_ping, Run 1 (demo_meets None),
       Run 0 (demo_meets (Some ''canceled'')), Run 0 (demo_meets None), Run 1 (demo_meets None)]
      NewMessageSenderImpl = Some s \<and>
    sm_threads s = [Returned (Inl (LockFailed ''canceled'')), Returned (Inr (Some (NewMessage PING [] 0)))] \<and>
    st_open (sm_streams s) = [0] \<and> map ms_s (sm_senders s) = [Some 0] \<and> map ms_invalid (sm_senders s) = [False] \<and>
    sm_strmap s = []"
proof -
  have "map_option (\<lambda>s. (sm_threads s, st_open (sm_streams s), map ms_s (sm_senders s),
        map ms_invalid (sm_senders s), sm_strmap s))
      (sm_run [Call ''p'' demo_ping, Run 0 (demo_meets None), Call ''p'' demo_ping, Run 1 (demo_meets None),
       Run 0 (demo_meets (Some ''canceled'')), Run 0 (demo_meets None), Run 1 (demo_meets None)]
      NewMessageSenderImpl) =
    Some ([Returned (Inl (LockFailed ''canceled'')), Returned (Inr (Some (NewMessage PING [] 0)))], [0], [Some 0],
      [False], [])"
    by code_simp
  then show ?thesis by auto
qed

end
