(* ===== verification/Crawler.thy ===== *)
theory Crawler
  imports DHT_Prelude
begin

text \<open>
  The network crawler (\<^verbatim>\<open>crawler/crawler.go\<close>): the addresses it collects, the query of one peer and the
  crawl itself, a loop that hands peers to worker goroutines and takes their results, over two
  channels with one place each.

  The host, the scratch routing table that generates target peers and the protocol messenger are
  parameters of a query. A crawl is a sequence of events, each the step of one goroutine. Go iterates
  over maps in an arbitrary order; the model takes the order of insertion. The handlers are the
  caller's: the log holds the calls they receive, in order. Log lines are left out; the
  crawler's own message sender is in \<open>Crawler_Sender\<close>.
\<close>

section \<open>Addresses\<close>

text \<open>An address is its bytes, so the inner map from bytes to addresses is the list of its keys.\<close>

type_synonym peerAddrs = "(peer_id, multiaddr list) gomap"

definition addPeerAddrsNoLock :: "peer_id \<Rightarrow> multiaddr list \<Rightarrow> peerAddrs \<Rightarrow> peerAddrs" where
  "addPeerAddrsNoLock p addrs ps = gm_put p (fold List.insert addrs (gm_get [] ps p)) ps"

definition addAddrsNoLock :: "(peer_id, multiaddr list) gomap \<Rightarrow> peerAddrs \<Rightarrow> peerAddrs" where
  "addAddrsNoLock peers ps = fold (\<lambda>(p, addrs). addPeerAddrsNoLock p addrs) peers ps"

definition RemoveSourceAndAddPeers :: "peer_id \<Rightarrow> (peer_id, multiaddr list) gomap \<Rightarrow> peerAddrs \<Rightarrow> peerAddrs" where
  "RemoveSourceAndAddPeers source peers ps = addAddrsNoLock peers (gm_del source ps)"

definition PeerInfo :: "peerAddrs \<Rightarrow> peer_id \<Rightarrow> AddrInfo" where
  "PeerInfo ps p = \<lparr>ai_ID = p, ai_Addrs = gm_get [] ps p\<rparr>"

section \<open>Querying one peer\<close>

record crawl_env =
  ce_newTableErr :: "string option"
  ce_connectErr :: "AddrInfo \<Rightarrow> string option"
  ce_genRandPeerID :: "nat \<Rightarrow> peer_id option"
  ce_GetClosestPeers :: "peer_id \<Rightarrow> peer_id \<Rightarrow> string + AddrInfo list"

record queryResult =
  qr_peer :: peer_id
  qr_data :: "(peer_id, AddrInfo) gomap"
  qr_err :: "string option"

definition add_local :: "AddrInfo \<Rightarrow> (peer_id, AddrInfo) gomap \<Rightarrow> (peer_id, AddrInfo) gomap" where
  "add_local ai localPeers = (if gm_has localPeers (ai_ID ai) then localPeers else gm_put (ai_ID ai) ai localPeers)"

text \<open>The loop over the prefix lengths; the outer \<open>None\<close> is the panic of a failed generation.\<close>

fun query_cpls :: "crawl_env \<Rightarrow> peer_id \<Rightarrow> nat list \<Rightarrow> (peer_id, AddrInfo) gomap \<Rightarrow>
    (string + (peer_id, AddrInfo) gomap) option" where
  "query_cpls env p [] localPeers = Some (Inr localPeers)"
| "query_cpls env p (cpl # cpls) localPeers =
     (case ce_genRandPeerID env cpl of
        None \<Rightarrow> None
      | Some generatePeer \<Rightarrow>
          (case ce_GetClosestPeers env p generatePeer of
             Inl err \<Rightarrow> Some (Inl err)
           | Inr peers \<Rightarrow> query_cpls env p cpls (fold add_local peers localPeers)))"

definition queryPeer :: "crawl_env \<Rightarrow> AddrInfo \<Rightarrow> queryResult option" where
  "queryPeer env nextPeer =
     (let failed = (\<lambda>err. \<lparr>qr_peer = ai_ID nextPeer, qr_data = [], qr_err = Some err\<rparr>) in
      case ce_newTableErr env of
        Some err \<Rightarrow> Some (failed err)
      | None \<Rightarrow>
          (case ce_connectErr env nextPeer of
             Some err \<Rightarrow> Some (failed err)
           | None \<Rightarrow>
               (case query_cpls env (ai_ID nextPeer) [0..<16] [] of
                  None \<Rightarrow> None
                | Some (Inl err) \<Rightarrow> Some (failed err)
                | Some (Inr localPeers) \<Rightarrow>
                    Some \<lparr>qr_peer = ai_ID nextPeer, qr_data = localPeers, qr_err = None\<rparr>)))"

section \<open>The crawl\<close>

datatype handler_call = HandleSuccess peer_id "AddrInfo list" | HandleFail peer_id "string option"

record crawl_state =
  cs_toDial :: "AddrInfo list"
  cs_peersSeen :: "peer_id list"
  cs_peersQueried :: "peer_id list"
  cs_outstanding :: nat
  cs_peerAddrs :: peerAddrs
  cs_jobs :: "peer_id list"
  cs_running :: "AddrInfo list"
  cs_results :: "queryResult list"
  cs_log :: "handler_call list"

text \<open>The starting peers; \<open>pstoreAddrs\<close> is what the host's peerstore knows.\<close>

fun start_peers :: "(peer_id \<Rightarrow> multiaddr list) \<Rightarrow> AddrInfo list \<Rightarrow> crawl_state \<Rightarrow> crawl_state" where
  "start_peers pstoreAddrs [] s = s"
| "start_peers pstoreAddrs (ai # ais) s =
     (let extendAddrs = pstoreAddrs (ai_ID ai) @ ai_Addrs ai in
      if length extendAddrs = 0 then start_peers pstoreAddrs ais s
      else start_peers pstoreAddrs ais
        (s\<lparr>cs_peerAddrs := addPeerAddrsNoLock (ai_ID ai) extendAddrs (cs_peerAddrs s),
           cs_toDial := cs_toDial s @ [ai], cs_peersSeen := List.insert (ai_ID ai) (cs_peersSeen s)\<rparr>))"

definition crawl_start :: "(peer_id \<Rightarrow> multiaddr list) \<Rightarrow> AddrInfo list \<Rightarrow> crawl_state" where
  "crawl_start pstoreAddrs startingPeers =
     start_peers pstoreAddrs startingPeers
       \<lparr>cs_toDial = [], cs_peersSeen = [], cs_peersQueried = [], cs_outstanding = 0, cs_peerAddrs = [],
        cs_jobs = [], cs_running = [], cs_results = [], cs_log = []\<rparr>"

text \<open>What the loop does with a result: the peers it reports, one after the other.\<close>

fun report_peers :: "(peer_id, AddrInfo) gomap \<Rightarrow> (peer_id, multiaddr list) gomap \<Rightarrow> crawl_state \<Rightarrow>
    (peer_id, multiaddr list) gomap \<times> crawl_state" where
  "report_peers [] addrsToUpdate s = (addrsToUpdate, s)"
| "report_peers ((p, ai) # data) addrsToUpdate s =
     (let addrsToUpdate = (if p \<notin> set (cs_peersQueried s) then gm_put p (ai_Addrs ai) addrsToUpdate
                           else addrsToUpdate);
          s = (if p \<notin> set (cs_peersSeen s)
               then s\<lparr>cs_peersSeen := cs_peersSeen s @ [p], cs_toDial := cs_toDial s @ [ai]\<rparr> else s)
      in report_peers data addrsToUpdate s)"

definition handle_result :: "queryResult \<Rightarrow> crawl_state \<Rightarrow> crawl_state" where
  "handle_result res s =
     (let s = (if length (qr_data res) > 0
         then (let rtPeers = map snd (qr_data res);
                   (addrsToUpdate, s) = report_peers (qr_data res) [] s
               in s\<lparr>cs_peersQueried := List.insert (qr_peer res) (cs_peersQueried s),
                    cs_peerAddrs := RemoveSourceAndAddPeers (qr_peer res) addrsToUpdate (cs_peerAddrs s),
                    cs_log := cs_log s @ [HandleSuccess (qr_peer res) rtPeers]\<rparr>)
         else s\<lparr>cs_log := cs_log s @ [HandleFail (qr_peer res) (qr_err res)]\<rparr>)
      in s\<lparr>cs_outstanding := cs_outstanding s - 1\<rparr>)"

text \<open>
  The events: the loop hands out the next peer or takes a result, a worker picks a job (and reads the
  peer's addresses) or finishes its query and delivers. The channels have one place each; there are
  \<open>parallelism\<close> workers. A query that panics ends the program and has no step.
\<close>

datatype crawl_event = HandOut | TakeResult | PickJob | Finish nat crawl_env

definition crawl_done :: "crawl_state \<Rightarrow> bool" where
  "crawl_done s \<longleftrightarrow> \<not> (length (cs_toDial s) > 0 \<or> cs_outstanding s > 0)"

definition crawl_step :: "nat \<Rightarrow> crawl_event \<Rightarrow> crawl_state \<Rightarrow> crawl_state option" where
  "crawl_step parallelism ev s =
     (case ev of
        HandOut \<Rightarrow>
          (case cs_toDial s of
             ai # rest \<Rightarrow>
               if length (cs_jobs s) < 1
               then Some (s\<lparr>cs_jobs := cs_jobs s @ [ai_ID ai], cs_outstanding := cs_outstanding s + 1,
                            cs_toDial := rest\<rparr>)
               else None
           | [] \<Rightarrow> None)
      | TakeResult \<Rightarrow>
          (case cs_results s of
             res # rest \<Rightarrow> Some (handle_result res (s\<lparr>cs_results := rest\<rparr>))
           | [] \<Rightarrow> None)
      | PickJob \<Rightarrow>
          (case cs_jobs s of
             p # rest \<Rightarrow>
               if length (cs_running s) < parallelism
               then Some (s\<lparr>cs_jobs := rest, cs_running := cs_running s @ [PeerInfo (cs_peerAddrs s) p]\<rparr>)
               else None
           | [] \<Rightarrow> None)
      | Finish i env \<Rightarrow>
          (if i < length (cs_running s) \<and> length (cs_results s) < 1
           then map_option (\<lambda>res. s\<lparr>cs_running := take i (cs_running s) @ drop (Suc i) (cs_running s),
                                    cs_results := cs_results s @ [res]\<rparr>)
                  (queryPeer env (cs_running s ! i))
           else None))"

fun crawl_run :: "nat \<Rightarrow> crawl_event list \<Rightarrow> crawl_state \<Rightarrow> crawl_state option" where
  "crawl_run parallelism [] s = Some s"
| "crawl_run parallelism (ev # evs) s =
     Option.bind (crawl_step parallelism ev s) (crawl_run parallelism evs)"

section \<open>Lemmas\<close>

text \<open>Results are keyed by the identifiers of the peers they hold.\<close>

definition keyed :: "(peer_id, AddrInfo) gomap \<Rightarrow> bool" where
  "keyed m \<longleftrightarrow> gm_wf m \<and> (\<forall>(p, ai)\<in>set m. p = ai_ID ai)"

definition ids :: "(peer_id, AddrInfo) gomap \<Rightarrow> peer_id set" where
  "ids m = fst ` set m"

lemma add_local_keyed: "keyed m \<Longrightarrow> keyed (add_local ai m) \<and> ids (add_local ai m) = insert (ai_ID ai) (ids m)"
proof (cases "gm_has m (ai_ID ai)")
  case True
  then show "keyed m \<Longrightarrow> ?thesis" by (auto simp: add_local_def ids_def gm_has_set)
next
  case False
  then have "gm_put (ai_ID ai) ai m = m @ [(ai_ID ai, ai)]" by (induction m) (auto simp: gm_has_def split: if_splits)
  with False show "keyed m \<Longrightarrow> ?thesis"
    by (auto simp: add_local_def keyed_def gm_wf_def ids_def gm_has_set)
qed

lemma fold_add_local:
  "keyed m \<Longrightarrow> keyed (fold add_local ais m) \<and> ids (fold add_local ais m) = ids m \<union> ai_ID ` set ais"
  by (induction ais arbitrary: m) (auto simp: add_local_keyed)

definition answers_within :: "peer_id set \<Rightarrow> crawl_env \<Rightarrow> bool" where
  "answers_within U env \<longleftrightarrow>
     (\<forall>p t peers. ce_GetClosestPeers env p t = Inr peers \<longrightarrow> ai_ID ` set peers \<subseteq> U)"

lemma query_cpls_keyed:
  "query_cpls env p cpls m = Some (Inr m') \<Longrightarrow> keyed m \<Longrightarrow> keyed m' \<and> (answers_within U env \<and> ids m \<subseteq> U \<longrightarrow> ids m' \<subseteq> U)"
proof (induction cpls arbitrary: m)
  case (Cons cpl cpls)
  then obtain t peers where a: "ce_GetClosestPeers env p t = Inr peers"
    "query_cpls env p cpls (fold add_local peers m) = Some (Inr m')"
    by (auto split: option.splits sum.splits)
  from Cons.IH [OF a(2)] Cons.prems(2) fold_add_local [of m peers] a(1) show ?case
    by (auto simp: answers_within_def)
qed auto

lemma queryPeer_result:
  assumes "queryPeer env ai = Some res"
  shows "qr_peer res = ai_ID ai" and "keyed (qr_data res)" and "answers_within U env \<Longrightarrow> ids (qr_data res) \<subseteq> U"
proof -
  have "keyed []" "ids [] = {}" by (simp_all add: keyed_def ids_def)
  with assms query_cpls_keyed [of env "ai_ID ai" "[0..<16]" "[]" _ U] show "qr_peer res = ai_ID ai" "keyed (qr_data res)"
    "answers_within U env \<Longrightarrow> ids (qr_data res) \<subseteq> U"
    by (auto simp: queryPeer_def Let_def split: option.splits sum.splits)
qed

text \<open>The peers a result adds are the unseen ones, once each.\<close>

lemma report_peers_spec:
  "keyed data \<Longrightarrow> report_peers data upd s = (upd', s') \<Longrightarrow>
   (let new = filter (\<lambda>(p, ai). p \<notin> set (cs_peersSeen s)) data
    in s' = s\<lparr>cs_peersSeen := cs_peersSeen s @ map fst new, cs_toDial := cs_toDial s @ map snd new\<rparr>)"
proof (induction data arbitrary: upd s)
  case (Cons d data)
  obtain p ai where d: "d = (p, ai)" by fastforce
  have k: "keyed data" "\<forall>(q, a)\<in>set data. q \<noteq> p" using Cons.prems(1) by (force simp: d keyed_def gm_wf_def)+
  have same: "filter (\<lambda>(q, a). q \<notin> set (cs_peersSeen s @ [p])) data = filter (\<lambda>(q, a). q \<notin> set (cs_peersSeen s)) data"
    using k(2) by (intro filter_cong) auto
  show ?case
  proof (cases "p \<in> set (cs_peersSeen s)")
    case True
    with Cons.IH [OF k(1)] Cons.prems(2) show ?thesis by (auto simp: d Let_def)
  next
    case False
    let ?s1 = "s\<lparr>cs_peersSeen := cs_peersSeen s @ [p], cs_toDial := cs_toDial s @ [ai]\<rparr>"
    have "\<exists>u. report_peers data u ?s1 = (upd', s')"
      using Cons.prems(2) False by (auto simp: d Let_def)
    then obtain u where "report_peers data u ?s1 = (upd', s')" ..
    from Cons.IH [OF k(1) this] have "s' = ?s1\<lparr>
        cs_peersSeen := cs_peersSeen ?s1 @ map fst (filter (\<lambda>(q, a). q \<notin> set (cs_peersSeen s @ [p])) data),
        cs_toDial := cs_toDial ?s1 @ map snd (filter (\<lambda>(q, a). q \<notin> set (cs_peersSeen s @ [p])) data)\<rparr>"
      by (simp add: Let_def)
    with False show ?thesis unfolding same by (simp add: d Let_def)
  qed
qed simp

fun handled_peer :: "handler_call \<Rightarrow> peer_id" where
  "handled_peer (HandleSuccess p ps) = p"
| "handled_peer (HandleFail p err) = p"

text \<open>Every seen peer is at one place: to be dialled, in a job, queried, in a result or handled.\<close>

definition places :: "crawl_state \<Rightarrow> peer_id list" where
  "places s = map ai_ID (cs_toDial s) @ cs_jobs s @ map ai_ID (cs_running s) @ map qr_peer (cs_results s) @
     map handled_peer (cs_log s)"

definition crawl_inv :: "crawl_state \<Rightarrow> bool" where
  "crawl_inv s \<longleftrightarrow> mset (places s) = mset (cs_peersSeen s) \<and> distinct (cs_peersSeen s) \<and>
     cs_outstanding s = length (cs_jobs s) + length (cs_running s) + length (cs_results s) \<and>
     (\<forall>res\<in>set (cs_results s). keyed (qr_data res)) \<and>
     (\<forall>p ais. HandleSuccess p ais \<in> set (cs_log s) \<longrightarrow> ai_ID ` set ais \<subseteq> set (cs_peersSeen s))"

text \<open>A bound on the number of events left, when every reported peer is in \<open>U\<close>.\<close>

definition crawl_measure :: "peer_id set \<Rightarrow> crawl_state \<Rightarrow> nat" where
  "crawl_measure U s = 4 * (card (U - set (cs_peersSeen s)) + length (cs_toDial s)) + 3 * length (cs_jobs s) +
     2 * length (cs_running s) + length (cs_results s)"

definition results_within :: "peer_id set \<Rightarrow> crawl_state \<Rightarrow> bool" where
  "results_within U s \<longleftrightarrow> (\<forall>res\<in>set (cs_results s). ids (qr_data res) \<subseteq> U)"

lemma handle_result_spec:
  assumes "crawl_inv s" and "cs_results s = res # rest" and "s' = handle_result res (s\<lparr>cs_results := rest\<rparr>)"
  shows "crawl_inv s' \<and> (results_within U s \<and> finite U \<longrightarrow> crawl_measure U s' < crawl_measure U s \<and> results_within U s')"
proof -
  let ?new = "filter (\<lambda>(p, ai). p \<notin> set (cs_peersSeen s)) (qr_data res)"
  have k: "keyed (qr_data res)" using assms(1,2) by (simp add: crawl_inv_def)
  have nf: "?new = [] \<Longrightarrow> map fst ?new = [] \<and> map snd ?new = []" by simp
  obtain upd s1 where r: "report_peers (qr_data res) [] (s\<lparr>cs_results := rest\<rparr>) = (upd, s1)" by fastforce
  from report_peers_spec [OF k r] have s1: "s1 = s\<lparr>cs_results := rest, cs_peersSeen := cs_peersSeen s @ map fst ?new,
      cs_toDial := cs_toDial s @ map snd ?new\<rparr>" by (simp add: Let_def)
  define call where "call = (if qr_data res = [] then HandleFail (qr_peer res) (qr_err res)
    else HandleSuccess (qr_peer res) (map snd (qr_data res)))"
  have f: "cs_results s' = rest" "cs_jobs s' = cs_jobs s" "cs_running s' = cs_running s"
    "cs_outstanding s' = cs_outstanding s - 1" "cs_log s' = cs_log s @ [call]"
    "cs_peersSeen s' = cs_peersSeen s @ map fst ?new" "cs_toDial s' = cs_toDial s @ map snd ?new"
    using assms(3) r s1 by (simp_all add: handle_result_def Let_def call_def)
  have eqs: "map ai_ID (map snd ?new) = map fst ?new"
    using k by (auto simp: keyed_def)
  have "handled_peer call = qr_peer res" by (simp add: call_def)
  then have "places s' = map ai_ID (cs_toDial s) @ map fst ?new @ cs_jobs s @ map ai_ID (cs_running s) @
      map qr_peer rest @ map handled_peer (cs_log s) @ [qr_peer res]"
    unfolding places_def f map_append eqs by simp
  then have "mset (places s') = mset (places s) + mset (map fst ?new)"
    unfolding places_def assms(2) by (simp only: mset_append list.map mset.simps) (simp add: ac_simps)
  with assms(1) have "mset (places s') = mset (cs_peersSeen s')"
    unfolding crawl_inv_def f by (simp only: mset_append)
  moreover have dn: "distinct (map fst ?new)"
    using k by (simp add: keyed_def gm_wf_def distinct_map_filter)
  then have "distinct (cs_peersSeen s')" using assms(1) by (auto simp: f crawl_inv_def)
  moreover have "ai_ID ` snd ` set (qr_data res) \<subseteq> set (cs_peersSeen s')"
    unfolding f set_append using k by (force simp: keyed_def)
  then have "ai_ID ` set ais \<subseteq> set (cs_peersSeen s')" if "HandleSuccess p ais \<in> set (cs_log s')" for p ais
  proof (cases "HandleSuccess p ais \<in> set (cs_log s)")
    case True
    with assms(1) have "ai_ID ` set ais \<subseteq> set (cs_peersSeen s)" unfolding crawl_inv_def by blast
    then show ?thesis unfolding f set_append by blast
  next
    case False
    with that have "ais = map snd (qr_data res)" by (simp add: f call_def split: if_splits)
    with \<open>ai_ID ` snd ` _ \<subseteq> _\<close> show ?thesis by (simp add: image_image)
  qed
  ultimately have "crawl_inv s'" using assms(1,2) by (simp add: crawl_inv_def f)
  moreover have "crawl_measure U s' < crawl_measure U s" if "results_within U s" "finite U"
  proof -
    have sub: "set (map fst ?new) \<subseteq> U - set (cs_peersSeen s)"
      using that(1) assms(2) by (auto simp: results_within_def ids_def)
    have "U - set (cs_peersSeen s') = U - set (cs_peersSeen s) - set (map fst ?new)"
      unfolding f set_append by blast
    then have "card (U - set (cs_peersSeen s')) = card (U - set (cs_peersSeen s) - set (map fst ?new))" by simp
    also have "\<dots> = card (U - set (cs_peersSeen s)) - card (set (map fst ?new))"
      using sub that(2) by (intro card_Diff_subset) auto
    also have "card (set (map fst ?new)) = length ?new" using distinct_card [OF dn] by simp
    finally have "card (U - set (cs_peersSeen s')) + length ?new = card (U - set (cs_peersSeen s))"
      using card_mono [OF _ sub] that(2) distinct_card [OF dn] by simp
    then show ?thesis by (simp add: crawl_measure_def f assms(2))
  qed
  moreover have "results_within U s \<longrightarrow> results_within U s'"
    by (simp add: results_within_def f assms(2))
  ultimately show ?thesis by blast
qed

definition within :: "peer_id set \<Rightarrow> crawl_event \<Rightarrow> bool" where
  "within U ev \<longleftrightarrow> (case ev of Finish i env \<Rightarrow> answers_within U env | _ \<Rightarrow> True)"

lemma map_remove_nth:
  "i < length xs \<Longrightarrow> mset (map f (take i xs @ drop (Suc i) xs)) + {#f (xs ! i)#} = mset (map f xs)"
proof -
  assume "i < length xs"
  then have "xs = take i xs @ xs ! i # drop (Suc i) xs" by (rule id_take_nth_drop)
  then have "mset (map f xs) = mset (map f (take i xs @ xs ! i # drop (Suc i) xs))" by simp
  then show ?thesis by simp
qed

lemma crawl_step_inv:
  assumes "crawl_inv s" and "crawl_step n ev s = Some s'"
  shows "crawl_inv s' \<and> (results_within U s \<and> within U ev \<and> finite U \<longrightarrow>
    crawl_measure U s' < crawl_measure U s \<and> results_within U s')"
proof (cases ev)
  case HandOut
  with assms(2) obtain ai rest where "cs_toDial s = ai # rest"
    "s' = s\<lparr>cs_jobs := cs_jobs s @ [ai_ID ai], cs_outstanding := cs_outstanding s + 1, cs_toDial := rest\<rparr>"
    by (auto simp: crawl_step_def split: list.splits if_splits)
  with assms(1) show ?thesis
    by (auto simp: crawl_inv_def places_def crawl_measure_def results_within_def)
next
  case TakeResult
  with assms(2) obtain res rest where "cs_results s = res # rest" "s' = handle_result res (s\<lparr>cs_results := rest\<rparr>)"
    by (auto simp: crawl_step_def split: list.splits)
  with handle_result_spec [OF assms(1)] show ?thesis by blast
next
  case PickJob
  with assms(2) obtain p rest where "cs_jobs s = p # rest"
    "s' = s\<lparr>cs_jobs := rest, cs_running := cs_running s @ [PeerInfo (cs_peerAddrs s) p]\<rparr>"
    by (auto simp: crawl_step_def split: list.splits if_splits)
  with assms(1) show ?thesis
    by (auto simp: crawl_inv_def places_def crawl_measure_def results_within_def PeerInfo_def)
next
  case (Finish i env)
  with assms(2) obtain res where i: "i < length (cs_running s)" and q: "queryPeer env (cs_running s ! i) = Some res"
    and s': "s' = s\<lparr>cs_running := take i (cs_running s) @ drop (Suc i) (cs_running s), cs_results := cs_results s @ [res]\<rparr>"
    by (auto simp: crawl_step_def split: if_splits)
  note res = queryPeer_result [OF q]
  have "mset (places s') = mset (places s)"
    unfolding places_def mset_append s' using map_remove_nth [OF i, of ai_ID] res(1)
    by simp
  with assms(1) i res(2) have "crawl_inv s'" by (auto simp: crawl_inv_def s')
  moreover have "crawl_measure U s' < crawl_measure U s" using i by (simp add: crawl_measure_def s')
  moreover have "results_within U s \<and> within U ev \<longrightarrow> results_within U s'"
    using res(3) Finish by (auto simp: results_within_def within_def s')
  ultimately show ?thesis by blast
qed

lemma crawl_run_inv:
  assumes "crawl_run n evs s = Some s'" and "crawl_inv s"
  shows "crawl_inv s' \<and> (results_within U s \<and> finite U \<and> (\<forall>ev\<in>set evs. within U ev) \<longrightarrow>
    length evs + crawl_measure U s' \<le> crawl_measure U s)"
  using assms
proof (induction evs arbitrary: s)
  case (Cons ev evs)
  then obtain s1 where s1: "crawl_step n ev s = Some s1" "crawl_run n evs s1 = Some s'"
    by (auto split: Option.bind_splits)
  note st = crawl_step_inv [OF Cons.prems(2) s1(1), of U]
  from Cons.IH [OF s1(2)] st have ih: "crawl_inv s'" "results_within U s1 \<and> finite U \<and> (\<forall>ev\<in>set evs. within U ev) \<longrightarrow>
    length evs + crawl_measure U s' \<le> crawl_measure U s1" by simp_all
  show ?case
  proof (intro conjI impI)
    assume a: "results_within U s \<and> finite U \<and> (\<forall>e\<in>set (ev # evs). within U e)"
    then have "crawl_measure U s1 < crawl_measure U s" "results_within U s1" using st by simp_all
    with ih(2) a show "length (ev # evs) + crawl_measure U s' \<le> crawl_measure U s" by simp
  qed (rule ih(1))
qed simp

lemma start_peers_spec:
  "start_peers addrs ais s = s' \<Longrightarrow> \<exists>kept. kept = filter (\<lambda>ai. addrs (ai_ID ai) \<noteq> [] \<or> ai_Addrs ai \<noteq> []) ais \<and>
     cs_toDial s' = cs_toDial s @ kept \<and> cs_peersSeen s' = fold List.insert (map ai_ID kept) (cs_peersSeen s) \<and>
     cs_outstanding s' = cs_outstanding s \<and> cs_jobs s' = cs_jobs s \<and> cs_running s' = cs_running s \<and>
     cs_results s' = cs_results s \<and> cs_log s' = cs_log s"
  by (induction ais arbitrary: s) (auto simp: Let_def)

lemma fold_List_insert: "distinct (ys @ xs) \<Longrightarrow> fold List.insert xs ys = rev xs @ ys"
  by (induction xs arbitrary: ys) auto

lemma crawl_start_inv:
  assumes "distinct (map ai_ID starting)"
  shows "crawl_inv (crawl_start addrs starting) \<and> results_within U (crawl_start addrs starting) \<and>
    crawl_measure U (crawl_start addrs starting) \<le> 4 * (card (U - set (cs_peersSeen (crawl_start addrs starting))) + length starting) \<and>
    set (cs_peersSeen (crawl_start addrs starting)) =
      {ai_ID ai |ai. ai \<in> set starting \<and> (addrs (ai_ID ai) \<noteq> [] \<or> ai_Addrs ai \<noteq> [])}"
proof -
  let ?kept = "filter (\<lambda>ai. addrs (ai_ID ai) \<noteq> [] \<or> ai_Addrs ai \<noteq> []) starting"
  let ?s = "crawl_start addrs starting"
  have s: "cs_toDial ?s = ?kept" "cs_peersSeen ?s = fold List.insert (map ai_ID ?kept) []"
    "cs_outstanding ?s = 0" "cs_jobs ?s = []" "cs_running ?s = []" "cs_results ?s = []" "cs_log ?s = []"
    using start_peers_spec [OF refl, of addrs starting] by (auto simp: crawl_start_def)
  have d: "distinct (map ai_ID ?kept)" using assms by (simp add: distinct_map_filter)
  then have seen: "cs_peersSeen ?s = rev (map ai_ID ?kept)" by (simp add: s fold_List_insert)
  have "length ?kept \<le> length starting" by simp
  with d show ?thesis
    by (auto simp: crawl_inv_def results_within_def crawl_measure_def places_def s(1,3-) seen)
qed

lemma crawl_progress:
  assumes "crawl_inv s" and "\<not> crawl_done s" and "0 < n" and "\<forall>ai. queryPeer env ai \<noteq> None"
  shows "\<exists>ev\<in>{HandOut, TakeResult, PickJob, Finish 0 env}. crawl_step n ev s \<noteq> None"
proof (cases "cs_results s \<noteq> []")
  case True
  then show ?thesis by (auto simp: crawl_step_def neq_Nil_conv)
next
  case no: False
  show ?thesis
  proof (cases "cs_running s \<noteq> []")
    case True
    with no assms(4) show ?thesis by (auto simp: crawl_step_def)
  next
    case idle: False
    show ?thesis
    proof (cases "cs_jobs s \<noteq> []")
      case True
      moreover have "cs_running s = []" using idle by simp
      ultimately have "crawl_step n PickJob s \<noteq> None"
        using assms(3) by (auto simp: crawl_step_def split: list.splits)
      then show ?thesis by blast
    next
      case False
      with no idle assms(1,2) have "cs_toDial s \<noteq> []" by (simp add: crawl_done_def crawl_inv_def)
      with False show ?thesis by (auto simp: crawl_step_def neq_Nil_conv)
    qed
  qed
qed



section \<open>Properties\<close>

text \<open>A crawl ends: when all peers that are ever reported are among finitely many, a crawl from distinct
  starting peers makes at most four steps for each starting peer and each of those, and as long as it
  is not done one of its goroutines can make a step, with at least one worker and a query that does
  not panic.\<close>

theorem crawl_terminates:
  assumes "crawl_run n evs (crawl_start addrs starting) = Some s" and "distinct (map ai_ID starting)"
    and "finite U" and "\<forall>ev\<in>set evs. within U ev"
  shows "length evs \<le> 4 * (card U + length starting) \<and>
    (0 < n \<and> (\<forall>ai. queryPeer env ai \<noteq> None) \<and> \<not> crawl_done s \<longrightarrow>
       (\<exists>ev\<in>{HandOut, TakeResult, PickJob, Finish 0 env}. crawl_step n ev s \<noteq> None))"
proof -
  note st = crawl_start_inv [OF assms(2), of addrs U]
  from crawl_run_inv [OF assms(1), of U] st assms(3,4) have
    "crawl_inv s" "length evs \<le> crawl_measure U (crawl_start addrs starting)" by simp_all
  moreover have "card (U - set (cs_peersSeen (crawl_start addrs starting))) \<le> card U"
    using assms(3) by (intro card_mono) auto
  ultimately show ?thesis using st crawl_progress by fastforce
qed


section \<open>Witnesses\<close>

text \<open>Two peers that know each other.\<close>

definition demo_crawl_env :: crawl_env where
  "demo_crawl_env = \<lparr>ce_newTableErr = None, ce_connectErr = (\<lambda>ai. None), ce_genRandPeerID = (\<lambda>c. Some ''t''),
     ce_GetClosestPeers = (\<lambda>p t. Inr [if p = ''a'' then \<lparr>ai_ID = ''b'', ai_Addrs = [''y'']\<rparr>
                                       else \<lparr>ai_ID = ''a'', ai_Addrs = [''x'']\<rparr>])\<rparr>"

abbreviation demo_crawl :: "crawl_event list" where
  "demo_crawl \<equiv> [HandOut, PickJob, Finish 0 demo_crawl_env, TakeResult,
                 HandOut, PickJob, Finish 0 demo_crawl_env, TakeResult]"

abbreviation demo_start :: "AddrInfo list" where
  "demo_start \<equiv> [\<lparr>ai_ID = ''a'', ai_Addrs = [''x'']\<rparr>]"

lemma demo_crawl_run:
  "\<exists>s. crawl_run 1 demo_crawl (crawl_start (\<lambda>p. []) demo_start) = Some s \<and> crawl_done s \<and>
     map handled_peer (cs_log s) = [''a'', ''b'']"
proof -
  have "map_option (\<lambda>s. (crawl_done s, map handled_peer (cs_log s)))
      (crawl_run 1 demo_crawl (crawl_start (\<lambda>p. []) demo_start)) = Some (True, [''a'', ''b''])"
    by code_simp
  then show ?thesis by auto
qed

theorem crawl_terminates_witness:
  "length demo_crawl \<le> 4 * (card {''a'', ''b''} + length demo_start)"
proof -
  obtain s where s: "crawl_run 1 demo_crawl (crawl_start (\<lambda>p. []) demo_start) = Some s"
    using demo_crawl_run by blast
  have w: "\<forall>ev\<in>set demo_crawl. within {''a'', ''b''} ev"
    by (simp add: within_def answers_within_def demo_crawl_env_def)
  show ?thesis using crawl_terminates [OF s _ _ w] by simp
qed


end
