(* ===== verification/Stream_IO.thy ===== *)
theory Stream_IO
  imports DHT_Prelude "HOL-Library.Sublist"
begin

text \<open>
  Writing messages to streams (\<^verbatim>\<open>WriteMsg\<close> of \<^verbatim>\<open>internal/net/message_manager.go\<close>): the buffered writer of Go's
  \<^verbatim>\<open>bufio\<close>, the pool the writers are kept in between two messages, and the goroutines that take writers from it
  for different streams at the same time.

  A stream is third-party: how each write to it ends is a plan the model is given. The delimited writer of
  \<^verbatim>\<open>pbio\<close> writes a message in several pieces, which are the message here, or it cannot encode the message. The pool may give any
  of its writers or a new one. The users of a stream take turns, by the lock of the sender or because one goroutine serves the stream,
  and give the stream up when a message could not be written.
\<close>

section \<open>Streams\<close>

text \<open>
  A write is accepted, or stops with an error behind some bytes. An \<^verbatim>\<open>io.Writer\<close> that takes less than it is given
  returns an error.
\<close>

record ostream =
  ws_got :: bytes
  ws_plan :: "(nat \<times> string) option list"

definition ws_Write :: "bytes \<Rightarrow> ostream \<Rightarrow> nat \<times> string option \<times> ostream" where
  "ws_Write p s =
     (case ws_plan s of
        Some (k, err) # plan \<Rightarrow> (min k (length p), Some err, \<lparr>ws_got = ws_got s @ take k p, ws_plan = plan\<rparr>)
      | None # plan \<Rightarrow> (length p, None, \<lparr>ws_got = ws_got s @ p, ws_plan = plan\<rparr>)
      | [] \<Rightarrow> (length p, None, \<lparr>ws_got = ws_got s @ p, ws_plan = []\<rparr>))"

section \<open>The buffered writer\<close>

text \<open>A writer writes to one of the streams, or to nil: then writing to it panics (\<open>None\<close>).\<close>

record bufferedDelimitedWriter =
  bw_buf :: bytes
  bw_err :: "string option"
  bw_wr :: "nat option"

definition bufSize :: nat where
  "bufSize = 4096"

definition new_writer :: bufferedDelimitedWriter where
  "new_writer = \<lparr>bw_buf = [], bw_err = None, bw_wr = None\<rparr>"

definition bw_Reset :: "nat option \<Rightarrow> bufferedDelimitedWriter \<Rightarrow> bufferedDelimitedWriter" where
  "bw_Reset w b = b\<lparr>bw_buf := [], bw_err := None, bw_wr := w\<rparr>"

type_synonym wstreams = "nat \<Rightarrow> ostream"

definition wr_Write :: "bufferedDelimitedWriter \<Rightarrow> bytes \<Rightarrow> wstreams \<Rightarrow> (nat \<times> string option \<times> wstreams) option" where
  "wr_Write b p ss =
     (case bw_wr b of
        None \<Rightarrow> None
      | Some i \<Rightarrow> (let (n, err, s) = ws_Write p (ss i) in Some (n, err, ss(i := s))))"

definition bw_Flush :: "bufferedDelimitedWriter \<Rightarrow> wstreams \<Rightarrow> (string option \<times> bufferedDelimitedWriter \<times> wstreams) option" where
  "bw_Flush b ss =
     (if bw_err b \<noteq> None then Some (bw_err b, b, ss)
      else if bw_buf b = [] then Some (None, b, ss)
      else case wr_Write b (bw_buf b) ss of
          None \<Rightarrow> None
        | Some (n, err, ss) \<Rightarrow>
            (case (if n < length (bw_buf b) \<and> err = None then Some ''short write'' else err) of
               Some e \<Rightarrow> Some (Some e, b\<lparr>bw_buf := drop n (bw_buf b), bw_err := Some e\<rparr>, ss)
             | None \<Rightarrow> Some (None, b\<lparr>bw_buf := []\<rparr>, ss)))"

text \<open>\<^verbatim>\<open>bufio.Writer.Write\<close>: what does not fit goes out, large writes without a copy.\<close>

lemma wr_Write_takes: "wr_Write b p ss = Some (n, None, ss') \<Longrightarrow> n = length p"
  by (auto simp: wr_Write_def ws_Write_def split: option.splits prod.splits list.splits)

lemma bw_Flush_drains: "bw_Flush b ss = Some (e, b', ss') \<Longrightarrow> bw_err b = None \<Longrightarrow> bw_err b' \<noteq> None \<or> bw_buf b' = []"
  by (auto simp: bw_Flush_def split: if_splits option.splits prod.splits)

function bw_Write :: "bytes \<Rightarrow> bufferedDelimitedWriter \<Rightarrow> wstreams \<Rightarrow> (bufferedDelimitedWriter \<times> wstreams) option" where
  "bw_Write p b ss =
     (let avail = bufSize - length (bw_buf b) in
      if bw_err b \<noteq> None then Some (b, ss)
      else if length p > avail then
        (if bw_buf b = []
         then (case wr_Write b p ss of
                 None \<Rightarrow> None
               | Some (n, err, ss) \<Rightarrow> bw_Write (drop n p) (b\<lparr>bw_err := err\<rparr>) ss)
         else (case bw_Flush (b\<lparr>bw_buf := bw_buf b @ take avail p\<rparr>) ss of
                 None \<Rightarrow> None
               | Some (e, b, ss) \<Rightarrow> bw_Write (drop avail p) b ss))
      else Some (b\<lparr>bw_buf := bw_buf b @ p\<rparr>, ss))"
  by pat_completeness auto
termination
proof (relation "inv_image (less_than <*lex*> less_than <*lex*> less_than)
    (\<lambda>(p, b, ss). (if bw_err b = None then 1 else 0 :: nat, length p, if bw_buf b = [] then 0 else 1 :: nat))", goal_cases)
  case 1
  then show ?case by auto
next
  case (2 p b ss avail r n r' err ss')
  then have "p \<noteq> []" by auto
  moreover have "err = None \<Longrightarrow> n = length p" using 2 wr_Write_takes by blast
  ultimately show ?case using 2 by auto
next
  case (3 p b ss avail r e r' b' ss')
  then show ?case using bw_Flush_drains [of "b\<lparr>bw_buf := bw_buf b @ take avail p\<rparr>" ss e b' ss'] by auto
qed

declare bw_Write.simps [simp del]

section \<open>Writing a message\<close>

text \<open>The pieces of an encoded message, or the error of encoding it.\<close>

type_synonym encoded = "string + bytes list"

fun enc_bytes :: "encoded \<Rightarrow> bytes" where
  "enc_bytes (Inl err) = []"
| "enc_bytes (Inr chunks) = concat chunks"

text \<open>Where the user of a stream stands in \<^verbatim>\<open>WriteMsg\<close>; a piece is written in one step.\<close>

datatype write_pc =
    Idle
  | Getting encoded
  | Writing encoded bufferedDelimitedWriter "bytes list"
  | Flushing encoded bufferedDelimitedWriter
  | Putting encoded bufferedDelimitedWriter "string option"
  | GivenUp encoded string

record io_state =
  io_pool :: "bufferedDelimitedWriter list"
  io_streams :: wstreams
  io_users :: "nat \<Rightarrow> write_pc"
  io_sent :: "nat \<Rightarrow> encoded list"

definition io_init :: "(nat \<Rightarrow> (nat \<times> string) option list) \<Rightarrow> io_state" where
  "io_init plan = \<lparr>io_pool = [], io_streams = (\<lambda>i. \<lparr>ws_got = [], ws_plan = plan i\<rparr>), io_users = (\<lambda>i. Idle), io_sent = (\<lambda>i. [])\<rparr>"

definition pool_Get :: "nat \<Rightarrow> bufferedDelimitedWriter list \<Rightarrow> bufferedDelimitedWriter \<times> bufferedDelimitedWriter list" where
  "pool_Get k pool = (if k < length pool then (pool ! k, take k pool @ drop (Suc k) pool) else (new_writer, pool))"

text \<open>One step of \<^verbatim>\<open>WriteMsg\<close> for stream \<open>i\<close>; \<open>k\<close> is the writer the pool gives.\<close>

definition WriteMsg_step :: "nat \<Rightarrow> nat \<Rightarrow> io_state \<Rightarrow> io_state option" where
  "WriteMsg_step i k s =
     (let goto = (\<lambda>pc s. s\<lparr>io_users := (io_users s)(i := pc)\<rparr>) in
      case io_users s i of
        Idle \<Rightarrow> Some s
      | GivenUp enc err \<Rightarrow> Some s
      | Getting enc \<Rightarrow>
          (let (b, pool) = pool_Get k (io_pool s); b = bw_Reset (Some i) b; s = s\<lparr>io_pool := pool\<rparr>
           in case enc of
                Inl err \<Rightarrow> Some (goto (Putting enc b (Some err)) s)
              | Inr chunks \<Rightarrow> Some (goto (Writing enc b chunks) s))
      | Writing enc b [] \<Rightarrow> Some (goto (Flushing enc b) s)
      | Writing enc b (c # cs) \<Rightarrow>
          (case bw_Write c b (io_streams s) of
             None \<Rightarrow> None
           | Some (b, ss) \<Rightarrow>
               Some (goto (if bw_err b = None then Writing enc b cs else Putting enc b (bw_err b)) (s\<lparr>io_streams := ss\<rparr>)))
      | Flushing enc b \<Rightarrow>
          (case bw_Flush b (io_streams s) of
             None \<Rightarrow> None
           | Some (err, b, ss) \<Rightarrow> Some (goto (Putting enc b err) (s\<lparr>io_streams := ss\<rparr>)))
      | Putting enc b err \<Rightarrow>
          (let s = s\<lparr>io_pool := bw_Reset None b # io_pool s\<rparr>
           in case err of
                None \<Rightarrow> Some (goto Idle (s\<lparr>io_sent := (io_sent s)(i := io_sent s i @ [enc])\<rparr>))
              | Some e \<Rightarrow> Some (goto (GivenUp enc e) s)))"

datatype io_event = BeginWrite nat encoded | WriteStep nat nat

fun io_step :: "io_event \<Rightarrow> io_state \<Rightarrow> io_state option" where
  "io_step (BeginWrite i enc) s =
     Some (if io_users s i = Idle then s\<lparr>io_users := (io_users s)(i := Getting enc)\<rparr> else s)"
| "io_step (WriteStep i k) s = WriteMsg_step i k s"

fun io_run :: "io_event list \<Rightarrow> io_state \<Rightarrow> io_state option" where
  "io_run [] s = Some s"
| "io_run (ev # evs) s = Option.bind (io_step ev s) (io_run evs)"

section \<open>What a writer holds back\<close>

text \<open>
  A step for stream \<open>i\<close> touches no other stream, and without an error no byte is lost: what the stream got with what
  the writer still holds grows by what is written. With an error the stream has a part of it.
\<close>

definition writes :: "nat \<Rightarrow> bufferedDelimitedWriter \<Rightarrow> wstreams \<Rightarrow> bytes \<Rightarrow> bufferedDelimitedWriter \<Rightarrow> wstreams \<Rightarrow> bool" where
  "writes i b ss p b' ss' \<longleftrightarrow>
     bw_wr b' = Some i \<and> (\<forall>j. j \<noteq> i \<longrightarrow> ss' j = ss j) \<and> prefix (ws_got (ss i)) (ws_got (ss' i)) \<and>
     (bw_err b' = None \<longrightarrow> ws_got (ss' i) @ bw_buf b' = ws_got (ss i) @ bw_buf b @ p) \<and>
     (bw_err b' \<noteq> None \<longrightarrow> prefix (ws_got (ss' i)) (ws_got (ss i) @ bw_buf b @ p))"

lemma wr_Write_writes:
  assumes "wr_Write b p ss = Some (n, err, ss')" and "bw_wr b = Some i"
  shows "\<forall>j. j \<noteq> i \<longrightarrow> ss' j = ss j" and "ws_got (ss' i) = ws_got (ss i) @ take n p" and "n < length p \<Longrightarrow> err \<noteq> None"
  using assms by (auto simp: wr_Write_def ws_Write_def min_def split: option.splits prod.splits list.splits)

lemma wr_Write_defined: "bw_wr b = Some i \<Longrightarrow> \<exists>n err ss'. wr_Write b p ss = Some (n, err, ss')"
  by (auto simp: wr_Write_def split: prod.splits)

lemma prefix_take: "prefix (take n xs) (xs @ ys)"
  by (metis append_assoc append_take_drop_id prefixI)

lemma bw_Flush_writes:
  assumes "bw_Flush b ss = Some (e, b', ss')" and "bw_err b = None" and "bw_wr b = Some i"
  shows "writes i b ss [] b' ss'" and "bw_err b' = e" and "e = None \<Longrightarrow> bw_buf b' = []"
proof -
  show "bw_err b' = e" "e = None \<Longrightarrow> bw_buf b' = []"
    using assms by (auto simp: bw_Flush_def split: if_splits option.splits prod.splits)
  show "writes i b ss [] b' ss'"
  proof (cases "bw_buf b = []")
    case True
    then show ?thesis using assms by (auto simp: bw_Flush_def writes_def)
  next
    case False
    obtain n err t where w: "wr_Write b (bw_buf b) ss = Some (n, err, t)" using wr_Write_defined [OF assms(3)] by blast
    note f = wr_Write_writes [OF w assms(3)]
    show ?thesis
    proof (cases err)
      case None
      then have "\<not> n < length (bw_buf b)" using f(3) by blast
      with None have "ss' = t" "b' = b\<lparr>bw_buf := []\<rparr>" "take n (bw_buf b) = bw_buf b"
        using assms False w f(3) by (auto simp: bw_Flush_def)
      then show ?thesis using f(1,2) assms(2,3) by (simp add: writes_def)
    next
      case (Some e')
      then have "ss' = t" "b' = b\<lparr>bw_buf := drop n (bw_buf b), bw_err := Some e'\<rparr>"
        using assms False w by (auto simp: bw_Flush_def)
      then show ?thesis using f(1,2) assms(3) by (simp add: writes_def take_is_prefix)
    qed
  qed
qed

lemma bw_Flush_defined:
  assumes "bw_wr b = Some i" shows "\<exists>e b' ss'. bw_Flush b ss = Some (e, b', ss')"
  using wr_Write_defined [OF assms, of "bw_buf b" ss] by (auto simp: bw_Flush_def split: option.split)

lemma writes_trans:
  assumes "writes i b ss p b' ss'" and "bw_err b' = None" and "writes i b' ss' q b'' ss''"
  shows "writes i b ss (p @ q) b'' ss''"
proof -
  have e: "ws_got (ss' i) @ bw_buf b' @ q = ws_got (ss i) @ bw_buf b @ p @ q" using assms(1,2) by (simp add: writes_def)
  have "bw_wr b'' = Some i" "\<forall>j. j \<noteq> i \<longrightarrow> ss'' j = ss j" "prefix (ws_got (ss i)) (ws_got (ss'' i))"
    using assms(1,3) prefix_order.trans by (auto simp: writes_def)
  moreover have "bw_err b'' = None \<Longrightarrow> ws_got (ss'' i) @ bw_buf b'' = ws_got (ss i) @ bw_buf b @ p @ q"
    "bw_err b'' \<noteq> None \<Longrightarrow> prefix (ws_got (ss'' i)) (ws_got (ss i) @ bw_buf b @ p @ q)"
    using assms(3) unfolding writes_def e by blast+
  ultimately show ?thesis unfolding writes_def by blast
qed

lemma writes_error: "writes i b ss p b' ss' \<Longrightarrow> bw_err b' \<noteq> None \<Longrightarrow> writes i b ss (p @ q) b' ss'"
  using prefix_prefix [of "ws_got (ss' i)" "ws_got (ss i) @ bw_buf b @ p" q] by (auto simp: writes_def)

lemma bw_Write_writes:
  assumes "bw_err b = None" and "bw_wr b = Some i"
  shows "\<exists>b' ss'. bw_Write p b ss = Some (b', ss') \<and> writes i b ss p b' ss'"
  using assms
proof (induction p b ss rule: bw_Write.induct)
  case (1 p b ss)
  define avail where "avail = bufSize - length (bw_buf b)"
  consider "length p \<le> avail" | "length p > avail" "bw_buf b = []" | "length p > avail" "bw_buf b \<noteq> []" by linarith
  then show ?case
  proof cases
    case 1
    then have "bw_Write p b ss = Some (b\<lparr>bw_buf := bw_buf b @ p\<rparr>, ss)"
      using \<open>bw_err b = None\<close> by (simp add: bw_Write.simps [of p b ss] avail_def)
    then show ?thesis using \<open>bw_err b = None\<close> \<open>bw_wr b = Some i\<close> by (simp add: writes_def)
  next
    case 2
    obtain n err t where w: "wr_Write b p ss = Some (n, err, t)" using wr_Write_defined [OF \<open>bw_wr b = Some i\<close>] by blast
    note f = wr_Write_writes [OF w \<open>bw_wr b = Some i\<close>]
    have step: "bw_Write p b ss = bw_Write (drop n p) (b\<lparr>bw_err := err\<rparr>) t"
      using 2 w \<open>bw_err b = None\<close> by (simp add: bw_Write.simps [of p b ss] avail_def)
    show ?thesis
    proof (cases err)
      case None
      then have "n = length p" using w wr_Write_takes by blast
      then have "bw_Write p b ss = Some (b\<lparr>bw_err := None\<rparr>, t)" using step None 2 by (simp add: bw_Write.simps)
      then show ?thesis using f(1,2) 2 \<open>n = length p\<close> \<open>bw_wr b = Some i\<close> by (simp add: writes_def)
    next
      case (Some e)
      then have "bw_Write p b ss = Some (b\<lparr>bw_err := err\<rparr>, t)" using step by (simp add: bw_Write.simps)
      then show ?thesis using f(1,2) 2 Some \<open>bw_wr b = Some i\<close> by (simp add: writes_def take_is_prefix)
    qed
  next
    case 3
    let ?b = "b\<lparr>bw_buf := bw_buf b @ take avail p\<rparr>"
    obtain e b' t where fl: "bw_Flush ?b ss = Some (e, b', t)" using bw_Flush_defined [of ?b i ss] \<open>bw_wr b = Some i\<close> by auto
    have step: "bw_Write p b ss = bw_Write (drop avail p) b' t"
      using 3 fl \<open>bw_err b = None\<close> by (simp add: bw_Write.simps [of p b ss] avail_def)
    have "writes i ?b ss [] b' t" "bw_err b' = e"
      using bw_Flush_writes [OF fl] \<open>bw_err b = None\<close> \<open>bw_wr b = Some i\<close> by simp_all
    then have w: "writes i b ss (take avail p) b' t" by (simp add: writes_def)
    show ?thesis
    proof (cases e)
      case None
      have "bw_err b' = None" "bw_wr b' = Some i" using \<open>bw_err b' = e\<close> None w by (simp_all add: writes_def)
      then obtain b'' t' where "bw_Write (drop avail p) b' t = Some (b'', t')" "writes i b' t (drop avail p) b'' t'"
        using "1.IH"(2) [OF avail_def _ _ _ fl, of e "(b', t)" b' t] 3 \<open>bw_err b = None\<close> by auto
      then show ?thesis using writes_trans [OF w] step \<open>bw_err b' = e\<close> None by (metis append_take_drop_id)
    next
      case (Some err)
      then have "bw_Write p b ss = Some (b', t)" using step \<open>bw_err b' = e\<close> by (simp add: bw_Write.simps)
      then show ?thesis using writes_error [OF w, of "drop avail p"] \<open>bw_err b' = e\<close> Some by auto
    qed
  qed
qed

section \<open>Invariant\<close>

text \<open>What was sent over a stream, and what the message in hand has still to add to it; a user that gave up adds nothing more.\<close>

definition sent_bytes :: "encoded list \<Rightarrow> bytes" where
  "sent_bytes encs = concat (map enc_bytes encs)"

fun pc_ok :: "nat \<Rightarrow> bytes \<Rightarrow> bytes \<Rightarrow> write_pc \<Rightarrow> bool" where
  "pc_ok i got sent Idle \<longleftrightarrow> got = sent"
| "pc_ok i got sent (Getting enc) \<longleftrightarrow> got = sent"
| "pc_ok i got sent (Writing enc b chunks) \<longleftrightarrow>
     bw_err b = None \<and> bw_wr b = Some i \<and> prefix sent got \<and> got @ bw_buf b @ concat chunks = sent @ enc_bytes enc"
| "pc_ok i got sent (Flushing enc b) \<longleftrightarrow>
     bw_err b = None \<and> bw_wr b = Some i \<and> prefix sent got \<and> got @ bw_buf b = sent @ enc_bytes enc"
| "pc_ok i got sent (Putting enc b err) \<longleftrightarrow>
     (if err = None then got = sent @ enc_bytes enc else prefix sent got \<and> prefix got (sent @ enc_bytes enc))"
| "pc_ok i got sent (GivenUp enc err) \<longleftrightarrow> prefix sent got \<and> prefix got (sent @ enc_bytes enc)"

definition io_inv :: "io_state \<Rightarrow> bool" where
  "io_inv s \<longleftrightarrow> set (io_pool s) \<subseteq> {new_writer} \<and>
     (\<forall>i. pc_ok i (ws_got (io_streams s i)) (sent_bytes (io_sent s i)) (io_users s i))"

lemma io_invI:
  assumes "io_inv s" and "set (io_pool s') \<subseteq> {new_writer}"
    and "\<And>j. j \<noteq> i \<Longrightarrow> io_streams s' j = io_streams s j \<and> io_sent s' j = io_sent s j \<and> io_users s' j = io_users s j"
    and "pc_ok i (ws_got (io_streams s' i)) (sent_bytes (io_sent s' i)) (io_users s' i)"
  shows "io_inv s'"
  unfolding io_inv_def
proof (intro conjI allI)
  fix j show "pc_ok j (ws_got (io_streams s' j)) (sent_bytes (io_sent s' j)) (io_users s' j)"
    using assms by (cases "j = i") (auto simp: io_inv_def)
qed (rule assms)

lemma pool_Get_clean:
  assumes "set pool \<subseteq> {new_writer}" and "pool_Get k pool = (b, pool')"
  shows "b = new_writer" and "set pool' \<subseteq> {new_writer}"
proof -
  show "b = new_writer"
    using assms nth_mem [of k pool] by (fastforce simp: pool_Get_def split: if_splits)
  show "set pool' \<subseteq> {new_writer}"
    using assms by (fastforce simp: pool_Get_def split: if_splits dest: in_set_takeD in_set_dropD)
qed

lemma Reset_nil [simp]: "bw_Reset None b = new_writer"
  by (cases b) (simp add: bw_Reset_def new_writer_def)

lemma WriteMsg_step_inv:
  assumes "io_inv s"
  shows "\<exists>s'. WriteMsg_step i k s = Some s' \<and> io_inv s'"
proof -
  have pool: "set (io_pool s) \<subseteq> {new_writer}" and pc: "pc_ok i (ws_got (io_streams s i)) (sent_bytes (io_sent s i)) (io_users s i)"
    using assms by (simp_all add: io_inv_def)
  show ?thesis
  proof (cases "io_users s i")
    case (Getting enc)
    obtain b pool' where g: "pool_Get k (io_pool s) = (b, pool')" by fastforce
    note c = pool_Get_clean [OF pool g]
    show ?thesis
      using Getting g c pc
      by (cases enc) (auto simp: WriteMsg_step_def Let_def bw_Reset_def intro!: io_invI [OF assms, of _ i])
  next
    case (Writing enc b chunks)
    show ?thesis
    proof (cases chunks)
      case Nil
      then show ?thesis
        using Writing pc pool by (auto simp: WriteMsg_step_def intro!: io_invI [OF assms, of _ i])
    next
      case (Cons c cs)
      from pc Writing Cons have ok: "bw_err b = None" "bw_wr b = Some i"
        "ws_got (io_streams s i) @ bw_buf b @ c @ concat cs = sent_bytes (io_sent s i) @ enc_bytes enc" by simp_all
      obtain b' ss' where w: "bw_Write c b (io_streams s) = Some (b', ss')" "writes i b (io_streams s) c b' ss'"
        using bw_Write_writes [OF ok(1,2)] by blast
      have mono: "prefix (sent_bytes (io_sent s i)) (ws_got (ss' i))"
        using w(2) pc Writing prefix_order.trans by (auto simp: writes_def)
      let ?pc = "if bw_err b' = None then Writing enc b' cs else Putting enc b' (bw_err b')"
      have "pc_ok i (ws_got (ss' i)) (sent_bytes (io_sent s i)) ?pc"
      proof (cases "bw_err b'")
        case None
        then have "ws_got (ss' i) @ bw_buf b' @ concat cs = ws_got (io_streams s i) @ bw_buf b @ c @ concat cs"
          using w(2) by (simp add: writes_def flip: append_assoc)
        then show ?thesis using None w(2) ok(3) mono by (simp add: writes_def)
      next
        case (Some e)
        have "prefix (ws_got (ss' i)) ((ws_got (io_streams s i) @ bw_buf b @ c) @ concat cs)"
          using w(2) Some by (intro prefix_prefix [of _ "ws_got (io_streams s i) @ bw_buf b @ c"]) (auto simp: writes_def)
        then show ?thesis using Some ok(3) mono by simp
      qed
      then show ?thesis
        using Writing Cons w pool by (auto simp: WriteMsg_step_def writes_def intro!: io_invI [OF assms, of _ i])
    qed
  next
    case (Flushing enc b)
    from pc Flushing have ok: "bw_err b = None" "bw_wr b = Some i"
      "ws_got (io_streams s i) @ bw_buf b = sent_bytes (io_sent s i) @ enc_bytes enc" by simp_all
    obtain e b' ss' where f: "bw_Flush b (io_streams s) = Some (e, b', ss')" using bw_Flush_defined [OF ok(2)] by blast
    note w = bw_Flush_writes [OF f ok(1,2)]
    have "prefix (sent_bytes (io_sent s i)) (ws_got (ss' i))"
      using w(1) pc Flushing prefix_order.trans by (auto simp: writes_def)
    then have "pc_ok i (ws_got (ss' i)) (sent_bytes (io_sent s i)) (Putting enc b' e)"
      using w ok(3) by (auto simp: writes_def)
    then show ?thesis
      using Flushing f w(1) pool by (auto simp: WriteMsg_step_def writes_def intro!: io_invI [OF assms, of _ i])
  next
    case (Putting enc b err)
    show ?thesis
      using Putting pc pool
      by (cases err) (auto simp: WriteMsg_step_def Let_def sent_bytes_def intro!: io_invI [OF assms, of _ i])
  qed (use assms in \<open>simp_all add: WriteMsg_step_def\<close>)
qed

lemma io_run_inv: "io_inv s \<Longrightarrow> \<exists>s'. io_run evs s = Some s' \<and> io_inv s'"
proof (induction evs arbitrary: s)
  case (Cons ev evs)
  have "\<exists>t. io_step ev s = Some t \<and> io_inv t"
  proof (cases ev)
    case (BeginWrite i enc)
    show ?thesis
    proof (cases "io_users s i = Idle")
      case True
      have "pc_ok i (ws_got (io_streams s i)) (sent_bytes (io_sent s i)) (io_users s i)" "set (io_pool s) \<subseteq> {new_writer}"
        using Cons.prems by (simp_all add: io_inv_def)
      then show ?thesis using BeginWrite True by (auto intro!: io_invI [OF Cons.prems, of _ i])
    qed (use BeginWrite Cons.prems in simp)
  next
    case (WriteStep i k)
    then show ?thesis using WriteMsg_step_inv [OF Cons.prems] by simp
  qed
  then show ?case using Cons.IH by auto
qed simp

lemma io_inv_init: "io_inv (io_init plan)"
  by (simp add: io_inv_def io_init_def sent_bytes_def)

text \<open>The message a stream may have a part of.\<close>

fun in_hand :: "write_pc \<Rightarrow> bytes option" where
  "in_hand Idle = None"
| "in_hand (Getting enc) = None"
| "in_hand (Writing enc b chunks) = Some (enc_bytes enc)"
| "in_hand (Flushing enc b) = Some (enc_bytes enc)"
| "in_hand (Putting enc b err) = Some (enc_bytes enc)"
| "in_hand (GivenUp enc err) = Some (enc_bytes enc)"

lemma pc_ok_in_hand:
  assumes "pc_ok i got sent pc"
  shows "case in_hand pc of None \<Rightarrow> got = sent | Some m \<Rightarrow> \<exists>part. got = sent @ part \<and> prefix part m"
proof -
  have "\<exists>part. got = sent @ part \<and> prefix part m" if "prefix sent got" "prefix got (sent @ m)" for m
    using that by (auto simp: prefix_def)
  moreover have "prefix got (sent @ m)" if "got @ rest = sent @ m" for rest m using that by (metis prefixI)
  ultimately show ?thesis using assms by (cases pc) (auto split: if_splits)
qed

section \<open>Properties\<close>

text \<open>C35: However the goroutines that write messages to different streams interleave, whichever writers the pool hands them and
  however the streams fail, no call panics, and every stream carries exactly the messages whose call returned nil, in
  order and whole, and behind them at most a beginning of the message in hand, or of the one it was given up with: no byte
  and no error is carried over from one stream to another by a writer. The writers in the pool are as good as new.\<close>

theorem streams_carry_messages:
  "\<exists>s. io_run evs (io_init plan) = Some s \<and> set (io_pool s) \<subseteq> {new_writer} \<and>
     (\<forall>i. case in_hand (io_users s i) of
        None \<Rightarrow> ws_got (io_streams s i) = sent_bytes (io_sent s i)
      | Some m \<Rightarrow> \<exists>part. ws_got (io_streams s i) = sent_bytes (io_sent s i) @ part \<and> prefix part m)"
proof -
  obtain s where s: "io_run evs (io_init plan) = Some s" "io_inv s" using io_run_inv [OF io_inv_init] by blast
  then have "set (io_pool s) \<subseteq> {new_writer}"
    "pc_ok i (ws_got (io_streams s i)) (sent_bytes (io_sent s i)) (io_users s i)" for i by (simp_all add: io_inv_def)
  with s(1) show ?thesis by (intro exI [of _ s] conjI allI pc_ok_in_hand) simp_all
qed

text \<open>A stream that accepts everything: two messages through one pooled writer arrive in one write each.\<close>

lemma two_messages_arrive:
  "map_option (\<lambda>s. (ws_got (io_streams s 7), length (io_sent s 7), length (io_pool s)))
     (io_run (BeginWrite 7 (Inr [''a'', ''bc'']) # replicate 6 (WriteStep 7 0) @ BeginWrite 7 (Inr [''d'']) # replicate 5 (WriteStep 7 0))
       (io_init (\<lambda>i. []))) = Some (''abcd'', 2, 1)"
  by code_simp

end
