(* ===== verification/Crawler_Sender.thy ===== *)
theory Crawler_Sender
  imports Crawler Messages Stream_IO
begin

text \<open>
  The crawler's message sender (\<^verbatim>\<open>crawler/crawler.go\<close>): one stream per message, written without a buffer, and
  what becomes of the streams that the query of a peer opens.

  The host opens a stream or fails; how writes to it end, what the peer answers and whether the context ends
  before the answer is the network's part of an exchange. The encoding of messages is a parameter.
\<close>

section \<open>Streams of the sender\<close>

datatype stream_end = StreamOpen | StreamClosed | StreamReset

record crawl_stream =
  cs_out :: ostream
  cs_end :: stream_end

text \<open>Closing a stream that was reset leaves it reset.\<close>

definition stream_Close :: "crawl_stream \<Rightarrow> crawl_stream" where
  "stream_Close s = s\<lparr>cs_end := (if cs_end s = StreamReset then StreamReset else StreamClosed)\<rparr>"

definition stream_Reset :: "crawl_stream \<Rightarrow> crawl_stream" where
  "stream_Reset s = s\<lparr>cs_end := StreamReset\<rparr>"

text \<open>The delimited writer on a stream: the pieces of the message, up to an error.\<close>

fun stream_write :: "bytes list \<Rightarrow> crawl_stream \<Rightarrow> string option \<times> crawl_stream" where
  "stream_write [] s = (None, s)"
| "stream_write (c # cs) s =
     (let (n, err, out) = ws_Write c (cs_out s); s = s\<lparr>cs_out := out\<rparr>
      in case err of None \<Rightarrow> stream_write cs s | Some e \<Rightarrow> (Some e, s))"

definition stream_WriteMsg :: "encoded \<Rightarrow> crawl_stream \<Rightarrow> string option \<times> crawl_stream" where
  "stream_WriteMsg enc s = (case enc of Inl err \<Rightarrow> (Some err, s) | Inr chunks \<Rightarrow> stream_write chunks s)"

text \<open>
  The read runs in a goroutine of its own; the context may end first. When both have happened
  the \<^verbatim>\<open>select\<close> takes either, which is the network's choice here.
\<close>

datatype crawl_read = ReadDone "string + Message" | CtxDone string

record exchange =
  ex_NewStream :: "string option"
  ex_plan :: "(nat \<times> string) option list"
  ex_read :: crawl_read

fun crawler_ctxReadMsg :: "crawl_read \<Rightarrow> string + Message" where
  "crawler_ctxReadMsg (ReadDone r) = r"
| "crawler_ctxReadMsg (CtxDone err) = Inl err"

definition open_stream :: "exchange \<Rightarrow> crawl_stream" where
  "open_stream ex = \<lparr>cs_out = \<lparr>ws_got = [], ws_plan = ex_plan ex\<rparr>, cs_end = StreamOpen\<rparr>"

text \<open>The answer, and the stream as the call leaves it, if one was opened.\<close>

definition crawler_SendRequest :: "(Message \<Rightarrow> encoded) \<Rightarrow> exchange \<Rightarrow> Message \<Rightarrow> (string + Message) \<times> crawl_stream option" where
  "crawler_SendRequest enc ex pmes =
     (case ex_NewStream ex of
        Some err \<Rightarrow> (Inl err, None)
      | None \<Rightarrow>
          (case stream_WriteMsg (enc pmes) (open_stream ex) of
             (Some err, s) \<Rightarrow> (Inl err, Some s)
           | (None, s) \<Rightarrow>
               (case crawler_ctxReadMsg (ex_read ex) of
                  Inl err \<Rightarrow> (Inl err, Some (stream_Close (stream_Reset s)))
                | Inr msg \<Rightarrow> (Inr msg, Some (stream_Close s)))))"

definition crawler_SendMessage :: "(Message \<Rightarrow> encoded) \<Rightarrow> exchange \<Rightarrow> Message \<Rightarrow> string option \<times> crawl_stream option" where
  "crawler_SendMessage enc ex pmes =
     (case ex_NewStream ex of
        Some err \<Rightarrow> (Some err, None)
      | None \<Rightarrow> (let (err, s) = stream_WriteMsg (enc pmes) (open_stream ex) in (err, Some (stream_Close s))))"

section \<open>The query of a peer with its streams\<close>

text \<open>
  What the crawler knows of the network: the exchange it has with a peer for a target. The sender of the messenger is
  \<open>crawler_SendRequest\<close> in that exchange, and every request that opened a stream leaves it behind, in order.
\<close>

type_synonym crawl_net = "peer_id \<Rightarrow> peer_id \<Rightarrow> exchange"

definition request_of :: "(Message \<Rightarrow> encoded) \<Rightarrow> crawl_net \<Rightarrow> send_request" where
  "request_of enc net p pmes = fst (crawler_SendRequest enc (net p (m_Key pmes)) pmes)"

definition stream_of :: "(Message \<Rightarrow> encoded) \<Rightarrow> crawl_net \<Rightarrow> peer_id \<Rightarrow> Message \<Rightarrow> crawl_stream list" where
  "stream_of enc net p pmes =
     (case snd (crawler_SendRequest enc (net p (m_Key pmes)) pmes) of None \<Rightarrow> [] | Some s \<Rightarrow> [s])"

definition crawler_query_env :: "(bytes \<Rightarrow> bool) \<Rightarrow> (Message \<Rightarrow> encoded) \<Rightarrow> crawl_net \<Rightarrow> (messenger_error \<Rightarrow> string) \<Rightarrow>
    string option \<Rightarrow> (AddrInfo \<Rightarrow> string option) \<Rightarrow> (nat \<Rightarrow> peer_id option) \<Rightarrow> crawl_env" where
  "crawler_query_env validAddr enc net show_err newTableErr connectErr gen =
     \<lparr>ce_newTableErr = newTableErr, ce_connectErr = connectErr, ce_genRandPeerID = gen,
      ce_GetClosestPeers = (\<lambda>p target.
        case pm_GetClosestPeers validAddr (request_of enc net) p target of Inl err \<Rightarrow> Inl (show_err err) | Inr peers \<Rightarrow> Inr peers)\<rparr>"

text \<open>The requests of a query: one per prefix length, up to the first that fails.\<close>

fun query_requests :: "crawl_env \<Rightarrow> peer_id \<Rightarrow> nat list \<Rightarrow> Message list" where
  "query_requests env p [] = []"
| "query_requests env p (cpl # cpls) =
     (case ce_genRandPeerID env cpl of
        None \<Rightarrow> []
      | Some target \<Rightarrow>
          NewMessage FIND_NODE target 0 #
            (case ce_GetClosestPeers env p target of Inl err \<Rightarrow> [] | Inr peers \<Rightarrow> query_requests env p cpls))"

definition query_streams :: "(Message \<Rightarrow> encoded) \<Rightarrow> crawl_net \<Rightarrow> crawl_env \<Rightarrow> AddrInfo \<Rightarrow> crawl_stream list" where
  "query_streams enc net env nextPeer =
     (if ce_newTableErr env \<noteq> None \<or> ce_connectErr env nextPeer \<noteq> None then []
      else concat (map (stream_of enc net (ai_ID nextPeer)) (query_requests env (ai_ID nextPeer) [0..<16])))"

section \<open>What a call does to its stream\<close>

lemma ws_Write_got: "ws_Write c s = (n, err, s') \<Longrightarrow> prefix (ws_got s) (ws_got s') \<and> prefix (ws_got s') (ws_got s @ c) \<and>
    (err = None \<longrightarrow> ws_got s' = ws_got s @ c)"
  by (auto simp: ws_Write_def take_is_prefix split: list.splits option.splits)

lemma stream_write_spec:
  "stream_write cs s = (err, s') \<Longrightarrow> cs_end s' = cs_end s \<and> prefix (ws_got (cs_out s')) (ws_got (cs_out s) @ concat cs) \<and>
     (err = None \<longrightarrow> ws_got (cs_out s') = ws_got (cs_out s) @ concat cs)"
proof (induction cs arbitrary: s)
  case (Cons c cs)
  obtain n e out where w: "ws_Write c (cs_out s) = (n, e, out)" by (cases "ws_Write c (cs_out s)") auto
  note g = ws_Write_got [OF w]
  show ?case
  proof (cases e)
    case None
    then have "stream_write cs (s\<lparr>cs_out := out\<rparr>) = (err, s')" using Cons.prems w by simp
    from Cons.IH [OF this] show ?thesis using g None by simp
  next
    case (Some e')
    then have "err = Some e'" "s' = s\<lparr>cs_out := out\<rparr>" using Cons.prems w by auto
    moreover have "prefix (ws_got out) ((ws_got (cs_out s) @ c) @ concat cs)" using g by (intro prefix_prefix [of _ "ws_got (cs_out s) @ c"]) simp
    ultimately show ?thesis by simp
  qed
qed simp

lemma stream_WriteMsg_spec:
  "stream_WriteMsg enc (open_stream ex) = (err, s) \<Longrightarrow> cs_end s = StreamOpen \<and> prefix (ws_got (cs_out s)) (enc_bytes enc) \<and>
     (err = None \<longrightarrow> ws_got (cs_out s) = enc_bytes enc)"
  using stream_write_spec [of _ "open_stream ex" err s] by (cases enc) (auto simp: stream_WriteMsg_def open_stream_def)

lemma request_answered:
  assumes "crawler_SendRequest enc ex m = (Inr msg, st)"
  shows "\<exists>s. st = Some s \<and> cs_end s = StreamClosed \<and> ws_got (cs_out s) = enc_bytes (enc m)"
  using assms stream_WriteMsg_spec [of "enc m" ex]
  by (auto simp: crawler_SendRequest_def stream_Close_def split: option.splits prod.splits sum.splits)

text \<open>A request whose write fails leaves its stream open.\<close>

lemma failed_write_leaks:
  assumes "ex_NewStream ex = None" and "stream_WriteMsg (enc m) (open_stream ex) = (Some err, s)"
  shows "crawler_SendRequest enc ex m = (Inl err, Some s) \<and> cs_end s = StreamOpen"
  using assms stream_WriteMsg_spec [OF assms(2)] by (simp add: crawler_SendRequest_def)

lemma message_closes: "snd (crawler_SendMessage enc ex m) = Some s \<Longrightarrow> cs_end s = StreamClosed"
  using stream_WriteMsg_spec [of "enc m" ex]
  by (auto simp: crawler_SendMessage_def stream_Close_def split: option.splits prod.splits)

lemma answered_streams:
  assumes "ce_GetClosestPeers (crawler_query_env validAddr enc net show_err e1 e2 gen) p target = Inr peers"
  shows "\<exists>s. stream_of enc net p (NewMessage FIND_NODE target 0) = [s] \<and> cs_end s = StreamClosed \<and>
    ws_got (cs_out s) = enc_bytes (enc (NewMessage FIND_NODE target 0))"
proof -
  obtain msg st where "crawler_SendRequest enc (net p target) (NewMessage FIND_NODE target 0) = (Inr msg, st)"
    using assms
    by (cases "crawler_SendRequest enc (net p target) (NewMessage FIND_NODE target 0)")
      (auto simp: crawler_query_env_def pm_GetClosestPeers_def request_of_def split: sum.splits)
  then show ?thesis using request_answered [of enc "net p target"] by (fastforce simp: stream_of_def)
qed

lemma stream_of_one: "length (stream_of enc net p m) \<le> 1"
  by (simp add: stream_of_def split: option.split)

definition ended_but_last :: "crawl_stream list \<Rightarrow> bool" where
  "ended_but_last ss \<longleftrightarrow> (\<forall>s\<in>set (butlast ss). cs_end s = StreamClosed)"

lemma ended_but_last_short: "length ss \<le> 1 \<Longrightarrow> ended_but_last ss"
  by (cases ss) (simp_all add: ended_but_last_def)

lemma ended_but_last_Cons: "cs_end s = StreamClosed \<Longrightarrow> ended_but_last ss \<Longrightarrow> ended_but_last (s # ss)"
  by (simp add: ended_but_last_def)

lemma query_cpls_streams:
  fixes validAddr enc net show_err e1 e2 gen p
  defines "env \<equiv> crawler_query_env validAddr enc net show_err e1 e2 gen"
  defines "streams \<equiv> \<lambda>cpls. concat (map (stream_of enc net p) (query_requests env p cpls))"
  shows "ended_but_last (streams cpls)"
    and "query_cpls env p cpls local = Some (Inr found) \<Longrightarrow>
      length (streams cpls) = length cpls \<and> (\<forall>s\<in>set (streams cpls). cs_end s = StreamClosed)"
proof (induction cpls arbitrary: "local")
  case (Cons cpl cpls)
  {
    case 1
    show ?case
    proof (cases "ce_genRandPeerID env cpl")
      case None
      then show ?thesis by (simp add: streams_def ended_but_last_def)
    next
      case (Some target)
      show ?thesis
      proof (cases "ce_GetClosestPeers env p target")
        case (Inl err)
        then show ?thesis using Some stream_of_one by (simp add: streams_def ended_but_last_short)
      next
        case (Inr peers)
        from answered_streams [OF Inr [unfolded env_def]] obtain s where
          "stream_of enc net p (NewMessage FIND_NODE target 0) = [s]" "cs_end s = StreamClosed" by blast
        then show ?thesis using Some Inr Cons.IH(1) by (simp add: streams_def ended_but_last_Cons)
      qed
    qed
  next
    case 2
    then obtain target peers where t: "ce_genRandPeerID env cpl = Some target" "ce_GetClosestPeers env p target = Inr peers"
      "query_cpls env p cpls (fold add_local peers local) = Some (Inr found)"
      by (auto split: option.splits sum.splits)
    from answered_streams [OF t(2) [unfolded env_def]] obtain s where
      "stream_of enc net p (NewMessage FIND_NODE target 0) = [s]" "cs_end s = StreamClosed" by blast
    then show ?case using t Cons.IH(2) [OF t(3)] by (simp add: streams_def)
  }
qed (simp_all add: streams_def ended_but_last_def)

section \<open>Properties\<close>

text \<open>A request of the crawler answers with the peer's message only if the request was written whole, and its stream is then
  closed; if the answer cannot be read in time the stream is reset. Only when the write fails the stream stays open,
  with a beginning of the request on it. A message without an answer always closes its stream.\<close>

theorem crawler_request_stream:
  "(case crawler_SendRequest enc ex m of
      (Inr msg, st) \<Rightarrow> \<exists>s. st = Some s \<and> cs_end s = StreamClosed \<and> ws_got (cs_out s) = enc_bytes (enc m) \<and> ex_read ex = ReadDone (Inr msg)
    | (Inl err, None) \<Rightarrow> ex_NewStream ex = Some err
    | (Inl err, Some s) \<Rightarrow> prefix (ws_got (cs_out s)) (enc_bytes (enc m)) \<and>
        (cs_end s = StreamReset \<and> ws_got (cs_out s) = enc_bytes (enc m) \<and> (ex_read ex = ReadDone (Inl err) \<or> ex_read ex = CtxDone err) \<or>
         cs_end s = StreamOpen \<and> fst (stream_WriteMsg (enc m) (open_stream ex)) = Some err)) \<and>
   (case snd (crawler_SendMessage enc ex m) of None \<Rightarrow> ex_NewStream ex \<noteq> None | Some s \<Rightarrow> cs_end s = StreamClosed)"
proof (rule conjI, goal_cases)
  case 1
  show ?case
    using stream_WriteMsg_spec [of "enc m" ex]
    by (cases "ex_read ex")
      (auto simp: crawler_SendRequest_def stream_Close_def stream_Reset_def split: option.splits prod.splits sum.splits)
next
  case 2
  show ?case
    using message_closes [of enc ex m] by (auto simp: crawler_SendMessage_def split: option.split prod.splits)
qed

text \<open>C36: The query of a peer by the crawler leaves at most one of its streams not closed, the last one, and none when it
  succeeds: then it has opened one stream for each of the sixteen prefix lengths and closed them all.\<close>

theorem crawler_query_closes_streams:
  assumes "env = crawler_query_env validAddr enc net show_err newTableErr connectErr gen"
    and "queryPeer env nextPeer = Some r"
  shows "ended_but_last (query_streams enc net env nextPeer) \<and>
    (qr_err r = None \<longrightarrow> length (query_streams enc net env nextPeer) = 16 \<and>
       (\<forall>s\<in>set (query_streams enc net env nextPeer). cs_end s = StreamClosed))"
proof -
  note c = query_cpls_streams [where validAddr = validAddr and enc = enc and net = net and show_err = show_err and ?e1.0 = newTableErr and
    ?e2.0 = connectErr and gen = gen and p = "ai_ID nextPeer" and cpls = "[0..<16]", folded assms(1)]
  have "ended_but_last (query_streams enc net env nextPeer)"
    using c(1) by (simp add: query_streams_def ended_but_last_def)
  moreover have "length (query_streams enc net env nextPeer) = 16 \<and> (\<forall>s\<in>set (query_streams enc net env nextPeer). cs_end s = StreamClosed)"
    if "qr_err r = None"
  proof -
    from assms(2) that obtain found where "ce_newTableErr env = None" "ce_connectErr env nextPeer = None"
      "query_cpls env (ai_ID nextPeer) [0..<16] [] = Some (Inr found)"
      by (auto simp: queryPeer_def split: option.splits sum.splits)
    then show ?thesis using c(2) by (simp only: query_streams_def) simp
  qed
  ultimately show ?thesis by blast
qed

section \<open>Witnesses\<close>

definition demo_exchange :: exchange where
  "demo_exchange = \<lparr>ex_NewStream = None, ex_plan = [], ex_read = ReadDone (Inr (NewMessage FIND_NODE [] 0))\<rparr>"

definition demo_enc :: "Message \<Rightarrow> encoded" where
  "demo_enc m = Inr [''m'', m_Key m]"

definition demo_query_env :: crawl_env where
  "demo_query_env = crawler_query_env (\<lambda>a. True) demo_enc (\<lambda>p t. demo_exchange) (\<lambda>e. ''e'') None (\<lambda>ai. None) (\<lambda>c. Some ''t'')"

theorem crawler_query_closes_streams_witness:
  "length (query_streams demo_enc (\<lambda>p t. demo_exchange) demo_query_env \<lparr>ai_ID = ''p'', ai_Addrs = []\<rparr>) = 16"
proof -
  have "map_option qr_err (queryPeer demo_query_env \<lparr>ai_ID = ''p'', ai_Addrs = []\<rparr>) = Some None" by code_simp
  then obtain r where "queryPeer demo_query_env \<lparr>ai_ID = ''p'', ai_Addrs = []\<rparr> = Some r" "qr_err r = None" by auto
  with crawler_query_closes_streams [OF demo_query_env_def this(1)] show ?thesis by blast
qed

end
