(* ===== verification/Filters.thy ===== *)
theory Filters
  imports Go_Std
begin

unbundle bit_operations_syntax

text \<open>
  Which addresses and peers the DHT considers (\<^verbatim>\<open>dht_filters.go\<close>): public and private addresses,
  relayed ones, the query and routing table filters of both kinds, and the cached router.

  IP addresses and networks are those of Go's package \<^verbatim>\<open>net\<close>. The reading of multiaddresses, the lists
  of private and unroutable networks, the host and the operating system's routes are third-party:
  parameters. The cached router is of an arbitrary type.
\<close>

section \<open>IP addresses\<close>

type_synonym ip = "8 word list"

record ip_net =
  in_IP :: ip
  in_Mask :: ip

definition To4 :: "ip \<Rightarrow> ip option" where
  "To4 i =
     (if length i = 4 then Some i
      else if length i = 16 \<and> take 10 i = replicate 10 0 \<and> i ! 10 = 255 \<and> i ! 11 = 255 then Some (drop 12 i)
      else None)"

definition ip_Equal :: "ip \<Rightarrow> ip \<Rightarrow> bool" where
  "ip_Equal a b =
     (if length a = length b then a = b
      else if length a = 4 \<and> length b = 16
      then take 12 b = replicate 10 0 @ [255, 255] \<and> a = drop 12 b
      else if length a = 16 \<and> length b = 4
      then take 12 a = replicate 10 0 @ [255, 255] \<and> drop 12 a = b
      else False)"

definition networkNumberAndMask :: "ip_net \<Rightarrow> (ip \<times> ip) option" where
  "networkNumberAndMask n =
     (let i = (case To4 (in_IP n) of Some i \<Rightarrow> Some i | None \<Rightarrow> if length (in_IP n) = 16 then Some (in_IP n) else None)
      in case i of
           None \<Rightarrow> None
         | Some i \<Rightarrow>
             if length (in_Mask n) = 4 then (if length i = 4 then Some (i, in_Mask n) else None)
             else if length (in_Mask n) = 16
             then (if length i = 4 then Some (i, drop 12 (in_Mask n)) else Some (i, in_Mask n))
             else None)"

definition net_Contains :: "ip_net \<Rightarrow> ip \<Rightarrow> bool" where
  "net_Contains n i =
     (case networkNumberAndMask n of
        None \<Rightarrow> length (case To4 i of Some j \<Rightarrow> j | None \<Rightarrow> i) = 0
      | Some (nn, m) \<Rightarrow>
          (let i = (case To4 i of Some j \<Rightarrow> j | None \<Rightarrow> i)
           in length i = length nn \<and> map2 (AND) nn m = map2 (AND) i m))"

text \<open>The network \<^verbatim>\<open>2000::/3\<close>.\<close>

definition public6 :: ip_net where
  "public6 = \<lparr>in_IP = 32 # replicate 15 0, in_Mask = 224 # replicate 15 0\<rparr>"

definition inAddrRange :: "ip \<Rightarrow> ip_net list \<Rightarrow> bool" where
  "inAddrRange i ipnets = list_ex (\<lambda>n. net_Contains n i) ipnets"

definition isEUI :: "ip \<Rightarrow> bool" where
  "isEUI i = (length i = 16 \<and> i ! 11 = 255 \<and> i ! 12 = 254)"

definition sameV6Net :: "ip \<Rightarrow> ip \<Rightarrow> bool" where
  "sameV6Net a b = (length a = 16 \<and> length b = 16 \<and> take 8 a = take 8 b)"

section \<open>Addresses\<close>

record 'r filter_env =
  fe_ToIP :: "multiaddr \<Rightarrow> ip option"
  fe_protocols :: "multiaddr \<Rightarrow> nat list"
  fe_P_CIRCUIT :: nat
  fe_Private4 :: "ip_net list"
  fe_Unroutable4 :: "ip_net list"
  fe_Unroutable6 :: "ip_net list"
  fe_hostAddrs :: "multiaddr list"
  fe_PeerInfo :: "peer_id \<Rightarrow> AddrInfo"
  fe_Route :: "'r \<Rightarrow> ip \<Rightarrow> string + ip option"

definition isPublicAddr :: "'r filter_env \<Rightarrow> multiaddr \<Rightarrow> bool" where
  "isPublicAddr env a =
     (case fe_ToIP env a of
        None \<Rightarrow> False
      | Some i \<Rightarrow>
          if To4 i \<noteq> None
          then \<not> inAddrRange i (fe_Private4 env) \<and> \<not> inAddrRange i (fe_Unroutable4 env)
          else net_Contains public6 i)"

definition isPrivateAddr :: "'r filter_env \<Rightarrow> multiaddr \<Rightarrow> bool" where
  "isPrivateAddr env a =
     (case fe_ToIP env a of
        None \<Rightarrow> False
      | Some i \<Rightarrow>
          if To4 i \<noteq> None then inAddrRange i (fe_Private4 env)
          else \<not> net_Contains public6 i \<and> \<not> inAddrRange i (fe_Unroutable6 env))"

text \<open>\<^verbatim>\<open>ma.ForEach\<close> visits the components until the callback returns false.\<close>

fun relay_from :: "nat \<Rightarrow> nat list \<Rightarrow> bool \<Rightarrow> bool" where
  "relay_from circuit [] found = found"
| "relay_from circuit (c # cs) found =
     (let found = (c = circuit) in if \<not> found then relay_from circuit cs found else found)"

definition isRelayAddr :: "'r filter_env \<Rightarrow> multiaddr \<Rightarrow> bool" where
  "isRelayAddr env a = relay_from (fe_P_CIRCUIT env) (fe_protocols env a) False"

section \<open>Query filters\<close>

definition PublicQueryFilter :: "'r filter_env \<Rightarrow> AddrInfo \<Rightarrow> bool" where
  "PublicQueryFilter env ai =
     (if length (ai_Addrs ai) = 0 then False
      else fold (\<lambda>a hasPublicAddr. if \<not> isRelayAddr env a \<and> isPublicAddr env a then True else hasPublicAddr)
             (ai_Addrs ai) False)"

definition PrivateQueryFilter :: "AddrInfo \<Rightarrow> bool" where
  "PrivateQueryFilter ai = (length (ai_Addrs ai) > 0)"

section \<open>Routing table filters\<close>

text \<open>The remote peers and addresses of the connections to the peer.\<close>

definition PublicRoutingTableFilter :: "'r filter_env \<Rightarrow> (peer_id \<times> multiaddr) list \<Rightarrow> bool" where
  "PublicRoutingTableFilter env conns =
     (case conns of
        [] \<Rightarrow> False
      | (pid, _) # _ \<Rightarrow>
          list_ex (\<lambda>a. \<not> isRelayAddr env a \<and> isPublicAddr env a) (ai_Addrs (fe_PeerInfo env pid)))"

text \<open>
  The router cache: \<open>cache1\<close> and \<open>now1\<close> are what a call reads first, \<open>cache2\<close> and \<open>now2\<close> what it finds
  once it holds the lock for writing; another call may have run in between. \<open>fresh\<close> is the router the
  operating system gives.
\<close>

record 'r router_cache =
  rc_router :: "'r option"
  rc_expires :: instant

definition routerCacheTime :: int where
  "routerCacheTime = 2 * 60 * 1000000000"

definition getCachedRouter :: "instant \<Rightarrow> 'r router_cache \<Rightarrow> instant \<Rightarrow> 'r router_cache \<Rightarrow> 'r option \<Rightarrow>
    'r option \<times> 'r router_cache" where
  "getCachedRouter now1 cache1 now2 cache2 fresh =
     (let router = rc_router cache1; expires = rc_expires cache1 in
      if now1 < expires then (router, cache1)
      else if now2 < rc_expires cache2 then (router, cache2)
      else (router, \<lparr>rc_router = fresh, rc_expires = now2 + routerCacheTime\<rparr>))"

fun near_advertised :: "ip \<Rightarrow> ip list \<Rightarrow> bool" where
  "near_advertised i [] = False"
| "near_advertised i (j # js) =
     (if ip_Equal j i then True
      else if To4 i = None \<and> To4 j = None \<and> isEUI i \<and> sameV6Net j i then True
      else near_advertised i js)"

fun private_conns :: "'r filter_env \<Rightarrow> 'r option \<Rightarrow> ip list \<Rightarrow> multiaddr list \<Rightarrow> bool" where
  "private_conns env router ips [] = False"
| "private_conns env router ips (ra # ras) =
     (if isPrivateAddr env ra \<and> \<not> isRelayAddr env ra then True
      else if isPublicAddr env ra
      then (case fe_ToIP env ra of
              None \<Rightarrow> private_conns env router ips ras
            | Some i \<Rightarrow>
                if near_advertised i ips then True
                else (case router of
                        None \<Rightarrow> private_conns env router ips ras
                      | Some r \<Rightarrow>
                          if fe_Route env r i = Inr None then True
                          else private_conns env router ips ras))
      else private_conns env router ips ras)"

definition privRTFilter :: "'r filter_env \<Rightarrow> 'r option \<Rightarrow> multiaddr list \<Rightarrow> bool" where
  "privRTFilter env router conns =
     (let myAdvertisedIPs = List.map_filter (\<lambda>a. if isPublicAddr env a \<and> \<not> isRelayAddr env a then fe_ToIP env a else None)
            (fe_hostAddrs env)
      in private_conns env router myAdvertisedIPs conns)"

section \<open>Lemmas\<close>

lemma isRelayAddr_iff: "isRelayAddr env a \<longleftrightarrow> fe_P_CIRCUIT env \<in> set (fe_protocols env a)"
proof -
  have "relay_from c cs False \<longleftrightarrow> c \<in> set cs" for c cs
    by (induction cs) (auto simp: Let_def)
  then show ?thesis by (simp add: isRelayAddr_def)
qed

lemma PublicQueryFilter_iff:
  "PublicQueryFilter env ai \<longleftrightarrow> (\<exists>a\<in>set (ai_Addrs ai). \<not> isRelayAddr env a \<and> isPublicAddr env a)"
proof -
  have "fold (\<lambda>a b. if P a then True else b) as b \<longleftrightarrow> b \<or> (\<exists>a\<in>set as. P a)" for P :: "multiaddr \<Rightarrow> bool" and as b
    by (induction as arbitrary: b) auto
  then show ?thesis by (auto simp: PublicQueryFilter_def)
qed

text \<open>An address of sixteen bytes that is no embedded IPv4 address is in \<^verbatim>\<open>2000::/3\<close> by its first byte.\<close>

lemma public6_first_byte:
  assumes "length i = 16" and "To4 i = None"
  shows "net_Contains public6 i \<longleftrightarrow> i ! 0 AND 224 = 32"
proof -
  obtain b bs where i: "i = b # bs" "length bs = 15" using assms(1) by (cases i) auto
  have "To4 (in_IP public6) = None" by (simp add: public6_def To4_def)
  then have n: "networkNumberAndMask public6 = Some (in_IP public6, in_Mask public6)"
    by (simp add: networkNumberAndMask_def public6_def)
  have z: "map2 (AND) xs (replicate (length xs) 0) = replicate (length xs) (0 :: 8 word)" for xs
    by (induction xs) auto
  have "map2 (AND) bs (replicate 15 0) = replicate 15 (0 :: 8 word)" using z [of bs] i(2) by simp
  moreover have "map2 (AND) (replicate 15 0) (replicate 15 0) = replicate 15 (0 :: 8 word)" by (simp add: numeral_eq_Suc)
  ultimately show ?thesis
    using assms unfolding net_Contains_def n option.case prod.case Let_def
    by (simp add: public6_def i)
qed

text \<open>
  Successive calls of one goroutine: a call returns the router that the last earlier refresh found,
  and none when there was no earlier one, also when it refreshes the cache itself. So the first call
  never returns a router, and the first one after an expiry returns the one that has expired.
\<close>

fun router_calls :: "(instant \<times> 'r option) list \<Rightarrow> 'r router_cache \<Rightarrow> 'r option list" where
  "router_calls [] c = []"
| "router_calls ((now, fresh) # calls) c =
     (let (r, c') = getCachedRouter now c now c fresh in r # router_calls calls c')"

lemma router_of_call:
  "fst (getCachedRouter now c now c fresh) = rc_router c"
  "rc_router (snd (getCachedRouter now c now c fresh)) = (if now < rc_expires c then rc_router c else fresh)"
  by (simp_all add: getCachedRouter_def Let_def)

lemma router_calls_stale:
  assumes "rc_expires c \<le> t1" and "t1 + routerCacheTime \<le> t2"
  shows "router_calls [(t1, fresh1), (t2, fresh2)] c = [rc_router c, fresh1]"
  using assms by (simp add: getCachedRouter_def Let_def)

lemma private_conns_spec:
  "private_conns env router ips ras \<longleftrightarrow>
     (\<exists>ra\<in>set ras. isPrivateAddr env ra \<and> \<not> isRelayAddr env ra \<or>
        isPublicAddr env ra \<and> (\<exists>i. fe_ToIP env ra = Some i \<and>
          (near_advertised i ips \<or> (\<exists>r. router = Some r \<and> fe_Route env r i = Inr None))))"
  by (induction ras) (auto split: option.splits)

lemma near_advertised_spec:
  "near_advertised i ips \<longleftrightarrow> (\<exists>j\<in>set ips. ip_Equal j i \<or> To4 i = None \<and> To4 j = None \<and> isEUI i \<and> sameV6Net j i)"
  by (induction ips) auto

section \<open>Properties\<close>

text \<open>The filters tell public from private peers: no address is both public and private; an IPv6
  address is public by its first three bits alone; a peer is queried in the public network exactly
  when one of its addresses is public and not relayed; and in the private one a connection makes its
  peer local through a private direct address, through the host's own public address or network, or
  through a route without a gateway, and through nothing else.\<close>

theorem filters_exact:
  "\<not> (isPublicAddr env a \<and> isPrivateAddr env a) \<and>
   (case fe_ToIP env a of
      Some i \<Rightarrow> (if length i = 16 \<and> To4 i = None then isPublicAddr env a = (i ! 0 AND 224 = 32) else True)
    | None \<Rightarrow> \<not> isPublicAddr env a \<and> \<not> isPrivateAddr env a) \<and>
   (PublicQueryFilter env ai = (\<exists>b\<in>set (ai_Addrs ai). fe_P_CIRCUIT env \<notin> set (fe_protocols env b) \<and> isPublicAddr env b)) \<and>
   (privRTFilter env router conns =
     (\<exists>ra\<in>set conns. isPrivateAddr env ra \<and> fe_P_CIRCUIT env \<notin> set (fe_protocols env ra) \<or>
        isPublicAddr env ra \<and> (\<exists>i. fe_ToIP env ra = Some i \<and>
          ((\<exists>h\<in>set (fe_hostAddrs env). isPublicAddr env h \<and> fe_P_CIRCUIT env \<notin> set (fe_protocols env h) \<and>
              (\<exists>j. fe_ToIP env h = Some j \<and>
                 (ip_Equal j i \<or> To4 i = None \<and> To4 j = None \<and> isEUI i \<and> sameV6Net j i))) \<or>
           (\<exists>r. router = Some r \<and> fe_Route env r i = Inr None)))))"
proof -
  let ?ips = "List.map_filter (\<lambda>a. if isPublicAddr env a \<and> \<not> isRelayAddr env a then fe_ToIP env a else None) (fe_hostAddrs env)"
  have ips: "j \<in> set ?ips \<longleftrightarrow> (\<exists>h\<in>set (fe_hostAddrs env). isPublicAddr env h \<and>
      fe_P_CIRCUIT env \<notin> set (fe_protocols env h) \<and> fe_ToIP env h = Some j)" for j
    by (force simp: map_filter_def isRelayAddr_iff split: if_splits)
  have near: "near_advertised i ?ips \<longleftrightarrow> (\<exists>h\<in>set (fe_hostAddrs env). isPublicAddr env h \<and>
      fe_P_CIRCUIT env \<notin> set (fe_protocols env h) \<and> (\<exists>j. fe_ToIP env h = Some j \<and>
        (ip_Equal j i \<or> To4 i = None \<and> To4 j = None \<and> isEUI i \<and> sameV6Net j i)))" for i
    unfolding near_advertised_spec Bex_def ips by blast
  have 1: "\<not> (isPublicAddr env a \<and> isPrivateAddr env a)"
    by (auto simp: isPublicAddr_def isPrivateAddr_def split: option.splits if_splits)
  have 2: "case fe_ToIP env a of
      Some i \<Rightarrow> (if length i = 16 \<and> To4 i = None then isPublicAddr env a = (i ! 0 AND 224 = 32) else True)
    | None \<Rightarrow> \<not> isPublicAddr env a \<and> \<not> isPrivateAddr env a"
    by (auto simp: isPublicAddr_def isPrivateAddr_def public6_first_byte split: option.splits)
  have 3: "PublicQueryFilter env ai = (\<exists>b\<in>set (ai_Addrs ai). fe_P_CIRCUIT env \<notin> set (fe_protocols env b) \<and> isPublicAddr env b)"
    by (simp add: PublicQueryFilter_iff isRelayAddr_iff)
  show ?thesis
    unfolding privRTFilter_def Let_def private_conns_spec near
    unfolding isRelayAddr_iff by (intro conjI 1 2 3 refl)
qed

end
