(* ===== verification/Dual.thy ===== *)
theory Dual
  imports DHT_Prelude
begin

text \<open>
  The dual DHT (\<^verbatim>\<open>dual/dual.go\<close>): one DHT for the wide area network and one for the local one, behind one
  interface. What the two DHTs answer is an input; the merging, choosing and combining is the model.
  \<open>SearchValue\<close> and \<open>GetPublicKey\<close> are calls of a third-party helper, a parameter; query events are
  modelled as far as the merging loop treats them. Tracing is left out.
\<close>

section \<open>Errors\<close>

text \<open>\<^verbatim>\<open>multierr.Append\<close> keeps the errors it is given in order; no error is \<open>None\<close>.\<close>

datatype dual_error = DualLookupFailure | DualError string | DualMulti dual_error dual_error

definition multierr_Append :: "dual_error option \<Rightarrow> dual_error option \<Rightarrow> dual_error option" where
  "multierr_Append a b =
     (case (a, b) of
        (None, _) \<Rightarrow> b
      | (Some _, None) \<Rightarrow> a
      | (Some e, Some f) \<Rightarrow> Some (DualMulti e f))"

definition combineErrors :: "dual_error option \<Rightarrow> dual_error option \<Rightarrow> dual_error option" where
  "combineErrors erra errb =
     (if erra = errb then erra
      else if erra = Some DualLookupFailure then errb
      else if errb = Some DualLookupFailure then erra
      else multierr_Append erra errb)"

section \<open>Operations that choose one DHT\<close>

definition WANActive :: "nat \<Rightarrow> bool" where
  "WANActive wanTableSize = (wanTableSize > 0)"

definition dual_Provide :: "nat \<Rightarrow> 'r \<Rightarrow> 'r \<Rightarrow> 'r" where
  "dual_Provide wanTableSize wan lan = (if WANActive wanTableSize then wan else lan)"

definition dual_PutValue :: "nat \<Rightarrow> 'r \<Rightarrow> 'r \<Rightarrow> 'r" where
  "dual_PutValue wanTableSize wan lan = (if WANActive wanTableSize then wan else lan)"

definition GetRoutingTableDiversityStats :: "nat \<Rightarrow> 's list \<Rightarrow> 's list" where
  "GetRoutingTableDiversityStats wanTableSize wanStats = (if WANActive wanTableSize then wanStats else [])"

definition dual_Bootstrap :: "dual_error option \<Rightarrow> dual_error option \<Rightarrow> dual_error option" where
  "dual_Bootstrap erra errb = combineErrors erra errb"

definition dual_Close :: "dual_error option \<Rightarrow> dual_error option \<Rightarrow> dual_error option" where
  "dual_Close erra errb = combineErrors erra errb"

section \<open>Getting a value\<close>

text \<open>The LAN's search runs under a context that is cancelled when the WAN succeeds.\<close>

definition dual_GetValue :: "bytes \<times> dual_error option \<Rightarrow> (bool \<Rightarrow> bytes \<times> dual_error option) \<Rightarrow>
    bytes \<times> dual_error option" where
  "dual_GetValue wan lan =
     (let (wanVal, wanErr) = wan;
          (lanVal, lanErr) = lan (wanErr = None)
      in if wanErr = None then (wanVal, None)
         else if lanErr = None then (lanVal, None)
         else ([], combineErrors wanErr lanErr))"

section \<open>Searching with the third-party helper\<close>

text \<open>\<^verbatim>\<open>helper.Parallel\<close> of \<^verbatim>\<open>go-libp2p-routing-helpers\<close>: the fields the code sets. Its methods are parameters.\<close>

record ('d, 'v) Parallel =
  hp_Routers :: "'d list"
  hp_Validator :: 'v

definition dual_SearchValue :: "(('d, 'v) Parallel \<Rightarrow> string \<Rightarrow> 'o list \<Rightarrow> 'r) \<Rightarrow> ('d \<Rightarrow> 'v) \<Rightarrow> 'd \<Rightarrow> 'd \<Rightarrow>
    string \<Rightarrow> 'o list \<Rightarrow> 'r" where
  "dual_SearchValue Parallel_SearchValue validatorOf wan lan key opts =
     (let p = \<lparr>hp_Routers = [wan, lan], hp_Validator = validatorOf wan\<rparr> in Parallel_SearchValue p key opts)"

definition dual_GetPublicKey :: "(('d, 'v) Parallel \<Rightarrow> peer_id \<Rightarrow> 'r) \<Rightarrow> ('d \<Rightarrow> 'v) \<Rightarrow> 'd \<Rightarrow> 'd \<Rightarrow> peer_id \<Rightarrow> 'r" where
  "dual_GetPublicKey Parallel_GetPublicKey validatorOf wan lan pid =
     (let p = \<lparr>hp_Routers = [wan, lan], hp_Validator = validatorOf wan\<rparr> in Parallel_GetPublicKey p pid)"

section \<open>Finding a peer\<close>

text \<open>The combined addresses come out of a map; the model takes its order of insertion.\<close>

definition dual_FindPeer :: "peer_id \<Rightarrow> AddrInfo \<times> dual_error option \<Rightarrow> AddrInfo \<times> dual_error option \<Rightarrow>
    AddrInfo \<times> dual_error option" where
  "dual_FindPeer pid wan lan =
     (let (wanInfo, wanErr) = wan; (lanInfo, lanErr) = lan;
          addrs = (if length (ai_Addrs wanInfo) = 0 then ai_Addrs lanInfo
                   else if length (ai_Addrs lanInfo) = 0 then ai_Addrs wanInfo
                   else map fst (fold (\<lambda>a m. gm_put a a m) (ai_Addrs wanInfo @ ai_Addrs lanInfo) []));
          ai = \<lparr>ai_ID = pid, ai_Addrs = addrs\<rparr>
      in if wanErr = None \<or> lanErr = None then (ai, None) else (ai, combineErrors wanErr lanErr))"

section \<open>Finding providers\<close>

text \<open>
  The merging loop: an event is what its \<^verbatim>\<open>select\<close> yields, \<open>None\<close> for a closed channel; the flag of a
  provider is whether the reader takes it before the context ends. A query event is whether it is an
  error event. A nil channel yields nothing, so an event of a closed channel does not occur.
\<close>

datatype dual_event = QueryEvent "bool option" | WanEvent "AddrInfo option" bool | LanEvent "AddrInfo option" bool

record merge_state =
  mg_count :: int
  mg_wanOpen :: bool
  mg_lanOpen :: bool
  mg_evtOpen :: bool
  mg_found :: "peer_id set"
  mg_qEv :: "bool option"
  mg_out :: "AddrInfo list"
  mg_published :: "bool list"

definition merge_running :: "bool \<Rightarrow> merge_state \<Rightarrow> bool" where
  "merge_running zeroCount s \<longleftrightarrow> (zeroCount \<or> mg_count s > 0) \<and> (mg_wanOpen s \<or> mg_lanOpen s)"

text \<open>After a provider was received; the second result is whether the context ended.\<close>

definition offer :: "AddrInfo \<Rightarrow> bool \<Rightarrow> merge_state \<Rightarrow> merge_state \<times> bool" where
  "offer pi taken s =
     (if ai_ID pi \<in> mg_found s then (s, False)
      else if taken
      then (s\<lparr>mg_out := mg_out s @ [pi], mg_found := insert (ai_ID pi) (mg_found s), mg_count := mg_count s - 1\<rparr>, False)
      else (s, True))"

definition merge_step :: "dual_event \<Rightarrow> merge_state \<Rightarrow> (merge_state \<times> bool) option" where
  "merge_step ev s =
     (case ev of
        QueryEvent q \<Rightarrow>
          if \<not> mg_evtOpen s then None
          else (case q of
                  None \<Rightarrow> Some (s\<lparr>mg_evtOpen := False, mg_qEv := None\<rparr>, False)
                | Some isErr \<Rightarrow>
                    Some (s\<lparr>mg_qEv := Some isErr,
                            mg_published := (if \<not> isErr then mg_published s @ [isErr] else mg_published s)\<rparr>, False))
      | WanEvent pi taken \<Rightarrow>
          if \<not> mg_wanOpen s then None
          else (case pi of None \<Rightarrow> Some (s\<lparr>mg_wanOpen := False\<rparr>, False) | Some pi \<Rightarrow> Some (offer pi taken s))
      | LanEvent pi taken \<Rightarrow>
          if \<not> mg_lanOpen s then None
          else (case pi of None \<Rightarrow> Some (s\<lparr>mg_lanOpen := False\<rparr>, False) | Some pi \<Rightarrow> Some (offer pi taken s)))"

text \<open>
  The loop consumes events while it runs and returns the events left and whether the context ended;
  \<open>None\<close> while it waits or when the events do not fit.
\<close>

fun merge_loop :: "bool \<Rightarrow> dual_event list \<Rightarrow> merge_state \<Rightarrow> (merge_state \<times> bool) option" where
  "merge_loop zeroCount evs s =
     (if \<not> merge_running zeroCount s then Some (s, False)
      else case evs of
        [] \<Rightarrow> None
      | ev # es \<Rightarrow>
          (case merge_step ev s of
             None \<Rightarrow> None
           | Some (s, ended) \<Rightarrow> if ended then Some (s, True) else merge_loop zeroCount es s))"

definition dual_FindProvidersAsync :: "int \<Rightarrow> bool \<Rightarrow> dual_event list \<Rightarrow> (AddrInfo list \<times> bool list) option" where
  "dual_FindProvidersAsync cnt subscribes evs =
     (case merge_loop (cnt = 0) evs
             \<lparr>mg_count = cnt, mg_wanOpen = True, mg_lanOpen = True, mg_evtOpen = subscribes, mg_found = {},
              mg_qEv = None, mg_out = [], mg_published = []\<rparr> of
        None \<Rightarrow> None
      | Some (s, ended) \<Rightarrow>
          Some (mg_out s,
                if \<not> ended \<and> mg_qEv s = Some True \<and> mg_found s = {} then mg_published s @ [True]
                else mg_published s))"

section \<open>Construction\<close>

text \<open>
  The options of both DHTs, as lists: the dual DHT's own first, then the user's, then the mode of the
  LAN DHT, which is a server unless the WAN DHT is a client. Later options override earlier ones.
\<close>

datatype 'o dual_option = WanDHTOption "'o list" | LanDHTOption "'o list" | DHTOption "'o list"

record 'o dual_config =
  dc_wan :: "'o list"
  dc_lan :: "'o list"

fun apply_option :: "'o dual_option \<Rightarrow> 'o dual_config \<Rightarrow> 'o dual_config" where
  "apply_option (WanDHTOption os) c = c\<lparr>dc_wan := dc_wan c @ os\<rparr>"
| "apply_option (LanDHTOption os) c = c\<lparr>dc_lan := dc_lan c @ os\<rparr>"
| "apply_option (DHTOption os) c = c\<lparr>dc_lan := dc_lan c @ os, dc_wan := dc_wan c @ os\<rparr>"

definition dual_config_apply :: "'o dual_option list \<Rightarrow> 'o dual_config \<Rightarrow> 'o dual_config" where
  "dual_config_apply opts c = fold apply_option opts c"

definition dual_New :: "'o list \<Rightarrow> 'o list \<Rightarrow> 'o \<Rightarrow> ('o list \<Rightarrow> bool) \<Rightarrow> 'o dual_option list \<Rightarrow> 'o dual_config" where
  "dual_New wanOwn lanOwn serverMode wanIsClient options =
     (let c = \<lparr>dc_wan = [], dc_lan = []\<rparr>;
          c = dual_config_apply [WanDHTOption wanOwn] c;
          c = dual_config_apply [LanDHTOption lanOwn] c;
          c = dual_config_apply options c
      in if \<not> wanIsClient (dc_wan c) then c\<lparr>dc_lan := dc_lan c @ [serverMode]\<rparr> else c)"

section \<open>Lemmas\<close>

declare merge_loop.simps [simp del]

fun received_provs :: "dual_event list \<Rightarrow> AddrInfo list" where
  "received_provs [] = []"
| "received_provs (WanEvent (Some pi) taken # es) = pi # received_provs es"
| "received_provs (LanEvent (Some pi) taken # es) = pi # received_provs es"
| "received_provs (_ # es) = received_provs es"

definition merge_inv :: "int \<Rightarrow> merge_state \<Rightarrow> bool" where
  "merge_inv cnt s \<longleftrightarrow> distinct (map ai_ID (mg_out s)) \<and> mg_found s = ai_ID ` set (mg_out s) \<and>
     mg_count s = cnt - int (length (mg_out s)) \<and> (0 < cnt \<longrightarrow> 0 \<le> mg_count s)"

lemma merge_step_inv:
  assumes "merge_inv cnt s" and "merge_running (cnt = 0) s" and "merge_step ev s = Some (s', ended)"
  shows "merge_inv cnt s' \<and> (\<forall>p\<in>set (mg_out s'). p \<in> set (mg_out s) \<or> p \<in> set (received_provs [ev])) \<and>
    (\<not> ended \<longrightarrow> mg_found s' = mg_found s \<union> ai_ID ` set (received_provs [ev]))"
proof (cases "\<exists>pi t. ev = WanEvent (Some pi) t \<or> ev = LanEvent (Some pi) t")
  case True
  then obtain pi t where ev: "ev = WanEvent (Some pi) t \<or> ev = LanEvent (Some pi) t" by blast
  then have o: "offer pi t s = (s', ended)" "received_provs [ev] = [pi]"
    using assms(3) by (auto simp: merge_step_def split: if_splits)
  from assms(1,2) o show ?thesis
    by (auto simp: offer_def merge_inv_def merge_running_def split: if_splits)
next
  case False
  then have "received_provs [ev] = []" by (cases "[ev]" rule: received_provs.cases) auto
  moreover from False assms(3) have "mg_out s' = mg_out s \<and> mg_found s' = mg_found s \<and> mg_count s' = mg_count s"
    by (auto simp: merge_step_def split: dual_event.splits option.splits if_splits)
  ultimately show ?thesis using assms(1) by (auto simp: merge_inv_def)
qed

lemma received_provs_Cons: "received_provs (ev # es) = received_provs [ev] @ received_provs es"
  by (cases "ev # es" rule: received_provs.cases) auto

lemma merge_loop_inv:
  "merge_loop (cnt = 0) evs s = Some (s', ended) \<Longrightarrow> merge_inv cnt s \<Longrightarrow>
   merge_inv cnt s' \<and> set (mg_out s') \<subseteq> set (mg_out s) \<union> set (received_provs evs) \<and>
   (\<not> ended \<longrightarrow> \<not> merge_running (cnt = 0) s')"
proof (induction evs arbitrary: s)
  case Nil
  then show ?case by (auto simp: merge_loop.simps [of _ "[]"] split: if_splits)
next
  case (Cons ev evs)
  show ?case
  proof (cases "merge_running (cnt = 0) s")
    case False
    with Cons.prems show ?thesis by (simp add: merge_loop.simps [of _ "ev # evs"])
  next
    case True
    with Cons.prems(1) obtain s1 e1 where st: "merge_step ev s = Some (s1, e1)"
      "if e1 then s' = s1 \<and> ended else merge_loop (cnt = 0) evs s1 = Some (s', ended)"
      by (auto simp: merge_loop.simps [of _ "ev # evs"] split: option.splits if_splits)
    note inv = merge_step_inv [OF Cons.prems(2) True st(1)]
    show ?thesis
    proof (cases e1)
      case True
      with st(2) inv show ?thesis by (auto simp: received_provs_Cons [of ev evs])
    next
      case False
      with st(2) Cons.IH [of s1] inv show ?thesis by (auto simp: received_provs_Cons [of ev evs])
    qed
  qed
qed

lemma merge_step_closes:
  assumes "merge_step ev s = Some (s1, e)"
  shows "(mg_wanOpen s \<and> \<not> mg_wanOpen s1 \<longrightarrow> (\<exists>t. ev = WanEvent None t)) \<and>
    (mg_lanOpen s \<and> \<not> mg_lanOpen s1 \<longrightarrow> (\<exists>t. ev = LanEvent None t))"
  using assms by (auto simp: merge_step_def offer_def split: dual_event.splits option.splits if_splits)

text \<open>Without a bound the loop takes everything until both channels are closed.\<close>

lemma merge_loop_all:
  "merge_loop True evs s = Some (s', False) \<Longrightarrow> merge_inv 0 s \<Longrightarrow>
   \<exists>es1 es2. evs = es1 @ es2 \<and> mg_found s' = mg_found s \<union> ai_ID ` set (received_provs es1) \<and>
     (mg_wanOpen s \<longrightarrow> (\<exists>t. WanEvent None t \<in> set es1)) \<and> (mg_lanOpen s \<longrightarrow> (\<exists>t. LanEvent None t \<in> set es1))"
proof (induction evs arbitrary: s)
  case Nil
  then show ?case
    by (intro exI [of _ "[]"]) (auto simp: merge_loop.simps [of _ "[]"] merge_running_def split: if_splits)
next
  case (Cons ev evs)
  show ?case
  proof (cases "merge_running True s")
    case False
    with Cons.prems show ?thesis
      by (intro exI [of _ "[]"] exI [of _ "ev # evs"]) (auto simp: merge_loop.simps [of _ "ev # evs"] merge_running_def)
  next
    case True
    with Cons.prems(1) obtain s1 where st: "merge_step ev s = Some (s1, False)"
      "merge_loop True evs s1 = Some (s', False)"
      by (auto simp: merge_loop.simps [of _ "ev # evs"] split: option.splits if_splits)
    note inv = merge_step_inv [OF Cons.prems(2) _ st(1)]
    from Cons.IH [OF st(2)] inv True obtain es1 es2 where ih:
      "evs = es1 @ es2" "mg_found s' = mg_found s1 \<union> ai_ID ` set (received_provs es1)"
      "mg_wanOpen s1 \<longrightarrow> (\<exists>t. WanEvent None t \<in> set es1)" "mg_lanOpen s1 \<longrightarrow> (\<exists>t. LanEvent None t \<in> set es1)"
      by auto
    show ?thesis
    proof (intro exI conjI)
      show "ev # evs = (ev # es1) @ es2" by (simp add: ih(1))
      show "mg_found s' = mg_found s \<union> ai_ID ` set (received_provs (ev # es1))"
        using inv True ih(2) by (simp add: received_provs_Cons [of ev es1] image_Un Un_assoc)
      show "mg_wanOpen s \<longrightarrow> (\<exists>t. WanEvent None t \<in> set (ev # es1))"
        using merge_step_closes [OF st(1)] ih(3) by auto
      show "mg_lanOpen s \<longrightarrow> (\<exists>t. LanEvent None t \<in> set (ev # es1))"
        using merge_step_closes [OF st(1)] ih(4) by auto
    qed
  qed
qed

lemma merge_loop_not_ended:
  "merge_loop z evs s = Some (s', ended) \<Longrightarrow>
   \<forall>pi t. WanEvent (Some pi) t \<in> set evs \<or> LanEvent (Some pi) t \<in> set evs \<longrightarrow> t \<Longrightarrow> \<not> ended"
proof (induction evs arbitrary: s)
  case Nil
  then show ?case by (auto simp: merge_loop.simps [of _ "[]"] split: if_splits)
next
  case (Cons ev evs)
  have taken: "\<not> e" if "merge_step ev s = Some (s1, e)" for s1 e
  proof -
    have "\<forall>pi. ev \<noteq> WanEvent (Some pi) False \<and> ev \<noteq> LanEvent (Some pi) False" using Cons.prems(2) by auto
    with that show ?thesis
      by (auto simp: merge_step_def offer_def split: dual_event.splits option.splits if_splits)
  qed
  show ?case
  proof (cases "merge_running z s")
    case False
    with Cons.prems(1) show ?thesis by (simp add: merge_loop.simps [of _ "ev # evs"])
  next
    case True
    with Cons.prems(1) obtain s1 e where st: "merge_step ev s = Some (s1, e)"
      "if e then s' = s1 \<and> ended else merge_loop z evs s1 = Some (s', ended)"
      by (auto simp: merge_loop.simps [of _ "ev # evs"] split: option.splits if_splits)
    with taken have "merge_loop z evs s1 = Some (s', ended)" by simp
    moreover have "\<forall>pi t. WanEvent (Some pi) t \<in> set evs \<or> LanEvent (Some pi) t \<in> set evs \<longrightarrow> t"
      using Cons.prems(2) unfolding list.set by blast
    ultimately show ?thesis by (rule Cons.IH)
  qed
qed

text \<open>What the combination of errors and of addresses amounts to.\<close>

lemma combineErrors_None: "combineErrors a b = None \<longleftrightarrow> a = None \<and> b = None \<or>
    a = None \<and> b = Some DualLookupFailure \<or> a = Some DualLookupFailure \<and> b = None"
  by (auto simp: combineErrors_def multierr_Append_def split: option.splits)

lemma combineErrors_Some: "\<exists>e. combineErrors (Some a) (Some b) = Some e"
  by (simp add: combineErrors_def multierr_Append_def)

lemma fold_keys: "set (map fst (fold (\<lambda>a m. gm_put a a m) xs m)) = set xs \<union> fst ` set m"
  by (induction xs arbitrary: m) (auto simp: update_keys dom_update)

lemma dual_FindPeer_addrs:
  assumes "dual_FindPeer pid (wanInfo, wanErr) (lanInfo, lanErr) = (ai, err)"
  shows "ai_ID ai = pid \<and> set (ai_Addrs ai) = set (ai_Addrs wanInfo) \<union> set (ai_Addrs lanInfo) \<and>
    (err = None \<longleftrightarrow> wanErr = None \<or> lanErr = None)"
  using assms
  by (auto simp: dual_FindPeer_def Let_def fold_keys [simplified] combineErrors_Some split: if_splits)

section \<open>Properties\<close>

text \<open>C19: The providers of both networks are merged: no peer is given out twice, only what one of the DHTs
  found is, and with a bound no more than that; and without a bound, when the reader takes everything,
  the merge ends only after both DHTs have, with each peer that either found given out.\<close>

theorem dual_providers_merged:
  assumes "dual_FindProvidersAsync cnt subscribes evs = Some (out, published)"
  shows "distinct (map ai_ID out) \<and> set out \<subseteq> set (received_provs evs) \<and>
    (0 < cnt \<longrightarrow> int (length out) \<le> cnt) \<and>
    (cnt = 0 \<and> (\<forall>pi t. WanEvent (Some pi) t \<in> set evs \<or> LanEvent (Some pi) t \<in> set evs \<longrightarrow> t) \<longrightarrow>
      (\<exists>es1 es2 t u. evs = es1 @ es2 \<and> WanEvent None t \<in> set es1 \<and> LanEvent None u \<in> set es1 \<and>
        ai_ID ` set out = ai_ID ` set (received_provs es1)))"
proof -
  let ?s = "\<lparr>mg_count = cnt, mg_wanOpen = True, mg_lanOpen = True, mg_evtOpen = subscribes, mg_found = {},
    mg_qEv = None, mg_out = [], mg_published = []\<rparr>"
  from assms obtain s ended where run: "merge_loop (cnt = 0) evs ?s = Some (s, ended)" and out: "out = mg_out s"
    by (auto simp: dual_FindProvidersAsync_def split: option.splits prod.splits)
  have inv0: "merge_inv cnt ?s" by (simp add: merge_inv_def)
  from merge_loop_inv [OF run inv0] have inv: "merge_inv cnt s" "set out \<subseteq> set (received_provs evs)"
    by (simp_all add: out)
  have "\<exists>es1 es2 t u. evs = es1 @ es2 \<and> WanEvent None t \<in> set es1 \<and> LanEvent None u \<in> set es1 \<and>
      ai_ID ` set out = ai_ID ` set (received_provs es1)"
    if "cnt = 0" and taken: "\<forall>pi t. WanEvent (Some pi) t \<in> set evs \<or> LanEvent (Some pi) t \<in> set evs \<longrightarrow> t"
  proof -
    have "\<not> ended" using merge_loop_not_ended [OF run taken] .
    with run \<open>cnt = 0\<close> merge_loop_all [of evs ?s s] inv0 obtain es1 es2 where
      "evs = es1 @ es2" "mg_found s = ai_ID ` set (received_provs es1)"
      "\<exists>t. WanEvent None t \<in> set es1" "\<exists>t. LanEvent None t \<in> set es1" by auto
    moreover have "mg_found s = ai_ID ` set out" using inv(1) by (simp add: merge_inv_def out)
    ultimately show ?thesis by blast
  qed
  then show ?thesis using inv by (auto simp: merge_inv_def out)
qed

theorem dual_providers_merged_witness:
  "\<exists>out. dual_FindProvidersAsync 0 False [WanEvent (Some \<lparr>ai_ID = ''p'', ai_Addrs = []\<rparr>) True,
      LanEvent (Some \<lparr>ai_ID = ''p'', ai_Addrs = [''a'']\<rparr>) True, WanEvent None True, LanEvent None True] =
      Some (out, []) \<and> ai_ID ` set out = {''p''}"
proof -
  let ?evs = "[WanEvent (Some \<lparr>ai_ID = ''p'', ai_Addrs = []\<rparr>) True,
      LanEvent (Some \<lparr>ai_ID = ''p'', ai_Addrs = [''a'']\<rparr>) True, WanEvent None True, LanEvent None True]"
  have "map_option snd (dual_FindProvidersAsync 0 False ?evs) = Some []" by code_simp
  then obtain out where out: "dual_FindProvidersAsync 0 False ?evs = Some (out, [])" by auto
  from dual_providers_merged [OF this] obtain es1 es2 t u where e: "?evs = es1 @ es2"
    "LanEvent None u \<in> set es1" "ai_ID ` set out = ai_ID ` set (received_provs es1)" by auto
  have "es1 = ?evs"
    using e(1,2) by (auto simp: Cons_eq_append_conv)
  with e(3) out show ?thesis by auto
qed

end
