(* ===== verification/RT_Refresh.thy ===== *)
theory RT_Refresh
  imports Go_Std
begin

text \<open>
  Keeping the routing table fresh (\<^verbatim>\<open>rtrefresh/rt_refresh_manager.go\<close>): pinging stale peers, refreshing
  the buckets by common prefix length, and the loop that batches the requests to do so.

  The routing table, the key generator, the refresh query, the ping and the host are parameters of
  the manager: their answers are the environment of one refresh, indexed by what they are asked for.
  Tracing and log lines are left out.
\<close>

section \<open>Environment\<close>

datatype query_err = QueryDeadlineExceeded | QueryErr string

text \<open>
  The answers during one refresh: \<open>rr_query k\<close> is the error of the query function for the key \<open>k\<close> with
  whether the query's context has then exceeded its deadline, \<open>rr_now c\<close> the time when the bucket \<open>c\<close>
  is considered, \<open>rr_NPeers c\<close> the peers in it after its refresh. \<open>rr_doneFirst\<close> is whether somebody
  reads the done channel before the context ends with \<open>rr_ctxErr\<close>.
\<close>

record refresh_env =
  rr_self :: string
  rr_keyGen :: "nat \<Rightarrow> string + string"
  rr_query :: "string \<Rightarrow> query_err option \<times> bool"
  rr_now :: "nat \<Rightarrow> instant"
  rr_NPeers :: "nat \<Rightarrow> int"
  rr_interval :: duration
  rr_doneFirst :: bool
  rr_ctxErr :: string

datatype refresh_error = FailedSelf query_err | FailedKey nat string | FailedCpl nat query_err | RefreshCtx string

section \<open>Refreshing one bucket\<close>

definition runRefreshDHTQuery :: "refresh_env \<Rightarrow> string \<Rightarrow> query_err option" where
  "runRefreshDHTQuery env key =
     (let (err, ctxExceeded) = rr_query env key
      in if err = None \<or> err = Some QueryDeadlineExceeded \<and> ctxExceeded then None else err)"

text \<open>The second results are the keys that were queried.\<close>

definition queryForSelf :: "refresh_env \<Rightarrow> refresh_error option \<times> string list" where
  "queryForSelf env = (map_option FailedSelf (runRefreshDHTQuery env (rr_self env)), [rr_self env])"

definition refreshCpl :: "refresh_env \<Rightarrow> nat \<Rightarrow> refresh_error option \<times> string list" where
  "refreshCpl env cpl =
     (case rr_keyGen env cpl of
        Inl err \<Rightarrow> (Some (FailedKey cpl err), [])
      | Inr key \<Rightarrow> (map_option (FailedCpl cpl) (runRefreshDHTQuery env key), [key]))"

definition refreshCplIfEligible :: "refresh_env \<Rightarrow> nat \<Rightarrow> instant \<Rightarrow> refresh_error option \<times> string list" where
  "refreshCplIfEligible env cpl lastRefreshedAt =
     (if word_sle (time_Sub (rr_now env cpl) lastRefreshedAt) (rr_interval env) then (None, [])
      else refreshCpl env cpl)"

section \<open>One refresh\<close>

definition rfnc :: "refresh_env \<Rightarrow> bool \<Rightarrow> instant list \<Rightarrow> nat \<Rightarrow> refresh_error option \<times> string list" where
  "rfnc env forceRefresh refreshCpls cpl =
     (if forceRefresh then refreshCpl env cpl
      else refreshCplIfEligible env cpl (refreshCpls ! cpl))"

definition go_min :: "int \<Rightarrow> int \<Rightarrow> int" where
  "go_min a b = (if a \<le> b then a else b)"

text \<open>The refreshes after a gap, which ignore further gaps.\<close>

fun refresh_all :: "refresh_env \<Rightarrow> bool \<Rightarrow> instant list \<Rightarrow> nat list \<Rightarrow> refresh_error list \<times> string list" where
  "refresh_all env force cpls [] = ([], [])"
| "refresh_all env force cpls (i # is) =
     (let (err, ks) = rfnc env force cpls i; (errs, ks') = refresh_all env force cpls is
      in ((case err of None \<Rightarrow> errs | Some e \<Rightarrow> e # errs), ks @ ks'))"

text \<open>The loop over the buckets: the errors, the keys queried and whether a gap ended it.\<close>

fun refresh_loop :: "refresh_env \<Rightarrow> bool \<Rightarrow> instant list \<Rightarrow> nat list \<Rightarrow> refresh_error list \<times> string list \<times> bool" where
  "refresh_loop env force cpls [] = ([], [], False)"
| "refresh_loop env force cpls (c # cs) =
     (case rfnc env force cpls c of
        (Some e, ks) \<Rightarrow>
          (let (errs, ks', gap) = refresh_loop env force cpls cs in (e # errs, ks @ ks', gap))
      | (None, ks) \<Rightarrow>
          if rr_NPeers env c = 0
          then (let lastCpl = go_min (2 * (int c + 1)) (int (length cpls) - 1);
                    (errs, ks') = refresh_all env force cpls [c + 1 ..< nat (lastCpl + 1)]
                in (errs, ks @ ks', True))
          else (let (errs, ks', gap) = refresh_loop env force cpls cs in (errs, ks @ ks', gap)))"

text \<open>The errors the refresh returns, the keys it queried and whether it wrote to the done channel.\<close>

definition doRefresh :: "refresh_env \<Rightarrow> bool \<Rightarrow> instant list \<Rightarrow> refresh_error list \<times> string list \<times> bool" where
  "doRefresh env forceRefresh refreshCpls =
     (let (err, ks) = queryForSelf env;
          merr = (case err of None \<Rightarrow> [] | Some e \<Rightarrow> [e]);
          (errs, ks', gap) = refresh_loop env forceRefresh refreshCpls [0 ..< length refreshCpls]
      in if gap then (merr @ errs, ks @ ks', False)
         else if rr_doneFirst env then (merr @ errs, ks @ ks', True)
         else ([RefreshCtx (rr_ctxErr env)], ks @ ks', False))"

section \<open>Pinging stale peers\<close>

record rt_peer =
  rp_Id :: string
  rp_LastSuccessfulOutboundQueryAt :: instant

text \<open>The peers that are removed, each with the time when it is looked at.\<close>

definition pingAndEvictPeers :: "(string \<Rightarrow> instant) \<Rightarrow> duration \<Rightarrow> (string \<Rightarrow> bool) \<Rightarrow> (string \<Rightarrow> bool) \<Rightarrow>
    rt_peer list \<Rightarrow> string list" where
  "pingAndEvictPeers now gracePeriod connects answersPing peers =
     map rp_Id (filter (\<lambda>ps.
         if word_sle (time_Sub (now (rp_Id ps)) (rp_LastSuccessfulOutboundQueryAt ps)) gracePeriod then False
         else if \<not> connects (rp_Id ps) then True
         else \<not> answersPing (rp_Id ps)) peers)"

section \<open>The loop\<close>

text \<open>
  A request carries its response channel, if any. What the loop meets in one round: how the first
  \<^verbatim>\<open>select\<close> ends, the requests that wait already then, and the environment of the refresh.
\<close>

record triggerRefreshReq =
  tr_respCh :: "nat option"
  tr_force :: bool

datatype wakeup = Tick | Trigger triggerRefreshReq | LoopCtxDone

record round =
  ro_wakeup :: wakeup
  ro_batch :: "triggerRefreshReq list"
  ro_env :: refresh_env
  ro_cpls :: "instant list"

record loop_log =
  ll_responses :: "(nat \<times> refresh_error list) list"
  ll_refreshes :: "(bool \<times> string list) list"
  ll_returned :: bool

definition take_request :: "triggerRefreshReq \<Rightarrow> nat list \<times> bool \<Rightarrow> nat list \<times> bool" where
  "take_request r w =
     ((case tr_respCh r of None \<Rightarrow> fst w | Some ch \<Rightarrow> fst w @ [ch]), snd w \<or> tr_force r)"

definition collect_requests :: "round \<Rightarrow> nat list \<times> bool" where
  "collect_requests rd =
     fold take_request (ro_batch rd)
       (case ro_wakeup rd of Trigger r \<Rightarrow> take_request r ([], False) | _ \<Rightarrow> ([], False))"

fun rt_loop :: "round list \<Rightarrow> loop_log" where
  "rt_loop [] = \<lparr>ll_responses = [], ll_refreshes = [], ll_returned = False\<rparr>"
| "rt_loop (rd # rds) =
     (if ro_wakeup rd = LoopCtxDone
      then \<lparr>ll_responses = [], ll_refreshes = [], ll_returned = True\<rparr>
      else
        let (waiting, forced) = collect_requests rd;
            (errs, ks, _) = doRefresh (ro_env rd) forced (ro_cpls rd);
            rest = rt_loop rds
        in rest\<lparr>ll_responses := map (\<lambda>w. (w, errs)) waiting @ ll_responses rest,
                ll_refreshes := (forced, ks) # ll_refreshes rest\<rparr>)"

definition rt_start :: "bool \<Rightarrow> refresh_env \<Rightarrow> instant list \<Rightarrow> round list \<Rightarrow> loop_log" where
  "rt_start enableAutoRefresh env cpls rds =
     (let rest = rt_loop rds
      in if enableAutoRefresh
         then rest\<lparr>ll_refreshes := (True, fst (snd (doRefresh env True cpls))) # ll_refreshes rest\<rparr>
         else rest)"

text \<open>
  \<^verbatim>\<open>Refresh\<close> hands its request to the loop or, when the manager's context ends first, answers with its
  error itself; \<^verbatim>\<open>RefreshNoWait\<close> hands over a request without a channel if the loop is ready for it.
\<close>

definition Refresh :: "nat \<Rightarrow> bool \<Rightarrow> string option \<Rightarrow> triggerRefreshReq option \<times> (nat \<times> refresh_error list) list" where
  "Refresh ch force ctxDone =
     (case ctxDone of
        None \<Rightarrow> (Some \<lparr>tr_respCh = Some ch, tr_force = force\<rparr>, [])
      | Some e \<Rightarrow> (None, [(ch, [RefreshCtx e])]))"

definition RefreshNoWait :: "bool \<Rightarrow> triggerRefreshReq option" where
  "RefreshNoWait loopReady = (if loopReady then Some \<lparr>tr_respCh = None, tr_force = False\<rparr> else None)"

section \<open>Lemmas\<close>

lemma collect_requests_spec:
  "fold take_request rs (ws, f) =
     (ws @ List.map_filter tr_respCh rs, f \<or> (\<exists>r\<in>set rs. tr_force r))"
  by (induction rs arbitrary: ws f) (auto simp: take_request_def map_filter_simps split: option.splits)

text \<open>The requests that the loop receives in one round.\<close>

definition received :: "round \<Rightarrow> triggerRefreshReq list" where
  "received rd = (case ro_wakeup rd of Trigger r \<Rightarrow> [r] | _ \<Rightarrow> []) @ ro_batch rd"

lemma collect_received:
  "collect_requests rd = (List.map_filter tr_respCh (received rd), \<exists>r\<in>set (received rd). tr_force r)"
proof -
  have "collect_requests rd = fold take_request (received rd) ([], False)"
    by (cases "ro_wakeup rd") (simp_all add: collect_requests_def received_def)
  then show ?thesis by (simp add: collect_requests_spec)
qed

text \<open>What a refresh in which everything succeeds queries.\<close>

definition all_succeed :: "refresh_env \<Rightarrow> (nat \<Rightarrow> string) \<Rightarrow> bool" where
  "all_succeed env key \<longleftrightarrow> (\<forall>c. rr_keyGen env c = Inr (key c)) \<and> (\<forall>k. runRefreshDHTQuery env k = None)"

lemma refresh_all_keys:
  "all_succeed env key \<Longrightarrow> refresh_all env True cpls is = ([], map key is)"
  by (induction "is") (auto simp: all_succeed_def rfnc_def refreshCpl_def)

lemma refresh_loop_keys:
  assumes "all_succeed env key"
  shows "refresh_loop env True cpls [c ..< length cpls] =
    (case List.find (\<lambda>i. rr_NPeers env i = 0) [c ..< length cpls] of
       None \<Rightarrow> ([], map key [c ..< length cpls], False)
     | Some g \<Rightarrow> ([], map key [c ..< min (2 * (g + 1) + 1) (length cpls)], True))"
proof (induction "length cpls - c" arbitrary: c)
  case 0
  then show ?case by simp
next
  case (Suc d)
  then have c: "c < length cpls" "[c ..< length cpls] = c # [Suc c ..< length cpls]"
    by (simp_all add: upt_conv_Cons)
  have ok: "rfnc env True cpls c = (None, [key c])"
    using assms by (simp add: rfnc_def refreshCpl_def all_succeed_def)
  show ?case
  proof (cases "rr_NPeers env c = 0")
    case True
    have "nat (go_min (2 * (int c + 1)) (int (length cpls) - 1) + 1) = min (2 * (c + 1) + 1) (length cpls)"
      using c(1) by (auto simp: go_min_def nat_eq_iff)
    moreover have "c < min (2 * (c + 1) + 1) (length cpls)" using c(1) by simp
    ultimately show ?thesis
      using True by (simp add: c(2) ok refresh_all_keys [OF assms] upt_conv_Cons)
  next
    case False
    have "Suc c \<le> g" if "List.find (\<lambda>i. rr_NPeers env i = 0) [Suc c ..< length cpls] = Some g" for g
      using that by (auto simp: find_Some_iff)
    with Suc(1) [of "Suc c"] Suc(2) False c show ?thesis
      by (auto simp: ok upt_conv_Cons split: option.splits)
  qed
qed

section \<open>Properties\<close>

text \<open>What a forced refresh in which everything succeeds queries: the node itself, then the buckets in
  order, all of them when none is left empty, and otherwise, with the first empty one at \<open>g\<close>, those
  below \<open>2 * g + 3\<close>; and it writes to the done channel, if somebody reads it, only when no bucket was
  left empty.\<close>

theorem forced_refresh_keys:
  assumes "all_succeed env key" and "doRefresh env True cpls = (errs, ks, wrote)"
  shows "case List.find (\<lambda>c. rr_NPeers env c = 0) [0 ..< length cpls] of
      None \<Rightarrow> ks = rr_self env # map key [0 ..< length cpls] \<and> wrote = rr_doneFirst env \<and>
        errs = (if wrote then [] else [RefreshCtx (rr_ctxErr env)])
    | Some g \<Rightarrow> ks = rr_self env # map key [0 ..< min (2 * g + 3) (length cpls)] \<and> \<not> wrote \<and> errs = []"
proof -
  have "queryForSelf env = (None, [rr_self env])"
    using assms(1) by (simp add: queryForSelf_def all_succeed_def)
  with assms(2) show ?thesis
    by (auto simp: doRefresh_def refresh_loop_keys [OF assms(1)] numeral_3_eq_3 split: option.splits if_splits)
qed

definition demo_refresh_env :: refresh_env where
  "demo_refresh_env = \<lparr>rr_self = ''self'', rr_keyGen = (\<lambda>c. Inr (replicate c CHR ''k'')),
     rr_query = (\<lambda>k. (None, False)), rr_now = (\<lambda>c. 0), rr_NPeers = (\<lambda>c. if c = 1 then 0 else 1),
     rr_interval = 5, rr_doneFirst = True, rr_ctxErr = ''canceled''\<rparr>"

theorem forced_refresh_keys_witness:
  "fst (snd (doRefresh demo_refresh_env True (replicate 9 0))) =
     ''self'' # map (\<lambda>c. replicate c CHR ''k'') [0, 1, 2, 3, 4]"
proof -
  have ok: "all_succeed demo_refresh_env (\<lambda>c. replicate c CHR ''k'')"
    by (simp add: all_succeed_def demo_refresh_env_def runRefreshDHTQuery_def)
  obtain errs ks wrote where d: "doRefresh demo_refresh_env True (replicate 9 0) = (errs, ks, wrote)"
    by (cases "doRefresh demo_refresh_env True (replicate 9 0)") auto
  have g: "List.find (\<lambda>c. rr_NPeers demo_refresh_env c = 0) [0 ..< length (replicate 9 (0 :: instant))] = Some 1"
    by code_simp
  have r: "[0 ..< min (2 * 1 + 3) (length (replicate 9 (0 :: instant)))] = [0, 1, 2, 3, 4]" by code_simp
  from forced_refresh_keys [OF ok d] d show ?thesis
    unfolding g option.case r by (simp add: demo_refresh_env_def)
qed

text \<open>Every request to refresh is answered exactly once: the requests the loop has taken in a round are
  answered in order with the errors of that round's refresh, which is forced if any of them asked for
  it; after the manager's context has ended the loop answers nothing, and \<^verbatim>\<open>Refresh\<close> answers itself.\<close>

theorem refresh_requests_answered:
  "ll_responses (rt_loop rds) =
     concat (map (\<lambda>rd. map (\<lambda>ch. (ch, fst (doRefresh (ro_env rd) (\<exists>r\<in>set (received rd). tr_force r) (ro_cpls rd))))
                  (List.map_filter tr_respCh (received rd)))
       (takeWhile (\<lambda>rd. ro_wakeup rd \<noteq> LoopCtxDone) rds)) \<and>
   length (ll_refreshes (rt_loop rds)) = length (takeWhile (\<lambda>rd. ro_wakeup rd \<noteq> LoopCtxDone) rds) \<and>
   (case Refresh ch force ctxDone of
      (Some r, answers) \<Rightarrow> ctxDone = None \<and> tr_respCh r = Some ch \<and> tr_force r = force \<and> answers = []
    | (None, answers) \<Rightarrow> ctxDone \<noteq> None \<and> map fst answers = [ch])"
proof -
  have "ll_responses (rt_loop rds) =
     concat (map (\<lambda>rd. map (\<lambda>ch. (ch, fst (doRefresh (ro_env rd) (\<exists>r\<in>set (received rd). tr_force r) (ro_cpls rd))))
                  (List.map_filter tr_respCh (received rd)))
       (takeWhile (\<lambda>rd. ro_wakeup rd \<noteq> LoopCtxDone) rds)) \<and>
   length (ll_refreshes (rt_loop rds)) = length (takeWhile (\<lambda>rd. ro_wakeup rd \<noteq> LoopCtxDone) rds)"
    by (induction rds) (auto simp: collect_received Let_def split: prod.splits)
  then show ?thesis by (simp add: Refresh_def split: option.splits)
qed

end
