(* ===== verification/Node_Maintenance.thy ===== *)
theory Node_Maintenance
  imports Handlers RT_Refresh
begin

text \<open>
  How a node keeps its routing table and its mode (\<^verbatim>\<open>dht.go\<close>, \<^verbatim>\<open>subscriber_notifee.go\<close>,
  \<^verbatim>\<open>dht_bootstrap.go\<close>): the checks of new peers, the loop that alone writes to the table, the loop
  that repairs a table with few peers, and the reaction to the events of the host.

  The routing table (\<^verbatim>\<open>go-libp2p-kbucket\<close>) is a parameter: its operations on an arbitrary type of
  tables, each returning the callbacks it makes. What the host, the peerstore and the remote peers
  answer comes with each event. Log lines and tracing are left out, and so is the end of the node's context.
\<close>

section \<open>Environment\<close>

datatype mode_opt = ModeAuto | ModeClient | ModeServer | ModeAutoServer | ModeInvalid int

datatype reachability = ReachabilityUnknown | ReachabilityPublic | ReachabilityPrivate | ReachabilityOther

datatype rt_callback = PeerAdded peer_id | PeerRemoved peer_id

text \<open>
  \<^verbatim>\<open>TryAddPeer\<close> takes whether the peer was queried and whether it may be replaced later, and returns an
  error or whether the peer is new.
\<close>

record 'r kb_ops =
  kb_Size :: "'r \<Rightarrow> nat"
  kb_ListPeers :: "'r \<Rightarrow> peer_id list"
  kb_UsefulNewPeer :: "'r \<Rightarrow> peer_id \<Rightarrow> bool"
  kb_TryAddPeer :: "'r \<Rightarrow> peer_id \<Rightarrow> bool \<Rightarrow> bool \<Rightarrow> 'r \<times> (string + bool) \<times> rt_callback list"
  kb_RemovePeer :: "'r \<Rightarrow> peer_id \<Rightarrow> 'r \<times> rt_callback list"
  kb_UpdateLastSuccessfulOutboundQueryAt :: "'r \<Rightarrow> peer_id \<Rightarrow> instant \<Rightarrow> 'r"
  kb_MarkAllPeersIrreplaceable :: "'r \<Rightarrow> 'r"

text \<open>The configuration of the node; \<open>ne_cpl p\<close> is the common prefix length of its key and the peer's.\<close>

record 'r node_env =
  ne_kb :: "'r kb_ops"
  ne_cpl :: "peer_id \<Rightarrow> nat"
  ne_protocols :: "string list"
  ne_auto :: mode_opt
  ne_bucketSize :: int
  ne_autoRefresh :: bool
  ne_testAddressUpdateProcessing :: bool
  ne_disableFixLowPeers :: bool

text \<open>What the host answers at some moment.\<close>

record host_view =
  hv_FirstSupportedProtocol :: "peer_id \<Rightarrow> string list \<Rightarrow> string + string"
  hv_routingTablePeerFilter :: "(peer_id \<Rightarrow> bool) option"
  hv_Peers :: "peer_id list"
  hv_bootstrapPeers :: "AddrInfo list option"
  hv_Perm :: "nat list"
  hv_Connect :: "AddrInfo \<Rightarrow> bool"

section \<open>State\<close>

text \<open>
  Beside the fields of the node: the connection manager's protections and tags of the routing table,
  the lookup checks that are running, the goroutines that wait to hand a peer to the loop, the signal
  to repair the table, the local variables of the loop (a timer that has fired is a timer that is not
  set), how often a refresh was requested, which bootstrap peers were dialled, and whose senders were
  told about a disconnection.
\<close>

record 'r node =
  nd_rt :: 'r
  nd_protected :: "peer_id set"
  nd_tagged :: "(peer_id, int) gomap"
  nd_modes :: mode_state
  nd_lookupCheckCapacity :: int
  nd_checks :: "peer_id list"
  nd_addPeerToRT :: "peer_id list"
  nd_fixLowPeers :: bool
  nd_bootstrapCount :: "64 word"
  nd_isBootstrapping :: bool
  nd_timer :: bool
  nd_refreshes :: nat
  nd_dialled :: "peer_id list"
  nd_disconnected :: "peer_id list"

definition protectedBuckets :: nat where
  "protectedBuckets = 2"

definition baseConnMgrScore :: int where
  "baseConnMgrScore = 5"

definition minRTRefreshThreshold :: nat where
  "minRTRefreshThreshold = 10"

definition maxNBoostrappers :: nat where
  "maxNBoostrappers = 2"

section \<open>The routing table\<close>

definition fixRTIfNeeded :: "'r node \<Rightarrow> 'r node" where
  "fixRTIfNeeded n = n\<lparr>nd_fixLowPeers := True\<rparr>"

text \<open>The callbacks that \<^verbatim>\<open>makeRoutingTable\<close> installs.\<close>

fun apply_callback :: "'r node_env \<Rightarrow> rt_callback \<Rightarrow> 'r node \<Rightarrow> 'r node" where
  "apply_callback env (PeerAdded p) n =
     (let commonPrefixLen = ne_cpl env p
      in if commonPrefixLen < protectedBuckets then n\<lparr>nd_protected := insert p (nd_protected n)\<rparr>
         else n\<lparr>nd_tagged := gm_put p baseConnMgrScore (nd_tagged n)\<rparr>)"
| "apply_callback env (PeerRemoved p) n =
     fixRTIfNeeded (n\<lparr>nd_protected := nd_protected n - {p}, nd_tagged := gm_del p (nd_tagged n)\<rparr>)"

definition peerStoppedDHT :: "'r node_env \<Rightarrow> peer_id \<Rightarrow> 'r node \<Rightarrow> 'r node" where
  "peerStoppedDHT env p n =
     (let (rt, cbs) = kb_RemovePeer (ne_kb env) (nd_rt n) p in fold (apply_callback env) cbs (n\<lparr>nd_rt := rt\<rparr>))"

definition node_RefreshNoWait :: "'r node \<Rightarrow> 'r node" where
  "node_RefreshNoWait n = n\<lparr>nd_refreshes := nd_refreshes n + 1\<rparr>"

section \<open>Checking new peers\<close>

definition validRTPeer :: "'r node_env \<Rightarrow> host_view \<Rightarrow> peer_id \<Rightarrow> string + bool" where
  "validRTPeer env hv p =
     (case hv_FirstSupportedProtocol hv p (ne_protocols env) of
        Inl err \<Rightarrow> Inl err
      | Inr b \<Rightarrow>
          if length b = 0 then Inr False
          else Inr (case hv_routingTablePeerFilter hv of None \<Rightarrow> True | Some f \<Rightarrow> f p))"

definition lookupCheck :: "'r node_env \<Rightarrow> 'r node \<Rightarrow> peer_id \<Rightarrow> string option \<times> peer_id list \<Rightarrow> string option" where
  "lookupCheck env n p answer =
     (let (err, peerids) = answer
      in if err = None \<and> length peerids = 0 \<and> int (kb_Size (ne_kb env) (nd_rt n)) \<ge> ne_bucketSize env
         then Some (''peer failed to return its closest peers: '' @ p)
         else err)"

text \<open>Starting a check takes a slot, if there is one; its end gives the slot back.\<close>

definition peerFound :: "'r node_env \<Rightarrow> host_view \<Rightarrow> peer_id \<Rightarrow> 'r node \<Rightarrow> 'r node" where
  "peerFound env hv p n =
     (if \<not> kb_UsefulNewPeer (ne_kb env) (nd_rt n) p then n
      else case validRTPeer env hv p of
        Inl err \<Rightarrow> n
      | Inr b \<Rightarrow>
          if b
          then (if nd_lookupCheckCapacity n = 0 then n
                else n\<lparr>nd_lookupCheckCapacity := nd_lookupCheckCapacity n - 1, nd_checks := nd_checks n @ [p]\<rparr>)
          else n)"

definition validPeerFound :: "peer_id \<Rightarrow> 'r node \<Rightarrow> 'r node" where
  "validPeerFound p n = n\<lparr>nd_addPeerToRT := nd_addPeerToRT n @ [p]\<rparr>"

definition check_done :: "'r node_env \<Rightarrow> peer_id \<Rightarrow> string option \<times> peer_id list \<Rightarrow> 'r node \<Rightarrow> 'r node" where
  "check_done env p answer n =
     (let err = lookupCheck env n p answer;
          n = n\<lparr>nd_lookupCheckCapacity := nd_lookupCheckCapacity n + 1, nd_checks := remove1 p (nd_checks n)\<rparr>
      in if err \<noteq> None then n else validPeerFound p n)"

section \<open>The loop that writes to the table\<close>

definition timer_fired :: "'r node_env \<Rightarrow> 'r node \<Rightarrow> 'r node" where
  "timer_fired env n = n\<lparr>nd_rt := kb_MarkAllPeersIrreplaceable (ne_kb env) (nd_rt n), nd_timer := False\<rparr>"

definition add_peer :: "'r node_env \<Rightarrow> peer_id \<Rightarrow> instant \<Rightarrow> 'r node \<Rightarrow> 'r node" where
  "add_peer env p now n =
     (let n = (if kb_Size (ne_kb env) (nd_rt n) = 0
               then n\<lparr>nd_isBootstrapping := True, nd_bootstrapCount := 0, nd_timer := False\<rparr> else n);
          (rt, res, cbs) = kb_TryAddPeer (ne_kb env) (nd_rt n) p True (nd_isBootstrapping n);
          n = fold (apply_callback env) cbs (n\<lparr>nd_rt := rt\<rparr>)
      in case res of
           Inl err \<Rightarrow> n
         | Inr newlyAdded \<Rightarrow>
             if newlyAdded then fixRTIfNeeded n
             else n\<lparr>nd_rt := kb_UpdateLastSuccessfulOutboundQueryAt (ne_kb env) (nd_rt n) p now\<rparr>)"

definition refresh_finished :: "'r node \<Rightarrow> 'r node" where
  "refresh_finished n =
     (let n = n\<lparr>nd_bootstrapCount := nd_bootstrapCount n + 1\<rparr>;
          n = (if nd_bootstrapCount n = 2 then n\<lparr>nd_timer := True\<rparr> else n);
          old = nd_isBootstrapping n;
          n = n\<lparr>nd_isBootstrapping := False\<rparr>
      in if old then node_RefreshNoWait n else n)"

section \<open>Repairing a table with few peers\<close>

fun connect_bootstrappers :: "(AddrInfo \<Rightarrow> bool) \<Rightarrow> AddrInfo list \<Rightarrow> nat list \<Rightarrow> nat \<Rightarrow> peer_id list" where
  "connect_bootstrappers conn bootstrapPeers [] found = []"
| "connect_bootstrappers conn bootstrapPeers (i # is) found =
     (let ai = bootstrapPeers ! i; found = (if conn ai then found + 1 else found)
      in ai_ID ai # (if found = maxNBoostrappers then []
                     else connect_bootstrappers conn bootstrapPeers is found))"

definition fixLowPeers :: "'r node_env \<Rightarrow> host_view \<Rightarrow> 'r node \<Rightarrow> 'r node" where
  "fixLowPeers env hv n =
     (let size = (\<lambda>n. kb_Size (ne_kb env) (nd_rt n));
          finish = (\<lambda>n. if size n = 0 then n else if ne_autoRefresh env then node_RefreshNoWait n else n)
      in if size n > minRTRefreshThreshold then n
         else let n = fold (peerFound env hv) (hv_Peers hv) n
              in if size n = 0
                 then (case hv_bootstrapPeers hv of
                         None \<Rightarrow> finish n
                       | Some bootstrapPeers \<Rightarrow>
                           if length bootstrapPeers = 0 then n
                           else finish (n\<lparr>nd_dialled := nd_dialled n @
                                  connect_bootstrappers (hv_Connect hv) bootstrapPeers (hv_Perm hv) 0\<rparr>))
                 else finish n)"

section \<open>Events of the host\<close>

definition handlePeerChangeEvent :: "'r node_env \<Rightarrow> host_view \<Rightarrow> peer_id \<Rightarrow> 'r node \<Rightarrow> 'r node" where
  "handlePeerChangeEvent env hv p n =
     (case validRTPeer env hv p of
        Inl err \<Rightarrow> n
      | Inr valid \<Rightarrow> if valid then peerFound env hv p n else peerStoppedDHT env p n)"

text \<open>A target that no case sets is the zero value of the mode.\<close>

definition reachability_target :: "mode_opt \<Rightarrow> reachability \<Rightarrow> dht_mode" where
  "reachability_target auto r =
     (case r of
        ReachabilityPrivate \<Rightarrow> modeClient
      | ReachabilityUnknown \<Rightarrow> if auto = ModeAutoServer then modeServer else modeClient
      | ReachabilityPublic \<Rightarrow> modeServer
      | ReachabilityOther \<Rightarrow> modeUnknown 0)"

definition handleLocalReachabilityChangedEvent :: "'r node_env \<Rightarrow> reachability \<Rightarrow> 'r node \<Rightarrow> 'r node" where
  "handleLocalReachabilityChangedEvent env r n =
     (let target = reachability_target (ne_auto env) r; (err, modes) = setMode target (nd_modes n)
      in n\<lparr>nd_modes := modes\<rparr>)"

datatype node_event =
    PeerChanged host_view peer_id
  | AddressesUpdated
  | ConnectednessChanged peer_id bool
  | ReachabilityChanged reachability
  | CheckDone peer_id "string option \<times> peer_id list"
  | QuerySucceeded peer_id
  | QueryFailed peer_id
  | TimerFired
  | AddPeer peer_id instant
  | RefreshFinished
  | FixSignalled host_view
  | FixTicked host_view

text \<open>
  One step of one of the node's goroutines; \<open>None\<close> for a step it cannot make now. A query tells the node
  of a peer that answered or that did not (\<^verbatim>\<open>query.go\<close>).
\<close>

definition node_step :: "'r node_env \<Rightarrow> node_event \<Rightarrow> 'r node \<Rightarrow> 'r node option" where
  "node_step env ev n =
     (case ev of
        PeerChanged hv p \<Rightarrow> Some (handlePeerChangeEvent env hv p n)
      | AddressesUpdated \<Rightarrow>
          Some (if ne_autoRefresh env \<or> ne_testAddressUpdateProcessing env then node_RefreshNoWait n else n)
      | ConnectednessChanged p connected \<Rightarrow>
          Some (if connected then n else n\<lparr>nd_disconnected := nd_disconnected n @ [p]\<rparr>)
      | ReachabilityChanged r \<Rightarrow>
          Some (if ne_auto env = ModeAuto \<or> ne_auto env = ModeAutoServer
                then handleLocalReachabilityChangedEvent env r n else n)
      | CheckDone p answer \<Rightarrow> if p \<in> set (nd_checks n) then Some (check_done env p answer n) else None
      | QuerySucceeded p \<Rightarrow> Some (validPeerFound p n)
      | QueryFailed p \<Rightarrow> Some (peerStoppedDHT env p n)
      | TimerFired \<Rightarrow> if nd_timer n then Some (timer_fired env n) else None
      | AddPeer p now \<Rightarrow>
          if p \<in> set (nd_addPeerToRT n)
          then Some (add_peer env p now (n\<lparr>nd_addPeerToRT := remove1 p (nd_addPeerToRT n)\<rparr>)) else None
      | RefreshFinished \<Rightarrow> Some (refresh_finished n)
      | FixSignalled hv \<Rightarrow>
          if \<not> ne_disableFixLowPeers env \<and> nd_fixLowPeers n
          then Some (fixLowPeers env hv (n\<lparr>nd_fixLowPeers := False\<rparr>)) else None
      | FixTicked hv \<Rightarrow> if \<not> ne_disableFixLowPeers env then Some (fixLowPeers env hv n) else None)"

fun node_run :: "'r node_env \<Rightarrow> node_event list \<Rightarrow> 'r node \<Rightarrow> 'r node option" where
  "node_run env [] n = Some n"
| "node_run env (ev # evs) n =
     (case node_step env ev n of None \<Rightarrow> None | Some n \<Rightarrow> node_run env evs n)"

section \<open>Construction\<close>

definition dht_protocols :: "string \<Rightarrow> string \<Rightarrow> string list" where
  "dht_protocols prefix override = [if override \<noteq> '''' then override else prefix @ ''/kad/1.0.0'']"

text \<open>
  \<open>rt\<close> is the new, empty routing table, \<open>handlers\<close> and \<open>conns\<close> are what the host already has;
  an invalid mode is an error.
\<close>

definition node_New :: "'r node_env \<Rightarrow> 'r \<Rightarrow> int \<Rightarrow> string list \<Rightarrow> stream_info list list \<Rightarrow> host_view \<Rightarrow>
    string + 'r node" where
  "node_New env rt lookupCheckConcurrency handlers conns hv =
     (let n = \<lparr>nd_rt = rt, nd_protected = {}, nd_tagged = [],
            nd_modes = \<lparr>ms_mode = modeUnknown 0, ms_serverProtocols = ne_protocols env, ms_handlers = handlers, ms_conns = conns\<rparr>,
            nd_lookupCheckCapacity = lookupCheckConcurrency, nd_checks = [], nd_addPeerToRT = [], nd_fixLowPeers = False,
            nd_bootstrapCount = 0, nd_isBootstrapping = False, nd_timer = False, nd_refreshes = 0,
            nd_dialled = [], nd_disconnected = []\<rparr>;
          start = (\<lambda>m. let n = n\<lparr>nd_modes := (nd_modes n)\<lparr>ms_mode := m\<rparr>\<rparr>;
                          n = (if m = modeServer then n\<lparr>nd_modes := moveToServerMode (nd_modes n)\<rparr> else n)
                      in fold (peerFound env hv) (hv_Peers hv) n)
      in case ne_auto env of
           ModeAuto \<Rightarrow> Inr (start modeClient)
         | ModeClient \<Rightarrow> Inr (start modeClient)
         | ModeAutoServer \<Rightarrow> Inr (start modeServer)
         | ModeServer \<Rightarrow> Inr (start modeServer)
         | ModeInvalid i \<Rightarrow> Inl ''invalid dht mode'')"

definition node_Mode :: "'r node_env \<Rightarrow> mode_opt" where
  "node_Mode env = ne_auto env"

definition getMode :: "'r node \<Rightarrow> dht_mode" where
  "getMode n = ms_mode (nd_modes n)"

definition node_Bootstrap :: "'r node \<Rightarrow> 'r node" where
  "node_Bootstrap n = node_RefreshNoWait (fixRTIfNeeded n)"

definition RefreshRoutingTable :: "nat \<Rightarrow> string option \<Rightarrow> triggerRefreshReq option \<times> (nat \<times> refresh_error list) list" where
  "RefreshRoutingTable ch ctxDone = Refresh ch False ctxDone"

definition ForceRefresh :: "nat \<Rightarrow> string option \<Rightarrow> triggerRefreshReq option \<times> (nat \<times> refresh_error list) list" where
  "ForceRefresh ch ctxDone = Refresh ch True ctxDone"


section \<open>Lemmas\<close>

text \<open>
  What the node relies on of the routing table: the callbacks tell exactly how the members change, and
  adding a peer adds no other one.
\<close>

fun callback_effect :: "rt_callback \<Rightarrow> peer_id set \<Rightarrow> peer_id set" where
  "callback_effect (PeerAdded p) P = insert p P"
| "callback_effect (PeerRemoved p) P = P - {p}"

definition kb_members :: "'r node_env \<Rightarrow> 'r \<Rightarrow> peer_id set" where
  "kb_members env rt = set (kb_ListPeers (ne_kb env) rt)"

definition kb_ok :: "'r node_env \<Rightarrow> bool" where
  "kb_ok env \<longleftrightarrow>
     (\<forall>r p q rep rt res cbs. kb_TryAddPeer (ne_kb env) r p q rep = (rt, res, cbs) \<longrightarrow>
        kb_members env rt = fold callback_effect cbs (kb_members env r) \<and> (\<forall>p'. PeerAdded p' \<in> set cbs \<longrightarrow> p' = p)) \<and>
     (\<forall>r p rt cbs. kb_RemovePeer (ne_kb env) r p = (rt, cbs) \<longrightarrow>
        kb_members env rt = fold callback_effect cbs (kb_members env r) \<and> (\<forall>p'. PeerAdded p' \<notin> set cbs)) \<and>
     (\<forall>r p t. kb_members env (kb_UpdateLastSuccessfulOutboundQueryAt (ne_kb env) r p t) = kb_members env r) \<and>
     (\<forall>r. kb_members env (kb_MarkAllPeersIrreplaceable (ne_kb env) r) = kb_members env r)"

lemma kb_ok_add:
  "kb_ok env \<Longrightarrow> kb_TryAddPeer (ne_kb env) r p q rep = (rt, res, cbs) \<Longrightarrow>
   kb_members env rt = fold callback_effect cbs (kb_members env r) \<and> (\<forall>p'. PeerAdded p' \<in> set cbs \<longrightarrow> p' = p)"
  unfolding kb_ok_def by blast

lemma kb_ok_remove:
  "kb_ok env \<Longrightarrow> kb_RemovePeer (ne_kb env) r p = (rt, cbs) \<Longrightarrow>
   kb_members env rt = fold callback_effect cbs (kb_members env r) \<and> (\<forall>p'. PeerAdded p' \<notin> set cbs)"
  unfolding kb_ok_def by blast

lemma kb_ok_keep [simp]:
  "kb_ok env \<Longrightarrow> kb_members env (kb_UpdateLastSuccessfulOutboundQueryAt (ne_kb env) r p t) = kb_members env r"
  "kb_ok env \<Longrightarrow> kb_members env (kb_MarkAllPeersIrreplaceable (ne_kb env) r) = kb_members env r"
  unfolding kb_ok_def by blast+

lemma callback_effect_bound:
  "x \<in> fold callback_effect cbs P \<Longrightarrow> x \<in> P \<or> PeerAdded x \<in> set cbs"
proof (induction cbs arbitrary: P)
  case (Cons c cs)
  then have "x \<in> callback_effect c P \<or> PeerAdded x \<in> set cs" by simp
  then show ?case by (cases c) auto
qed simp

text \<open>The parts of the state that the callbacks of the table do not touch.\<close>

definition same_work :: "'r node \<Rightarrow> 'r node \<Rightarrow> bool" where
  "same_work n m \<longleftrightarrow> nd_modes m = nd_modes n \<and> nd_lookupCheckCapacity m = nd_lookupCheckCapacity n \<and>
     nd_checks m = nd_checks n \<and> nd_addPeerToRT m = nd_addPeerToRT n"

lemma same_work_trans [trans]: "same_work a b \<Longrightarrow> same_work b c \<Longrightarrow> same_work a c"
  by (simp add: same_work_def)

lemma callbacks_keep:
  "same_work n (fold (apply_callback env) cbs n) \<and> nd_rt (fold (apply_callback env) cbs n) = nd_rt n"
proof (induction cbs arbitrary: n)
  case (Cons c cs)
  have "same_work n (apply_callback env c n) \<and> nd_rt (apply_callback env c n) = nd_rt n"
    by (cases c) (auto simp: Let_def fixRTIfNeeded_def same_work_def)
  with Cons [of "apply_callback env c n"] show ?case by (auto intro: same_work_trans)
qed (simp add: same_work_def)

text \<open>The connection manager's protections and tags are those of the members of the table.\<close>

definition tags_for :: "'r node_env \<Rightarrow> peer_id set \<Rightarrow> 'r node \<Rightarrow> bool" where
  "tags_for env P n \<longleftrightarrow> nd_protected n = {p\<in>P. ne_cpl env p < protectedBuckets} \<and>
     fst ` set (nd_tagged n) = {p\<in>P. \<not> ne_cpl env p < protectedBuckets}"

lemma callbacks_tags:
  "tags_for env P n \<Longrightarrow> tags_for env (fold callback_effect cbs P) (fold (apply_callback env) cbs n)"
proof (induction cbs arbitrary: P n)
  case (Cons c cs)
  have "tags_for env (callback_effect c P) (apply_callback env c n)"
  proof (cases c)
    case (PeerAdded p)
    with Cons.prems show ?thesis
      by (auto simp: tags_for_def Let_def dom_update [unfolded dom_map_of_conv_image_fst])
  next
    case (PeerRemoved p)
    with Cons.prems show ?thesis
      by (auto simp: tags_for_def fixRTIfNeeded_def delete_keys dom_map_of_conv_image_fst [symmetric] delete_conv')
  qed
  with Cons.IH show ?case by simp
qed simp

lemma tags_for_cong:
  "nd_protected m = nd_protected n \<Longrightarrow> nd_tagged m = nd_tagged n \<Longrightarrow> tags_for env P m = tags_for env P n"
  by (simp add: tags_for_def)

text \<open>Looking for new peers starts checks and nothing else.\<close>

definition slots_ok :: "int \<Rightarrow> 'r node \<Rightarrow> bool" where
  "slots_ok c n \<longleftrightarrow> nd_lookupCheckCapacity n + int (length (nd_checks n)) = c \<and> 0 \<le> nd_lookupCheckCapacity n"

definition only_checks :: "'r node \<Rightarrow> 'r node \<Rightarrow> bool" where
  "only_checks n m \<longleftrightarrow>
     (\<exists>cap cs. m = n\<lparr>nd_lookupCheckCapacity := cap, nd_checks := cs\<rparr> \<and> (\<forall>c. slots_ok c n \<longrightarrow> slots_ok c m))"

lemma only_checks_refl [simp]: "only_checks n n"
  unfolding only_checks_def by (intro exI [of _ "nd_lookupCheckCapacity n"] exI [of _ "nd_checks n"]) simp

lemma only_checks_trans:
  assumes "only_checks a b" and "only_checks b c"
  shows "only_checks a c"
proof -
  from assms obtain cap cs cap' cs' where
    "b = a\<lparr>nd_lookupCheckCapacity := cap, nd_checks := cs\<rparr>" "\<forall>k. slots_ok k a \<longrightarrow> slots_ok k b"
    "c = b\<lparr>nd_lookupCheckCapacity := cap', nd_checks := cs'\<rparr>" "\<forall>k. slots_ok k b \<longrightarrow> slots_ok k c"
    unfolding only_checks_def by blast
  then show ?thesis
    unfolding only_checks_def by (intro exI [of _ cap'] exI [of _ cs']) simp
qed

lemma peerFound_only_checks: "only_checks n (peerFound env hv p n)"
proof -
  have "only_checks n (n\<lparr>nd_lookupCheckCapacity := nd_lookupCheckCapacity n - 1, nd_checks := nd_checks n @ [p]\<rparr>)"
    if "nd_lookupCheckCapacity n \<noteq> 0"
    unfolding only_checks_def using that
    by (intro exI [of _ "nd_lookupCheckCapacity n - 1"] exI [of _ "nd_checks n @ [p]"]) (simp add: slots_ok_def)
  then show ?thesis by (simp add: peerFound_def split: sum.splits)
qed

lemma peersFound_only_checks: "only_checks n (fold (peerFound env hv) ps n)"
proof (induction ps arbitrary: n)
  case (Cons p ps)
  show ?case using only_checks_trans [OF peerFound_only_checks Cons] by simp
qed simp

lemma fixLowPeers_only_checks:
  "only_checks n m \<Longrightarrow> m = fold (peerFound env hv) (hv_Peers hv) n \<Longrightarrow>
   nd_rt (fixLowPeers env hv n) = nd_rt n \<and> nd_modes (fixLowPeers env hv n) = nd_modes n \<and>
   nd_protected (fixLowPeers env hv n) = nd_protected n \<and> nd_tagged (fixLowPeers env hv n) = nd_tagged n \<and>
   nd_addPeerToRT (fixLowPeers env hv n) = nd_addPeerToRT n \<and> (slots_ok c n \<longrightarrow> slots_ok c (fixLowPeers env hv n))"
  by (auto simp: fixLowPeers_def Let_def node_RefreshNoWait_def only_checks_def slots_ok_def split: option.splits)

lemmas fixLowPeers_keeps = fixLowPeers_only_checks [OF peersFound_only_checks refl]

lemma peerFound_keeps:
  "nd_rt (peerFound env hv p n) = nd_rt n \<and> nd_modes (peerFound env hv p n) = nd_modes n \<and>
   nd_protected (peerFound env hv p n) = nd_protected n \<and> nd_tagged (peerFound env hv p n) = nd_tagged n \<and>
   nd_addPeerToRT (peerFound env hv p n) = nd_addPeerToRT n \<and> (slots_ok c n \<longrightarrow> slots_ok c (peerFound env hv p n))"
  using peerFound_only_checks [of n env hv p] by (auto simp: only_checks_def)

lemma same_work_slots: "same_work n m \<Longrightarrow> slots_ok c m = slots_ok c n"
  by (simp add: same_work_def slots_ok_def)

lemma peerStoppedDHT_keeps:
  "same_work n (peerStoppedDHT env p n) \<and>
   (kb_ok env \<longrightarrow> kb_members env (nd_rt (peerStoppedDHT env p n)) \<subseteq> kb_members env (nd_rt n) \<and>
     (tags_for env (kb_members env (nd_rt n)) n \<longrightarrow>
        tags_for env (kb_members env (nd_rt (peerStoppedDHT env p n))) (peerStoppedDHT env p n)))"
proof -
  obtain rt cbs where r: "kb_RemovePeer (ne_kb env) (nd_rt n) p = (rt, cbs)" by fastforce
  let ?n = "n\<lparr>nd_rt := rt\<rparr>"
  have d: "peerStoppedDHT env p n = fold (apply_callback env) cbs ?n" by (simp add: peerStoppedDHT_def r)
  have w: "same_work n (fold (apply_callback env) cbs ?n)" "nd_rt (fold (apply_callback env) cbs ?n) = rt"
    using callbacks_keep [of ?n env cbs] by (simp_all add: same_work_def)
  show ?thesis
  proof (intro conjI impI)
    assume ok: "kb_ok env"
    note m = kb_ok_remove [OF ok r]
    show "kb_members env (nd_rt (peerStoppedDHT env p n)) \<subseteq> kb_members env (nd_rt n)"
      using m by (auto simp: d w dest: callback_effect_bound)
    assume "tags_for env (kb_members env (nd_rt n)) n"
    then have "tags_for env (kb_members env (nd_rt n)) ?n" by (simp add: tags_for_def)
    from callbacks_tags [OF this, of cbs] m
    show "tags_for env (kb_members env (nd_rt (peerStoppedDHT env p n))) (peerStoppedDHT env p n)"
      by (simp add: d w)
  qed (simp add: d w)
qed

lemma add_peer_keeps:
  "same_work n (add_peer env p now n) \<and>
   (kb_ok env \<longrightarrow> kb_members env (nd_rt (add_peer env p now n)) \<subseteq> insert p (kb_members env (nd_rt n)) \<and>
     (tags_for env (kb_members env (nd_rt n)) n \<longrightarrow>
        tags_for env (kb_members env (nd_rt (add_peer env p now n))) (add_peer env p now n)))"
proof -
  define n1 where "n1 = (if kb_Size (ne_kb env) (nd_rt n) = 0
    then n\<lparr>nd_isBootstrapping := True, nd_bootstrapCount := 0, nd_timer := False\<rparr> else n)"
  obtain rt res cbs where a: "kb_TryAddPeer (ne_kb env) (nd_rt n1) p True (nd_isBootstrapping n1) = (rt, res, cbs)"
    by (cases "kb_TryAddPeer (ne_kb env) (nd_rt n1) p True (nd_isBootstrapping n1)")
  define n2 where "n2 = fold (apply_callback env) cbs (n1\<lparr>nd_rt := rt\<rparr>)"
  have n1: "same_work n n1" "nd_rt n1 = nd_rt n" "nd_protected n1 = nd_protected n" "nd_tagged n1 = nd_tagged n"
    by (simp_all add: n1_def same_work_def)
  have d: "add_peer env p now n = (case res of Inl err \<Rightarrow> n2 | Inr newlyAdded \<Rightarrow> if newlyAdded then fixRTIfNeeded n2
      else n2\<lparr>nd_rt := kb_UpdateLastSuccessfulOutboundQueryAt (ne_kb env) (nd_rt n2) p now\<rparr>)"
    unfolding add_peer_def n1_def [symmetric] n2_def Let_def a by simp
  have n2: "same_work n n2" "nd_rt n2 = rt"
    using callbacks_keep [of "n1\<lparr>nd_rt := rt\<rparr>" env cbs] n1(1) by (simp_all add: n2_def same_work_def)
  have keep: "same_work n2 (add_peer env p now n)" "tags_for env P (add_peer env p now n) = tags_for env P n2"
    "kb_ok env \<Longrightarrow> kb_members env (nd_rt (add_peer env p now n)) = kb_members env rt" for P
    by (simp_all add: d same_work_def fixRTIfNeeded_def tags_for_def n2(2) split: sum.splits)
  show ?thesis
  proof (intro conjI impI)
    show "same_work n (add_peer env p now n)" using n2(1) keep(1) by (rule same_work_trans)
    assume ok: "kb_ok env"
    note m = kb_ok_add [OF ok a, unfolded n1(2)]
    show "kb_members env (nd_rt (add_peer env p now n)) \<subseteq> insert p (kb_members env (nd_rt n))"
      using m by (auto simp: keep(3) [OF ok] dest: callback_effect_bound)
    assume "tags_for env (kb_members env (nd_rt n)) n"
    then have "tags_for env (kb_members env (nd_rt n)) (n1\<lparr>nd_rt := rt\<rparr>)" by (simp add: tags_for_def n1)
    from callbacks_tags [OF this, of cbs] m
    show "tags_for env (kb_members env (nd_rt (add_peer env p now n))) (add_peer env p now n)"
      by (simp add: keep(2) keep(3) [OF ok] n2_def)
  qed
qed

text \<open>What one step does to the checks.\<close>

lemma node_step_slots:
  assumes "node_step env ev n = Some n'" and "slots_ok c n"
  shows "slots_ok c n'"
proof (cases ev)
  case (PeerChanged hv p)
  with assms peerFound_keeps [of env hv p n c] same_work_slots [of n "peerStoppedDHT env p n" c]
    peerStoppedDHT_keeps [of n env p] show ?thesis
    by (auto simp: node_step_def handlePeerChangeEvent_def split: sum.splits if_splits)
next
  case (CheckDone p answer)
  with assms have "p \<in> set (nd_checks n)" and "n' = check_done env p answer n"
    by (auto simp: node_step_def split: if_splits)
  moreover from this(1) length_pos_if_in_set [OF this(1)]
  have "int (length (remove1 p (nd_checks n))) = int (length (nd_checks n)) - 1"
    by (simp add: length_remove1 of_nat_diff Suc_leI)
  ultimately show ?thesis using assms(2) by (simp add: slots_ok_def check_done_def Let_def validPeerFound_def)
next
  case (AddPeer p t)
  with assms show ?thesis
    using add_peer_keeps [of "n\<lparr>nd_addPeerToRT := remove1 p (nd_addPeerToRT n)\<rparr>" env p t]
    by (auto simp: node_step_def same_work_def slots_ok_def split: if_splits)
next
  case (QueryFailed p)
  with assms same_work_slots [of n "peerStoppedDHT env p n" c] peerStoppedDHT_keeps [of n env p]
  show ?thesis by (simp add: node_step_def)
next
  case (FixSignalled hv)
  with assms fixLowPeers_keeps [of env hv "n\<lparr>nd_fixLowPeers := False\<rparr>" c] show ?thesis
    by (auto simp: node_step_def slots_ok_def split: if_splits)
next
  case (FixTicked hv)
  with assms fixLowPeers_keeps [of env hv n c] show ?thesis by (auto simp: node_step_def split: if_splits)
qed (use assms in \<open>auto simp: node_step_def node_RefreshNoWait_def handleLocalReachabilityChangedEvent_def Let_def
      validPeerFound_def timer_fired_def refresh_finished_def slots_ok_def split: if_splits prod.splits\<close>)



text \<open>The peers that a step shows to answer queries, and what it does to the members and the waiting peers.\<close>

definition answering :: "node_event \<Rightarrow> peer_id set" where
  "answering ev = {p. ev = QuerySucceeded p \<or> (\<exists>ids. ev = CheckDone p (None, ids))}"

definition members_ok :: "'r node_env \<Rightarrow> peer_id set \<Rightarrow> 'r node \<Rightarrow> bool" where
  "members_ok env V n \<longleftrightarrow> kb_members env (nd_rt n) \<subseteq> V \<and> set (nd_addPeerToRT n) \<subseteq> V \<and>
     tags_for env (kb_members env (nd_rt n)) n"

lemma members_ok_mono: "members_ok env V n \<Longrightarrow> V \<subseteq> W \<Longrightarrow> members_ok env W n"
  by (auto simp: members_ok_def)

lemma members_ok_cong:
  "members_ok env V n \<Longrightarrow> nd_rt m = nd_rt n \<Longrightarrow> nd_protected m = nd_protected n \<Longrightarrow> nd_tagged m = nd_tagged n \<Longrightarrow>
   set (nd_addPeerToRT m) \<subseteq> V \<Longrightarrow> members_ok env V m"
  by (simp add: members_ok_def tags_for_def)

lemma peerStoppedDHT_members: "kb_ok env \<Longrightarrow> members_ok env V n \<Longrightarrow> members_ok env V (peerStoppedDHT env p n)"
  using peerStoppedDHT_keeps [of n env p] by (auto simp: members_ok_def same_work_def)

lemma node_step_members:
  assumes "node_step env ev n = Some n'" and "kb_ok env" and "members_ok env V n"
  shows "members_ok env (V \<union> answering ev) n'"
proof (cases ev)
  case (PeerChanged hv p)
  with assms have "n' = handlePeerChangeEvent env hv p n" by (simp add: node_step_def)
  then have "n' = n \<or> n' = peerFound env hv p n \<or> n' = peerStoppedDHT env p n"
    by (simp add: handlePeerChangeEvent_def split: sum.splits)
  moreover have "members_ok env V (peerFound env hv p n)"
    using assms(3) peerFound_keeps [of env hv p n] by (auto simp: members_ok_def tags_for_def)
  ultimately have "members_ok env V n'" using assms(2,3) peerStoppedDHT_members by metis
  then show ?thesis by (rule members_ok_mono) simp
next
  case (CheckDone p answer)
  with assms have n': "n' = check_done env p answer n" by (auto simp: node_step_def split: if_splits)
  show ?thesis
  proof (cases "lookupCheck env n p answer = None")
    case True
    then have "fst answer = None" by (auto simp: lookupCheck_def split: prod.splits if_splits)
    then have "p \<in> answering ev" by (cases answer) (simp add: answering_def CheckDone)
    with True assms(3) show ?thesis
      by (auto simp: n' check_done_def Let_def validPeerFound_def members_ok_def tags_for_def)
  next
    case False
    with assms(3) show ?thesis
      by (auto simp: n' check_done_def Let_def members_ok_def tags_for_def)
  qed
next
  case (AddPeer p t)
  let ?m = "n\<lparr>nd_addPeerToRT := remove1 p (nd_addPeerToRT n)\<rparr>"
  from AddPeer assms(1) have p: "p \<in> set (nd_addPeerToRT n)" and n': "n' = add_peer env p t ?m"
    by (auto simp: node_step_def split: if_splits)
  have m: "members_ok env V ?m"
    using assms(3) set_remove1_subset [of p "nd_addPeerToRT n"] by (auto simp: members_ok_def tags_for_def)
  with p assms(2,3) add_peer_keeps [of ?m env p t] have "members_ok env V n'"
    unfolding n' members_ok_def same_work_def by simp blast
  then show ?thesis by (rule members_ok_mono) simp
next
  case (QueryFailed p)
  with assms peerStoppedDHT_members [OF assms(2,3), of p] show ?thesis
    by (auto simp: node_step_def answering_def)
next
  case (FixSignalled hv)
  with assms fixLowPeers_keeps [of env hv "n\<lparr>nd_fixLowPeers := False\<rparr>"] show ?thesis
    by (auto simp: node_step_def members_ok_def tags_for_def split: if_splits)
next
  case (FixTicked hv)
  with assms fixLowPeers_keeps [of env hv n] show ?thesis
    by (auto simp: node_step_def members_ok_def tags_for_def split: if_splits)
next
  case TimerFired
  with assms(1) have "n' = timer_fired env n" by (auto simp: node_step_def split: if_splits)
  with assms(2,3) have "members_ok env V n'" by (simp add: timer_fired_def members_ok_def tags_for_def)
  then show ?thesis by (rule members_ok_mono) simp
next
  case (QuerySucceeded p)
  with assms(1) have "n' = validPeerFound p n" by (simp add: node_step_def)
  moreover have "p \<in> answering ev" by (simp add: QuerySucceeded answering_def)
  ultimately show ?thesis using assms(3) by (auto simp: validPeerFound_def members_ok_def tags_for_def)
next
  case (ReachabilityChanged r)
  with assms(1) have "\<exists>ms. n' = n\<lparr>nd_modes := ms\<rparr>"
    by (auto simp: node_step_def handleLocalReachabilityChangedEvent_def Let_def split: prod.splits if_splits
        intro: exI [of _ "nd_modes n"])
  then have "members_ok env V n'" using members_ok_cong [OF assms(3)] assms(3) by (auto simp: members_ok_def)
  then show ?thesis by (rule members_ok_mono) simp
next
  case AddressesUpdated
  with assms(1) have "n' = n \<or> n' = node_RefreshNoWait n" by (simp add: node_step_def split: if_splits)
  with assms(3) have "members_ok env V n'" by (elim disjE) (simp_all add: node_RefreshNoWait_def members_ok_def tags_for_def)
  then show ?thesis by (rule members_ok_mono) simp
next
  case (ConnectednessChanged p b)
  with assms(1) have "n' = n \<or> n' = n\<lparr>nd_disconnected := nd_disconnected n @ [p]\<rparr>" by (simp add: node_step_def split: if_splits)
  with assms(3) have "members_ok env V n'" by (elim disjE) (simp_all add: members_ok_def tags_for_def)
  then show ?thesis by (rule members_ok_mono) simp
next
  case RefreshFinished
  with assms(1) have "n' = refresh_finished n" by (simp add: node_step_def)
  with assms(3) have "members_ok env V n'"
    by (simp add: refresh_finished_def Let_def node_RefreshNoWait_def members_ok_def tags_for_def)
  then show ?thesis by (rule members_ok_mono) simp
qed

text \<open>What one step does to the mode.\<close>

definition mode_target :: "'r node_env \<Rightarrow> node_event \<Rightarrow> dht_mode option" where
  "mode_target env ev =
     (case ev of
        ReachabilityChanged r \<Rightarrow>
          if ne_auto env \<in> {ModeAuto, ModeAutoServer} \<and> r \<noteq> ReachabilityOther
          then Some (reachability_target (ne_auto env) r) else None
      | _ \<Rightarrow> None)"

definition modes_ok :: "'r node_env \<Rightarrow> string set \<Rightarrow> 'r node \<Rightarrow> bool" where
  "modes_ok env H n \<longleftrightarrow> ms_serverProtocols (nd_modes n) = ne_protocols env \<and>
     set (ms_handlers (nd_modes n)) = H \<union> (if getMode n = modeServer then set (ne_protocols env) else {}) \<and>
     getMode n \<in> {modeServer, modeClient}"

lemma setMode_ok:
  assumes "modes_ok env H n" and "H \<inter> set (ne_protocols env) = {}" and "m \<in> {modeServer, modeClient}"
  shows "modes_ok env H (n\<lparr>nd_modes := snd (setMode m (nd_modes n))\<rparr>) \<and>
    getMode (n\<lparr>nd_modes := snd (setMode m (nd_modes n))\<rparr>) = m"
  using assms
  by (auto simp: modes_ok_def getMode_def setMode_def moveToServerMode_def moveToClientMode_def Let_def
      fold_insert fold_removeAll)

lemma node_step_modes:
  assumes "node_step env ev n = Some n'" and "modes_ok env H n" and "H \<inter> set (ne_protocols env) = {}"
  shows "modes_ok env H n' \<and> getMode n' = (case mode_target env ev of None \<Rightarrow> getMode n | Some m \<Rightarrow> m)"
proof (cases "\<exists>r. ev = ReachabilityChanged r \<and> ne_auto env \<in> {ModeAuto, ModeAutoServer}")
  case True
  then obtain r where ev: "ev = ReachabilityChanged r" "ne_auto env \<in> {ModeAuto, ModeAutoServer}" by blast
  with assms(1) have n': "n' = n\<lparr>nd_modes := snd (setMode (reachability_target (ne_auto env) r) (nd_modes n))\<rparr>"
    by (auto simp: node_step_def handleLocalReachabilityChangedEvent_def Let_def split: prod.splits)
  show ?thesis
  proof (cases "r = ReachabilityOther")
    case True
    with assms(2) have "n' = n"
      by (auto simp: n' reachability_target_def setMode_def modes_ok_def getMode_def)
    with True ev assms(2) show ?thesis by (simp add: mode_target_def)
  next
    case False
    then have "reachability_target (ne_auto env) r \<in> {modeServer, modeClient}"
      by (cases r) (auto simp: reachability_target_def)
    from setMode_ok [OF assms(2,3) this] False ev show ?thesis by (auto simp: n' mode_target_def)
  qed
next
  case False
  then have t: "mode_target env ev = None" by (auto simp: mode_target_def split: node_event.splits)
  have "nd_modes n' = nd_modes n"
  proof (cases ev)
    case (PeerChanged hv p)
    with assms(1) peerFound_keeps [of env hv p n] peerStoppedDHT_keeps [of n env p] show ?thesis
      by (auto simp: node_step_def handlePeerChangeEvent_def same_work_def split: sum.splits if_splits)
  next
    case (AddPeer p t)
    with assms(1) add_peer_keeps [of "n\<lparr>nd_addPeerToRT := remove1 p (nd_addPeerToRT n)\<rparr>" env p t] show ?thesis
      by (auto simp: node_step_def same_work_def split: if_splits)
  next
    case (QueryFailed p)
    with assms(1) peerStoppedDHT_keeps [of n env p] show ?thesis by (auto simp: node_step_def same_work_def)
  next
    case (FixSignalled hv)
    with assms(1) fixLowPeers_keeps [of env hv "n\<lparr>nd_fixLowPeers := False\<rparr>"] show ?thesis
      by (auto simp: node_step_def split: if_splits)
  next
    case (FixTicked hv)
    with assms(1) fixLowPeers_keeps [of env hv n] show ?thesis by (auto simp: node_step_def split: if_splits)
  qed (use assms(1) False in \<open>auto simp: node_step_def node_RefreshNoWait_def Let_def check_done_def timer_fired_def
        validPeerFound_def refresh_finished_def split: if_splits prod.splits\<close>)
  with assms(2) t show ?thesis by (simp add: modes_ok_def getMode_def)
qed



text \<open>Over a run.\<close>

lemma node_run_slots: "node_run env evs n = Some n' \<Longrightarrow> slots_ok c n \<Longrightarrow> slots_ok c n'"
  by (induction evs arbitrary: n) (auto intro: node_step_slots split: option.splits)

lemma node_run_members:
  "node_run env evs n = Some n' \<Longrightarrow> kb_ok env \<Longrightarrow> members_ok env V n \<Longrightarrow>
   members_ok env (V \<union> (\<Union>ev\<in>set evs. answering ev)) n'"
proof (induction evs arbitrary: n V)
  case (Cons ev evs)
  then obtain n1 where s: "node_step env ev n = Some n1" "node_run env evs n1 = Some n'"
    by (auto split: option.splits)
  from Cons.IH [OF s(2) Cons.prems(2) node_step_members [OF s(1) Cons.prems(2,3)]]
  show ?case by (simp add: Un_assoc)
qed simp

lemma node_run_modes:
  "node_run env evs n = Some n' \<Longrightarrow> modes_ok env H n \<Longrightarrow> H \<inter> set (ne_protocols env) = {} \<Longrightarrow>
   modes_ok env H n' \<and> getMode n' = last (getMode n # List.map_filter (mode_target env) evs)"
proof (induction evs arbitrary: n)
  case (Cons ev evs)
  then obtain n1 where s: "node_step env ev n = Some n1" "node_run env evs n1 = Some n'"
    by (auto split: option.splits)
  note 1 = node_step_modes [OF s(1) Cons.prems(2,3)]
  from Cons.IH [OF s(2) _ Cons.prems(3)] 1 show ?case
    by (auto simp: map_filter_simps split: option.splits)
qed (simp add: map_filter_simps)

definition start_mode :: "mode_opt \<Rightarrow> dht_mode" where
  "start_mode auto = (if auto \<in> {ModeServer, ModeAutoServer} then modeServer else modeClient)"

lemma node_New_ok:
  assumes "node_New env rt c handlers conns hv = Inr n"
  shows "(0 \<le> c \<longrightarrow> slots_ok c n) \<and> nd_rt n = rt \<and> nd_protected n = {} \<and> nd_tagged n = [] \<and> nd_addPeerToRT n = [] \<and>
    modes_ok env (set handlers) n \<and> getMode n = start_mode (ne_auto env) \<and> nd_fixLowPeers n = False"
proof -
  obtain n0 where n: "n = fold (peerFound env hv) (hv_Peers hv) n0" and n0:
    "(0 \<le> c \<longrightarrow> slots_ok c n0) \<and> nd_rt n0 = rt \<and> nd_protected n0 = {} \<and> nd_tagged n0 = [] \<and> nd_addPeerToRT n0 = [] \<and>
    modes_ok env (set handlers) n0 \<and> getMode n0 = start_mode (ne_auto env) \<and> nd_fixLowPeers n0 = False"
    using assms
    by (auto simp: node_New_def Let_def slots_ok_def modes_ok_def getMode_def start_mode_def moveToServerMode_def
        fold_insert split: mode_opt.splits)
  have "only_checks n0 n" unfolding n by (rule peersFound_only_checks)
  with n0 show ?thesis by (auto simp: only_checks_def modes_ok_def getMode_def)
qed

section \<open>Properties\<close>

text \<open>C20: However the goroutines of the node interleave, the number of lookup checks that run at once never
  exceeds the configured one, a slot that a check took is always given back, and while no slot is free
  no check is started.\<close>

theorem lookup_checks_bounded:
  assumes "node_New env rt c handlers conns hv = Inr n0" and "0 \<le> c" and "node_run env evs n0 = Some n"
  shows "int (length (nd_checks n)) + nd_lookupCheckCapacity n = c \<and> int (length (nd_checks n)) \<le> c \<and>
    (int (length (nd_checks n)) = c \<longrightarrow> nd_checks (peerFound env hv' p n) = nd_checks n)"
  using node_run_slots [OF assms(3), of c] node_New_ok [OF assms(1)] assms(2)
  by (auto simp: slots_ok_def peerFound_def split: sum.splits)

text \<open>C21: Whatever the node does, the routing table only ever holds peers that have answered a lookup check or
  a query, and the connection manager's protections and tags are exactly those of the members: the
  members of the two farthest buckets are protected, all others are tagged, and a peer that leaves
  the table loses either.\<close>

theorem table_members_answered:
  assumes "kb_ok env" and "kb_members env rt = {}"
    and "node_New env rt c handlers conns hv = Inr n0" and "node_run env evs n0 = Some n"
  shows "kb_members env (nd_rt n) \<subseteq> {p. \<exists>ev\<in>set evs. ev = QuerySucceeded p \<or> (\<exists>ids. ev = CheckDone p (None, ids))} \<and>
    nd_protected n = {p \<in> kb_members env (nd_rt n). ne_cpl env p < 2} \<and>
    fst ` set (nd_tagged n) = {p \<in> kb_members env (nd_rt n). \<not> ne_cpl env p < 2}"
proof -
  have "members_ok env {} n0"
    using node_New_ok [OF assms(3)] assms(2) by (simp add: members_ok_def tags_for_def)
  note m = node_run_members [OF assms(4,1) this, unfolded members_ok_def tags_for_def protectedBuckets_def]
  have "(\<Union>ev\<in>set evs. answering ev) \<subseteq> {p. \<exists>ev\<in>set evs. ev = QuerySucceeded p \<or> (\<exists>ids. ev = CheckDone p (None, ids))}"
    by (auto simp: answering_def)
  with m show ?thesis by (intro conjI) (blast, simp_all)
qed

text \<open>The mode of the node is the one it was configured with or, in an automatic mode, that of the last
  report of its reachability: a server when public, a client when private, and when unknown a server
  only in \<^verbatim>\<open>ModeAutoServer\<close>; and at every moment the handlers of the server protocols are set exactly
  in server mode while the host's other handlers are untouched.\<close>

theorem mode_follows_reachability:
  assumes "node_New env rt c handlers conns hv = Inr n0" and "node_run env evs n0 = Some n"
    and "set handlers \<inter> set (ne_protocols env) = {}"
  shows "getMode n = last (start_mode (ne_auto env) # List.map_filter (mode_target env) evs) \<and>
    set (ms_handlers (nd_modes n)) =
      set handlers \<union> (if getMode n = modeServer then set (ne_protocols env) else {})"
proof -
  from node_New_ok [OF assms(1)] have "modes_ok env (set handlers) n0" "getMode n0 = start_mode (ne_auto env)" by simp_all
  with node_run_modes [OF assms(2) _ assms(3)] have m: "modes_ok env (set handlers) n"
    "getMode n = last (start_mode (ne_auto env) # List.map_filter (mode_target env) evs)" by auto
  show ?thesis using m(1) unfolding modes_ok_def by (intro conjI m(2)) simp
qed

section \<open>A concrete node\<close>

definition demo_kb :: "peer_id list kb_ops" where
  "demo_kb = \<lparr>kb_Size = length, kb_ListPeers = (\<lambda>r. r), kb_UsefulNewPeer = (\<lambda>r p. p \<notin> set r),
     kb_TryAddPeer = (\<lambda>r p q rep. if p \<in> set r then (r, Inr False, []) else (r @ [p], Inr True, [PeerAdded p])),
     kb_RemovePeer = (\<lambda>r p. if p \<in> set r then (removeAll p r, [PeerRemoved p]) else (r, [])),
     kb_UpdateLastSuccessfulOutboundQueryAt = (\<lambda>r p t. r), kb_MarkAllPeersIrreplaceable = (\<lambda>r. r)\<rparr>"

definition demo_node_env :: "peer_id list node_env" where
  "demo_node_env = \<lparr>ne_kb = demo_kb, ne_cpl = length, ne_protocols = dht_protocols ''/ipfs'' '''', ne_auto = ModeAuto,
     ne_bucketSize = 20, ne_autoRefresh = True, ne_testAddressUpdateProcessing = False, ne_disableFixLowPeers = False\<rparr>"

definition demo_view :: host_view where
  "demo_view = \<lparr>hv_FirstSupportedProtocol = (\<lambda>p ps. Inr (hd ps)), hv_routingTablePeerFilter = None,
     hv_Peers = [''q'', ''longer''], hv_bootstrapPeers = None, hv_Perm = [], hv_Connect = (\<lambda>ai. True)\<rparr>"

definition demo_node :: "peer_id list node" where
  "demo_node = (case node_New demo_node_env [] 2 [''id''] [] demo_view of Inr n \<Rightarrow> n | Inl e \<Rightarrow> undefined)"

definition demo_events :: "node_event list" where
  "demo_events = [PeerChanged demo_view ''r'', CheckDone ''q'' (None, []), CheckDone ''longer'' (None, [''q'']),
     AddPeer ''q'' 0, AddPeer ''longer'' 0, RefreshFinished, ReachabilityChanged ReachabilityPublic,
     QuerySucceeded ''s'', FixSignalled demo_view]"

lemma demo_node_New: "node_New demo_node_env [] 2 [''id''] [] demo_view = Inr demo_node"
  by (simp add: demo_node_def node_New_def demo_node_env_def Let_def)

lemma demo_run:
  "map_option (\<lambda>n. (nd_checks n, nd_rt n, nd_protected n = {''q''}, nd_tagged n)) (node_run demo_node_env demo_events demo_node) =
     Some ([], [''q'', ''longer''], True, [(''longer'', 5)])"
  by code_simp

lemma demo_kb_ok: "kb_ok demo_node_env"
  by (auto simp: kb_ok_def kb_members_def demo_node_env_def demo_kb_def split: if_splits)

theorem lookup_checks_bounded_witness:
  "length (nd_checks demo_node) = 2 \<and> nd_checks (peerFound demo_node_env demo_view ''t'' demo_node) = nd_checks demo_node"
proof -
  have l: "length (nd_checks demo_node) = 2" by code_simp
  have "(0 :: int) \<le> 2" "node_run demo_node_env [] demo_node = Some demo_node" by simp_all
  from lookup_checks_bounded [OF demo_node_New this, of demo_view "''t''"] l show ?thesis by simp
qed

theorem table_members_answered_witness:
  "\<exists>n. node_run demo_node_env demo_events demo_node = Some n \<and> nd_rt n = [''q'', ''longer''] \<and> nd_protected n = {''q''}"
proof -
  obtain n where n: "node_run demo_node_env demo_events demo_node = Some n" "nd_rt n = [''q'', ''longer'']"
    using demo_run by auto
  have "kb_members demo_node_env [] = {}" by (simp add: kb_members_def demo_node_env_def demo_kb_def)
  note t = table_members_answered [OF demo_kb_ok this demo_node_New n(1)]
  have k: "kb_members demo_node_env (nd_rt n) = {''q'', ''longer''}"
    by (simp add: kb_members_def demo_node_env_def demo_kb_def n(2))
  have c: "ne_cpl demo_node_env = length" by (simp add: demo_node_env_def)
  have "{p \<in> {''q'', ''longer''}. length p < 2} = {''q''}" by fastforce
  then have "nd_protected n = {''q''}" using t [THEN conjunct2, THEN conjunct1] unfolding k c by (rule trans [rotated])
  with n show ?thesis by (intro exI [of _ n] conjI)
qed

theorem mode_follows_reachability_witness:
  "\<exists>n. node_run demo_node_env demo_events demo_node = Some n \<and> getMode n = modeServer \<and>
     set (ms_handlers (nd_modes n)) = {''id'', ''/ipfs/kad/1.0.0''}"
proof -
  obtain n where n: "node_run demo_node_env demo_events demo_node = Some n" using demo_run by auto
  have p: "ne_protocols demo_node_env = [''/ipfs/kad/1.0.0'']" by (simp add: demo_node_env_def dht_protocols_def)
  have d: "set [''id''] \<inter> set (ne_protocols demo_node_env) = {}" by (simp add: p)
  have m: "last (start_mode (ne_auto demo_node_env) # List.map_filter (mode_target demo_node_env) demo_events) = modeServer"
    by code_simp
  note t = mode_follows_reachability [OF demo_node_New n d]
  from t have g: "getMode n = modeServer" unfolding m by (rule conjunct1)
  from t [THEN conjunct2] have "set (ms_handlers (nd_modes n)) = {''id'', ''/ipfs/kad/1.0.0''}"
    unfolding g p by (simp only: if_True simp_thms list.set Un_insert_left sup_bot_left)
  with n g show ?thesis by (intro exI [of _ n] conjI)
qed

end
