(* ===== verification/Netsize.thy ===== *)
theory Netsize
  imports Go_Std
begin

text \<open>
  The estimator of the network's size (\<^verbatim>\<open>netsize/netsize.go\<close>): the measurements kept for each rank, their
  age and number limits, the weights, the regression and the cached estimate.

  Floating point numbers are of an arbitrary type with the operations the code uses, none of them fused; the distance of a
  peer to a key, the common prefix lengths and the numbers of peers in the routing table's buckets are
  third-party: parameters.
\<close>

section \<open>Environment and state\<close>

record 'f float_ops =
  fl_of_int :: "int \<Rightarrow> 'f"
  fl_add :: "'f \<Rightarrow> 'f \<Rightarrow> 'f"
  fl_sub :: "'f \<Rightarrow> 'f \<Rightarrow> 'f"
  fl_mul :: "'f \<Rightarrow> 'f \<Rightarrow> 'f"
  fl_div :: "'f \<Rightarrow> 'f \<Rightarrow> 'f"
  fl_sqrt :: "'f \<Rightarrow> 'f"
  fl_pow2 :: "int \<Rightarrow> 'f"
  fl_less :: "'f \<Rightarrow> 'f \<Rightarrow> bool"
  fl_to_int32 :: "'f \<Rightarrow> 32 word"

text \<open>\<open>es_keyCpl\<close> and \<open>es_peerCpl\<close> are the common prefix lengths with the local identifier.\<close>

record 'f estimator_env =
  es_fl :: "'f float_ops"
  es_NormedDistance :: "peer_id \<Rightarrow> string \<Rightarrow> 'f"
  es_keyCpl :: "string \<Rightarrow> nat"
  es_peerCpl :: "peer_id \<Rightarrow> nat"
  es_bucketSize :: int

record 'f measurement =
  me_distance :: 'f
  me_weight :: 'f
  me_timestamp :: instant

record 'f estimator =
  en_measurements :: "'f measurement list list"
  en_netSizeCache :: "32 word"

datatype netsize_error = ErrNotEnoughData | ErrWrongNumOfPeers

definition invalidEstimate :: "32 word" where
  "invalidEstimate = -1"

definition MaxMeasurementAge :: int where
  "MaxMeasurementAge = 2 * 60 * 60 * 1000000000"

definition MinMeasurementsThreshold :: nat where
  "MinMeasurementsThreshold = 5"

definition MaxMeasurementsThreshold :: nat where
  "MaxMeasurementsThreshold = 150"

definition NewEstimator :: "int \<Rightarrow> 'f estimator" where
  "NewEstimator bucketSize = \<lparr>en_measurements = replicate (nat bucketSize) [], en_netSizeCache = invalidEstimate\<rparr>"

section \<open>Tracking\<close>

text \<open>\<^verbatim>\<open>sort.Search\<close>: binary search for the first index from which on the predicate holds.\<close>

function search_from :: "(nat \<Rightarrow> bool) \<Rightarrow> nat \<Rightarrow> nat \<Rightarrow> nat" where
  "search_from f i j =
     (if i < j
      then (let h = (i + j) div 2 in if \<not> f h then search_from f (h + 1) j else search_from f i h)
      else i)"
  by auto
termination by (relation "measure (\<lambda>(f, i, j). j - i)") (auto simp: Let_def)

declare search_from.simps [simp del]

definition go_Search :: "nat \<Rightarrow> (nat \<Rightarrow> bool) \<Rightarrow> nat" where
  "go_Search n f = search_from f 0 n"

definition calcWeight :: "'f estimator_env \<Rightarrow> (nat \<Rightarrow> int) \<Rightarrow> string \<Rightarrow> peer_id list \<Rightarrow> 'f" where
  "calcWeight env NPeersForCpl key peers =
     (let cpl = es_keyCpl env key;
          bucketLevel = NPeersForCpl cpl;
          peerLevel = int (length (filter (\<lambda>p. cpl = es_peerCpl env p) peers))
      in if bucketLevel < es_bucketSize env \<and> peerLevel > bucketLevel
         then fl_pow2 (es_fl env) (peerLevel - es_bucketSize env)
         else fl_pow2 (es_fl env) (bucketLevel - es_bucketSize env))"

definition first_young :: "instant \<Rightarrow> 'f measurement list \<Rightarrow> nat" where
  "first_young maxAgeTs ms = go_Search (length ms) (\<lambda>j. me_timestamp (ms ! j) > maxAgeTs)"

definition add_measurement :: "instant \<Rightarrow> 'f measurement \<Rightarrow> 'f measurement list \<Rightarrow> 'f measurement list" where
  "add_measurement maxAgeTs m ms =
     (let measurements = ms @ [m];
          idx = first_young maxAgeTs measurements;
          measurements = (if idx \<noteq> 0 then drop idx measurements else measurements)
      in if length measurements > MaxMeasurementsThreshold
         then drop (length measurements - MaxMeasurementsThreshold) measurements
         else measurements)"

definition Track :: "'f estimator_env \<Rightarrow> instant \<Rightarrow> (nat \<Rightarrow> int) \<Rightarrow> string \<Rightarrow> peer_id list \<Rightarrow> 'f estimator \<Rightarrow>
    netsize_error option \<times> 'f estimator" where
  "Track env now NPeersForCpl key peers e =
     (if int (length peers) \<noteq> es_bucketSize env then (Some ErrWrongNumOfPeers, e)
      else let weight = calcWeight env NPeersForCpl key peers; maxAgeTs = now - MaxMeasurementAge
           in (None, e\<lparr>en_netSizeCache := invalidEstimate,
                 en_measurements := map2 (\<lambda>p ms. add_measurement maxAgeTs
                     \<lparr>me_distance = es_NormedDistance env p key, me_weight = weight, me_timestamp = now\<rparr> ms)
                   peers (en_measurements e)\<rparr>))"

section \<open>Estimating\<close>

definition garbageCollect :: "instant \<Rightarrow> 'f estimator \<Rightarrow> 'f estimator" where
  "garbageCollect now e =
     (let maxAgeTs = now - MaxMeasurementAge
      in e\<lparr>en_measurements := map (\<lambda>ms. let n = length ms; idx = first_young maxAgeTs ms
             in if idx = n then [] else if idx \<noteq> 0 then drop idx ms else ms) (en_measurements e)\<rparr>)"

text \<open>The average distance of a rank and its standard deviation.\<close>

definition rank_stats :: "'f float_ops \<Rightarrow> 'f measurement list \<Rightarrow> 'f \<times> 'f" where
  "rank_stats fl ms =
     (let observationCount = int (length ms);
          (sumDistances, sumWeights) =
            fold (\<lambda>m (sd, sw). (fl_add fl sd (fl_mul fl (me_weight m) (me_distance m)), fl_add fl sw (me_weight m)))
              ms (fl_of_int fl 0, fl_of_int fl 0);
          distanceAvg = fl_div fl sumDistances sumWeights;
          sumWeightedDiffs =
            fold (\<lambda>m s. let diff = fl_sub fl (me_distance m) distanceAvg
                        in fl_add fl s (fl_mul fl (fl_mul fl (me_weight m) diff) diff)) ms (fl_of_int fl 0);
          variance = fl_div fl sumWeightedDiffs
            (fl_mul fl (fl_div fl (fl_of_int fl (observationCount - 1)) (fl_of_int fl observationCount)) sumWeights)
      in (distanceAvg, fl_sqrt fl variance))"

text \<open>The points of the fit, or \<open>None\<close> when a rank has too few measurements.\<close>

fun fit_points :: "'f float_ops \<Rightarrow> nat \<Rightarrow> 'f measurement list list \<Rightarrow> ('f \<times> 'f \<times> 'f) list option" where
  "fit_points fl i [] = Some []"
| "fit_points fl i (ms # mss) =
     (if length ms < MinMeasurementsThreshold then None
      else let (distanceAvg, distanceStd) = rank_stats fl ms
           in case fit_points fl (i + 1) mss of
                None \<Rightarrow> None
              | Some ps \<Rightarrow> Some ((fl_of_int fl (int (i + 1)), distanceAvg, distanceStd) # ps))"

definition regression :: "'f float_ops \<Rightarrow> ('f \<times> 'f \<times> 'f) list \<Rightarrow> 32 word" where
  "regression fl ps =
     (let (xySum, x2Sum) =
            fold (\<lambda>(xi, yi, yerr) (xy, x2).
                (fl_add fl xy (fl_mul fl (fl_mul fl yerr xi) yi), fl_add fl x2 (fl_mul fl (fl_mul fl yerr xi) xi)))
              ps (fl_of_int fl 0, fl_of_int fl 0);
          slope = fl_div fl xySum x2Sum
      in fl_to_int32 fl (fl_sub fl (fl_div fl (fl_of_int fl 1) slope) (fl_of_int fl 1)))"

definition NetworkSize :: "'f estimator_env \<Rightarrow> instant \<Rightarrow> 'f estimator \<Rightarrow> (netsize_error + 32 word) \<times> 'f estimator" where
  "NetworkSize env now e =
     (if en_netSizeCache e \<noteq> invalidEstimate then (Inr (en_netSizeCache e), e)
      else let e = garbageCollect now e
           in case fit_points (es_fl env) 0 (en_measurements e) of
                None \<Rightarrow> (Inl ErrNotEnoughData, e)
              | Some ps \<Rightarrow>
                  (let netSize = regression (es_fl env) ps in (Inr netSize, e\<lparr>en_netSizeCache := netSize\<rparr>)))"

section \<open>Specification\<close>

text \<open>
  The specification remembers every measurement ever made. What counts at a time are the latest 150 of
  those that are younger than two hours; an estimate stands until the next measurement.
\<close>

record 'f spec_estimator =
  sp_history :: "'f measurement list list"
  sp_cache :: "32 word"

definition latest :: "nat \<Rightarrow> 'x list \<Rightarrow> 'x list" where
  "latest k xs = drop (length xs - k) xs"

definition observed :: "instant \<Rightarrow> 'f measurement list \<Rightarrow> 'f measurement list" where
  "observed now h = latest 150 (filter (\<lambda>m. now - MaxMeasurementAge < me_timestamp m) h)"

definition spec_New :: "int \<Rightarrow> 'f spec_estimator" where
  "spec_New bucketSize = \<lparr>sp_history = replicate (nat bucketSize) [], sp_cache = invalidEstimate\<rparr>"

definition spec_Track :: "'f estimator_env \<Rightarrow> instant \<Rightarrow> (nat \<Rightarrow> int) \<Rightarrow> string \<Rightarrow> peer_id list \<Rightarrow> 'f spec_estimator \<Rightarrow>
    netsize_error option \<times> 'f spec_estimator" where
  "spec_Track env now NPeersForCpl key peers s =
     (if int (length peers) \<noteq> es_bucketSize env then (Some ErrWrongNumOfPeers, s)
      else (None, \<lparr>sp_history = map2 (\<lambda>p h. h @ [\<lparr>me_distance = es_NormedDistance env p key,
                     me_weight = calcWeight env NPeersForCpl key peers, me_timestamp = now\<rparr>]) peers (sp_history s),
                   sp_cache = invalidEstimate\<rparr>))"

definition spec_NetworkSize :: "'f estimator_env \<Rightarrow> instant \<Rightarrow> 'f spec_estimator \<Rightarrow>
    (netsize_error + 32 word) \<times> 'f spec_estimator" where
  "spec_NetworkSize env now s =
     (if sp_cache s \<noteq> invalidEstimate then (Inr (sp_cache s), s)
      else case fit_points (es_fl env) 0 (map (observed now) (sp_history s)) of
             None \<Rightarrow> (Inl ErrNotEnoughData, s)
           | Some ps \<Rightarrow> (Inr (regression (es_fl env) ps), s\<lparr>sp_cache := regression (es_fl env) ps\<rparr>))"

datatype estimator_op = OpTrack instant "nat \<Rightarrow> int" string "peer_id list" | OpNetworkSize instant

datatype estimator_result = TrackResult "netsize_error option" | SizeResult "netsize_error + 32 word"

fun op_time :: "estimator_op \<Rightarrow> instant" where
  "op_time (OpTrack t npeers key peers) = t"
| "op_time (OpNetworkSize t) = t"

fun est_op :: "'f estimator_env \<Rightarrow> estimator_op \<Rightarrow> 'f estimator \<Rightarrow> estimator_result \<times> 'f estimator" where
  "est_op env (OpTrack t npeers key peers) e = (let (r, e) = Track env t npeers key peers e in (TrackResult r, e))"
| "est_op env (OpNetworkSize t) e = (let (r, e) = NetworkSize env t e in (SizeResult r, e))"

fun spec_op :: "'f estimator_env \<Rightarrow> estimator_op \<Rightarrow> 'f spec_estimator \<Rightarrow> estimator_result \<times> 'f spec_estimator" where
  "spec_op env (OpTrack t npeers key peers) s = (let (r, s) = spec_Track env t npeers key peers s in (TrackResult r, s))"
| "spec_op env (OpNetworkSize t) s = (let (r, s) = spec_NetworkSize env t s in (SizeResult r, s))"

fun run_ops :: "('o \<Rightarrow> 's \<Rightarrow> 'x \<times> 's) \<Rightarrow> 'o list \<Rightarrow> 's \<Rightarrow> 'x list \<times> 's" where
  "run_ops step [] s = ([], s)"
| "run_ops step (op # ops) s = (let (r, s) = step op s; (rs, s) = run_ops step ops s in (r # rs, s))"

section \<open>Lemmas\<close>

lemma search_from_spec:
  assumes "i \<le> j" and "j \<le> n" and "\<And>x. x < i \<Longrightarrow> \<not> f x" and "\<And>x. j \<le> x \<Longrightarrow> x < n \<Longrightarrow> f x"
    and mono: "\<And>x y. x \<le> y \<Longrightarrow> y < n \<Longrightarrow> f x \<Longrightarrow> f y"
  shows "search_from f i j \<le> n \<and> (\<forall>x<n. f x \<longleftrightarrow> search_from f i j \<le> x)"
  using assms
proof (induction f i j rule: search_from.induct)
  case (1 f i j)
  define h where "h = (i + j) div 2"
  show ?case
  proof (cases "i < j")
    case False
    with 1(3) have "i = j" by simp
    have "search_from f i j = i" using False unfolding search_from.simps [of f i j] by simp
    moreover have "i \<le> x" if "f x" for x
    proof (rule ccontr)
      assume "\<not> i \<le> x"
      with 1(5) [of x] that show False by simp
    qed
    ultimately show ?thesis using 1(4,6) \<open>i = j\<close> by auto
  next
    case True
    then have h: "i \<le> h" "h < j" by (auto simp: h_def)
    show ?thesis
    proof (cases "f h")
      case True
      have "search_from f i j = search_from f i h"
        using \<open>i < j\<close> True unfolding search_from.simps [of f i j] by (simp add: h_def Let_def)
      moreover have "search_from f i h \<le> n \<and> (\<forall>x<n. f x \<longleftrightarrow> search_from f i h \<le> x)"
      proof (rule 1(2) [OF \<open>i < j\<close> h_def])
        show "f x" if "h \<le> x" "x < n" for x using 1(7) [of h x] that True by blast
      qed (use True h 1(4,5,7) in auto)
      ultimately show ?thesis by simp
    next
      case False
      have "search_from f i j = search_from f (h + 1) j"
        using \<open>i < j\<close> False unfolding search_from.simps [of f i j] by (simp add: h_def Let_def)
      moreover have "\<not> f x" if "x < h + 1" for x
        using 1(7) [of x h] that h False 1(4) by auto
      ultimately show ?thesis using 1(1) [OF \<open>i < j\<close> h_def False] h 1(4,6,7) by simp
    qed
  qed
qed

lemma go_Search_spec:
  assumes "\<And>x y. x \<le> y \<Longrightarrow> y < n \<Longrightarrow> f x \<Longrightarrow> f y"
  shows "go_Search n f \<le> n \<and> (\<forall>x<n. f x \<longleftrightarrow> go_Search n f \<le> x)"
  unfolding go_Search_def using search_from_spec [of 0 n n f] assms by simp

text \<open>Dropping what the search finds too old keeps exactly the young measurements.\<close>

abbreviation young :: "instant \<Rightarrow> 'f measurement \<Rightarrow> bool" where
  "young t m \<equiv> t < me_timestamp m"

abbreviation in_order :: "'f measurement list \<Rightarrow> bool" where
  "in_order ms \<equiv> sorted (map me_timestamp ms)"

lemma filter_by_index:
  "k \<le> length xs \<Longrightarrow> (\<forall>x<length xs. P (xs ! x) \<longleftrightarrow> k \<le> x) \<Longrightarrow> filter P xs = drop k xs"
proof (induction xs arbitrary: k)
  case (Cons x xs)
  show ?case
  proof (cases k)
    case 0
    with Cons.prems(2) have "\<forall>y\<in>set (x # xs). P y" by (metis in_set_conv_nth zero_le)
    with 0 show ?thesis by simp
  next
    case (Suc k')
    from Cons.prems(2) Suc have "\<not> P x" by force
    moreover have "P (xs ! i) \<longleftrightarrow> k' \<le> i" if "i < length xs" for i
      using Cons.prems(2) [THEN spec, of "Suc i"] that Suc by simp
    ultimately show ?thesis using Cons.IH [of k'] Cons.prems(1) Suc by simp
  qed
qed simp

lemma drop_first_young:
  assumes "in_order ms"
  shows "drop (first_young t ms) ms = filter (young t) ms"
proof -
  have "young t (ms ! y)" if "x \<le> y" "y < length ms" "young t (ms ! x)" for x y
    using sorted_nth_mono [OF assms, of x y] that by simp
  then have "go_Search (length ms) (\<lambda>j. young t (ms ! j)) \<le> length ms \<and>
      (\<forall>x<length ms. young t (ms ! x) \<longleftrightarrow> go_Search (length ms) (\<lambda>j. young t (ms ! j)) \<le> x)"
    by (rule go_Search_spec)
  from filter_by_index [OF conjunct1 [OF this] conjunct2 [OF this]] show ?thesis by (simp add: first_young_def)
qed

lemma add_measurement_eq:
  assumes "in_order (ms @ [m])"
  shows "add_measurement t m ms = latest 150 (filter (young t) (ms @ [m]))"
proof -
  have "(if first_young t (ms @ [m]) \<noteq> 0 then drop (first_young t (ms @ [m])) (ms @ [m]) else ms @ [m]) =
      filter (young t) (ms @ [m])"
    using drop_first_young [OF assms, of t] by (metis drop_0)
  then show ?thesis unfolding add_measurement_def Let_def latest_def MaxMeasurementsThreshold_def by simp
qed

lemma garbageCollect_eq:
  assumes "\<forall>ms\<in>set (en_measurements e). in_order ms"
  shows "garbageCollect now e = e\<lparr>en_measurements := map (filter (young (now - MaxMeasurementAge))) (en_measurements e)\<rparr>"
proof -
  have "(let n = length ms; idx = first_young t ms in if idx = n then [] else if idx \<noteq> 0 then drop idx ms else ms) =
      filter (young t) ms" if "in_order ms" for ms :: "'a measurement list" and t
    using drop_first_young [OF that, of t] by (auto simp: Let_def)
  with assms show ?thesis by (simp add: garbageCollect_def Let_def cong: map_cong)
qed

text \<open>In a list in order the young measurements are a suffix.\<close>

lemma filter_drop_young:
  "in_order ms \<Longrightarrow> filter (young t) (drop i ms) = drop (i - (length ms - length (filter (young t) ms))) (filter (young t) ms)"
proof (induction ms arbitrary: i)
  case (Cons m ms)
  show ?case
  proof (cases "young t m")
    case True
    with Cons.prems have "\<forall>x\<in>set (m # ms). young t x" by force
    then have "filter (young t) (m # ms) = m # ms" by (rule filter_True)
    moreover from this have "filter (young t) (drop i (m # ms)) = drop i (m # ms)"
      by (metis filter_True filter_id_conv in_set_dropD)
    ultimately show ?thesis by simp
  next
    case False
    have "length (filter (young t) ms) \<le> length ms" by simp
    with Cons False show ?thesis by (cases i) (auto simp: Suc_diff_le)
  qed
qed simp

lemma filter_latest:
  assumes "in_order ms"
  shows "filter (young t) (latest k ms) = latest k (filter (young t) ms)"
proof -
  have "length (filter (young t) ms) \<le> length ms" by simp
  then have "length ms - k - (length ms - length (filter (young t) ms)) = length (filter (young t) ms) - k"
    by linarith
  then show ?thesis unfolding latest_def filter_drop_young [OF assms] by simp
qed

lemma in_order_filter: "in_order ms \<Longrightarrow> in_order (filter P ms)"
  by (induction ms) auto

lemma in_order_observed: "in_order h \<Longrightarrow> in_order (observed t h)"
  unfolding observed_def latest_def by (simp add: drop_map [symmetric] sorted_wrt_drop in_order_filter)

lemma latest_latest_append: "latest k (latest k xs @ [x]) = latest k (xs @ [x])"
proof (cases "length xs \<le> k")
  case False
  then have "length (latest k xs) = k" by (simp add: latest_def)
  then have "latest k (latest k xs @ [x]) = drop 1 (latest k xs @ [x])" unfolding latest_def [of k "latest k xs @ [x]"] by simp
  also have "\<dots> = drop (Suc (length xs) - k) (xs @ [x])"
    using False by (cases "k = 0") (simp_all add: latest_def Suc_diff_le)
  finally show ?thesis by (simp add: latest_def [of k "xs @ [x]"])
qed (simp add: latest_def)

lemma observed_later:
  assumes "in_order h" and "t \<le> u"
  shows "filter (young (u - MaxMeasurementAge)) (observed t h) = observed u h"
proof -
  have "filter (young (u - MaxMeasurementAge)) (filter (young (t - MaxMeasurementAge)) h) =
      filter (young (u - MaxMeasurementAge)) h"
    using assms(2) by (auto simp: filter_filter intro!: filter_cong)
  then show ?thesis
    unfolding observed_def filter_latest [OF in_order_filter [OF assms(1)]] by simp
qed

lemma observed_add:
  assumes "in_order (h @ [m])" and "t \<le> me_timestamp m" and "u = me_timestamp m"
  shows "add_measurement (u - MaxMeasurementAge) m (observed t h) = observed u (h @ [m])"
proof -
  have o: "in_order (observed t h @ [m])"
    using assms(1) in_order_observed [of h t]
    by (auto simp: sorted_append observed_def latest_def dest!: in_set_dropD)
  have "young (u - MaxMeasurementAge) m" using assms(3) by (simp add: MaxMeasurementAge_def)
  moreover have "filter (young (u - MaxMeasurementAge)) (observed t h) = observed u h"
    using assms by (intro observed_later) (auto simp: sorted_append)
  ultimately show ?thesis
    unfolding add_measurement_eq [OF o] observed_def [of u] by (simp add: latest_latest_append)
qed

section \<open>Refinement\<close>

text \<open>The windows are what the specification could observe at some time that is not later than now.\<close>

definition refines :: "'f estimator_env \<Rightarrow> instant \<Rightarrow> 'f estimator \<Rightarrow> 'f spec_estimator \<Rightarrow> bool" where
  "refines env now e s \<longleftrightarrow> en_netSizeCache e = sp_cache s \<and>
     length (sp_history s) = nat (es_bucketSize env) \<and>
     (\<exists>t\<le>now. en_measurements e = map (observed t) (sp_history s) \<and>
        (\<forall>h\<in>set (sp_history s). in_order h \<and> (\<forall>m\<in>set h. me_timestamp m \<le> t)))"

lemma refines_later: "refines env t e s \<Longrightarrow> t \<le> u \<Longrightarrow> refines env u e s"
  unfolding refines_def by (meson order_trans)

lemma map2_map_eq:
  "(\<And>h p. h \<in> set hs \<Longrightarrow> F p (G h) = K (Q p h)) \<Longrightarrow> map2 F ps (map G hs) = map K (map2 Q ps hs)"
proof (induction ps arbitrary: hs)
  case (Cons p ps)
  then show ?case by (cases hs) auto
qed simp

lemma refines_Track:
  assumes "refines env now e s" and "Track env now npeers key peers e = (r, e')"
    and "spec_Track env now npeers key peers s = (r', s')"
  shows "r = r' \<and> refines env now e' s'"
proof (cases "int (length peers) = es_bucketSize env")
  case False
  with assms show ?thesis by (simp add: Track_def spec_Track_def)
next
  case True
  define m where "m p = \<lparr>me_distance = es_NormedDistance env p key, me_weight = calcWeight env npeers key peers,
    me_timestamp = now\<rparr>" for p
  from assms(1) obtain t where t: "t \<le> now" "en_measurements e = map (observed t) (sp_history s)"
    "\<forall>h\<in>set (sp_history s). in_order h \<and> (\<forall>m\<in>set h. me_timestamp m \<le> t)"
    and len: "length (sp_history s) = nat (es_bucketSize env)" unfolding refines_def by blast
  have e': "e' = e\<lparr>en_netSizeCache := invalidEstimate,
      en_measurements := map2 (\<lambda>p ms. add_measurement (now - MaxMeasurementAge) (m p) ms) peers (en_measurements e)\<rparr>"
    and s': "s' = \<lparr>sp_history = map2 (\<lambda>p h. h @ [m p]) peers (sp_history s), sp_cache = invalidEstimate\<rparr>"
    and r: "r = None" "r' = None"
    using assms(2,3) True by (simp_all add: Track_def spec_Track_def Let_def m_def)
  have ord: "in_order (h @ [m p])" if "h \<in> set (sp_history s)" for h p
    using t(1,3) that order_trans [OF _ t(1)] by (simp add: sorted_append m_def)
  have "add_measurement (now - MaxMeasurementAge) (m p) (observed t h) = observed now (h @ [m p])"
    if "h \<in> set (sp_history s)" for p h
    by (rule observed_add [OF ord [OF that]]) (simp_all add: m_def t(1))
  then have "map2 (\<lambda>p ms. add_measurement (now - MaxMeasurementAge) (m p) ms) peers (map (observed t) (sp_history s)) =
      map (observed now) (map2 (\<lambda>p h. h @ [m p]) peers (sp_history s))"
    by (rule map2_map_eq)
  moreover have "in_order h' \<and> (\<forall>x\<in>set h'. me_timestamp x \<le> now)"
    if "h' \<in> set (map2 (\<lambda>p h. h @ [m p]) peers (sp_history s))" for h'
  proof -
    from that obtain p h where h: "(p, h) \<in> set (zip peers (sp_history s))" "h' = h @ [m p]" by auto
    have hs: "h \<in> set (sp_history s)" using h(1) by (rule set_zip_rightD)
    with t have "\<forall>x\<in>set h. me_timestamp x \<le> now" by (meson order_trans)
    with ord [OF hs, of p] show ?thesis by (simp add: h(2) m_def)
  qed
  moreover have "length (map2 (\<lambda>p h. h @ [m p]) peers (sp_history s)) = nat (es_bucketSize env)"
    using len True by simp
  ultimately have "refines env now e' s'"
    unfolding refines_def by (intro conjI exI [of _ now]) (simp_all add: e' s' t(2))
  with r show ?thesis by simp
qed

lemma refines_NetworkSize:
  assumes "refines env now e s" and "NetworkSize env now e = (r, e')" and "spec_NetworkSize env now s = (r', s')"
  shows "r = r' \<and> refines env now e' s'"
proof (cases "sp_cache s = invalidEstimate")
  case False
  with assms show ?thesis by (simp add: NetworkSize_def spec_NetworkSize_def refines_def)
next
  case True
  from assms(1) obtain t where t: "t \<le> now" "en_measurements e = map (observed t) (sp_history s)"
    "\<forall>h\<in>set (sp_history s). in_order h \<and> (\<forall>m\<in>set h. me_timestamp m \<le> t)"
    and len: "length (sp_history s) = nat (es_bucketSize env)" and c: "en_netSizeCache e = sp_cache s"
    unfolding refines_def by blast
  have "\<forall>ms\<in>set (en_measurements e). in_order ms" using t in_order_observed by (auto simp: t(2))
  from garbageCollect_eq [OF this, of now]
  have g: "garbageCollect now e = e\<lparr>en_measurements := map (observed now) (sp_history s)\<rparr>"
  proof -
    have "map (filter (young (now - MaxMeasurementAge))) (map (observed t) (sp_history s)) = map (observed now) (sp_history s)"
      unfolding map_map comp_def using t(3) observed_later [OF _ t(1)] by (intro map_cong) auto
    with \<open>garbageCollect now e = _\<close> show ?thesis by (simp only: t(2))
  qed
  have "refines env now (garbageCollect now e) s"
    using t(1,3) len c unfolding refines_def g by (fastforce intro: exI [of _ now])
  with assms(2,3) True c show ?thesis
    unfolding NetworkSize_def spec_NetworkSize_def g
    by (auto simp: Let_def refines_def split: option.splits)
qed

lemma refines_op:
  assumes "refines env (op_time op) e s" and "est_op env op e = (r, e')" and "spec_op env op s = (r', s')"
  shows "r = r' \<and> refines env (op_time op) e' s'"
proof (cases op)
  case (OpTrack t npeers key peers)
  with assms refines_Track [of env t e s npeers key peers] show ?thesis by (auto split: prod.splits)
next
  case (OpNetworkSize t)
  with assms refines_NetworkSize [of env t e s] show ?thesis by (auto split: prod.splits)
qed

lemma refines_run:
  "sorted (map op_time ops) \<Longrightarrow> \<forall>op\<in>set ops. now \<le> op_time op \<Longrightarrow> refines env now e s \<Longrightarrow>
   run_ops (est_op env) ops e = (rs, e') \<Longrightarrow> run_ops (spec_op env) ops s = (rs', s') \<Longrightarrow>
   rs = rs' \<and> (\<exists>t. refines env t e' s')"
proof (induction ops arbitrary: now e s rs rs')
  case (Cons op ops)
  obtain r e1 r' s1 where st: "est_op env op e = (r, e1)" "spec_op env op s = (r', s1)" by fastforce
  have "refines env (op_time op) e s" using Cons.prems(2,3) by (auto intro: refines_later)
  from refines_op [OF this st] have 1: "r = r'" "refines env (op_time op) e1 s1" by simp_all
  obtain rs1 rs1' where run: "run_ops (est_op env) ops e1 = (rs1, e')" "run_ops (spec_op env) ops s1 = (rs1', s')"
    "rs = r # rs1" "rs' = r' # rs1'"
    using Cons.prems(4,5) by (auto simp: st split: prod.splits)
  from Cons.prems(1) have "sorted (map op_time ops)" "\<forall>o'\<in>set ops. op_time op \<le> op_time o'" by auto
  from Cons.IH [OF this 1(2) run(1,2)] 1(1) run(3,4) show ?case by simp
qed auto

lemma refines_New: "refines env now (NewEstimator (es_bucketSize env)) (spec_New (es_bucketSize env))"
  by (auto simp: refines_def NewEstimator_def spec_New_def observed_def latest_def)

section \<open>Properties\<close>

text \<open>C24: The estimator with its bounded windows, binary searches and garbage collection refines the one that
  remembers every measurement: with a clock that does not go back, every sequence of calls gets the
  same answers from both, and the windows hold, of each rank, at most 150 measurements.\<close>

theorem netsize_refinement:
  assumes "sorted (map op_time ops)"
  shows "fst (run_ops (est_op env) ops (NewEstimator (es_bucketSize env))) =
      fst (run_ops (spec_op env) ops (spec_New (es_bucketSize env))) \<and>
    length (en_measurements (snd (run_ops (est_op env) ops (NewEstimator (es_bucketSize env))))) = nat (es_bucketSize env) \<and>
    (\<forall>ms\<in>set (en_measurements (snd (run_ops (est_op env) ops (NewEstimator (es_bucketSize env))))). length ms \<le> 150)"
proof -
  define now where "now = Min (insert 0 (op_time ` set ops))"
  have now: "\<forall>op\<in>set ops. now \<le> op_time op" by (simp add: now_def)
  obtain rs e rs' s where run: "run_ops (est_op env) ops (NewEstimator (es_bucketSize env)) = (rs, e)"
    "run_ops (spec_op env) ops (spec_New (es_bucketSize env)) = (rs', s)" by fastforce
  from refines_run [OF assms now refines_New run] obtain t where "rs = rs'" "refines env t e s" by blast
  then show ?thesis unfolding run by (auto simp: refines_def observed_def latest_def)
qed

text \<open>A concrete run with integers for numbers: bucket size 1, and six measurements of one peer.\<close>

definition demo_fl :: "int float_ops" where
  "demo_fl = \<lparr>fl_of_int = (\<lambda>i. i), fl_add = (+), fl_sub = (-), fl_mul = (*), fl_div = (div), fl_sqrt = (\<lambda>x. 1),
     fl_pow2 = (\<lambda>k. 1), fl_less = (<), fl_to_int32 = (\<lambda>x. word_of_int (x + 10))\<rparr>"

definition demo_est :: "int estimator_env" where
  "demo_est = \<lparr>es_fl = demo_fl, es_NormedDistance = (\<lambda>p key. int (length p)), es_keyCpl = length,
     es_peerCpl = length, es_bucketSize = 1\<rparr>"

definition demo_ops :: "estimator_op list" where
  "demo_ops = map (\<lambda>p. OpTrack 5 (\<lambda>c. 1) ''k'' [p]) [''a'', ''bb'', ''ccc'', ''dddd'', ''eeeee''] @
     [OpNetworkSize 6, OpTrack 7 (\<lambda>c. 1) ''k'' [], OpNetworkSize 8]"

theorem netsize_refinement_witness:
  "fst (run_ops (est_op demo_est) demo_ops (NewEstimator 1)) =
     replicate 5 (TrackResult None) @ [SizeResult (Inr 9), TrackResult (Some ErrWrongNumOfPeers), SizeResult (Inr 9)]"
proof -
  have s: "sorted (map op_time demo_ops)" by (simp add: demo_ops_def)
  have b: "es_bucketSize demo_est = 1" by (simp add: demo_est_def)
  have "fst (run_ops (spec_op demo_est) demo_ops (spec_New 1)) =
     replicate 5 (TrackResult None) @ [SizeResult (Inr 9), TrackResult (Some ErrWrongNumOfPeers), SizeResult (Inr 9)]"
    by code_simp
  with netsize_refinement [OF s, of demo_est, unfolded b] show ?thesis by simp
qed

end
