(* ===== verification/Optimistic_Provide.thy ===== *)
theory Optimistic_Provide
  imports Query Netsize
begin

text \<open>
  The optimistic provide operation (\<^verbatim>\<open>lookup_optim.go\<close>): during the lookup, provider records are already
  sent to peers that are close enough for the estimated network size; after it, to all peers found; and
  the operation returns when a part of these RPCs is done, leaving the rest to goroutines that hold
  leases of a pool shared by all operations.

  The goroutines interleave as a step function over what each of them does next. The RPCs themselves,
  the incomplete gamma function, the distance of a peer to the key and the lookup are parameters.
  Contexts and log lines are left out, except for the error of the caller's context at the end.
\<close>

section \<open>State\<close>

datatype addProviderRPCState = scheduled | success | failure

record 'f opt_cfg =
  oc_fl :: "'f float_ops"
  oc_GammaIncRegInv :: "'f \<Rightarrow> 'f \<Rightarrow> 'f"
  oc_NormedDistance :: "peer_id \<Rightarrow> 'f"
  oc_bucketSize :: int
  oc_poolSize :: nat

datatype opt_phase = Looking | LookupFailed | WaitingForRPCs | Leasing nat | Returned

text \<open>
  Beside the fields of the state: its goroutines. \<open>os_running\<close> are the RPCs under way, \<open>os_sent\<close> counts
  those that are done and in the channel or about to be sent to it; of the consumers, \<open>os_consumers\<close> wait
  for the channel, \<open>os_got\<close> still hold their lease and \<open>os_released\<close> have still to count. \<open>os_pool\<close> is the
  number of leases taken by all operations, \<open>os_started\<close> logs the peers that RPCs were started for.
\<close>

record 'f optimisticState =
  os_networkSize :: "32 word"
  os_individualThreshold :: 'f
  os_setThreshold :: 'f
  os_returnThreshold :: int
  os_peerStates :: "(peer_id, addProviderRPCState) gomap"
  os_putProvDone :: int
  os_closed :: bool
  os_running :: "peer_id list"
  os_sent :: nat
  os_consumers :: nat
  os_got :: nat
  os_released :: nat
  os_pool :: nat
  os_phase :: opt_phase
  os_rpcCount :: nat
  os_started :: "peer_id list"
  os_panic :: bool

text \<open>
  The constants are 0.9, 0.1 and 0.75; the ceiling of the product with the last is exact. \<open>pool\<close> is
  how many leases are taken when the operation starts.
\<close>

definition newOptimisticState :: "'f opt_cfg \<Rightarrow> netsize_error + 32 word \<Rightarrow> nat \<Rightarrow> netsize_error + 'f optimisticState" where
  "newOptimisticState cfg estimate pool =
     (case estimate of
        Inl err \<Rightarrow> Inl err
      | Inr networkSize \<Rightarrow>
          (let fl = oc_fl cfg; n = fl_of_int fl (sint networkSize); k = fl_of_int fl (oc_bucketSize cfg)
           in Inr \<lparr>os_networkSize = networkSize,
                os_individualThreshold =
                  fl_div fl (oc_GammaIncRegInv cfg k (fl_div fl (fl_of_int fl 1) (fl_of_int fl 10))) n,
                os_setThreshold =
                  fl_div fl (oc_GammaIncRegInv cfg (fl_add fl (fl_div fl k (fl_of_int fl 2)) (fl_of_int fl 1))
                    (fl_div fl (fl_of_int fl 9) (fl_of_int fl 10))) n,
                os_returnThreshold = (3 * oc_bucketSize cfg + 3) div 4,
                os_peerStates = [], os_putProvDone = 0, os_closed = False, os_running = [], os_sent = 0,
                os_consumers = 0, os_got = 0, os_released = 0, os_pool = pool, os_phase = Looking,
                os_rpcCount = 0, os_started = [], os_panic = False\<rparr>))"

section \<open>During the lookup\<close>

text \<open>An RPC is started and noted under the same lock.\<close>

definition start_rpc :: "peer_id \<Rightarrow> 'f optimisticState \<Rightarrow> 'f optimisticState" where
  "start_rpc p s = s\<lparr>os_running := os_running s @ [p], os_started := os_started s @ [p],
                     os_peerStates := gm_put p scheduled (os_peerStates s)\<rparr>"

fun scan_closest :: "'f opt_cfg \<Rightarrow> peer_id list \<Rightarrow> 'f optimisticState \<Rightarrow> 'f optimisticState \<times> 'f list" where
  "scan_closest cfg [] s = (s, [])"
| "scan_closest cfg (p # ps) s =
     (let d = oc_NormedDistance cfg p;
          s = (if gm_has (os_peerStates s) p then s
               else if fl_less (oc_fl cfg) (os_individualThreshold s) d then s
               else start_rpc p s);
          (s, ds) = scan_closest cfg ps s
      in (s, d # ds))"

text \<open>The distances of peers that are missing stay 0. A negative bucket size panics.\<close>

definition opt_stopFn :: "'f opt_cfg \<Rightarrow> QueryPeerset \<Rightarrow> 'f optimisticState \<Rightarrow> (bool \<times> 'f optimisticState) option" where
  "opt_stopFn cfg qps s =
     (case GetClosestNInStates (oc_bucketSize cfg) [PeerHeard, PeerWaiting, PeerQueried] qps of
        None \<Rightarrow> None
      | Some (closest, _) \<Rightarrow>
          (let fl = oc_fl cfg;
               (s, ds) = scan_closest cfg closest s;
               distances = ds @ replicate (nat (oc_bucketSize cfg) - length ds) (fl_of_int fl 0);
               scheduledAndSuccessCount =
                 length (filter (\<lambda>st. st = scheduled \<or> st = success) (map snd (os_peerStates s)));
               sum = fold (\<lambda>d a. fl_add fl a d) distances (fl_of_int fl 0);
               avg = fl_div fl sum (fl_of_int fl (int (length distances)))
           in Some (if int scheduledAndSuccessCount \<ge> oc_bucketSize cfg then True
                    else fl_less fl avg (os_setThreshold s), s)))"

section \<open>The RPCs and the wait for them\<close>

text \<open>What an RPC does when it has its answer; sending on a closed channel panics.\<close>

definition putProviderRecord_done :: "peer_id \<Rightarrow> bool \<Rightarrow> 'f optimisticState \<Rightarrow> 'f optimisticState" where
  "putProviderRecord_done p ok s =
     s\<lparr>os_running := remove1 p (os_running s),
       os_peerStates := gm_put p (if ok then success else failure) (os_peerStates s),
       os_sent := os_sent s + 1, os_panic := os_panic s \<or> os_closed s\<rparr>"

definition schedule_rest :: "peer_id list \<Rightarrow> 'f optimisticState \<Rightarrow> 'f optimisticState" where
  "schedule_rest ps s = fold (\<lambda>p s. if gm_has (os_peerStates s) p then s else start_rpc p s) ps s"

definition begin_wait :: "'f optimisticState \<Rightarrow> 'f optimisticState" where
  "begin_wait s =
     (let rpcCount = length (os_peerStates s)
      in s\<lparr>os_rpcCount := rpcCount, os_phase := WaitingForRPCs,
           os_returnThreshold := (if os_returnThreshold s > int rpcCount then int rpcCount else os_returnThreshold s)\<rparr>)"

text \<open>Closing a closed channel panics.\<close>

definition count_done :: "'f optimisticState \<Rightarrow> 'f optimisticState" where
  "count_done s =
     (let s = s\<lparr>os_putProvDone := os_putProvDone s + 1\<rparr>
      in if os_putProvDone s = int (os_rpcCount s)
         then s\<lparr>os_panic := os_panic s \<or> os_closed s, os_closed := True\<rparr> else s)"

definition lease_next :: "nat \<Rightarrow> opt_phase" where
  "lease_next n = (if n = 0 then Returned else Leasing n)"

text \<open>The first loop of \<^verbatim>\<open>waitForRPCs\<close>: it ends at the threshold, or when the channel is closed.\<close>

definition wait_receive :: "'f optimisticState \<Rightarrow> 'f optimisticState option" where
  "wait_receive s =
     (let leave = (\<lambda>s. s\<lparr>os_phase := lease_next (nat (int (os_rpcCount s) - os_putProvDone s))\<rparr>)
      in if os_sent s > 0
         then (let s = s\<lparr>os_sent := os_sent s - 1, os_putProvDone := os_putProvDone s + 1\<rparr>
               in Some (if os_putProvDone s = os_returnThreshold s then leave s else s))
         else if os_closed s then Some (leave s) else None)"

text \<open>Receiving from the channel in a \<^verbatim>\<open>select\<close> or alone; a closed and empty one yields at once.\<close>

definition receive_done :: "'f optimisticState \<Rightarrow> 'f optimisticState option" where
  "receive_done s =
     (if os_sent s > 0 then Some (s\<lparr>os_sent := os_sent s - 1\<rparr>)
      else if os_closed s then Some s else None)"

datatype opt_event =
    CheckStop QueryPeerset
  | LookupEnded "peer_id list"
  | LookupError
  | RpcDone peer_id bool
  | Receive
  | TakeLease
  | ReceiveDirectly
  | ConsumerReceives
  | ConsumerReleases
  | ConsumerCounts
  | OtherTakes
  | OtherReleases

definition opt_step :: "'f opt_cfg \<Rightarrow> opt_event \<Rightarrow> 'f optimisticState \<Rightarrow> 'f optimisticState option" where
  "opt_step cfg ev s =
     (case ev of
        CheckStop qps \<Rightarrow> if os_phase s = Looking then map_option snd (opt_stopFn cfg qps s) else None
      | LookupEnded ps \<Rightarrow> if os_phase s = Looking then Some (begin_wait (schedule_rest ps s)) else None
      | LookupError \<Rightarrow> if os_phase s = Looking then Some (s\<lparr>os_phase := LookupFailed\<rparr>) else None
      | RpcDone p ok \<Rightarrow> if p \<in> set (os_running s) then Some (putProviderRecord_done p ok s) else None
      | Receive \<Rightarrow> if os_phase s = WaitingForRPCs then wait_receive s else None
      | TakeLease \<Rightarrow>
          (case os_phase s of
             Leasing n \<Rightarrow>
               if os_pool s < oc_poolSize cfg
               then Some (s\<lparr>os_pool := os_pool s + 1, os_consumers := os_consumers s + 1, os_phase := lease_next (n - 1)\<rparr>)
               else None
           | _ \<Rightarrow> None)
      | ReceiveDirectly \<Rightarrow>
          (case os_phase s of
             Leasing n \<Rightarrow> map_option (\<lambda>s. (count_done s)\<lparr>os_phase := lease_next (n - 1)\<rparr>) (receive_done s)
           | _ \<Rightarrow> None)
      | ConsumerReceives \<Rightarrow>
          if os_consumers s > 0
          then map_option (\<lambda>s. s\<lparr>os_consumers := os_consumers s - 1, os_got := os_got s + 1\<rparr>) (receive_done s)
          else None
      | ConsumerReleases \<Rightarrow>
          if os_got s > 0 \<and> os_pool s > 0
          then Some (s\<lparr>os_got := os_got s - 1, os_released := os_released s + 1, os_pool := os_pool s - 1\<rparr>) else None
      | ConsumerCounts \<Rightarrow>
          if os_released s > 0 then Some (count_done (s\<lparr>os_released := os_released s - 1\<rparr>)) else None
      | OtherTakes \<Rightarrow> if os_pool s < oc_poolSize cfg then Some (s\<lparr>os_pool := os_pool s + 1\<rparr>) else None
      | OtherReleases \<Rightarrow>
          if os_pool s > os_consumers s + os_got s then Some (s\<lparr>os_pool := os_pool s - 1\<rparr>) else None)"

fun opt_run :: "'f opt_cfg \<Rightarrow> opt_event list \<Rightarrow> 'f optimisticState \<Rightarrow> 'f optimisticState option" where
  "opt_run cfg [] s = Some s"
| "opt_run cfg (ev # evs) s = (case opt_step cfg ev s of None \<Rightarrow> None | Some s \<Rightarrow> opt_run cfg evs s)"

section \<open>The operation\<close>

text \<open>
  What the operation returns: its error, the peers it hands to the estimator and whether it resets the
  refresh time of the key's bucket. \<open>ctxErr\<close> is the error of the caller's context when it returns.
\<close>

datatype provide_error = EmptyKey | NoNetworkSize netsize_error | LookupErr string | CtxErr string

record provide_result =
  pr_err :: "provide_error option"
  pr_tracked :: "peer_id list option"
  pr_reset :: bool

definition optimisticProvide :: "string \<Rightarrow> netsize_error + 'f optimisticState \<Rightarrow> string + lookupWithFollowupResult \<Rightarrow>
    string option \<Rightarrow> provide_result" where
  "optimisticProvide key es lookup ctxErr =
     (let failed = (\<lambda>err. \<lparr>pr_err = err, pr_tracked = None, pr_reset = False\<rparr>)
      in if key = '''' then failed (Some EmptyKey)
         else case es of
           Inl err \<Rightarrow> failed (Some (NoNetworkSize err))
         | Inr _ \<Rightarrow>
             (case lookup of
                Inl err \<Rightarrow> failed (Some (LookupErr err))
              | Inr lookupRes \<Rightarrow>
                  if ctxErr \<noteq> None \<or> \<not> lr_completed lookupRes then failed (map_option CtxErr ctxErr)
                  else \<lparr>pr_err = None, pr_tracked = Some (lr_closest lookupRes), pr_reset = True\<rparr>))"

section \<open>Invariant\<close>

text \<open>Every RPC is started once; what is started is what is noted.\<close>

definition rpcs_ok :: "'f optimisticState \<Rightarrow> bool" where
  "rpcs_ok s \<longleftrightarrow> distinct (os_started s) \<and> set (os_started s) = fst ` set (os_peerStates s) \<and> gm_wf (os_peerStates s) \<and>
     distinct (os_running s) \<and> set (os_running s) \<subseteq> set (os_started s)"

text \<open>
  Every RPC is in one place: under way, in the channel, with a consumer that has received it, or counted.
\<close>

definition flow_ok :: "'f optimisticState \<Rightarrow> bool" where
  "flow_ok s \<longleftrightarrow> \<not> os_panic s \<and>
     int (length (os_started s)) = int (length (os_running s) + os_sent s + os_got s + os_released s) + os_putProvDone s"

definition looking_ok :: "int \<Rightarrow> 'f optimisticState \<Rightarrow> bool" where
  "looking_ok th s \<longleftrightarrow> os_putProvDone s = 0 \<and> \<not> os_closed s \<and> os_consumers s = 0 \<and> os_got s = 0 \<and> os_released s = 0 \<and>
     os_returnThreshold s = th"

definition waiting_ok :: "int \<Rightarrow> 'f optimisticState \<Rightarrow> bool" where
  "waiting_ok th s \<longleftrightarrow> os_rpcCount s = length (os_started s) \<and> os_returnThreshold s = min th (int (os_rpcCount s)) \<and>
     \<not> os_closed s \<and> os_consumers s = 0 \<and> os_got s = 0 \<and> os_released s = 0 \<and>
     0 \<le> os_putProvDone s \<and> (os_putProvDone s < os_returnThreshold s \<or> os_rpcCount s = 0)"

text \<open>With \<open>n\<close> rounds of the second loop left.\<close>

definition leasing_ok :: "int \<Rightarrow> nat \<Rightarrow> 'f optimisticState \<Rightarrow> bool" where
  "leasing_ok th n s \<longleftrightarrow> os_rpcCount s = length (os_started s) \<and> os_returnThreshold s = min th (int (os_rpcCount s)) \<and>
     os_returnThreshold s \<le> os_putProvDone s \<and> 0 < os_rpcCount s \<and>
     int (os_rpcCount s) = os_putProvDone s + int (os_got s + os_released s + os_consumers s + n) \<and>
     (os_closed s \<longleftrightarrow> os_putProvDone s = int (os_rpcCount s) \<and> os_returnThreshold s < int (os_rpcCount s))"

definition phase_ok :: "int \<Rightarrow> 'f optimisticState \<Rightarrow> bool" where
  "phase_ok th s \<longleftrightarrow>
     (case os_phase s of
        Looking \<Rightarrow> looking_ok th s
      | LookupFailed \<Rightarrow> looking_ok th s
      | WaitingForRPCs \<Rightarrow> waiting_ok th s
      | Leasing n \<Rightarrow> n \<noteq> 0 \<and> leasing_ok th n s
      | Returned \<Rightarrow> leasing_ok th 0 s)"

definition pool_ok :: "'f opt_cfg \<Rightarrow> 'f optimisticState \<Rightarrow> bool" where
  "pool_ok cfg s \<longleftrightarrow> os_consumers s + os_got s \<le> os_pool s \<and> os_pool s \<le> oc_poolSize cfg"

text \<open>Starting RPCs.\<close>

definition only_rpcs :: "'f optimisticState \<Rightarrow> 'f optimisticState \<Rightarrow> bool" where
  "only_rpcs s s' \<longleftrightarrow> (\<exists>r st ps. s' = s\<lparr>os_running := r, os_started := st, os_peerStates := ps\<rparr>) \<and>
     (rpcs_ok s \<longrightarrow> rpcs_ok s') \<and> (flow_ok s \<longrightarrow> flow_ok s') \<and> set (os_started s) \<subseteq> set (os_started s')"

lemma only_rpcs_refl [simp]: "only_rpcs s s"
  unfolding only_rpcs_def
  by (intro conjI exI [of _ "os_running s"] exI [of _ "os_started s"] exI [of _ "os_peerStates s"]) simp_all

lemma only_rpcs_trans:
  assumes "only_rpcs a b" and "only_rpcs b c"
  shows "only_rpcs a c"
proof -
  from assms obtain r st ps r' st' ps' where
    "b = a\<lparr>os_running := r, os_started := st, os_peerStates := ps\<rparr>"
    "c = b\<lparr>os_running := r', os_started := st', os_peerStates := ps'\<rparr>" unfolding only_rpcs_def by blast
  then have "c = a\<lparr>os_running := r', os_started := st', os_peerStates := ps'\<rparr>" by simp
  with assms show ?thesis unfolding only_rpcs_def by blast
qed

lemma only_rpcs_start:
  assumes "\<not> gm_has (os_peerStates s) p"
  shows "only_rpcs s (start_rpc p s)"
  unfolding only_rpcs_def
proof (intro conjI)
  show "\<exists>r st ps. start_rpc p s = s\<lparr>os_running := r, os_started := st, os_peerStates := ps\<rparr>"
    unfolding start_rpc_def by blast
  show "rpcs_ok s \<longrightarrow> rpcs_ok (start_rpc p s)"
    using assms
    by (auto simp: rpcs_ok_def start_rpc_def gm_has_set dom_update [unfolded dom_map_of_conv_image_fst])
qed (auto simp: flow_ok_def start_rpc_def)

lemma only_rpcs_scan: "scan_closest cfg ps s = (s', ds) \<Longrightarrow> only_rpcs s s' \<and> length ds = length ps"
proof (induction ps arbitrary: s ds)
  case (Cons p ps)
  let ?s = "if gm_has (os_peerStates s) p then s
    else if fl_less (oc_fl cfg) (os_individualThreshold s) (oc_NormedDistance cfg p) then s else start_rpc p s"
  have "only_rpcs s ?s" by (simp add: only_rpcs_start)
  moreover obtain ds' where "scan_closest cfg ps ?s = (s', ds')" "ds = oc_NormedDistance cfg p # ds'"
    using Cons.prems by (auto simp: Let_def split: prod.splits)
  ultimately show ?case using Cons.IH only_rpcs_trans by fastforce
qed simp

lemma only_rpcs_stopFn: "opt_stopFn cfg qps s = Some (b, s') \<Longrightarrow> only_rpcs s s'"
  unfolding opt_stopFn_def by (auto simp: Let_def only_rpcs_scan split: option.splits prod.splits)

lemma only_rpcs_schedule:
  "only_rpcs s (schedule_rest ps s) \<and> set ps \<subseteq> fst ` set (os_peerStates (schedule_rest ps s))"
proof (induction ps arbitrary: s)
  case Nil
  then show ?case by (simp add: schedule_rest_def)
next
  case (Cons p ps)
  let ?s = "if gm_has (os_peerStates s) p then s else start_rpc p s"
  have e: "schedule_rest (p # ps) s = schedule_rest ps ?s" by (simp add: schedule_rest_def)
  have 1: "only_rpcs s ?s" by (simp add: only_rpcs_start)
  have grow: "fst ` set (os_peerStates a) \<subseteq> fst ` set (os_peerStates (schedule_rest qs a))" for qs and a :: "'a optimisticState"
    by (induction qs arbitrary: a)
       (force simp: schedule_rest_def start_rpc_def dom_update [unfolded dom_map_of_conv_image_fst])+
  have "p \<in> fst ` set (os_peerStates ?s)"
    by (auto simp: gm_has_set start_rpc_def dom_update [unfolded dom_map_of_conv_image_fst])
  from subsetD [OF grow this] Cons.IH [of ?s] only_rpcs_trans [OF 1] show ?case unfolding e by simp
qed



definition opt_inv :: "'f opt_cfg \<Rightarrow> int \<Rightarrow> 'f optimisticState \<Rightarrow> bool" where
  "opt_inv cfg th s \<longleftrightarrow> rpcs_ok s \<and> flow_ok s \<and> phase_ok th s \<and> pool_ok cfg s"

lemma rpcs_ok_length: "rpcs_ok s \<Longrightarrow> length (os_peerStates s) = length (os_started s)"
  unfolding rpcs_ok_def gm_wf_def
  by (metis distinct_card length_map set_map)

lemma leasing_ok_phase [simp]: "leasing_ok th n (s\<lparr>os_phase := ph\<rparr>) = leasing_ok th n s"
  by (simp add: leasing_ok_def)

lemma phase_ok_lease [simp]: "phase_ok th (s\<lparr>os_phase := lease_next n\<rparr>) = leasing_ok th n s"
  by (simp add: phase_ok_def lease_next_def)

lemma state_ok_phase [simp]:
  "rpcs_ok (s\<lparr>os_phase := ph\<rparr>) = rpcs_ok s" "flow_ok (s\<lparr>os_phase := ph\<rparr>) = flow_ok s"
  "pool_ok cfg (s\<lparr>os_phase := ph\<rparr>) = pool_ok cfg s" "looking_ok th (s\<lparr>os_phase := ph\<rparr>) = looking_ok th s"
  by (simp_all add: rpcs_ok_def flow_ok_def pool_ok_def looking_ok_def)

lemma only_rpcs_keeps:
  assumes "only_rpcs s t"
  shows "os_phase t = os_phase s" and "looking_ok th s \<Longrightarrow> looking_ok th t" and "pool_ok cfg s \<Longrightarrow> pool_ok cfg t"
    and "rpcs_ok s \<Longrightarrow> rpcs_ok t" and "flow_ok s \<Longrightarrow> flow_ok t"
  using assms by (auto simp: only_rpcs_def looking_ok_def pool_ok_def)

lemma opt_inv_lookup:
  assumes "opt_inv cfg th s" and "os_phase s = Looking" and "0 < th"
  shows "only_rpcs s s' \<Longrightarrow> opt_inv cfg th s'"
    and "opt_inv cfg th (begin_wait (schedule_rest ps s))"
    and "opt_inv cfg th (s\<lparr>os_phase := LookupFailed\<rparr>)"
proof -
  have keep: "opt_inv cfg th t \<and> looking_ok th t \<and> os_phase t = Looking" if "only_rpcs s t" for t
    using assms(1,2) only_rpcs_keeps [OF that] by (simp add: opt_inv_def phase_ok_def)
  then show "only_rpcs s s' \<Longrightarrow> opt_inv cfg th s'" by simp
  define t where "t = schedule_rest ps s"
  have t: "opt_inv cfg th t" "looking_ok th t" using keep [of t] only_rpcs_schedule [of s ps] by (simp_all add: t_def)
  then have len: "length (os_peerStates t) = length (os_started t)" by (simp add: opt_inv_def rpcs_ok_length)
  have "rpcs_ok (begin_wait t) = rpcs_ok t" "flow_ok (begin_wait t) = flow_ok t" "pool_ok cfg (begin_wait t) = pool_ok cfg t"
    "os_phase (begin_wait t) = WaitingForRPCs"
    by (simp_all add: begin_wait_def Let_def rpcs_ok_def flow_ok_def pool_ok_def)
  moreover have "waiting_ok th (begin_wait t)"
    using t(2) len assms(3) by (auto simp: begin_wait_def Let_def looking_ok_def waiting_ok_def)
  ultimately show "opt_inv cfg th (begin_wait (schedule_rest ps s))"
    using t(1) by (simp add: opt_inv_def phase_ok_def t_def [symmetric])
  show "opt_inv cfg th (s\<lparr>os_phase := LookupFailed\<rparr>)"
    using assms by (simp add: opt_inv_def phase_ok_def)
qed

text \<open>A closed channel has nobody left.\<close>

lemma closed_all_done:
  assumes "opt_inv cfg th s" and "os_closed s"
  shows "os_running s = [] \<and> os_sent s = 0 \<and> os_consumers s = 0 \<and> os_got s = 0 \<and> os_released s = 0 \<and> os_phase s = Returned"
proof -
  obtain n where n: "leasing_ok th n s" "os_phase s = Leasing n \<and> n \<noteq> 0 \<or> os_phase s = Returned"
    using assms by (auto simp: opt_inv_def phase_ok_def looking_ok_def waiting_ok_def split: opt_phase.splits)
  have f: "flow_ok s" using assms(1) by (simp add: opt_inv_def)
  note f = f [unfolded flow_ok_def, THEN conjunct2] and l = n(1) [unfolded leasing_ok_def]
  have "os_putProvDone s = int (os_rpcCount s)" using l assms(2) by blast
  with f l have "length (os_running s) + os_sent s = 0" "os_got s + os_released s + os_consumers s + n = 0" by linarith+
  with n(2) show ?thesis by simp
qed

lemma opt_inv_RpcDone:
  assumes "opt_inv cfg th s" and "p \<in> set (os_running s)"
  shows "opt_inv cfg th (putProviderRecord_done p ok s)"
proof -
  let ?t = "putProviderRecord_done p ok s"
  from length_pos_if_in_set [OF assms(2)] assms(2)
  have len: "length (os_running s) = Suc (length (remove1 p (os_running s)))" by (simp add: length_remove1)
  have "p \<in> fst ` set (os_peerStates s)" using assms by (auto simp: opt_inv_def rpcs_ok_def)
  then have "fst ` set (gm_put p x (os_peerStates s)) = fst ` set (os_peerStates s)" for x
    by (auto simp: dom_update [unfolded dom_map_of_conv_image_fst])
  moreover have "set (remove1 p (os_running s)) \<subseteq> set (os_running s)" by (rule set_remove1_subset)
  moreover from assms(1) have r: "rpcs_ok s" by (simp add: opt_inv_def)
  moreover from r have "set (os_running s) \<subseteq> fst ` set (os_peerStates s)" unfolding rpcs_ok_def by blast
  ultimately have "rpcs_ok ?t" by (auto simp: rpcs_ok_def putProviderRecord_done_def)
  moreover have "\<not> os_closed s" using closed_all_done [OF assms(1)] assms(2) by auto
  then have "flow_ok ?t"
    using assms(1) len by (simp add: opt_inv_def flow_ok_def putProviderRecord_done_def)
  moreover have "phase_ok th ?t = phase_ok th s" "pool_ok cfg ?t = pool_ok cfg s"
    by (simp_all add: phase_ok_def looking_ok_def waiting_ok_def leasing_ok_def pool_ok_def putProviderRecord_done_def
        split: opt_phase.splits)
  ultimately show ?thesis using assms(1) by (simp add: opt_inv_def)
qed

lemma opt_inv_Receive:
  assumes "opt_inv cfg th s" and "os_phase s = WaitingForRPCs" and "wait_receive s = Some s'"
  shows "opt_inv cfg th s'"
proof -
  have w: "waiting_ok th s" using assms(1,2) by (simp add: opt_inv_def phase_ok_def)
  with assms(3) have sent: "os_sent s > 0" by (simp add: wait_receive_def waiting_ok_def split: if_splits)
  define t where "t = s\<lparr>os_sent := os_sent s - 1, os_putProvDone := os_putProvDone s + 1\<rparr>"
  have f: "flow_ok t" using assms(1) sent by (auto simp: opt_inv_def flow_ok_def t_def)
  have "rpcs_ok t = rpcs_ok s" "pool_ok cfg t = pool_ok cfg s" by (simp_all add: rpcs_ok_def pool_ok_def t_def)
  with assms(1) have rp: "rpcs_ok t" "pool_ok cfg t" by (simp_all add: opt_inv_def)
  have rc: "0 < os_rpcCount s" using assms(1) w sent by (auto simp: opt_inv_def flow_ok_def waiting_ok_def)
  show ?thesis
  proof (cases "os_putProvDone t = os_returnThreshold t")
    case True
    with w rc have "leasing_ok th (nat (int (os_rpcCount t) - os_putProvDone t)) t"
      by (auto simp: waiting_ok_def leasing_ok_def t_def)
    moreover have "s' = t\<lparr>os_phase := lease_next (nat (int (os_rpcCount t) - os_putProvDone t))\<rparr>"
      using assms(3) sent True by (simp add: wait_receive_def Let_def t_def)
    ultimately show ?thesis using f rp by (simp add: opt_inv_def)
  next
    case False
    with w rc have "waiting_ok th t" by (auto simp: waiting_ok_def t_def)
    moreover have "s' = t" using assms(3) sent False by (simp add: wait_receive_def Let_def t_def)
    moreover have "os_phase t = WaitingForRPCs" using assms(2) by (simp add: t_def)
    ultimately show ?thesis using f rp by (simp add: opt_inv_def phase_ok_def)
  qed
qed

text \<open>Outside the lookup and the wait the phase says how many rounds are left.\<close>

definition rounds_left :: "'f optimisticState \<Rightarrow> nat" where
  "rounds_left s = (case os_phase s of Leasing n \<Rightarrow> n | _ \<Rightarrow> 0)"

lemma opt_inv_leasing:
  assumes "opt_inv cfg th s" and "os_consumers s > 0 \<or> os_got s > 0 \<or> os_released s > 0 \<or> (\<exists>n. os_phase s = Leasing n)"
  shows "leasing_ok th (rounds_left s) s \<and> \<not> os_closed s \<and> os_phase s = lease_next (rounds_left s) \<and>
    os_returnThreshold s < int (os_rpcCount s) \<and> (\<forall>n. os_phase s = Leasing n \<longrightarrow> n > 0)"
proof -
  have p: "phase_ok th s" using assms(1) by (simp add: opt_inv_def)
  have l: "leasing_ok th (rounds_left s) s \<and> os_phase s = lease_next (rounds_left s) \<and> (\<forall>n. os_phase s = Leasing n \<longrightarrow> n > 0)"
  proof (cases "os_phase s")
    case Looking
    with p assms(2) show ?thesis by (simp add: phase_ok_def looking_ok_def)
  next
    case LookupFailed
    with p assms(2) show ?thesis by (simp add: phase_ok_def looking_ok_def)
  next
    case WaitingForRPCs
    with p assms(2) show ?thesis by (simp add: phase_ok_def waiting_ok_def)
  next
    case (Leasing n)
    with p show ?thesis by (simp add: phase_ok_def rounds_left_def lease_next_def)
  next
    case Returned
    with p show ?thesis by (simp add: phase_ok_def rounds_left_def lease_next_def)
  qed
  have "rounds_left s > 0 \<or> os_got s + os_released s + os_consumers s > 0"
  proof (cases "\<exists>n. os_phase s = Leasing n")
    case True
    then obtain n where n: "os_phase s = Leasing n" by blast
    with l have "n > 0" by blast
    then show ?thesis by (simp add: rounds_left_def n)
  qed (use assms(2) in auto)
  with l have "os_returnThreshold s < int (os_rpcCount s)" unfolding leasing_ok_def by linarith
  moreover have "\<not> os_closed s" using closed_all_done [OF assms(1)] assms(2) by auto
  ultimately show ?thesis using l by blast
qed

text \<open>How each part of the invariant moves from one state to the next.\<close>

lemma rpcs_ok_cong:
  "rpcs_ok s \<Longrightarrow> os_started t = os_started s \<Longrightarrow> os_peerStates t = os_peerStates s \<Longrightarrow> os_running t = os_running s \<Longrightarrow> rpcs_ok t"
  unfolding rpcs_ok_def by metis

lemma flow_ok_cong:
  assumes "flow_ok s" and "os_panic t = os_panic s" and "os_started t = os_started s" and "os_running t = os_running s"
    and "int (os_sent t + os_got t + os_released t) + os_putProvDone t = int (os_sent s + os_got s + os_released s) + os_putProvDone s"
  shows "flow_ok t"
  using assms(1,2,5) unfolding flow_ok_def assms(3,4) of_nat_add by (intro conjI) (simp, linarith)

lemma leasing_okI:
  assumes "leasing_ok th n s" and "os_rpcCount t = os_rpcCount s" and "os_started t = os_started s"
    and "os_returnThreshold t = os_returnThreshold s" and "os_putProvDone s \<le> os_putProvDone t"
    and "os_putProvDone t + int (os_got t + os_released t + os_consumers t + m) =
      os_putProvDone s + int (os_got s + os_released s + os_consumers s + n)"
    and "os_closed t \<longleftrightarrow> os_putProvDone t = int (os_rpcCount t) \<and> os_returnThreshold t < int (os_rpcCount t)"
  shows "leasing_ok th m t"
proof -
  note a = assms(1) [unfolded leasing_ok_def]
  show ?thesis unfolding leasing_ok_def using a assms(2-6)
    by (intro conjI assms(7)) (simp_all only:, linarith+)
qed

lemma opt_invI:
  assumes "rpcs_ok s" and "flow_ok s" and "pool_ok cfg s" and "leasing_ok th n s" and "os_phase s = lease_next n"
  shows "opt_inv cfg th s"
proof -
  have "s\<lparr>os_phase := lease_next n\<rparr> = s" by (simp add: assms(5) [symmetric])
  with phase_ok_lease [of th n s] assms show ?thesis by (simp add: opt_inv_def)
qed

lemma count_done_open:
  assumes "\<not> os_closed s"
  shows "count_done s = s\<lparr>os_putProvDone := os_putProvDone s + 1, os_closed := (os_putProvDone s + 1 = int (os_rpcCount s))\<rparr>"
  using assms by (simp add: count_done_def Let_def)

lemma opt_inv_parts: "opt_inv cfg th s \<Longrightarrow> rpcs_ok s \<and> flow_ok s \<and> pool_ok cfg s"
  by (simp add: opt_inv_def)

lemma not_closed_leasing:
  "leasing_ok th n s \<Longrightarrow> \<not> os_closed s \<Longrightarrow> \<not> (os_putProvDone s = int (os_rpcCount s) \<and> os_returnThreshold s < int (os_rpcCount s))"
  unfolding leasing_ok_def by blast

lemma opt_inv_TakeLease:
  assumes "opt_inv cfg th s" and "os_phase s = Leasing n" and "os_pool s < oc_poolSize cfg"
  shows "opt_inv cfg th (s\<lparr>os_pool := os_pool s + 1, os_consumers := os_consumers s + 1, os_phase := lease_next (n - 1)\<rparr>)"
    (is "opt_inv cfg th ?t")
proof -
  have r: "rounds_left s = n" by (simp add: rounds_left_def assms(2))
  from opt_inv_leasing [OF assms(1)] assms(2) have l: "leasing_ok th n s" "n > 0" "\<not> os_closed s" by (auto simp: r)
  note parts = opt_inv_parts [OF assms(1)]
  show ?thesis
  proof (rule opt_invI [of _ _ _ "n - 1"])
    show "rpcs_ok ?t" by (rule rpcs_ok_cong [OF conjunct1 [OF parts]]) simp_all
    show "flow_ok ?t" by (rule flow_ok_cong [of s]) (use parts in simp_all)
    show "pool_ok cfg ?t" using parts assms(3) by (simp add: pool_ok_def)
    show "leasing_ok th (n - 1) ?t"
      by (rule leasing_okI [OF l(1)]) (use l(2,3) not_closed_leasing [OF l(1,3)] in \<open>simp_all add: of_nat_diff\<close>)
  qed simp
qed

lemma opt_inv_ReceiveDirectly:
  assumes "opt_inv cfg th s" and "os_phase s = Leasing n" and "receive_done s = Some t"
  shows "opt_inv cfg th ((count_done t)\<lparr>os_phase := lease_next (n - 1)\<rparr>)"
proof -
  have r: "rounds_left s = n" by (simp add: rounds_left_def assms(2))
  from opt_inv_leasing [OF assms(1)] assms(2) have l: "leasing_ok th n s" "n > 0" "\<not> os_closed s" "os_returnThreshold s < int (os_rpcCount s)"
    by (auto simp: r)
  with assms(3) have sent: "os_sent s > 0" "t = s\<lparr>os_sent := os_sent s - 1\<rparr>"
    by (auto simp: receive_done_def split: if_splits)
  define u where "u = (count_done t)\<lparr>os_phase := lease_next (n - 1)\<rparr>"
  have "count_done t = t\<lparr>os_putProvDone := os_putProvDone t + 1, os_closed := (os_putProvDone t + 1 = int (os_rpcCount t))\<rparr>"
    by (rule count_done_open) (simp add: sent(2) l(3))
  then have c: "u = s\<lparr>os_sent := os_sent s - 1, os_putProvDone := os_putProvDone s + 1,
      os_closed := (os_putProvDone s + 1 = int (os_rpcCount s)), os_phase := lease_next (n - 1)\<rparr>"
    by (simp add: u_def sent(2))
  note parts = opt_inv_parts [OF assms(1)]
  have "opt_inv cfg th u"
  proof (rule opt_invI [of _ _ _ "n - 1"])
    show "rpcs_ok u" by (rule rpcs_ok_cong [OF conjunct1 [OF parts]]) (simp_all add: c)
    show "flow_ok u" by (rule flow_ok_cong [of s]) (use parts sent(1) in \<open>simp_all add: c of_nat_diff\<close>)
    show "pool_ok cfg u" using parts by (simp add: c pool_ok_def)
    show "leasing_ok th (n - 1) u"
      by (rule leasing_okI [OF l(1)]) (use l(2,4) in \<open>simp_all add: c of_nat_diff\<close>)
  qed (simp add: c)
  then show ?thesis by (simp add: u_def)
qed

lemma opt_inv_ConsumerReceives:
  assumes "opt_inv cfg th s" and "os_consumers s > 0" and "receive_done s = Some t"
  shows "opt_inv cfg th (t\<lparr>os_consumers := os_consumers t - 1, os_got := os_got t + 1\<rparr>)" (is "opt_inv cfg th ?u")
proof -
  from opt_inv_leasing [OF assms(1)] assms(2) have l: "leasing_ok th (rounds_left s) s" "\<not> os_closed s" "os_phase s = lease_next (rounds_left s)"
    by auto
  with assms(3) have t: "os_sent s > 0" "t = s\<lparr>os_sent := os_sent s - 1\<rparr>"
    by (auto simp: receive_done_def split: if_splits)
  note parts = opt_inv_parts [OF assms(1)]
  show ?thesis
  proof (rule opt_invI [of _ _ _ "rounds_left s"])
    show "rpcs_ok ?u" by (rule rpcs_ok_cong [OF conjunct1 [OF parts]]) (simp_all add: t(2))
    show "flow_ok ?u" by (rule flow_ok_cong [of s]) (use parts t(1) in \<open>simp_all add: t(2) of_nat_diff\<close>)
    show "pool_ok cfg ?u" using parts assms(2) by (simp add: t(2) pool_ok_def)
    show "leasing_ok th (rounds_left s) ?u"
      by (rule leasing_okI [OF l(1)])
         (use assms(2) l(2) not_closed_leasing [OF l(1,2)] in \<open>simp_all add: t(2) of_nat_diff\<close>)
  qed (simp add: t(2) l(3))
qed

lemma opt_inv_ConsumerReleases:
  assumes "opt_inv cfg th s" and "os_got s > 0" and "os_pool s > 0"
  shows "opt_inv cfg th (s\<lparr>os_got := os_got s - 1, os_released := os_released s + 1, os_pool := os_pool s - 1\<rparr>)"
    (is "opt_inv cfg th ?u")
proof -
  from opt_inv_leasing [OF assms(1)] assms(2) have l: "leasing_ok th (rounds_left s) s" "\<not> os_closed s" "os_phase s = lease_next (rounds_left s)"
    by auto
  note parts = opt_inv_parts [OF assms(1)]
  show ?thesis
  proof (rule opt_invI [of _ _ _ "rounds_left s"])
    show "rpcs_ok ?u" by (rule rpcs_ok_cong [OF conjunct1 [OF parts]]) simp_all
    show "flow_ok ?u" by (rule flow_ok_cong [of s]) (use parts assms(2) in \<open>simp_all add: of_nat_diff\<close>)
    show "pool_ok cfg ?u" using parts assms(2,3) by (auto simp: pool_ok_def)
    show "leasing_ok th (rounds_left s) ?u"
      by (rule leasing_okI [OF l(1)])
         (use assms(2) l(2) not_closed_leasing [OF l(1,2)] in \<open>simp_all add: of_nat_diff\<close>)
  qed (simp add: l(3))
qed

lemma opt_inv_ConsumerCounts:
  assumes "opt_inv cfg th s" and "os_released s > 0"
  shows "opt_inv cfg th (count_done (s\<lparr>os_released := os_released s - 1\<rparr>))"
proof -
  from opt_inv_leasing [OF assms(1)] assms(2) have l: "leasing_ok th (rounds_left s) s" "\<not> os_closed s"
    "os_phase s = lease_next (rounds_left s)" "os_returnThreshold s < int (os_rpcCount s)" by auto
  define t where "t = s\<lparr>os_released := os_released s - 1\<rparr>"
  define u where "u = count_done t"
  have c: "u = t\<lparr>os_putProvDone := os_putProvDone t + 1, os_closed := (os_putProvDone t + 1 = int (os_rpcCount t))\<rparr>"
    unfolding u_def by (rule count_done_open) (simp add: t_def l(2))
  note parts = opt_inv_parts [OF assms(1)]
  have "opt_inv cfg th u"
  proof (rule opt_invI [of _ _ _ "rounds_left s"])
    show "rpcs_ok u" by (rule rpcs_ok_cong [OF conjunct1 [OF parts]]) (simp_all add: c t_def)
    show "flow_ok u" by (rule flow_ok_cong [of s]) (use parts assms(2) in \<open>simp_all add: c t_def of_nat_diff\<close>)
    show "pool_ok cfg u" using parts by (simp add: c t_def pool_ok_def)
    show "leasing_ok th (rounds_left s) u"
      by (rule leasing_okI [OF l(1)]) (use assms(2) l(4) in \<open>simp_all add: c t_def of_nat_diff\<close>)
  qed (simp add: c t_def l(3))
  then show ?thesis by (simp add: u_def t_def)
qed

lemma opt_inv_pool:
  assumes "opt_inv cfg th s" and "os_consumers s + os_got s \<le> k" and "k \<le> oc_poolSize cfg"
  shows "opt_inv cfg th (s\<lparr>os_pool := k\<rparr>)"
proof -
  have "phase_ok th (s\<lparr>os_pool := k\<rparr>) = phase_ok th s" "rpcs_ok (s\<lparr>os_pool := k\<rparr>) = rpcs_ok s" "flow_ok (s\<lparr>os_pool := k\<rparr>) = flow_ok s"
    by (simp_all add: phase_ok_def looking_ok_def waiting_ok_def leasing_ok_def rpcs_ok_def flow_ok_def split: opt_phase.splits)
  with assms show ?thesis by (simp add: opt_inv_def pool_ok_def)
qed

lemma opt_step_inv:
  assumes "opt_inv cfg th s" and "0 < th" and "opt_step cfg ev s = Some s'"
  shows "opt_inv cfg th s'"
proof (cases ev)
  case (CheckStop qps)
  with assms(3) obtain b where "os_phase s = Looking" "opt_stopFn cfg qps s = Some (b, s')"
    by (auto simp: opt_step_def split: if_splits)
  then show ?thesis using opt_inv_lookup(1) [OF assms(1) _ assms(2)] only_rpcs_stopFn by blast
next
  case (LookupEnded ps)
  with assms show ?thesis using opt_inv_lookup(2) [OF assms(1) _ assms(2)] by (auto simp: opt_step_def split: if_splits)
next
  case LookupError
  with assms show ?thesis using opt_inv_lookup(3) [OF assms(1) _ assms(2)] by (auto simp: opt_step_def split: if_splits)
next
  case (RpcDone p ok)
  with assms show ?thesis using opt_inv_RpcDone by (auto simp: opt_step_def split: if_splits)
next
  case Receive
  with assms show ?thesis using opt_inv_Receive by (auto simp: opt_step_def split: if_splits)
next
  case TakeLease
  with assms show ?thesis using opt_inv_TakeLease [OF assms(1)]
    by (auto simp: opt_step_def split: if_splits opt_phase.splits)
next
  case ReceiveDirectly
  with assms show ?thesis using opt_inv_ReceiveDirectly [OF assms(1)]
    by (auto simp: opt_step_def split: if_splits opt_phase.splits)
next
  case ConsumerReceives
  with assms show ?thesis using opt_inv_ConsumerReceives [OF assms(1)] by (auto simp: opt_step_def split: if_splits)
next
  case ConsumerReleases
  with assms show ?thesis using opt_inv_ConsumerReleases [OF assms(1)] by (auto simp: opt_step_def split: if_splits)
next
  case ConsumerCounts
  with assms show ?thesis using opt_inv_ConsumerCounts [OF assms(1)] by (auto simp: opt_step_def split: if_splits)
next
  case OtherTakes
  with assms show ?thesis using opt_inv_pool [OF assms(1), of "os_pool s + 1"]
    by (auto simp: opt_step_def opt_inv_def pool_ok_def split: if_splits)
next
  case OtherReleases
  with assms show ?thesis using opt_inv_pool [OF assms(1), of "os_pool s - 1"]
    by (auto simp: opt_step_def opt_inv_def pool_ok_def split: if_splits)
qed

lemma opt_run_inv: "opt_run cfg evs s = Some s' \<Longrightarrow> opt_inv cfg th s \<Longrightarrow> 0 < th \<Longrightarrow> opt_inv cfg th s'"
  by (induction evs arbitrary: s) (auto intro: opt_step_inv split: option.splits)

lemma newOptimisticState_inv:
  "newOptimisticState cfg est pool = Inr s \<Longrightarrow> pool \<le> oc_poolSize cfg \<Longrightarrow>
   opt_inv cfg ((3 * oc_bucketSize cfg + 3) div 4) s \<and> os_phase s = Looking"
  by (auto simp: newOptimisticState_def Let_def opt_inv_def rpcs_ok_def flow_ok_def phase_ok_def looking_ok_def pool_ok_def
      split: sum.splits)

text \<open>RPCs once started stay noted, and the peers found are among them.\<close>

lemma count_done_started [simp]:
  "os_started (count_done s) = os_started s" "os_running (count_done s) = os_running s" "os_sent (count_done s) = os_sent s"
  "os_consumers (count_done s) = os_consumers s" "os_got (count_done s) = os_got s" "os_released (count_done s) = os_released s"
  "os_phase (count_done s) = os_phase s" "os_rpcCount (count_done s) = os_rpcCount s"
  "os_returnThreshold (count_done s) = os_returnThreshold s"
  by (simp_all add: count_done_def Let_def)

lemma receive_done_parts:
  "receive_done s = Some t \<Longrightarrow> t = s\<lparr>os_sent := os_sent s - 1\<rparr> \<and> os_sent s > 0 \<or> t = s \<and> os_closed s"
  by (auto simp: receive_done_def split: if_splits)

lemma wait_receive_started: "wait_receive s = Some t \<Longrightarrow> os_started t = os_started s"
  by (auto simp: wait_receive_def Let_def split: if_splits)

lemma opt_step_started:
  assumes "opt_step cfg ev s = Some s'" and "opt_inv cfg th s"
  shows "set (os_started s) \<subseteq> set (os_started s') \<and> (\<forall>ps. ev = LookupEnded ps \<longrightarrow> set ps \<subseteq> set (os_started s'))"
proof (cases "\<exists>ps. ev = LookupEnded ps")
  case True
  then obtain ps where ev: "ev = LookupEnded ps" "s' = begin_wait (schedule_rest ps s)"
    using assms(1) by (auto simp: opt_step_def split: if_splits)
  have "rpcs_ok (schedule_rest ps s)"
    using only_rpcs_schedule [of s ps] assms(2) by (simp add: only_rpcs_def opt_inv_def)
  then have "set (os_started (schedule_rest ps s)) = fst ` set (os_peerStates (schedule_rest ps s))"
    unfolding rpcs_ok_def by blast
  moreover have "os_started (begin_wait t) = os_started t" for t :: "'a optimisticState"
    by (simp add: begin_wait_def Let_def)
  ultimately show ?thesis using only_rpcs_schedule [of s ps] ev by (simp add: only_rpcs_def)
next
  case False
  have "set (os_started s) \<subseteq> set (os_started s')"
  proof (cases ev)
    case (CheckStop qps)
    with assms(1) only_rpcs_stopFn show ?thesis by (fastforce simp: opt_step_def only_rpcs_def split: if_splits)
  next
    case Receive
    with assms(1) wait_receive_started show ?thesis by (fastforce simp: opt_step_def split: if_splits)
  next
    case (LookupEnded ps)
    with False show ?thesis by blast
  next
    case (RpcDone p ok)
    with assms(1) show ?thesis by (auto simp: opt_step_def putProviderRecord_done_def split: if_splits)
  next
    case ReceiveDirectly
    with assms(1) obtain t n where "receive_done s = Some t" "s' = (count_done t)\<lparr>os_phase := lease_next (n - 1)\<rparr>"
      by (auto simp: opt_step_def split: opt_phase.splits)
    with receive_done_parts [of s t] show ?thesis by auto
  next
    case ConsumerReceives
    with assms(1) obtain t where "receive_done s = Some t" "s' = t\<lparr>os_consumers := os_consumers t - 1, os_got := os_got t + 1\<rparr>"
      by (auto simp: opt_step_def split: if_splits)
    with receive_done_parts [of s t] show ?thesis by auto
  qed (use assms(1) in \<open>auto simp: opt_step_def split: if_splits opt_phase.splits\<close>)
  with False show ?thesis by blast
qed

lemma opt_run_started:
  "opt_run cfg evs s = Some s' \<Longrightarrow> opt_inv cfg th s \<Longrightarrow> 0 < th \<Longrightarrow>
   set (os_started s) \<subseteq> set (os_started s') \<and> (\<forall>ps. LookupEnded ps \<in> set evs \<longrightarrow> set ps \<subseteq> set (os_started s'))"
proof (induction evs arbitrary: s)
  case (Cons ev evs)
  then obtain t where t: "opt_step cfg ev s = Some t" "opt_run cfg evs t = Some s'" by (auto split: option.splits)
  note ih = Cons.IH [OF t(2) opt_step_inv [OF Cons.prems(2,3) t(1)] Cons.prems(3)]
  from opt_step_started [OF t(1) Cons.prems(2)] ih show ?case unfolding list.set by blast
qed simp

text \<open>The work that is left after the lookup.\<close>

definition own_event :: "opt_event \<Rightarrow> bool" where
  "own_event ev = (ev \<noteq> OtherTakes \<and> ev \<noteq> OtherReleases)"

definition after_lookup :: "'f optimisticState \<Rightarrow> bool" where
  "after_lookup s \<longleftrightarrow> os_phase s \<noteq> Looking \<and> os_phase s \<noteq> LookupFailed"

definition to_lease :: "'f optimisticState \<Rightarrow> nat" where
  "to_lease s = (if os_phase s = WaitingForRPCs then nat (int (os_rpcCount s) - os_returnThreshold s) else rounds_left s)"

definition work :: "'f optimisticState \<Rightarrow> nat" where
  "work s = 2 * length (os_running s) + os_sent s + 5 * to_lease s + 4 * os_consumers s + 2 * os_got s + os_released s"

lemma rounds_left_next [simp]: "rounds_left (s\<lparr>os_phase := lease_next n\<rparr>) = n" "to_lease (s\<lparr>os_phase := lease_next n\<rparr>) = n"
  by (simp_all add: rounds_left_def to_lease_def lease_next_def)

lemma work_phase:
  "work (s\<lparr>os_phase := lease_next n\<rparr>) =
     2 * length (os_running s) + os_sent s + 5 * n + 4 * os_consumers s + 2 * os_got s + os_released s"
  by (simp add: work_def)

lemma lease_next_after [simp]: "lease_next n \<noteq> Looking" "lease_next n \<noteq> LookupFailed"
  by (simp_all add: lease_next_def)

lemma opt_step_work:
  assumes "opt_step cfg ev s = Some s'" and "opt_inv cfg th s" and "after_lookup s"
  shows "after_lookup s' \<and> work s' + (if own_event ev then 1 else 0) \<le> work s \<and> os_started s' = os_started s"
proof (cases ev)
  case (RpcDone p ok)
  with assms(1) have p: "p \<in> set (os_running s)" and s': "s' = putProviderRecord_done p ok s"
    by (auto simp: opt_step_def split: if_splits)
  from length_pos_if_in_set [OF p] p
  have "length (os_running s) = Suc (length (remove1 p (os_running s)))" by (simp add: length_remove1)
  with assms(3) show ?thesis
    by (simp add: s' RpcDone own_event_def after_lookup_def work_def to_lease_def rounds_left_def putProviderRecord_done_def
        cong: if_cong opt_phase.case_cong)
next
  case Receive
  with assms(1) have w: "os_phase s = WaitingForRPCs" "wait_receive s = Some s'" by (auto simp: opt_step_def split: if_splits)
  with assms(2) have ok: "waiting_ok th s" by (simp add: opt_inv_def phase_ok_def)
  then have sent: "os_sent s > 0" using w(2) by (simp add: wait_receive_def waiting_ok_def split: if_splits)
  define t where "t = s\<lparr>os_sent := os_sent s - 1, os_putProvDone := os_putProvDone s + 1\<rparr>"
  have s': "s' = (if os_putProvDone t = os_returnThreshold t
      then t\<lparr>os_phase := lease_next (nat (int (os_rpcCount t) - os_putProvDone t))\<rparr> else t)"
    using w(2) sent by (simp add: wait_receive_def Let_def t_def split: if_splits)
  have "work t + 1 \<le> work s" using sent w(1) by (simp add: work_def to_lease_def t_def)
  moreover have "to_lease t = nat (int (os_rpcCount t) - os_returnThreshold t)" using w(1) by (simp add: to_lease_def t_def)
  moreover have "after_lookup t" "os_started t = os_started s" using w(1) by (simp_all add: after_lookup_def t_def)
  moreover have "os_started s' = os_started t" by (simp add: s')
  moreover have "after_lookup s'"
    using \<open>after_lookup t\<close> by (simp add: s' after_lookup_def)
  moreover have "work s' = work t"
    using calculation(2) by (simp add: s' work_phase) (simp add: work_def)
  ultimately show ?thesis by (simp add: Receive own_event_def)
next
  case TakeLease
  with assms(1) obtain n where n: "os_phase s = Leasing n"
    "s' = s\<lparr>os_pool := os_pool s + 1, os_consumers := os_consumers s + 1, os_phase := lease_next (n - 1)\<rparr>"
    by (auto simp: opt_step_def split: opt_phase.splits if_splits)
  have "n > 0" using opt_inv_leasing [OF assms(2)] n(1) by blast
  then show ?thesis
    unfolding n(2) work_phase by (cases n) (simp_all add: TakeLease own_event_def after_lookup_def work_def to_lease_def rounds_left_def n(1))
next
  case ReceiveDirectly
  with assms(1) obtain t n where n: "os_phase s = Leasing n" "receive_done s = Some t"
    "s' = (count_done t)\<lparr>os_phase := lease_next (n - 1)\<rparr>"
    by (auto simp: opt_step_def split: opt_phase.splits)
  have o: "n > 0" "\<not> os_closed s" using opt_inv_leasing [OF assms(2)] n(1) by blast+
  with receive_done_parts [OF n(2)] have "t = s\<lparr>os_sent := os_sent s - 1\<rparr>" "os_sent s > 0" by auto
  with o(1) show ?thesis
    unfolding n(3) work_phase by (cases n) (simp_all add: ReceiveDirectly own_event_def after_lookup_def work_def to_lease_def rounds_left_def n(1))
next
  case ConsumerReceives
  with assms(1) obtain t where t: "os_consumers s > 0" "receive_done s = Some t"
    "s' = t\<lparr>os_consumers := os_consumers t - 1, os_got := os_got t + 1\<rparr>"
    by (auto simp: opt_step_def split: if_splits)
  have "\<not> os_closed s" using opt_inv_leasing [OF assms(2)] t(1) by blast
  with receive_done_parts [OF t(2)] have e: "t = s\<lparr>os_sent := os_sent s - 1\<rparr>" "os_sent s > 0" by auto
  have "to_lease s' = to_lease s" by (simp add: t(3) e(1) to_lease_def rounds_left_def cong: if_cong opt_phase.case_cong)
  with e t(1) assms(3) show ?thesis by (simp add: t(3) ConsumerReceives own_event_def after_lookup_def work_def)
next
  case ConsumerReleases
  with assms(1) have t: "os_got s > 0"
    "s' = s\<lparr>os_got := os_got s - 1, os_released := os_released s + 1, os_pool := os_pool s - 1\<rparr>"
    by (auto simp: opt_step_def split: if_splits)
  have "to_lease s' = to_lease s" by (simp add: t(2) to_lease_def rounds_left_def cong: if_cong opt_phase.case_cong)
  with t assms(3) show ?thesis by (simp add: ConsumerReleases own_event_def after_lookup_def work_def)
next
  case ConsumerCounts
  with assms(1) have t: "os_released s > 0" "s' = count_done (s\<lparr>os_released := os_released s - 1\<rparr>)"
    by (auto simp: opt_step_def split: if_splits)
  have "to_lease s' = to_lease s" by (simp add: t(2) to_lease_def rounds_left_def cong: if_cong opt_phase.case_cong)
  with t assms(3) show ?thesis by (simp add: ConsumerCounts own_event_def after_lookup_def work_def)
qed (use assms in \<open>auto simp: opt_step_def own_event_def after_lookup_def work_def to_lease_def rounds_left_def
      split: if_splits\<close>)

lemma opt_run_work:
  "opt_run cfg evs s = Some s' \<Longrightarrow> opt_inv cfg th s \<Longrightarrow> 0 < th \<Longrightarrow> after_lookup s \<Longrightarrow>
   after_lookup s' \<and> work s' + length (filter own_event evs) \<le> work s \<and> os_started s' = os_started s"
proof (induction evs arbitrary: s)
  case (Cons ev evs)
  then obtain t where t: "opt_step cfg ev s = Some t" "opt_run cfg evs t = Some s'" by (auto split: option.splits)
  note w = opt_step_work [OF t(1) Cons.prems(2,4)]
  from Cons.IH [OF t(2) opt_step_inv [OF Cons.prems(2,3) t(1)] Cons.prems(3)] w
  show ?case by (auto split: if_splits)
qed simp

lemma work_bound:
  assumes "opt_inv cfg th s" and "after_lookup s" and "0 < th"
  shows "work s \<le> 7 * length (os_started s)"
proof -
  have f: "int (length (os_started s)) = int (length (os_running s) + os_sent s + os_got s + os_released s) + os_putProvDone s"
    using assms(1) unfolding opt_inv_def flow_ok_def by blast
  show ?thesis
  proof (cases "os_phase s = WaitingForRPCs")
    case True
    with assms(1) have w: "waiting_ok th s" by (simp add: opt_inv_def phase_ok_def)
    have "to_lease s \<le> length (os_started s)"
      using w True assms(3) by (simp add: to_lease_def waiting_ok_def)
    moreover have "length (os_running s) + os_sent s \<le> length (os_started s)" using f w unfolding waiting_ok_def by linarith
    moreover have "os_consumers s = 0" "os_got s = 0" "os_released s = 0" using w by (auto simp: waiting_ok_def)
    ultimately show ?thesis unfolding work_def by linarith
  next
    case False
    with assms have l: "leasing_ok th (to_lease s) s"
      by (auto simp: opt_inv_def phase_ok_def after_lookup_def to_lease_def rounds_left_def split: opt_phase.splits)
    have e: "int (length (os_started s)) = os_putProvDone s + int (os_got s + os_released s + os_consumers s + to_lease s)"
      "0 \<le> os_putProvDone s"
      using l assms(3) unfolding leasing_ok_def by linarith+
    have "os_got s + os_released s + os_consumers s + to_lease s \<le> length (os_started s)"
      "length (os_running s) + os_sent s + os_got s + os_released s \<le> length (os_started s)" using e f by linarith+
    then show ?thesis unfolding work_def by linarith
  qed
qed

lemma after_lookup_phase:
  assumes "opt_inv cfg th s" and "after_lookup s"
  shows "os_phase s = WaitingForRPCs \<and> waiting_ok th s \<or> os_phase s = lease_next (rounds_left s) \<and> leasing_ok th (rounds_left s) s"
  using assms
  by (cases "os_phase s") (simp_all add: opt_inv_def phase_ok_def after_lookup_def rounds_left_def lease_next_def)

lemma opt_stuck:
  assumes "opt_inv cfg th s" and "after_lookup s" and "os_started s \<noteq> []"
    and stuck: "\<And>ev. own_event ev \<Longrightarrow> opt_step cfg ev s = None"
  shows "os_phase s = Returned \<and> os_running s = [] \<and> os_consumers s = 0 \<and> os_got s = 0 \<and> os_released s = 0"
proof -
  have f: "int (length (os_started s)) = int (length (os_running s) + os_sent s + os_got s + os_released s) + os_putProvDone s"
    using assms(1) unfolding opt_inv_def flow_ok_def by blast
  have run: "os_running s = []"
    using stuck [of "RpcDone (hd (os_running s)) True"] by (cases "os_running s") (auto simp: own_event_def opt_step_def)
  have got: "os_got s = 0"
    using stuck [of ConsumerReleases] assms(1) by (auto simp: own_event_def opt_step_def opt_inv_def pool_ok_def split: if_splits)
  have rel: "os_released s = 0"
    using stuck [of ConsumerCounts] by (auto simp: own_event_def opt_step_def split: if_splits)
  have recv: "receive_done s = None \<Longrightarrow> os_sent s = 0" by (simp add: receive_done_def split: if_splits)
  from after_lookup_phase [OF assms(1,2)] show ?thesis
  proof
    assume w: "os_phase s = WaitingForRPCs \<and> waiting_ok th s"
    then have "os_sent s = 0"
      using stuck [of Receive] by (auto simp: own_event_def opt_step_def wait_receive_def Let_def split: if_splits)
    with f run got rel w assms(3) have False unfolding waiting_ok_def by auto
    then show ?thesis ..
  next
    assume l: "os_phase s = lease_next (rounds_left s) \<and> leasing_ok th (rounds_left s) s"
    have e: "int (length (os_started s)) = os_putProvDone s + int (os_consumers s + rounds_left s)"
      using l got rel unfolding leasing_ok_def by simp
    show ?thesis
    proof (cases "os_sent s = 0")
      case True
      with f e run got rel have "os_consumers s = 0" "rounds_left s = 0" by simp_all
      with l run got rel show ?thesis by (simp add: lease_next_def)
    next
      case False
      then have "os_consumers s = 0"
        using stuck [of ConsumerReceives] recv by (auto simp: own_event_def opt_step_def split: if_splits)
      moreover have "os_phase s \<noteq> Leasing n" for n
        using stuck [of ReceiveDirectly] recv False by (auto simp: own_event_def opt_step_def)
      ultimately show ?thesis using l run got rel by (auto simp: lease_next_def split: if_splits)
    qed
  qed
qed

section \<open>Properties\<close>

text \<open>C22: However the lookup, the RPCs, the operation and its consumers interleave with other operations, no RPC
  is started twice for a peer, every peer that the lookup found gets one, nothing is ever sent to or
  closed on a closed channel, the leases taken stay within the pool, and when the operation returns at
  least three quarters of a bucket of RPCs (or all of them) are done and each one that is not is
  covered by a lease, so that no more run on than the pool has places.\<close>

theorem optimistic_provide_safe:
  assumes "newOptimisticState cfg est pool = Inr s0" and "pool \<le> oc_poolSize cfg" and "0 < oc_bucketSize cfg"
    and "opt_run cfg evs s0 = Some s"
  shows "\<not> os_panic s \<and> distinct (os_started s) \<and>
    (\<forall>ps. LookupEnded ps \<in> set evs \<longrightarrow> set ps \<subseteq> set (os_started s)) \<and>
    os_consumers s + os_got s \<le> os_pool s \<and> os_pool s \<le> oc_poolSize cfg \<and>
    (os_closed s \<longrightarrow> os_running s = [] \<and> os_sent s = 0 \<and> os_consumers s = 0) \<and>
    (os_phase s = Returned \<longrightarrow>
       min ((3 * oc_bucketSize cfg + 3) div 4) (int (length (os_started s))) \<le>
         int (length (os_started s)) - int (length (os_running s) + os_sent s) \<and>
       length (os_running s) \<le> oc_poolSize cfg)"
proof -
  let ?th = "(3 * oc_bucketSize cfg + 3) div 4"
  have th: "0 < ?th" using assms(3) by simp
  have i0: "opt_inv cfg ?th s0" using newOptimisticState_inv [OF assms(1,2)] by simp
  note inv = opt_run_inv [OF assms(4) i0 th]
  have f: "flow_ok s" "rpcs_ok s" "pool_ok cfg s" using inv by (simp_all add: opt_inv_def)
  have ret: "min ?th (int (length (os_started s))) \<le> int (length (os_started s)) - int (length (os_running s) + os_sent s) \<and>
      length (os_running s) \<le> oc_poolSize cfg" if "os_phase s = Returned"
  proof -
    have l: "leasing_ok ?th 0 s" using inv that by (simp add: opt_inv_def phase_ok_def)
    have c: "int (length (os_running s) + os_sent s) = int (os_consumers s)"
      using l f(1) unfolding leasing_ok_def flow_ok_def by linarith
    then have "length (os_running s) \<le> os_consumers s" by linarith
    moreover have "os_consumers s \<le> oc_poolSize cfg" using f(3) unfolding pool_ok_def by linarith
    moreover have "min ?th (int (length (os_started s))) \<le> int (length (os_started s)) - int (os_consumers s)"
      using l unfolding leasing_ok_def by linarith
    ultimately show ?thesis unfolding c by linarith
  qed
  have "\<not> os_panic s" using f(1) unfolding flow_ok_def by blast
  moreover have "distinct (os_started s)" using f(2) unfolding rpcs_ok_def by blast
  ultimately show ?thesis
    using opt_run_started [OF assms(4) i0 th] f(3) closed_all_done [OF inv] ret unfolding pool_ok_def by blast
qed

text \<open>C23: Once the lookup has ended and at least one RPC was started, the operation makes at most seven steps
  per RPC, whatever other operations do with the pool, and it stops only when it has returned, every
  RPC is done and every lease given back; but when the lookup has found no peer and no RPC was
  started, it waits forever.\<close>

theorem optimistic_provide_returns:
  assumes "newOptimisticState cfg est pool = Inr s0" and "pool \<le> oc_poolSize cfg" and "0 < oc_bucketSize cfg"
    and "opt_run cfg evs s0 = Some s" and "os_phase s \<noteq> Looking" and "os_phase s \<noteq> LookupFailed"
    and "opt_run cfg evs' s = Some s'"
  shows "length (filter own_event evs') \<le> 7 * length (os_started s) \<and>
    (os_started s \<noteq> [] \<and> (\<forall>ev. own_event ev \<longrightarrow> opt_step cfg ev s' = None) \<longrightarrow>
       os_phase s' = Returned \<and> os_running s' = [] \<and> os_consumers s' = 0 \<and> os_got s' = 0 \<and> os_released s' = 0) \<and>
    (os_started s = [] \<longrightarrow> os_phase s' = WaitingForRPCs)"
proof -
  let ?th = "(3 * oc_bucketSize cfg + 3) div 4"
  have th: "0 < ?th" using assms(3) by simp
  have i0: "opt_inv cfg ?th s0" using newOptimisticState_inv [OF assms(1,2)] by simp
  note inv = opt_run_inv [OF assms(4) i0 th]
  have a: "after_lookup s" using assms(5,6) by (simp add: after_lookup_def)
  note inv' = opt_run_inv [OF assms(7) inv th]
  note w = opt_run_work [OF assms(7) inv th a]
  have "length (filter own_event evs') \<le> 7 * length (os_started s)" using w work_bound [OF inv a th] by linarith
  moreover have "os_phase s' = WaitingForRPCs" if "os_started s = []"
  proof -
    have e: "os_started s' = []" "after_lookup s'" using w that by auto
    have "\<not> leasing_ok ?th n s'" for n using e(1) unfolding leasing_ok_def by auto
    with after_lookup_phase [OF inv' e(2)] show ?thesis by blast
  qed
  moreover have "os_phase s' = Returned \<and> os_running s' = [] \<and> os_consumers s' = 0 \<and> os_got s' = 0 \<and> os_released s' = 0"
    if "os_started s \<noteq> []" and "\<forall>ev. own_event ev \<longrightarrow> opt_step cfg ev s' = None"
    by (rule opt_stuck [OF inv']) (use w that in auto)
  ultimately show ?thesis by blast
qed

definition demo_opt :: "int opt_cfg" where
  "demo_opt = \<lparr>oc_fl = demo_fl, oc_GammaIncRegInv = (\<lambda>a x. 0), oc_NormedDistance = (\<lambda>p. int (length p)),
     oc_bucketSize = 2, oc_poolSize = 1\<rparr>"

definition demo_opt_state :: "int optimisticState" where
  "demo_opt_state = (case newOptimisticState demo_opt (Inr 7) 0 of Inr s \<Rightarrow> s | Inl e \<Rightarrow> undefined)"

lemma demo_opt_New: "newOptimisticState demo_opt (Inr 7) 0 = Inr demo_opt_state"
  by (simp add: demo_opt_state_def newOptimisticState_def Let_def)

definition demo_opt_run :: "opt_event list" where
  "demo_opt_run = [LookupEnded [''a'', ''b'', ''c''], RpcDone ''b'' True, Receive, RpcDone ''a'' False, Receive, TakeLease]"

theorem optimistic_provide_safe_witness:
  "\<exists>s. opt_run demo_opt demo_opt_run demo_opt_state = Some s \<and> os_phase s = Returned \<and> os_running s = [''c''] \<and>
     \<not> os_panic s \<and> distinct (os_started s) \<and> os_pool s \<le> 1"
proof -
  have "map_option (\<lambda>s. (os_phase s, os_running s)) (opt_run demo_opt demo_opt_run demo_opt_state) = Some (Returned, [''c''])"
    by code_simp
  then obtain s where s: "opt_run demo_opt demo_opt_run demo_opt_state = Some s" "os_phase s = Returned" "os_running s = [''c'']"
    by auto
  have c: "(0 :: nat) \<le> oc_poolSize demo_opt" "0 < oc_bucketSize demo_opt" "oc_poolSize demo_opt = 1"
    by (simp_all add: demo_opt_def)
  note t = optimistic_provide_safe [OF demo_opt_New c(1,2) s(1)]
  have "\<not> os_panic s" "distinct (os_started s)" "os_pool s \<le> oc_poolSize demo_opt" using t by blast+
  with s c(3) show ?thesis by auto
qed

theorem optimistic_provide_returns_witness:
  "\<exists>s. opt_run demo_opt [LookupEnded []] demo_opt_state = Some s \<and> os_phase s = WaitingForRPCs \<and>
     (\<exists>s'. opt_run demo_opt [OtherTakes, OtherReleases] s = Some s' \<and> os_phase s' = WaitingForRPCs)"
proof -
  have "map_option (\<lambda>s. (os_phase s, os_started s, map_option os_phase (opt_run demo_opt [OtherTakes, OtherReleases] s)))
      (opt_run demo_opt [LookupEnded []] demo_opt_state) = Some (WaitingForRPCs, [], Some WaitingForRPCs)"
    by code_simp
  then obtain s s' where s: "opt_run demo_opt [LookupEnded []] demo_opt_state = Some s" "os_phase s = WaitingForRPCs"
    "os_started s = []" "opt_run demo_opt [OtherTakes, OtherReleases] s = Some s'" by auto
  have c: "(0 :: nat) \<le> oc_poolSize demo_opt" "0 < oc_bucketSize demo_opt" by (simp_all add: demo_opt_def)
  have p: "os_phase s \<noteq> Looking" "os_phase s \<noteq> LookupFailed" by (simp_all add: s(2))
  note t = optimistic_provide_returns [OF demo_opt_New c s(1) p s(4)]
  from t s(3) have "os_phase s' = WaitingForRPCs" by blast
  with s show ?thesis by blast
qed

end
