(* ===== verification/FullRT.thy ===== *)
theory FullRT
  imports Provider_Routing Complex_Main "HOL-Library.Sublist"
begin

text \<open>
  The client that keeps the whole network in memory (\<^verbatim>\<open>fullrt/dht.go\<close>, \<^verbatim>\<open>fullrt/options.go\<close>): its
  configuration, the tables each crawl rebuilds, the closest peers with their IP diversity limit, the
  execution of an operation on many peers, and the check of known peers.

  The trie is the list of its keys; its search (\<^verbatim>\<open>kademlia.ClosestN\<close>), the Kademlia keys, the reading
  of IP addresses and their groups are third-party: parameters. A crawl is the sequence of the
  crawler's reports.
\<close>

section \<open>Configuration\<close>

text \<open>The success fraction is the rational number of the code's floating point one, whose products are not rounded; \<open>'o\<close> and \<open>'p\<close> are options of other packages.\<close>

record ('o, 'p) fullrt_config =
  fc_dhtOpts :: "'o list"
  fc_crawlInterval :: duration
  fc_waitFrac :: rat
  fc_bulkSendParallelism :: int
  fc_timeoutPerOp :: duration
  fc_customCrawler :: bool
  fc_pmOpts :: "'p list"
  fc_ipDiversityFilterLimit :: int

datatype ('o, 'p) fullrt_option =
    FrDHTOption "'o list"
  | WithCrawler
  | WithCrawlInterval duration
  | WithSuccessWaitFraction rat
  | WithBulkSendParallelism int
  | WithTimeoutPerOperation duration
  | WithProviderManagerOptions "'p list"
  | WithIPDiversityFilterLimit int

fun fullrt_option_apply :: "('o, 'p) fullrt_option \<Rightarrow> ('o, 'p) fullrt_config \<Rightarrow> string + ('o, 'p) fullrt_config" where
  "fullrt_option_apply (FrDHTOption opts) c = Inr (c\<lparr>fc_dhtOpts := fc_dhtOpts c @ opts\<rparr>)"
| "fullrt_option_apply WithCrawler c = Inr (c\<lparr>fc_customCrawler := True\<rparr>)"
| "fullrt_option_apply (WithCrawlInterval i) c = Inr (c\<lparr>fc_crawlInterval := i\<rparr>)"
| "fullrt_option_apply (WithSuccessWaitFraction f) c =
     (if f \<le> 0 \<or> f > 1 then Inl ''success wait fraction must be larger than 0 and smaller or equal to 1''
      else Inr (c\<lparr>fc_waitFrac := f\<rparr>))"
| "fullrt_option_apply (WithBulkSendParallelism b) c =
     (if b < 1 then Inl ''bulk send parallelism must be at least 1'' else Inr (c\<lparr>fc_bulkSendParallelism := b\<rparr>))"
| "fullrt_option_apply (WithTimeoutPerOperation t) c = Inr (c\<lparr>fc_timeoutPerOp := t\<rparr>)"
| "fullrt_option_apply (WithProviderManagerOptions opts) c = Inr (c\<lparr>fc_pmOpts := opts\<rparr>)"
| "fullrt_option_apply (WithIPDiversityFilterLimit n) c = Inr (c\<lparr>fc_ipDiversityFilterLimit := n\<rparr>)"

text \<open>The error carries the index of the option that failed.\<close>

fun fullrt_config_apply :: "nat \<Rightarrow> ('o, 'p) fullrt_option list \<Rightarrow> ('o, 'p) fullrt_config \<Rightarrow>
    nat \<times> string + ('o, 'p) fullrt_config" where
  "fullrt_config_apply i [] c = Inr c"
| "fullrt_config_apply i (opt # opts) c =
     (case fullrt_option_apply opt c of
        Inl err \<Rightarrow> Inl (i, err)
      | Inr c \<Rightarrow> fullrt_config_apply (i + 1) opts c)"

section \<open>State\<close>

record 'ip closest_env =
  ce_Key :: "string \<Rightarrow> string"
  ce_PeerKey :: "peer_id \<Rightarrow> string"
  ce_ClosestN :: "string \<Rightarrow> string list \<Rightarrow> nat \<Rightarrow> string list"
  ce_ToIP :: "multiaddr \<Rightarrow> 'ip option"
  ce_IPGroupKey :: "'ip \<Rightarrow> group_key"

record fullrt =
  fr_rt :: "string list"
  fr_keyToPeerMap :: "(string, peer_id) gomap"
  fr_peerAddrs :: "(peer_id, multiaddr list) gomap"
  fr_lastCrawlTime :: instant
  fr_crawlerInterval :: duration
  fr_bootstrapPeers :: "AddrInfo list"
  fr_bucketSize :: int
  fr_waitFrac :: rat
  fr_timeoutPerOp :: duration
  fr_bulkSendParallelism :: int
  fr_ipDiversityFilterLimit :: int

text \<open>
  The tables of a new client are empty, and its time of the last crawl is the zero time. The limit of
  the configuration is not copied into the client: the field keeps its zero value. \<open>setup\<close> is the first
  failure of creating the messenger, the crawler, the subscription or the provider manager.
\<close>

definition zero_time :: instant where
  "zero_time = - 62135596800 * 1000000000"

definition NewFullRT :: "('o, 'p) fullrt_option list \<Rightarrow> ('o list \<Rightarrow> string + int \<times> AddrInfo list) \<Rightarrow>
    string option \<Rightarrow> (nat \<times> string) + (string + fullrt)" where
  "NewFullRT options dhtConfig setup =
     (case fullrt_config_apply 0 options
             \<lparr>fc_dhtOpts = [], fc_crawlInterval = hours 1, fc_waitFrac = 3 / 10, fc_bulkSendParallelism = 20,
              fc_timeoutPerOp = 5 * time_Second, fc_customCrawler = False, fc_pmOpts = [], fc_ipDiversityFilterLimit = 3\<rparr> of
        Inl err \<Rightarrow> Inl err
      | Inr cfg \<Rightarrow>
          Inr (case dhtConfig (fc_dhtOpts cfg) of
                 Inl err \<Rightarrow> Inl err
               | Inr (bucketSize, bootstrapPeers) \<Rightarrow>
                   (case setup of
                      Some err \<Rightarrow> Inl err
                    | None \<Rightarrow>
                        Inr \<lparr>fr_rt = [], fr_keyToPeerMap = [], fr_peerAddrs = [], fr_lastCrawlTime = zero_time,
                             fr_crawlerInterval = fc_crawlInterval cfg, fr_bootstrapPeers = bootstrapPeers,
                             fr_bucketSize = bucketSize, fr_waitFrac = fc_waitFrac cfg,
                             fr_timeoutPerOp = fc_timeoutPerOp cfg,
                             fr_bulkSendParallelism = fc_bulkSendParallelism cfg, fr_ipDiversityFilterLimit = 0\<rparr>)))"

section \<open>Crawling\<close>

text \<open>
  One crawl: who it starts from, what the reports of handled peers leave in \<open>foundPeers\<close> (with whether
  the routing table filter keeps the peer and its addresses in the peerstore), and the new tables.
\<close>

definition crawl_seeds :: "(peer_id, multiaddr list) gomap \<Rightarrow> fullrt \<Rightarrow> AddrInfo list" where
  "crawl_seeds foundPeers d =
     map (\<lambda>p. \<lparr>ai_ID = p, ai_Addrs = []\<rparr>) (map fst foundPeers) @ fr_bootstrapPeers d"

definition handle_found :: "peer_id \<times> bool \<times> multiaddr list \<Rightarrow> (peer_id, multiaddr list) gomap \<Rightarrow>
    (peer_id, multiaddr list) gomap" where
  "handle_found rep foundPeers = (let (p, keep, addrs) = rep in if \<not> keep then foundPeers else gm_put p addrs foundPeers)"

definition add_found :: "'ip closest_env \<Rightarrow> peer_id \<times> multiaddr list \<Rightarrow> fullrt \<Rightarrow> fullrt" where
  "add_found env found d =
     (let (peerID, foundAddrs) = found; kadKey = ce_PeerKey env peerID
      in d\<lparr>fr_peerAddrs := gm_put peerID foundAddrs (fr_peerAddrs d),
           fr_keyToPeerMap := gm_put kadKey peerID (fr_keyToPeerMap d),
           fr_rt := List.insert kadKey (fr_rt d)\<rparr>)"

definition runCrawl :: "'ip closest_env \<Rightarrow> (peer_id \<times> bool \<times> multiaddr list) list \<Rightarrow> instant \<Rightarrow> fullrt \<Rightarrow> fullrt" where
  "runCrawl env reports now d =
     (let foundPeers = fold handle_found reports []
      in (fold (add_found env) foundPeers (d\<lparr>fr_rt := [], fr_keyToPeerMap := [], fr_peerAddrs := []\<rparr>))
           \<lparr>fr_lastCrawlTime := now\<rparr>)"

definition Stat :: "fullrt \<Rightarrow> (string, peer_id) gomap" where
  "Stat d = fr_keyToPeerMap d"

definition Ready :: "instant \<Rightarrow> fullrt \<Rightarrow> bool" where
  "Ready now d =
     (if word_sless (fr_crawlerInterval d) (time_Sub now (fr_lastCrawlTime d)) then False
      else length (fr_keyToPeerMap d) > length (fr_bootstrapPeers d) + 1)"

text \<open>Which of the three channels is ready first.\<close>

datatype refresh_select = CallerDone string | Triggered | DhtDone

definition TriggerRefresh :: "refresh_select \<Rightarrow> string option" where
  "TriggerRefresh sel = (case sel of CallerDone err \<Rightarrow> Some err | Triggered \<Rightarrow> None | DhtDone \<Rightarrow> Some ''dht is closed'')"

section \<open>Closest peers\<close>

type_synonym ip_groups = "(group_key, peer_id list) gomap"

text \<open>The peers of a group are a set; a peer whose group is full is skipped.\<close>

fun admit :: "'ip closest_env \<Rightarrow> int \<Rightarrow> peer_id \<Rightarrow> multiaddr list \<Rightarrow> ip_groups \<Rightarrow> bool \<times> ip_groups" where
  "admit env limit p [] g = (True, g)"
| "admit env limit p (addr # addrs) g =
     (case ce_ToIP env addr of
        None \<Rightarrow> admit env limit p addrs g
      | Some ip \<Rightarrow>
          (let ipGroup = ce_IPGroupKey env ip
           in if length ipGroup = 0 then admit env limit p addrs g
              else
                let g = (if gm_has g ipGroup then g else gm_put ipGroup [] g)
                in if int (length (gm_get [] g ipGroup)) \<ge> limit then (False, g)
                   else admit env limit p addrs (gm_put ipGroup (List.insert p (gm_get [] g ipGroup)) g)))"

text \<open>The loop over one batch of keys; the flag is whether the bucket is full.\<close>

fun scan_keys :: "'ip closest_env \<Rightarrow> fullrt \<Rightarrow> string list \<Rightarrow> ip_groups \<Rightarrow> peer_id list \<Rightarrow>
    ip_groups \<times> peer_id list \<times> bool" where
  "scan_keys env d [] g peers = (g, peers, False)"
| "scan_keys env d (k # ks) g peers =
     (case map_of (fr_keyToPeerMap d) k of
        None \<Rightarrow> scan_keys env d ks g peers
      | Some p \<Rightarrow>
          (let peerAddrs = gm_get [] (fr_peerAddrs d) p;
               (ok, g) = (if fr_ipDiversityFilterLimit d > 0 then admit env (fr_ipDiversityFilterLimit d) p peerAddrs g
                          else (True, g))
           in if \<not> ok then scan_keys env d ks g peers
              else let peers = peers @ [p]
                   in if int (length peers) = fr_bucketSize d then (g, peers, True)
                      else scan_keys env d ks g peers))"

text \<open>
  The outer loop; \<open>None\<close> when it does not return: a step that is not positive, or a slice out of range.
\<close>

function closest_loop :: "'ip closest_env \<Rightarrow> fullrt \<Rightarrow> string \<Rightarrow> nat \<Rightarrow> ip_groups \<Rightarrow> peer_id list \<Rightarrow> peer_id list option" where
  "closest_loop env d kadKey nClosest g peers =
     (if nClosest < length (fr_rt d)
      then
        let step = fr_bucketSize d + 2 * fr_ipDiversityFilterLimit d
        in if step \<le> 0 then None
           else
             let closestKeys = ce_ClosestN env kadKey (fr_rt d) (nClosest + nat step)
             in if length closestKeys < nClosest then None
                else (let (g, peers, full) = scan_keys env d (drop nClosest closestKeys) g peers
                      in if full then Some peers
                         else closest_loop env d kadKey (nClosest + nat step) g peers)
      else Some peers)"
  by pat_completeness auto
termination
  by (relation "measure (\<lambda>(env, d, k, n, g, ps). length (fr_rt d) - n)") auto

declare closest_loop.simps [simp del]

definition fr_GetClosestPeers :: "'ip closest_env \<Rightarrow> fullrt \<Rightarrow> string \<Rightarrow> peer_id list option" where
  "fr_GetClosestPeers env d key = closest_loop env d (ce_Key env key) 0 [] []"

section \<open>Operations on many peers\<close>

text \<open>
  What the loop of \<^verbatim>\<open>execOnMany\<close> receives: the outcome of a peer's operation, or the tick of the ticker,
  which does not occur before the ticker is made. \<open>wantedSuccesses\<close> is the part of the peers to wait for.
\<close>

datatype exec_event = OpDone bool | ExecTick

record exec_state =
  ex_numDone :: nat
  ex_numSuccess :: nat
  ex_ticker :: bool
  ex_successSinceLastTick :: nat
  ex_cancelled :: bool

definition exec_event_step :: "nat \<Rightarrow> int \<Rightarrow> bool \<Rightarrow> exec_event \<Rightarrow> exec_state \<Rightarrow> exec_state \<times> bool" where
  "exec_event_step n wantedSuccesses sloppyExit ev s =
     (case ev of
        OpDone ok \<Rightarrow>
          (let s = s\<lparr>ex_numDone := ex_numDone s + 1\<rparr>
           in if \<not> ok then (s, False)
              else
                let s = s\<lparr>ex_numSuccess := ex_numSuccess s + 1\<rparr>;
                    s = (if int (ex_numSuccess s) \<ge> wantedSuccesses \<and> \<not> ex_ticker s
                         then s\<lparr>ex_ticker := True, ex_successSinceLastTick := ex_numSuccess s\<rparr> else s)
                in if ex_numSuccess s + ex_numDone s \<ge> n then (s\<lparr>ex_cancelled := True\<rparr>, sloppyExit) else (s, False))
      | ExecTick \<Rightarrow>
          if \<not> ex_ticker s then (s, False)
          else if ex_numSuccess s > ex_successSinceLastTick s
          then (s\<lparr>ex_successSinceLastTick := ex_numSuccess s\<rparr>, False)
          else (s\<lparr>ex_cancelled := True\<rparr>, sloppyExit))"

fun exec_loop :: "nat \<Rightarrow> int \<Rightarrow> bool \<Rightarrow> exec_event list \<Rightarrow> exec_state \<Rightarrow> exec_state option" where
  "exec_loop n wanted sloppyExit evs s =
     (if ex_numDone s < n
      then (case evs of
              [] \<Rightarrow> None
            | ev # es \<Rightarrow>
                (let (s, return) = exec_event_step n wanted sloppyExit ev s
                 in if return then Some s else exec_loop n wanted sloppyExit es s))
      else Some s)"

declare exec_loop.simps [simp del]

definition exec_init :: exec_state where
  "exec_init = \<lparr>ex_numDone = 0, ex_numSuccess = 0, ex_ticker = False, ex_successSinceLastTick = 0, ex_cancelled = False\<rparr>"

definition execOnMany :: "nat \<Rightarrow> rat \<Rightarrow> bool \<Rightarrow> exec_event list \<Rightarrow> nat option" where
  "execOnMany n waitFrac sloppyExit evs =
     (if n = 0 then Some 0
      else map_option ex_numSuccess (exec_loop n \<lfloor>of_nat n * waitFrac\<rfloor> sloppyExit evs exec_init))"

section \<open>Checking peers\<close>

text \<open>
  \<^verbatim>\<open>CheckPeers\<close> hands the peers to a fixed number of workers and returns when the last one is handed over;
  a worker dials its peer and counts a success. The flag of a finished dial is its outcome.
\<close>

record check_state =
  ck_inputs :: "peer_id list"
  ck_dialling :: "peer_id list"
  ck_success :: nat
  ck_returned :: "(nat \<times> nat) option"

datatype check_event = HandOver | DialDone peer_id bool | CheckReturns

definition check_workers :: nat where
  "check_workers = 100"

definition check_step :: "nat \<Rightarrow> check_event \<Rightarrow> check_state \<Rightarrow> check_state option" where
  "check_step numPeers ev s =
     (case ev of
        HandOver \<Rightarrow>
          (case ck_inputs s of
             [] \<Rightarrow> None
           | p # ps \<Rightarrow> if length (ck_dialling s) < check_workers
                       then Some (s\<lparr>ck_inputs := ps, ck_dialling := ck_dialling s @ [p]\<rparr>) else None)
      | DialDone p ok \<Rightarrow>
          if p \<in> set (ck_dialling s)
          then Some (s\<lparr>ck_dialling := remove1 p (ck_dialling s), ck_success := (if ok then ck_success s + 1 else ck_success s)\<rparr>)
          else None
      | CheckReturns \<Rightarrow>
          if ck_inputs s = [] \<and> ck_returned s = None
          then Some (s\<lparr>ck_returned := Some (ck_success s, numPeers)\<rparr>) else None)"

fun check_run :: "nat \<Rightarrow> check_event list \<Rightarrow> check_state \<Rightarrow> check_state option" where
  "check_run numPeers [] s = Some s"
| "check_run numPeers (ev # evs) s = (case check_step numPeers ev s of None \<Rightarrow> None | Some s \<Rightarrow> check_run numPeers evs s)"

definition CheckPeers :: "fullrt \<Rightarrow> peer_id list \<Rightarrow> check_event list \<Rightarrow> (nat \<times> nat) option" where
  "CheckPeers d peers evs =
     (let inputs = (if length peers = 0 then map fst (fr_peerAddrs d) else peers)
      in case check_run (length inputs) evs \<lparr>ck_inputs = inputs, ck_dialling = [], ck_success = 0, ck_returned = None\<rparr> of
           None \<Rightarrow> None
         | Some s \<Rightarrow> ck_returned s)"

section \<open>Lemmas: closest peers\<close>

text \<open>What a crawl leaves: every key of the trie belongs to a peer that the crawl kept, with its addresses.\<close>

definition tables_ok :: "'ip closest_env \<Rightarrow> fullrt \<Rightarrow> bool" where
  "tables_ok env d \<longleftrightarrow> distinct (fr_rt d) \<and> set (fr_rt d) = fst ` set (fr_keyToPeerMap d) \<and>
     (\<forall>k p. map_of (fr_keyToPeerMap d) k = Some p \<longrightarrow> ce_PeerKey env p = k \<and> gm_has (fr_peerAddrs d) p)"

lemma tables_ok_key: "tables_ok env d \<Longrightarrow> map_of (fr_keyToPeerMap d) k = Some p \<Longrightarrow> ce_PeerKey env p = k"
  unfolding tables_ok_def by blast

lemma add_found_tables: "tables_ok env d \<Longrightarrow> tables_ok env (add_found env x d)"
  by (cases x) (auto simp: tables_ok_def add_found_def Let_def gomap_simps dom_update [unfolded dom_map_of_conv_image_fst] split: if_splits)

lemma add_found_all_tables: "tables_ok env d \<Longrightarrow> tables_ok env (fold (add_found env) xs d)"
  by (induction xs arbitrary: d) (auto intro: add_found_tables)

lemma add_found_config:
  "fr_bucketSize (fold (add_found env) xs d) = fr_bucketSize d \<and>
   fr_ipDiversityFilterLimit (fold (add_found env) xs d) = fr_ipDiversityFilterLimit d"
  by (induction xs arbitrary: d) (auto simp: add_found_def Let_def split: prod.splits)

lemma add_found_peers:
  "fst ` set (fr_peerAddrs (fold (add_found env) xs d)) = fst ` set xs \<union> fst ` set (fr_peerAddrs d)"
  by (induction xs arbitrary: d)
     (auto simp: add_found_def Let_def dom_update [unfolded dom_map_of_conv_image_fst] split: prod.splits)

lemma runCrawl_tables:
  "tables_ok env (runCrawl env reports now d) \<and> fr_bucketSize (runCrawl env reports now d) = fr_bucketSize d \<and>
   fr_ipDiversityFilterLimit (runCrawl env reports now d) = fr_ipDiversityFilterLimit d"
proof -
  let ?d = "d\<lparr>fr_rt := [], fr_keyToPeerMap := [], fr_peerAddrs := []\<rparr>"
  have "tables_ok env ?d" by (simp add: tables_ok_def)
  from add_found_all_tables [OF this] add_found_config [of env _ ?d] show ?thesis
    by (simp add: runCrawl_def Let_def tables_ok_def)
qed

lemma found_peers: "fst ` set (fold handle_found reports m) = {p. \<exists>addrs. (p, True, addrs) \<in> set reports} \<union> fst ` set m"
proof (induction reports arbitrary: m)
  case (Cons rep reports)
  obtain p keep addrs where "rep = (p, keep, addrs)" by (cases rep)
  with Cons [of "handle_found rep m"] show ?case
    by (auto simp: handle_found_def dom_update [unfolded dom_map_of_conv_image_fst])
qed simp

lemma runCrawl_known:
  "fst ` set (fr_peerAddrs (runCrawl env reports now d)) = {p. \<exists>addrs. (p, True, addrs) \<in> set reports}"
  by (simp add: runCrawl_def Let_def add_found_peers found_peers)

text \<open>The batches of the outer loop together scan all keys in their order.\<close>

lemma scan_keys_append:
  "scan_keys env d (xs @ ys) g ps =
     (let (g', ps', full) = scan_keys env d xs g ps in if full then (g', ps', True) else scan_keys env d ys g' ps')"
proof (induction xs arbitrary: g ps)
  case (Cons x xs)
  then show ?case by (auto simp: Let_def split: option.splits prod.splits)
qed simp

lemma closest_loop_scan:
  assumes "\<And>n. ce_ClosestN env kad (fr_rt d) n = take n order" and "length order = length (fr_rt d)"
    and "0 < fr_bucketSize d + 2 * fr_ipDiversityFilterLimit d"
  shows "closest_loop env d kad n g ps = Some (fst (snd (scan_keys env d (drop n order) g ps)))"
proof -
  define step where "step = nat (fr_bucketSize d + 2 * fr_ipDiversityFilterLimit d)"
  have st: "0 < step" "\<not> fr_bucketSize d + 2 * fr_ipDiversityFilterLimit d \<le> 0" using assms(3) by (simp_all add: step_def)
  show ?thesis
  proof (induction "length order - n" arbitrary: n g ps rule: less_induct)
    case less
    show ?case
    proof (cases "n < length order")
      case False
      then show ?thesis using assms(2) by (simp add: closest_loop.simps [of env d kad n])
    next
      case True
      have sp: "drop n order = drop n (take (n + step) order) @ drop (n + step) order"
        by (metis append_take_drop_id drop_drop add.commute take_drop)
      obtain g' ps' full where s: "scan_keys env d (drop n (take (n + step) order)) g ps = (g', ps', full)"
        by (cases "scan_keys env d (drop n (take (n + step) order)) g ps")
      have nl: "\<not> length (take (n + nat (fr_bucketSize d + 2 * fr_ipDiversityFilterLimit d)) order) < n"
        using True by simp
      have "closest_loop env d kad n g ps = (if full then Some ps' else closest_loop env d kad (n + step) g' ps')"
        using True assms(1,2) st s nl by (subst closest_loop.simps) (simp add: Let_def step_def)
      moreover have "closest_loop env d kad (n + step) g' ps' = Some (fst (snd (scan_keys env d (drop (n + step) order) g' ps')))"
        using True st(1) by (intro less) simp
      ultimately show ?thesis by (subst sp) (simp add: scan_keys_append s)
    qed
  qed
qed

text \<open>What a scan returns.\<close>

lemma scan_keys_peers:
  assumes "tables_ok env d" and "scan_keys env d ks g ps = (g', ps', full)" and "int (length ps) < fr_bucketSize d"
  shows "\<exists>qs. ps' = ps @ qs \<and> subseq (map (ce_PeerKey env) qs) ks \<and> int (length ps') \<le> fr_bucketSize d \<and>
    set qs \<subseteq> fst ` set (fr_peerAddrs d) \<and>
    (fr_ipDiversityFilterLimit d \<le> 0 \<and> set ks \<subseteq> set (fr_rt d) \<longrightarrow>
       map (ce_PeerKey env) qs = take (nat (fr_bucketSize d) - length ps) ks)"
  using assms(2,3)
proof (induction ks arbitrary: g ps)
  case Nil
  then show ?case by simp
next
  case (Cons k ks)
  show ?case
  proof (cases "map_of (fr_keyToPeerMap d) k")
    case None
    then have "k \<notin> set (fr_rt d)" using assms(1) by (simp add: tables_ok_def map_of_eq_None_iff)
    with Cons.IH [of g ps] Cons.prems None show ?thesis by auto
  next
    case (Some p)
    from Some assms(1) have p: "ce_PeerKey env p = k" "p \<in> fst ` set (fr_peerAddrs d)"
      by (auto simp: tables_ok_def gm_has_set)
    obtain ok g1 where ok: "(if fr_ipDiversityFilterLimit d > 0 then
        admit env (fr_ipDiversityFilterLimit d) p (gm_get [] (fr_peerAddrs d) p) g else (True, g)) = (ok, g1)"
      by fastforce
    show ?thesis
    proof (cases ok)
      case False
      with ok have lim: "fr_ipDiversityFilterLimit d > 0" by (auto split: if_splits)
      have "scan_keys env d ks g1 ps = (g', ps', full)" using Cons.prems(1) Some ok False by (simp add: Let_def)
      from Cons.IH [OF this Cons.prems(2)] lim show ?thesis by (auto intro: list_emb_Cons)
    next
      case True
      have nx: "(if int (length (ps @ [p])) = fr_bucketSize d then (g1, ps @ [p], True)
          else scan_keys env d ks g1 (ps @ [p])) = (g', ps', full)"
        using Cons.prems(1) Some ok True by (simp add: Let_def)
      show ?thesis
      proof (cases "int (length (ps @ [p])) = fr_bucketSize d")
        case True
        with nx have "ps' = ps @ [p]" by simp
        moreover from True have "nat (fr_bucketSize d) - length ps = 1" by simp
        ultimately show ?thesis using True p by (intro exI [of _ "[p]"]) (simp add: subseq_Cons2_iff)
      next
        case False
        with nx have sc: "scan_keys env d ks g1 (ps @ [p]) = (g', ps', full)" by simp
        have "int (length (ps @ [p])) < fr_bucketSize d" using False Cons.prems(2) by simp
        from Cons.IH [OF sc this] obtain qs where qs: "ps' = (ps @ [p]) @ qs"
          "subseq (map (ce_PeerKey env) qs) ks" "int (length ps') \<le> fr_bucketSize d" "set qs \<subseteq> fst ` set (fr_peerAddrs d)"
          "fr_ipDiversityFilterLimit d \<le> 0 \<and> set ks \<subseteq> set (fr_rt d) \<longrightarrow>
             map (ce_PeerKey env) qs = take (nat (fr_bucketSize d) - length (ps @ [p])) ks"
          by blast
        have "nat (fr_bucketSize d) - length ps = Suc (nat (fr_bucketSize d) - length (ps @ [p]))"
          using Cons.prems(2) by simp
        with qs p show ?thesis by (intro exI [of _ "p # qs"]) auto
      qed
    qed
  qed
qed



text \<open>The IP groups of a peer's addresses, and the limit on the peers of a group.\<close>

fun ip_groups_of :: "'ip closest_env \<Rightarrow> multiaddr list \<Rightarrow> group_key set" where
  "ip_groups_of env [] = {}"
| "ip_groups_of env (a # as) =
     (case ce_ToIP env a of
        None \<Rightarrow> ip_groups_of env as
      | Some ip \<Rightarrow> if ce_IPGroupKey env ip = [] then ip_groups_of env as else insert (ce_IPGroupKey env ip) (ip_groups_of env as))"

definition groups_bounded :: "int \<Rightarrow> ip_groups \<Rightarrow> bool" where
  "groups_bounded limit g \<longleftrightarrow> (\<forall>grp. int (length (gm_get [] g grp)) \<le> limit)"

definition groups_grow :: "ip_groups \<Rightarrow> ip_groups \<Rightarrow> bool" where
  "groups_grow g g' \<longleftrightarrow> (\<forall>grp. set (gm_get [] g grp) \<subseteq> set (gm_get [] g' grp))"

lemma admit_spec:
  "admit env limit p addrs g = (ok, g') \<Longrightarrow> groups_bounded limit g \<Longrightarrow> 0 < limit \<Longrightarrow>
   groups_bounded limit g' \<and> groups_grow g g' \<and> (ok \<longrightarrow> (\<forall>grp\<in>ip_groups_of env addrs. p \<in> set (gm_get [] g' grp)))"
proof (induction addrs arbitrary: g)
  case Nil
  then show ?case by (simp add: groups_grow_def)
next
  case (Cons a as)
  show ?case
  proof (cases "ce_ToIP env a")
    case None
    with Cons.prems(1) have "admit env limit p as g = (ok, g')" by simp
    from Cons.IH [OF this Cons.prems(2,3)] None show ?thesis by simp
  next
    case (Some ip)
    show ?thesis
    proof (cases "ce_IPGroupKey env ip = []")
      case True
      with Cons.prems(1) Some have "admit env limit p as g = (ok, g')" by simp
      from Cons.IH [OF this Cons.prems(2,3)] Some True show ?thesis by simp
    next
      case False
      define grp where "grp = ce_IPGroupKey env ip"
      define g1 where "g1 = (if gm_has g grp then g else gm_put grp [] g)"
      have g1: "gm_get [] g1 x = gm_get [] g x" for x
        by (auto simp: g1_def gomap_simps gm_get_def gm_has_def split: option.splits)
      show ?thesis
      proof (cases "int (length (gm_get [] g1 grp)) \<ge> limit")
        case True
        then have "(ok, g') = (False, g1)" using Cons.prems(1) Some False by (simp add: Let_def grp_def [symmetric] g1_def [symmetric])
        with Cons.prems(2) g1 show ?thesis by (simp add: groups_bounded_def groups_grow_def)
      next
        case lt: False
        define g2 where "g2 = gm_put grp (List.insert p (gm_get [] g1 grp)) g1"
        have g2: "gm_get [] g2 x = (if x = grp then List.insert p (gm_get [] g grp) else gm_get [] g x)" for x
          by (simp add: g2_def gomap_simps g1)
        have "admit env limit p as g2 = (ok, g')"
          using Cons.prems(1) Some False lt by (simp add: Let_def grp_def [symmetric] g1_def [symmetric] g2_def [symmetric])
        moreover have "groups_bounded limit g2"
          using Cons.prems(2) lt by (auto simp: groups_bounded_def g1 g2 List.insert_def)
        ultimately have ih: "groups_bounded limit g'" "groups_grow g2 g'"
          "ok \<longrightarrow> (\<forall>grp\<in>ip_groups_of env as. p \<in> set (gm_get [] g' grp))"
          using Cons.IH Cons.prems(3) by blast+
        have "groups_grow g g2" by (auto simp: groups_grow_def g2)
        with ih(2) have grow: "groups_grow g g'" unfolding groups_grow_def by (meson subset_trans)
        have "p \<in> set (gm_get [] g2 grp)" by (simp add: g2)
        with ih(2) have "p \<in> set (gm_get [] g' grp)" unfolding groups_grow_def by (meson subsetD)
        moreover have "ip_groups_of env (a # as) = insert grp (ip_groups_of env as)" using Some False by (simp add: grp_def)
        ultimately have "ok \<longrightarrow> (\<forall>grp\<in>ip_groups_of env (a # as). p \<in> set (gm_get [] g' grp))" using ih(3) by simp
        with grow ih(1) show ?thesis by simp
      qed
    qed
  qed
qed

definition groups_hold :: "'ip closest_env \<Rightarrow> fullrt \<Rightarrow> ip_groups \<Rightarrow> peer_id list \<Rightarrow> bool" where
  "groups_hold env d g ps \<longleftrightarrow>
     (\<forall>p\<in>set ps. \<forall>grp\<in>ip_groups_of env (gm_get [] (fr_peerAddrs d) p). p \<in> set (gm_get [] g grp))"

lemma scan_keys_groups:
  "scan_keys env d ks g ps = (g', ps', full) \<Longrightarrow> 0 < fr_ipDiversityFilterLimit d \<Longrightarrow>
   groups_bounded (fr_ipDiversityFilterLimit d) g \<Longrightarrow> groups_hold env d g ps \<Longrightarrow>
   groups_bounded (fr_ipDiversityFilterLimit d) g' \<and> groups_hold env d g' ps'"
proof (induction ks arbitrary: g ps)
  case (Cons k ks)
  show ?case
  proof (cases "map_of (fr_keyToPeerMap d) k")
    case None
    with Cons show ?thesis by simp
  next
    case (Some p)
    obtain ok g1 where ok: "admit env (fr_ipDiversityFilterLimit d) p (gm_get [] (fr_peerAddrs d) p) g = (ok, g1)"
      by fastforce
    note a = admit_spec [OF ok Cons.prems(3,2)]
    have h: "groups_hold env d g1 ps" using a Cons.prems(4) unfolding groups_hold_def groups_grow_def by blast
    have r: "(if \<not> ok then scan_keys env d ks g1 ps
        else if int (length (ps @ [p])) = fr_bucketSize d then (g1, ps @ [p], True)
        else scan_keys env d ks g1 (ps @ [p])) = (g', ps', full)"
      using Cons.prems(1,2) Some ok by (simp add: Let_def split: if_splits)
    show ?thesis
    proof (cases ok)
      case False
      with r Cons.IH [of g1 ps] Cons.prems(2) a h show ?thesis by simp
    next
      case True
      with a h have "groups_hold env d g1 (ps @ [p])" by (auto simp: groups_hold_def)
      with r Cons.IH [of g1 "ps @ [p]"] Cons.prems(2) a True show ?thesis by (auto split: if_splits)
    qed
  qed
qed simp

lemma groups_limit:
  assumes "groups_bounded limit g" and "groups_hold env d g ps"
  shows "int (card {p \<in> set ps. grp \<in> ip_groups_of env (gm_get [] (fr_peerAddrs d) p)}) \<le> limit"
proof -
  have "{p \<in> set ps. grp \<in> ip_groups_of env (gm_get [] (fr_peerAddrs d) p)} \<subseteq> set (gm_get [] g grp)"
    using assms(2) unfolding groups_hold_def by blast
  then have "card {p \<in> set ps. grp \<in> ip_groups_of env (gm_get [] (fr_peerAddrs d) p)} \<le> length (gm_get [] g grp)"
    by (meson card_length card_mono finite_set le_trans)
  moreover have "int (length (gm_get [] g grp)) \<le> limit" using assms(1) unfolding groups_bounded_def by blast
  ultimately show ?thesis by linarith
qed

text \<open>
  The limit rejects too much: with the limit 1 a peer with two addresses of one group is skipped although
  it is the only one, because its first address fills the group.
\<close>

lemma closest_over_rejects:
  assumes "ce_ToIP env a = Some ip" and "ce_ToIP env b = Some ip" and "ce_IPGroupKey env ip \<noteq> []"
  shows "fst (admit env 1 p [a, b] []) = False"
  using assms by (simp add: gomap_simps Let_def gm_get_def gm_has_def)

section \<open>Lemmas: many peers\<close>

definition done_count :: "exec_event list \<Rightarrow> nat" where
  "done_count evs = length (filter (\<lambda>e. e \<noteq> ExecTick) evs)"

definition success_count :: "exec_event list \<Rightarrow> nat" where
  "success_count evs = length (filter (\<lambda>e. e = OpDone True) evs)"

definition ticker_ok :: "int \<Rightarrow> exec_state \<Rightarrow> bool" where
  "ticker_ok wanted s \<longleftrightarrow> (ex_ticker s \<longrightarrow> 0 < ex_numSuccess s \<and> wanted \<le> int (ex_numSuccess s))"

lemma exec_event_step_spec:
  assumes "exec_event_step n wanted sloppy ev s = (s', return)" and "ticker_ok wanted s"
  shows "ex_numDone s' = ex_numDone s + done_count [ev] \<and> ex_numSuccess s' = ex_numSuccess s + success_count [ev] \<and>
    ticker_ok wanted s' \<and>
    (return \<longrightarrow> sloppy \<and> ex_cancelled s' \<and> 0 < ex_numSuccess s' \<and> (n \<le> ex_numSuccess s' + ex_numDone s' \<or> wanted \<le> int (ex_numSuccess s')))"
proof (cases ev)
  case (OpDone ok)
  with assms show ?thesis
    by (cases ok) (auto simp: exec_event_step_def Let_def done_count_def success_count_def ticker_ok_def split: if_splits)
next
  case ExecTick
  with assms show ?thesis
    by (auto simp: exec_event_step_def done_count_def success_count_def ticker_ok_def split: if_splits)
qed

lemma count_Cons: "done_count (ev # evs) = done_count [ev] + done_count evs"
  "success_count (ev # evs) = success_count [ev] + success_count evs"
  by (simp_all add: done_count_def success_count_def)

lemma exec_loop_spec:
  "exec_loop n wanted sloppy evs s = Some s' \<Longrightarrow> ticker_ok wanted s \<Longrightarrow> ex_numDone s \<le> n \<Longrightarrow>
   \<exists>es1 es2. evs = es1 @ es2 \<and> ex_numDone s' = ex_numDone s + done_count es1 \<and>
     ex_numSuccess s' = ex_numSuccess s + success_count es1 \<and> ex_numDone s' \<le> n \<and>
     (ex_numDone s' = n \<or> sloppy \<and> 0 < ex_numSuccess s' \<and> (n \<le> ex_numSuccess s' + ex_numDone s' \<or> wanted \<le> int (ex_numSuccess s')))"
proof (induction evs arbitrary: s)
  case Nil
  then have "s' = s \<and> ex_numDone s = n" by (auto simp: exec_loop.simps [of _ _ _ "[]"] split: if_splits)
  then show ?case by (simp add: done_count_def success_count_def)
next
  case (Cons ev evs)
  show ?case
  proof (cases "ex_numDone s < n")
    case False
    with Cons.prems have "s' = s \<and> ex_numDone s = n" by (simp add: exec_loop.simps [of _ _ _ "ev # evs"])
    then show ?thesis
      by (intro exI [of _ "[]"] exI [of _ "ev # evs"]) (simp add: done_count_def success_count_def)
  next
    case True
    obtain s1 return where st: "exec_event_step n wanted sloppy ev s = (s1, return)" by fastforce
    note sp = exec_event_step_spec [OF st Cons.prems(2)]
    have "done_count [ev] \<le> 1" by (simp add: done_count_def)
    with sp True have le: "ex_numDone s1 \<le> n" by linarith
    have r: "(if return then Some s1 else exec_loop n wanted sloppy evs s1) = Some s'"
      using Cons.prems(1) True st by (simp add: exec_loop.simps [of _ _ _ "ev # evs"])
    show ?thesis
    proof (cases return)
      case True
      with r have "s' = s1" by simp
      with sp le True show ?thesis by (intro exI [of _ "[ev]"] exI [of _ evs]) auto
    next
      case False
      with r have "exec_loop n wanted sloppy evs s1 = Some s'" by simp
      from Cons.IH [OF this _ le] sp obtain es1 es2 where ih: "evs = es1 @ es2"
        "ex_numDone s' = ex_numDone s1 + done_count es1" "ex_numSuccess s' = ex_numSuccess s1 + success_count es1"
        "ex_numDone s' \<le> n"
        "ex_numDone s' = n \<or> sloppy \<and> 0 < ex_numSuccess s' \<and> (n \<le> ex_numSuccess s' + ex_numDone s' \<or> wanted \<le> int (ex_numSuccess s'))"
        by blast
      show ?thesis
        by (intro exI [of _ "ev # es1"] exI [of _ es2]) (use ih sp in \<open>simp add: count_Cons [of ev es1]\<close>)
    qed
  qed
qed

lemma exec_loop_returns:
  "n \<le> ex_numDone s + done_count evs \<Longrightarrow> \<exists>s'. exec_loop n wanted sloppy evs s = Some s'"
proof (induction evs arbitrary: s)
  case Nil
  then show ?case by (simp add: exec_loop.simps [of _ _ _ "[]"] done_count_def)
next
  case (Cons ev evs)
  obtain s1 return where st: "exec_event_step n wanted sloppy ev s = (s1, return)" by fastforce
  have "ex_numDone s1 = ex_numDone s + done_count [ev]"
    using st by (cases ev) (auto simp: exec_event_step_def Let_def done_count_def split: if_splits)
  with Cons.prems have "n \<le> ex_numDone s1 + done_count evs" by (simp add: count_Cons [of ev evs])
  from Cons.IH [OF this] st show ?case by (simp add: exec_loop.simps [of _ _ _ "ev # evs"])
qed

section \<open>Lemmas: checking peers\<close>

definition finished :: "check_event list \<Rightarrow> nat" where
  "finished evs = length (filter (\<lambda>e. \<exists>p ok. e = DialDone p ok) evs)"

definition reached :: "check_event list \<Rightarrow> nat" where
  "reached evs = length (filter (\<lambda>e. \<exists>p. e = DialDone p True) evs)"

lemma check_run_spec:
  "check_run n evs s = Some s' \<Longrightarrow> length (ck_dialling s) \<le> check_workers \<Longrightarrow> ck_returned s = None \<Longrightarrow>
   length (ck_inputs s) + length (ck_dialling s) = n - d \<Longrightarrow> d \<le> n \<Longrightarrow> ck_returned s' = Some (succ, tot) \<Longrightarrow>
   \<exists>es1 es2. evs = es1 @ CheckReturns # es2 \<and> tot = n \<and> succ = ck_success s + reached es1 \<and>
     n - (d + finished es1) \<le> check_workers \<and> d + finished es1 \<le> n"
proof (induction evs arbitrary: s d)
  case Nil
  then show ?case by simp
next
  case (Cons ev evs)
  then obtain t where t: "check_step n ev s = Some t" "check_run n evs t = Some s'" by (auto split: option.splits)
  show ?case
  proof (cases ev)
    case HandOver
    with t(1) obtain p ps where e: "ck_inputs s = p # ps" "length (ck_dialling s) < check_workers"
      "t = s\<lparr>ck_inputs := ps, ck_dialling := ck_dialling s @ [p]\<rparr>"
      by (auto simp: check_step_def split: list.splits if_splits)
    from Cons.IH [OF t(2), of d] e Cons.prems obtain es1 es2 where "evs = es1 @ CheckReturns # es2" "tot = n"
      "succ = ck_success s + reached es1" "n - (d + finished es1) \<le> check_workers" "d + finished es1 \<le> n" by auto
    then show ?thesis
      by (intro exI [of _ "ev # es1"] exI [of _ es2]) (simp add: HandOver reached_def finished_def)
  next
    case (DialDone p ok)
    with t(1) have e: "p \<in> set (ck_dialling s)"
      "t = s\<lparr>ck_dialling := remove1 p (ck_dialling s), ck_success := (if ok then ck_success s + 1 else ck_success s)\<rparr>"
      by (auto simp: check_step_def split: if_splits)
    from length_pos_if_in_set [OF e(1)] e(1)
    have len: "length (ck_dialling s) = Suc (length (remove1 p (ck_dialling s)))" by (simp add: length_remove1)
    have pre: "length (ck_dialling t) \<le> check_workers" "ck_returned t = None" "length (ck_inputs t) + length (ck_dialling t) = n - Suc d"
      "Suc d \<le> n" using len Cons.prems(2-5) by (simp_all add: e(2))
    from Cons.IH [OF t(2) pre Cons.prems(6)] obtain es1 es2 where ih: "evs = es1 @ CheckReturns # es2" "tot = n"
      "succ = ck_success t + reached es1" "n - (Suc d + finished es1) \<le> check_workers" "Suc d + finished es1 \<le> n" by blast
    then show ?thesis
      by (intro exI [of _ "ev # es1"] exI [of _ es2]) (simp add: DialDone reached_def finished_def e(2))
  next
    case CheckReturns
    with t(1) have e: "ck_inputs s = []" "t = s\<lparr>ck_returned := Some (ck_success s, n)\<rparr>"
      by (auto simp: check_step_def split: if_splits)
    have keep: "check_run n es u = Some u' \<Longrightarrow> ck_returned u = Some r \<Longrightarrow> ck_returned u' = Some r" for es u u' r
    proof (induction es arbitrary: u)
      case (Cons e es)
      then obtain v where v: "check_step n e u = Some v" "check_run n es v = Some u'" by (auto split: option.splits)
      then have "ck_returned v = Some r"
        using Cons.prems(2) by (auto simp: check_step_def split: check_event.splits list.splits if_splits)
      with Cons.IH v(2) show ?case by blast
    qed simp
    have "ck_returned t = Some (ck_success s, n)" by (simp add: e(2))
    from keep [OF t(2) this] Cons.prems(6) have "succ = ck_success s" "tot = n" by simp_all
    moreover have "n - d \<le> check_workers" using Cons.prems(2,4) e(1) by simp
    ultimately show ?thesis
      using Cons.prems(5) by (intro exI [of _ "[]"] exI [of _ evs]) (simp add: CheckReturns reached_def finished_def)
  qed
qed

lemma check_run_append: "check_run n (as @ bs) s = Option.bind (check_run n as s) (check_run n bs)"
  by (induction as arbitrary: s) (auto split: option.splits)

lemma check_hand_all:
  "length (ck_dialling s) + length (ck_inputs s) \<le> check_workers \<Longrightarrow>
   check_run n (replicate (length (ck_inputs s)) HandOver) s =
     Some (s\<lparr>ck_inputs := [], ck_dialling := ck_dialling s @ ck_inputs s\<rparr>)"
proof (induction "ck_inputs s" arbitrary: s)
  case (Cons p ps)
  let ?t = "s\<lparr>ck_inputs := ps, ck_dialling := ck_dialling s @ [p]\<rparr>"
  have i: "ck_inputs s = p # ps" using Cons.hyps(2) by simp
  have "check_step n HandOver s = Some ?t" using Cons.prems i by (simp add: check_step_def)
  moreover have "check_run n (replicate (length ps) HandOver) ?t = Some (?t\<lparr>ck_inputs := [], ck_dialling := ck_dialling ?t @ ps\<rparr>)"
    using Cons.hyps(1) [of ?t] Cons.prems i by simp
  ultimately show ?case using i by simp
qed simp

lemma check_dial_all:
  "check_run n (map (\<lambda>p. DialDone p True) (ck_dialling s)) s =
     Some (s\<lparr>ck_dialling := [], ck_success := ck_success s + length (ck_dialling s)\<rparr>)"
proof (induction "ck_dialling s" arbitrary: s)
  case (Cons p ps)
  let ?t = "s\<lparr>ck_dialling := ps, ck_success := ck_success s + 1\<rparr>"
  have i: "ck_dialling s = p # ps" using Cons.hyps(2) by simp
  have "check_step n (DialDone p True) s = Some ?t" using i by (simp add: check_step_def)
  moreover have "check_run n (map (\<lambda>p. DialDone p True) ps) ?t = Some (?t\<lparr>ck_dialling := [], ck_success := ck_success ?t + length ps\<rparr>)"
    using Cons.hyps(1) [of ?t] by simp
  ultimately show ?case using i by simp
qed simp

section \<open>Properties\<close>

text \<open>C25: After a crawl the closest peers always come back: no more than a bucket of them, without repetition,
  all reported and kept by the crawl, in the order of their closeness to the key; without a diversity
  limit exactly the closest ones; and with a limit no IP group has more of them than it allows.\<close>

theorem fullrt_closest_peers:
  assumes "d = runCrawl env reports now d0" and "0 < fr_bucketSize d0" and "0 \<le> fr_ipDiversityFilterLimit d0"
    and "distinct order" and "set order = set (fr_rt d)" and "\<forall>n. ce_ClosestN env (ce_Key env key) (fr_rt d) n = take n order"
  shows "\<exists>ps. fr_GetClosestPeers env d key = Some ps \<and> distinct ps \<and> int (length ps) \<le> fr_bucketSize d0 \<and>
    set ps \<subseteq> {p. \<exists>addrs. (p, True, addrs) \<in> set reports} \<and> subseq (map (ce_PeerKey env) ps) order \<and>
    (fr_ipDiversityFilterLimit d0 = 0 \<longrightarrow> map (ce_PeerKey env) ps = take (nat (fr_bucketSize d0)) order) \<and>
    (0 < fr_ipDiversityFilterLimit d0 \<longrightarrow>
       (\<forall>grp. int (card {p \<in> set ps. grp \<in> ip_groups_of env (gm_get [] (fr_peerAddrs d) p)}) \<le> fr_ipDiversityFilterLimit d0))"
proof -
  have d: "tables_ok env d" "fr_bucketSize d = fr_bucketSize d0" "fr_ipDiversityFilterLimit d = fr_ipDiversityFilterLimit d0"
    using runCrawl_tables [of env reports now d0] assms(1) by simp_all
  have known: "fst ` set (fr_peerAddrs d) = {p. \<exists>addrs. (p, True, addrs) \<in> set reports}"
    unfolding assms(1) by (rule runCrawl_known)
  have len: "length order = length (fr_rt d)"
    using assms(4,5) d(1) by (metis distinct_card tables_ok_def)
  obtain g ps full where sc: "scan_keys env d order [] [] = (g, ps, full)" by (cases "scan_keys env d order [] []")
  have distinct_mapI: "distinct (map f xs) \<Longrightarrow> distinct xs" for f :: "peer_id \<Rightarrow> string" and xs
    by (simp add: distinct_map)
  have "fr_GetClosestPeers env d key = Some ps"
    using closest_loop_scan [of env "ce_Key env key" d order 0 "[]" "[]"] assms(2,3,6) len d(2,3) sc
    by (simp add: fr_GetClosestPeers_def)
  moreover have q: "subseq (map (ce_PeerKey env) ps) order" "int (length ps) \<le> fr_bucketSize d0"
    "set ps \<subseteq> {p. \<exists>addrs. (p, True, addrs) \<in> set reports}"
    "fr_ipDiversityFilterLimit d0 = 0 \<longrightarrow> map (ce_PeerKey env) ps = take (nat (fr_bucketSize d0)) order"
    using scan_keys_peers [OF d(1) sc] assms(2,5) d known by auto
  moreover have "distinct ps"
    using q(1) assms(4) by (auto simp: subseq_conv_nths dest: distinct_nthsI intro: distinct_mapI [of "ce_PeerKey env"])
  moreover have "int (card {p \<in> set ps. grp \<in> ip_groups_of env (gm_get [] (fr_peerAddrs d) p)}) \<le> fr_ipDiversityFilterLimit d0"
    if "0 < fr_ipDiversityFilterLimit d0" for grp
  proof -
    have "groups_bounded (fr_ipDiversityFilterLimit d) []" "groups_hold env d [] []"
      using that d(3) by (simp_all add: groups_bounded_def groups_hold_def gomap_simps)
    from scan_keys_groups [OF sc _ this] that d(3) groups_limit [of "fr_ipDiversityFilterLimit d" g env d ps grp]
    show ?thesis by simp
  qed
  ultimately show ?thesis by blast
qed

text \<open>An operation on many peers returns once all of them have answered, and its result is the number of
  successes among the answers it took; it leaves some answers out only when it may exit early, after a
  success, and then the successes count twice at least as much as is missing to all peers, or they are the wanted
  part of the peers.\<close>

theorem exec_on_many_spec:
  assumes "0 < n"
  shows "(n \<le> done_count evs \<longrightarrow> execOnMany n waitFrac sloppyExit evs \<noteq> None) \<and>
    (\<forall>r. execOnMany n waitFrac sloppyExit evs = Some r \<longrightarrow>
       (\<exists>es1 es2. evs = es1 @ es2 \<and> r = success_count es1 \<and> done_count es1 \<le> n \<and>
          (done_count es1 = n \<or> sloppyExit \<and> 0 < r \<and> (n \<le> r + done_count es1 \<or> \<lfloor>of_nat n * waitFrac\<rfloor> \<le> int r))))"
proof (intro conjI allI impI)
  assume "n \<le> done_count evs"
  with exec_loop_returns [of n exec_init evs "\<lfloor>of_nat n * waitFrac\<rfloor>" sloppyExit]
  show "execOnMany n waitFrac sloppyExit evs \<noteq> None" by (auto simp: execOnMany_def exec_init_def)
next
  fix r assume "execOnMany n waitFrac sloppyExit evs = Some r"
  then obtain s where s: "exec_loop n \<lfloor>of_nat n * waitFrac\<rfloor> sloppyExit evs exec_init = Some s" "r = ex_numSuccess s"
    using assms by (auto simp: execOnMany_def)
  have i: "ticker_ok \<lfloor>of_nat n * waitFrac\<rfloor> exec_init" "ex_numDone exec_init \<le> n"
    by (simp_all add: ticker_ok_def exec_init_def)
  from exec_loop_spec [OF s(1) i] s(2)
  show "\<exists>es1 es2. evs = es1 @ es2 \<and> r = success_count es1 \<and> done_count es1 \<le> n \<and>
      (done_count es1 = n \<or> sloppyExit \<and> 0 < r \<and> (n \<le> r + done_count es1 \<or> \<lfloor>of_nat n * waitFrac\<rfloor> \<le> int r))"
    by (auto simp: exec_init_def)
qed

text \<open>The check of peers reports all of them as checked and only peers that were reached as reached, but it
  may leave out the dials of up to a hundred workers that run when it returns: with no more peers
  than workers it may report that none was reached although the dials of all of them succeed.\<close>

theorem check_peers_undercounts:
  assumes "inputs = (if peers = [] then map fst (fr_peerAddrs d) else peers)"
  shows "(CheckPeers d peers evs = Some (succ, tot) \<longrightarrow>
      tot = length inputs \<and>
      (\<exists>es1 es2. evs = es1 @ CheckReturns # es2 \<and> succ = reached es1 \<and> finished es1 \<le> tot \<and> tot - finished es1 \<le> 100)) \<and>
    (length inputs \<le> 100 \<longrightarrow>
      CheckPeers d peers (replicate (length inputs) HandOver @ CheckReturns # map (\<lambda>p. DialDone p True) inputs) =
        Some (0, length inputs))"
proof -
  let ?s = "\<lparr>ck_inputs = inputs, ck_dialling = [], ck_success = 0, ck_returned = None\<rparr>"
  have c: "CheckPeers d peers evs = (case check_run (length inputs) evs ?s of None \<Rightarrow> None | Some s \<Rightarrow> ck_returned s)" for evs
    using assms by (simp add: CheckPeers_def)
  have "tot = length inputs \<and>
      (\<exists>es1 es2. evs = es1 @ CheckReturns # es2 \<and> succ = reached es1 \<and> finished es1 \<le> tot \<and> tot - finished es1 \<le> 100)"
    if r: "CheckPeers d peers evs = Some (succ, tot)"
  proof -
    from r obtain s where s: "check_run (length inputs) evs ?s = Some s" "ck_returned s = Some (succ, tot)"
      by (auto simp: c split: option.splits)
    from check_run_spec [OF s(1), of 0 succ tot] s(2) show ?thesis by (auto simp: check_workers_def)
  qed
  moreover have "CheckPeers d peers (replicate (length inputs) HandOver @ CheckReturns # map (\<lambda>p. DialDone p True) inputs) =
      Some (0, length inputs)" if "length inputs \<le> 100"
  proof -
    let ?t = "?s\<lparr>ck_inputs := [], ck_dialling := inputs\<rparr>"
    let ?u = "?t\<lparr>ck_returned := Some (0, length inputs)\<rparr>"
    have "check_run (length inputs) (replicate (length inputs) HandOver) ?s = Some ?t"
      using check_hand_all [of ?s "length inputs"] that by (simp add: check_workers_def)
    moreover have "check_step (length inputs) CheckReturns ?t = Some ?u" by (simp add: check_step_def)
    moreover have "check_run (length inputs) (map (\<lambda>p. DialDone p True) inputs) ?u =
        Some (?u\<lparr>ck_dialling := [], ck_success := length inputs\<rparr>)"
      using check_dial_all [of "length inputs" ?u] by simp
    ultimately show ?thesis unfolding c by (simp add: check_run_append)
  qed
  ultimately show ?thesis by blast
qed

text \<open>A client with two peers in one group, a limit of one, and keys that are the peers' identifiers.\<close>

definition demo_closest :: "string closest_env" where
  "demo_closest = \<lparr>ce_Key = (\<lambda>k. k), ce_PeerKey = (\<lambda>p. p), ce_ClosestN = (\<lambda>k keys n. take n keys),
     ce_ToIP = (\<lambda>a. Some a), ce_IPGroupKey = take 1\<rparr>"

definition demo_fullrt :: "int \<Rightarrow> fullrt" where
  "demo_fullrt limit = \<lparr>fr_rt = [], fr_keyToPeerMap = [], fr_peerAddrs = [], fr_lastCrawlTime = 0, fr_crawlerInterval = hours 1,
     fr_bootstrapPeers = [], fr_bucketSize = 20, fr_waitFrac = 3 / 10, fr_timeoutPerOp = 5 * time_Second,
     fr_bulkSendParallelism = 20, fr_ipDiversityFilterLimit = limit\<rparr>"

definition demo_reports :: "(peer_id \<times> bool \<times> multiaddr list) list" where
  "demo_reports = [(''p'', True, [''a1'']), (''q'', True, [''a2'']), (''r'', False, [''b1'']), (''s'', True, [''b2''])]"

theorem fullrt_closest_peers_witness:
  "fr_GetClosestPeers demo_closest (runCrawl demo_closest demo_reports 5 (demo_fullrt 0)) ''k'' = Some [''s'', ''q'', ''p'']"
proof -
  let ?d = "runCrawl demo_closest demo_reports 5 (demo_fullrt 0)"
  have rt: "fr_rt ?d = [''s'', ''q'', ''p'']" by code_simp
  have h: "0 < fr_bucketSize (demo_fullrt 0)" "0 \<le> fr_ipDiversityFilterLimit (demo_fullrt 0)" "distinct [''s'', ''q'', ''p'']"
    "set [''s'', ''q'', ''p''] = set (fr_rt ?d)"
    "\<forall>n. ce_ClosestN demo_closest (ce_Key demo_closest ''k'') (fr_rt ?d) n = take n [''s'', ''q'', ''p'']"
    unfolding rt by (simp_all add: demo_fullrt_def demo_closest_def)
  have id: "map (ce_PeerKey demo_closest) ps = ps" for ps by (simp add: demo_closest_def)
  have z: "fr_ipDiversityFilterLimit (demo_fullrt 0) = 0" "fr_bucketSize (demo_fullrt 0) = 20" by (simp_all add: demo_fullrt_def)
  from fullrt_closest_peers [OF refl h, unfolded id z] obtain ps where
    "fr_GetClosestPeers demo_closest ?d ''k'' = Some ps" "ps = take (nat 20) [''s'', ''q'', ''p'']" by blast
  then show ?thesis by simp
qed

theorem exec_on_many_spec_witness:
  "\<exists>r. execOnMany 4 (1 / 4) True [OpDone True, OpDone False, ExecTick, OpDone True] = Some r \<and> r = 1"
proof -
  have "execOnMany 4 (1 / 4) True [OpDone True, OpDone False, ExecTick, OpDone True] = Some 1"
    by (simp add: execOnMany_def exec_init_def exec_loop.simps exec_event_step_def)
  moreover from this exec_on_many_spec [of 4] obtain es1 es2 where
    "[OpDone True, OpDone False, ExecTick, OpDone True] = es1 @ es2" "1 = success_count es1"
    by (metis zero_less_numeral)
  ultimately show ?thesis by blast
qed

theorem check_peers_undercounts_witness:
  "CheckPeers (demo_fullrt 0) [''p''] [HandOver, CheckReturns, DialDone ''p'' True] = Some (0, 1)"
proof -
  have "[''p''] = (if [''p''] = [] then map fst (fr_peerAddrs (demo_fullrt 0)) else [''p''])" by simp
  from check_peers_undercounts [OF this, THEN conjunct2] show ?thesis by simp
qed

end
