(* ===== verification/FullRT_Routing.thy ===== *)
theory FullRT_Routing
  imports FullRT
begin

text \<open>
  The routing operations of the full client (\<^verbatim>\<open>fullrt/dht.go\<close>): local records, storing and searching
  values, announcing and searching providers, searching a peer. The environment, the errors of the
  classic client and its message events are those of theory \<open>Routing\<close>; the closest peers and the
  execution on many peers are those of theory \<open>FullRT\<close>.

  A peer's answer is an event with a flag that is false when its context ends first. An operation
  that has not returned is \<open>None\<close>, and so is one that reads past its closest peers. \<^verbatim>\<open>GetClosestPeers\<close>
  returns no error here, so the branches of its callers for one are left out.
\<close>

section \<open>State\<close>

record 'd fullrt_node =
  fn_tables :: fullrt
  fn_self :: peer_id
  fn_enableValues :: bool
  fn_enableProviders :: bool
  fn_datastore :: 'd

datatype fullrt_error =
  FrRouting routing_error | PutIncomplete | ProvideIncomplete | NoSelfAddrs | LengthMismatch | DuplicateKeys |
  BulkIncomplete

section \<open>Local records\<close>





definition fr_FindLocal :: "'d handler_env \<Rightarrow> peer_id \<Rightarrow> AddrInfo" where
  "fr_FindLocal h p = (if hasValidConnectedness h p then he_PeerInfo h p else \<lparr>ai_ID = [], ai_Addrs = []\<rparr>)"

text \<open>What is added to the peerstore: unlike the classic client's, the addresses are not filtered.\<close>

definition fr_maybeAddAddrs :: "'d handler_env \<Rightarrow> 'd fullrt_node \<Rightarrow> peer_id \<Rightarrow> multiaddr list \<Rightarrow> duration \<Rightarrow>
    (peer_id \<times> multiaddr list \<times> duration) option" where
  "fr_maybeAddAddrs h n p addrs ttl =
     (if p = fn_self n \<or> hasValidConnectedness h p then None else Some (p, addrs, ttl))"

section \<open>Asking the closest peers\<close>

datatype op_event = Answered peer_id bool | Ticked

fun op_outcome :: "(peer_id \<Rightarrow> bool) \<Rightarrow> op_event \<Rightarrow> exec_event" where
  "op_outcome fn (Answered p delivered) = OpDone (delivered \<and> fn p)"
| "op_outcome fn Ticked = ExecTick"

definition run_many :: "fullrt \<Rightarrow> (peer_id \<Rightarrow> bool) \<Rightarrow> peer_id list \<Rightarrow> bool \<Rightarrow> op_event list \<Rightarrow> nat option" where
  "run_many d fn peers sloppyExit evs =
     execOnMany (length peers) (fr_waitFrac d) sloppyExit (map (op_outcome fn) evs)"

section \<open>Storing a value\<close>


section \<open>Searching a value\<close>













section \<open>Announcing a provider\<close>

text \<open>
  The result is the record added to the local provider store, and the error. An undefined content
  identifier is \<open>None\<close>. The inner deadline only matters to a call that does not look at its context.
\<close>

definition fr_Provide :: "'d routing_env \<Rightarrow> 'ip closest_env \<Rightarrow> bytes option \<Rightarrow> bool \<Rightarrow> instant option \<Rightarrow> instant \<Rightarrow>
    ctx_err option \<Rightarrow> op_event list \<Rightarrow> 'd fullrt_node \<Rightarrow> ((bytes \<times> AddrInfo) option \<times> fullrt_error option) option" where
  "fr_Provide env ce key brdcst ctxDeadline now ctxErr evs n =
     (if \<not> fn_enableProviders n then Some (None, Some (FrRouting ErrNotSupported))
      else case key of
        None \<Rightarrow> Some (None, Some (FrRouting UndefinedCid))
      | Some keyMH \<Rightarrow>
          (let added = Some (keyMH, \<lparr>ai_ID = fn_self n, ai_Addrs = []\<rparr>) in
           if \<not> brdcst then Some (added, None)
           else
             let inner = (case ctxDeadline of
                            None \<Rightarrow> Inr None
                          | Some deadline \<Rightarrow> map_sum id Some (classicDeadline now deadline))
             in (case inner of
                   Inl err \<Rightarrow> Some (added, Some (FrRouting err))
                 | Inr _ \<Rightarrow>
                     Option.bind (fr_GetClosestPeers ce (fn_tables n) keyMH) (\<lambda>peers.
                     Option.bind (run_many (fn_tables n)
                         (\<lambda>p. pm_PutProviderAddrs (re_sendMsg env) p keyMH
                                \<lparr>ai_ID = fn_self n, ai_Addrs = re_hostAddrs env\<rparr> = None) peers True evs) (\<lambda>successes.
                       Some (added, if successes = 0 then Some ProvideIncomplete
                                    else map_option (\<lambda>c. FrRouting (CtxError c)) ctxErr))))))"

section \<open>Searching providers\<close>

text \<open>
  The workers are those of theory \<open>Provider_Routing\<close>; the table of known providers is a set of
  identifiers. The first worker offers the local providers, every other one those a queried peer
  answered, whose addresses it adds to the peerstore. \<open>frp_asked\<close> are the peers that have not answered.
\<close>

definition fr_psTryAdd :: "int \<Rightarrow> peer_id \<Rightarrow> peer_id list \<Rightarrow> bool \<times> peer_id list" where
  "fr_psTryAdd cnt p ps =
     (let findAll = (cnt = 0)
      in if p \<notin> set ps \<and> (int (length ps) < cnt \<or> findAll) then (True, List.insert p ps) else (False, ps))"

type_synonym peerstore_add = "peer_id \<times> multiaddr list \<times> duration"

record frp_state =
  frp_ps :: "peer_id list"
  frp_addrs :: "peerstore_add list"
  frp_out :: "AddrInfo list"
  frp_asked :: "peer_id list"
  frp_workers :: "fp_worker list"

datatype frp_action = FrReply peer_id | FrStep nat | FrEndCtx nat

record frp_env =
  fe_count :: int
  fe_add :: "AddrInfo \<Rightarrow> peerstore_add option"
  fe_answer :: "peer_id \<Rightarrow> (AddrInfo list \<times> AddrInfo list) option"

fun frp_worker_step :: "frp_env \<Rightarrow> bool \<Rightarrow> peer_id list \<Rightarrow> fp_worker \<Rightarrow>
    (fp_worker \<times> peer_id list \<times> AddrInfo list \<times> peerstore_add list) option" where
  "frp_worker_step env remote ps (Offering []) = Some (FpEnd Exhausted, ps, [], [])"
| "frp_worker_step env remote ps (Offering (p # rest)) =
     (let addrs = (if remote then (case fe_add env p of None \<Rightarrow> [] | Some a \<Rightarrow> [a]) else []);
          (added, ps) = fr_psTryAdd (fe_count env) (ai_ID p) ps
      in Some (if added then Sending p rest else Checking rest, ps, [], addrs))"
| "frp_worker_step env remote ps (Sending p rest) = Some (Checking rest, ps, [p], [])"
| "frp_worker_step env remote ps (Checking rest) =
     Some (if fe_count env \<noteq> 0 \<and> int (length ps) \<ge> fe_count env then FpEnd Enough else Offering rest, ps, [], [])"
| "frp_worker_step env remote ps (FpEnd e) = None"

definition frp_step :: "frp_env \<Rightarrow> frp_action \<Rightarrow> frp_state \<Rightarrow> frp_state option" where
  "frp_step env act s =
     (case act of
        FrReply p \<Rightarrow>
          (if p \<in> set (frp_asked s)
           then (let s = s\<lparr>frp_asked := remove1 p (frp_asked s)\<rparr>
                 in case fe_answer env p of
                      None \<Rightarrow> Some s
                    | Some (provs, closest) \<Rightarrow> Some (s\<lparr>frp_workers := frp_workers s @ [Offering provs]\<rparr>))
           else None)
      | FrStep i \<Rightarrow>
          (if i < length (frp_workers s)
           then map_option (\<lambda>(w, ps, out, addrs).
                    s\<lparr>frp_ps := ps, frp_addrs := frp_addrs s @ addrs, frp_out := frp_out s @ out,
                      frp_workers := (frp_workers s)[i := w]\<rparr>)
                  (frp_worker_step env (i > 0) (frp_ps s) (frp_workers s ! i))
           else None)
      | FrEndCtx i \<Rightarrow>
          (if i < length (frp_workers s)
           then (case frp_workers s ! i of
                   Sending p rest \<Rightarrow> Some (s\<lparr>frp_workers := (frp_workers s)[i := FpEnd CtxEnded]\<rparr>)
                 | _ \<Rightarrow> None)
           else None))"

fun frp_run :: "frp_env \<Rightarrow> frp_action list \<Rightarrow> frp_state \<Rightarrow> frp_state option" where
  "frp_run env [] s = Some s"
| "frp_run env (a # as) s = Option.bind (frp_step env a s) (frp_run env as)"

definition frp_init :: "fp_worker list \<Rightarrow> frp_state" where
  "frp_init ws = \<lparr>frp_ps = [], frp_addrs = [], frp_out = [], frp_asked = [], frp_workers = ws\<rparr>"

fun is_end :: "fp_worker \<Rightarrow> bool" where
  "is_end (FpEnd e) = True"
| "is_end _ = False"

text \<open>
  The whole routine until it closes the channel: the local providers alone, then, if they ran out, all
  closest peers, which the routine waits for.
\<close>

definition fr_findProvidersAsyncRoutine :: "frp_env \<Rightarrow> string + AddrInfo list \<Rightarrow> peer_id list option \<Rightarrow>
    frp_action list \<Rightarrow> frp_action list \<Rightarrow> frp_state option" where
  "fr_findProvidersAsyncRoutine env localProvs closest localActs queryActs =
     (case localProvs of
        Inl err \<Rightarrow> Some (frp_init [])
      | Inr provs \<Rightarrow>
          Option.bind (frp_run env localActs (frp_init [Offering provs])) (\<lambda>s.
            if \<not> list_all is_end (frp_workers s) then None
            else if frp_workers s \<noteq> [FpEnd Exhausted] then Some s
            else Option.bind closest (\<lambda>peers.
                 Option.bind (frp_run env queryActs (s\<lparr>frp_asked := peers\<rparr>)) (\<lambda>s.
                   if frp_asked s = [] \<and> list_all is_end (frp_workers s) then Some s else None))))"

text \<open>\<open>ttl\<close> is the peerstore's \<^verbatim>\<open>TempAddrTTL\<close>; \<open>localProvs\<close> is what the provider manager answers.\<close>

definition frp_env_of :: "'d routing_env \<Rightarrow> duration \<Rightarrow> bytes \<Rightarrow> int \<Rightarrow> 'd fullrt_node \<Rightarrow> frp_env" where
  "frp_env_of env ttl key cnt n =
     \<lparr>fe_count = cnt,
      fe_add = (\<lambda>pi. fr_maybeAddAddrs (re_h env) n (ai_ID pi) (ai_Addrs pi) ttl),
      fe_answer = (\<lambda>p. case pm_GetProviders (he_validAddr (re_h env)) (re_send env) p key of
                         Inl err \<Rightarrow> None | Inr r \<Rightarrow> Some r)\<rparr>"

definition fr_FindProvidersAsync :: "'d routing_env \<Rightarrow> 'ip closest_env \<Rightarrow> duration \<Rightarrow> bytes option \<Rightarrow> int \<Rightarrow>
    string + AddrInfo list \<Rightarrow> frp_action list \<Rightarrow> frp_action list \<Rightarrow> 'd fullrt_node \<Rightarrow> frp_state option" where
  "fr_FindProvidersAsync env ce ttl key cnt localProvs localActs queryActs n =
     (if \<not> fn_enableProviders n then Some (frp_init [])
      else case key of
        None \<Rightarrow> Some (frp_init [])
      | Some keyMH \<Rightarrow>
          fr_findProvidersAsyncRoutine (frp_env_of env ttl keyMH cnt n) localProvs
            (fr_GetClosestPeers ce (fn_tables n) keyMH) localActs queryActs)"

definition fr_FindProviders :: "'d routing_env \<Rightarrow> 'ip closest_env \<Rightarrow> duration \<Rightarrow> bytes option \<Rightarrow>
    string + AddrInfo list \<Rightarrow> frp_action list \<Rightarrow> frp_action list \<Rightarrow> 'd fullrt_node \<Rightarrow>
    (routing_error + AddrInfo list) option" where
  "fr_FindProviders env ce ttl key localProvs localActs queryActs n =
     (if \<not> fn_enableProviders n then Some (Inl ErrNotSupported)
      else if key = None then Some (Inl UndefinedCid)
      else map_option (\<lambda>s. Inr (frp_out s))
             (fr_FindProvidersAsync env ce ttl key (fr_bucketSize (fn_tables n)) localProvs localActs queryActs n))"

section \<open>Searching a peer\<close>

text \<open>What a queried peer tells of the searched one: nothing, or the first entry of that identifier.\<close>

definition fr_peerQuery :: "'d routing_env \<Rightarrow> peer_id \<Rightarrow> peer_id \<Rightarrow> bool \<times> AddrInfo option" where
  "fr_peerQuery env pid p =
     (case pm_GetClosestPeers (he_validAddr (re_h env)) (re_send env) p pid of
        Inl err \<Rightarrow> (False, None)
      | Inr peers \<Rightarrow> (True, find (\<lambda>a. ai_ID a = pid) peers))"

fun collect_addrs :: "multiaddr list \<Rightarrow> multiaddr list \<Rightarrow> multiaddr list" where
  "collect_addrs newAddrs [] = newAddrs"
| "collect_addrs newAddrs (a # as) =
     (if a \<notin> set newAddrs then collect_addrs (newAddrs @ [a]) as else collect_addrs newAddrs as)"

fun collect_infos :: "'d routing_env \<Rightarrow> peer_id \<Rightarrow> op_event list \<Rightarrow> multiaddr list \<Rightarrow> multiaddr list" where
  "collect_infos env pid [] newAddrs = newAddrs"
| "collect_infos env pid (Ticked # evs) newAddrs = collect_infos env pid evs newAddrs"
| "collect_infos env pid (Answered p delivered # evs) newAddrs =
     (case snd (fr_peerQuery env pid p) of
        None \<Rightarrow> collect_infos env pid evs newAddrs
      | Some ai \<Rightarrow> collect_infos env pid evs (if delivered then collect_addrs newAddrs (ai_Addrs ai) else newAddrs))"

text \<open>
  The result and the addresses dialed. \<open>h1\<close> and \<open>h2\<close> are the host before the search and after the dial. The
  events up to the return of the search are the answers in the order they arrive.
\<close>

definition fr_FindPeer :: "'d routing_env \<Rightarrow> 'ip closest_env \<Rightarrow> 'd handler_env \<Rightarrow> 'd handler_env \<Rightarrow> peer_id \<Rightarrow>
    op_event list \<Rightarrow> 'd fullrt_node \<Rightarrow> ((routing_error + AddrInfo) \<times> multiaddr list option) option" where
  "fr_FindPeer env ce h1 h2 pid evs n =
     (if \<not> re_ValidateID env pid then Some (Inl InvalidPeerID, None)
      else
        let pi = fr_FindLocal h1 pid in
        if ai_ID pi \<noteq> [] then Some (Inr pi, None)
        else
          Option.bind (fr_GetClosestPeers ce (fn_tables n) pid) (\<lambda>peers.
          Option.bind (run_many (fn_tables n) (\<lambda>p. fst (fr_peerQuery env pid p)) peers False evs) (\<lambda>_.
            let newAddrs = collect_infos env pid evs [];
                dialed = (if length newAddrs > 0 then Some newAddrs else None)
            in Some (if hasValidConnectedness h2 pid then Inr (he_PeerInfo h2 pid) else Inl ErrNotFound, dialed))))"

section \<open>Lemmas: the same values as the classic client's\<close>

definition classic_node :: "duration \<Rightarrow> 'd fullrt_node \<Rightarrow> 'd dht_node" where
  "classic_node maxAge n =
     \<lparr>dn_self = fn_self n, dn_bucketSize = fr_bucketSize (fn_tables n), dn_enableValues = fn_enableValues n,
      dn_enableProviders = fn_enableProviders n, dn_maxRecordAge = maxAge, dn_datastore = fn_datastore n\<rparr>"


lemma classic_node_fields [simp]:
  "dn_self (classic_node maxAge n) = fn_self n"
  "dn_enableValues (classic_node maxAge n) = fn_enableValues n"
  "dn_enableProviders (classic_node maxAge n) = fn_enableProviders n"
  by (simp_all add: classic_node_def)















section \<open>Lemmas: operations on the closest peers\<close>

definition answers :: "op_event list \<Rightarrow> nat" where
  "answers evs = length (filter (\<lambda>e. e \<noteq> Ticked) evs)"


lemma done_answers: "done_count (map (op_outcome fn) evs) = answers evs"
  unfolding done_count_def answers_def
  by (induction evs) (auto elim: op_outcome.elims)




lemma run_many_returns: "length peers \<le> answers evs \<Longrightarrow> \<exists>k. run_many d fn peers sloppy evs = Some k"
  using exec_loop_returns [of "length peers" exec_init "map (op_outcome fn) evs"]
  by (force simp: run_many_def execOnMany_def done_answers exec_init_def)


section \<open>Lemmas: searching providers\<close>

abbreviation frp_in_flight :: "frp_state \<Rightarrow> AddrInfo list" where
  "frp_in_flight s \<equiv> frp_out s @ concat (map pending (frp_workers s))"

text \<open>Known identifiers bound, as a multiset, what was sent or is about to be.\<close>

definition frp_inv :: "int \<Rightarrow> frp_state \<Rightarrow> bool" where
  "frp_inv cnt s \<longleftrightarrow> distinct (frp_ps s) \<and> (cnt \<noteq> 0 \<longrightarrow> int (length (frp_ps s)) \<le> max 0 cnt) \<and>
     mset (map ai_ID (frp_in_flight s)) \<subseteq># mset (frp_ps s)"

lemma frp_worker_moves:
  assumes "frp_worker_step env remote ps w = Some (w', ps', out, addrs)"
    and "distinct ps" and "fe_count env \<noteq> 0 \<longrightarrow> int (length ps) \<le> max 0 (fe_count env)"
  shows "distinct ps' \<and> (fe_count env \<noteq> 0 \<longrightarrow> int (length ps') \<le> max 0 (fe_count env)) \<and>
    mset ps' + mset (map ai_ID (pending w)) = mset ps + mset (map ai_ID (out @ pending w'))"
  using assms
  by (cases "(env, remote, ps, w)" rule: frp_worker_step.cases)
    (auto simp: fr_psTryAdd_def Let_def split: prod.splits if_splits option.splits)

lemma frp_inv_step:
  assumes "frp_inv (fe_count env) s" and "frp_step env act s = Some s'"
  shows "frp_inv (fe_count env) s'"
proof (cases act)
  case (FrReply p)
  with assms show ?thesis by (auto simp: frp_inv_def frp_step_def Let_def split: if_splits option.splits)
next
  case (FrEndCtx i)
  with assms(2) obtain p rest where i: "i < length (frp_workers s)" "frp_workers s ! i = Sending p rest"
    "s' = s\<lparr>frp_workers := (frp_workers s)[i := FpEnd CtxEnded]\<rparr>"
    by (auto simp: frp_step_def split: if_splits fp_worker.splits)
  from concat_pending_update [OF i(1), of "FpEnd CtxEnded"] i(2) have
    "mset (frp_in_flight s) = mset (frp_in_flight s') + {#p#}" by (simp add: i(3))
  then have le: "mset (map ai_ID (frp_in_flight s')) \<subseteq># mset (map ai_ID (frp_in_flight s))"
    unfolding mset_map by (simp add: image_mset_subseteq_mono)
  have inv: "distinct (frp_ps s)" "fe_count env \<noteq> 0 \<longrightarrow> int (length (frp_ps s)) \<le> max 0 (fe_count env)"
    "mset (map ai_ID (frp_in_flight s)) \<subseteq># mset (frp_ps s)"
    using assms(1) unfolding frp_inv_def by blast+
  have ps: "frp_ps s' = frp_ps s" by (simp add: i(3))
  show ?thesis unfolding frp_inv_def ps using inv(1,2) subset_mset.order_trans [OF le inv(3)] by blast
next
  case (FrStep i)
  with assms(2) obtain w ps out addrs where i: "i < length (frp_workers s)"
    "frp_worker_step env (i > 0) (frp_ps s) (frp_workers s ! i) = Some (w, ps, out, addrs)"
    "s' = s\<lparr>frp_ps := ps, frp_addrs := frp_addrs s @ addrs, frp_out := frp_out s @ out,
            frp_workers := (frp_workers s)[i := w]\<rparr>"
    by (auto simp: frp_step_def split: if_splits)
  have inv: "distinct (frp_ps s)" "fe_count env \<noteq> 0 \<longrightarrow> int (length (frp_ps s)) \<le> max 0 (fe_count env)"
    "mset (map ai_ID (frp_in_flight s)) \<subseteq># mset (frp_ps s)"
    using assms(1) unfolding frp_inv_def by blast+
  note mv = frp_worker_moves [OF i(2) inv(1,2)]
  from concat_pending_update [OF i(1), of w] have
    "mset (frp_in_flight s') + mset (pending (frp_workers s ! i)) = mset (frp_in_flight s) + mset (out @ pending w)"
    by (simp add: i(3) ac_simps)
  from arg_cong [OF this, of "image_mset ai_ID"] have
    "mset (map ai_ID (frp_in_flight s')) + mset (map ai_ID (pending (frp_workers s ! i))) =
     mset (map ai_ID (frp_in_flight s)) + mset (map ai_ID (out @ pending w))"
    unfolding mset_map image_mset_union by simp
  then have "mset (map ai_ID (frp_in_flight s')) + mset (map ai_ID (pending (frp_workers s ! i))) \<subseteq>#
      mset ps + mset (map ai_ID (pending (frp_workers s ! i)))"
    using mv inv(3) by (metis subset_mset.add_right_mono)
  then have "mset (map ai_ID (frp_in_flight s')) \<subseteq># mset ps" by (simp only: subset_mset.add_le_cancel_right)
  with mv show ?thesis unfolding frp_inv_def by (simp add: i(3))
qed

lemma frp_inv_run: "frp_run env acts s = Some s' \<Longrightarrow> frp_inv (fe_count env) s \<Longrightarrow> frp_inv (fe_count env) s'"
  by (induction acts arbitrary: s) (auto simp: frp_inv_step split: Option.bind_splits)

text \<open>Everything sent, about to be sent or left to be offered was answered by someone.\<close>

definition told :: "frp_env \<Rightarrow> peer_id set \<Rightarrow> AddrInfo set" where
  "told env P = {q. \<exists>p\<in>P. \<exists>provs closest. fe_answer env p = Some (provs, closest) \<and> q \<in> set provs}"

definition frp_from :: "AddrInfo set \<Rightarrow> frp_env \<Rightarrow> frp_state \<Rightarrow> bool" where
  "frp_from A env s \<longleftrightarrow> set (frp_out s) \<subseteq> A \<and> (\<forall>w\<in>set (frp_workers s). set (pending w) \<union> set (rest_of w) \<subseteq> A) \<and>
     told env (set (frp_asked s)) \<subseteq> A"

lemma told_mono: "P \<subseteq> Q \<Longrightarrow> told env P \<subseteq> told env Q"
  by (auto simp: told_def)

lemma told_in: "fe_answer env p = Some (provs, closest) \<Longrightarrow> p \<in> P \<Longrightarrow> set provs \<subseteq> told env P"
  by (auto simp: told_def)

lemma frp_worker_from:
  assumes "frp_worker_step env remote ps w = Some (w', ps', out, addrs)"
  shows "set out \<union> set (pending w') \<union> set (rest_of w') \<subseteq> set (pending w) \<union> set (rest_of w)"
  using assms by (cases "(env, remote, ps, w)" rule: frp_worker_step.cases) (auto split: prod.splits if_splits simp: Let_def)

lemma frp_from_step:
  assumes "frp_from A env s" and "frp_step env act s = Some s'"
  shows "frp_from A env s'"
proof (cases act)
  case (FrReply p)
  with assms(2) have p: "p \<in> set (frp_asked s)" by (simp add: frp_step_def split: if_splits)
  have old: "set (frp_out s) \<subseteq> A" "\<forall>w\<in>set (frp_workers s). set (pending w) \<union> set (rest_of w) \<subseteq> A"
    "told env (set (frp_asked s)) \<subseteq> A" using assms(1) unfolding frp_from_def by blast+
  have less: "told env (set (remove1 p (frp_asked s))) \<subseteq> A"
    using told_mono [OF set_remove1_subset, of env p "frp_asked s"] old(3) by blast
  show ?thesis
  proof (cases "fe_answer env p")
    case None
    then have "s' = s\<lparr>frp_asked := remove1 p (frp_asked s)\<rparr>" using assms(2) FrReply p by (simp add: frp_step_def)
    with old less show ?thesis by (simp add: frp_from_def)
  next
    case (Some r)
    obtain provs closest where r: "r = (provs, closest)" by fastforce
    then have "s' = s\<lparr>frp_asked := remove1 p (frp_asked s), frp_workers := frp_workers s @ [Offering provs]\<rparr>"
      using assms(2) FrReply p Some by (simp add: frp_step_def)
    moreover have "set provs \<subseteq> A" using told_in [OF Some [unfolded r] p] old(3) by blast
    ultimately show ?thesis using old less by (simp add: frp_from_def)
  qed
next
  case (FrEndCtx i)
  with assms(2) obtain p rest where s': "s' = s\<lparr>frp_workers := (frp_workers s)[i := FpEnd CtxEnded]\<rparr>"
    by (auto simp: frp_step_def split: if_splits fp_worker.splits)
  have "set (pending v) \<union> set (rest_of v) \<subseteq> A" if "v \<in> set ((frp_workers s)[i := FpEnd CtxEnded])" for v
    using in_update_cases [OF that] assms(1) unfolding frp_from_def by auto
  with assms(1) show ?thesis unfolding frp_from_def s' by simp
next
  case (FrStep i)
  with assms(2) obtain w ps out addrs where i: "i < length (frp_workers s)"
    "frp_worker_step env (i > 0) (frp_ps s) (frp_workers s ! i) = Some (w, ps, out, addrs)"
    "s' = s\<lparr>frp_ps := ps, frp_addrs := frp_addrs s @ addrs, frp_out := frp_out s @ out,
            frp_workers := (frp_workers s)[i := w]\<rparr>"
    by (auto simp: frp_step_def split: if_splits)
  have "frp_workers s ! i \<in> set (frp_workers s)" using i(1) by simp
  with frp_worker_from [OF i(2)] assms(1) have new: "set out \<union> set (pending w) \<union> set (rest_of w) \<subseteq> A"
    unfolding frp_from_def by blast
  have "set (pending v) \<union> set (rest_of v) \<subseteq> A" if "v \<in> set ((frp_workers s)[i := w])" for v
    using in_update_cases [OF that] new assms(1) unfolding frp_from_def by blast
  with assms(1) new show ?thesis unfolding frp_from_def i(3) by simp
qed

lemma frp_from_run: "frp_run env acts s = Some s' \<Longrightarrow> frp_from A env s \<Longrightarrow> frp_from A env s'"
  by (induction acts arbitrary: s) (auto dest: frp_from_step split: Option.bind_splits)

text \<open>Without a bound every offered provider is left to be offered or known, and what is known is sent.\<close>

definition left_or_known :: "frp_state \<Rightarrow> AddrInfo \<Rightarrow> bool" where
  "left_or_known s q \<longleftrightarrow> ai_ID q \<in> set (frp_ps s) \<or> (\<exists>w\<in>set (frp_workers s). q \<in> set (rest_of w))"

definition frp_all :: "AddrInfo set \<Rightarrow> peer_id set \<Rightarrow> frp_env \<Rightarrow> frp_state \<Rightarrow> bool" where
  "frp_all L P env s \<longleftrightarrow> FpEnd CtxEnded \<in> set (frp_workers s) \<or>
     (\<forall>q\<in>L. left_or_known s q) \<and>
     (\<forall>p\<in>P. p \<in> set (frp_asked s) \<or> (\<forall>q\<in>told env {p}. left_or_known s q)) \<and>
     set (frp_ps s) \<subseteq> ai_ID ` set (frp_in_flight s)"

lemma frp_worker_all:
  assumes "frp_worker_step env remote ps w = Some (w', ps', out, addrs)" and "fe_count env = 0"
  shows "set ps \<subseteq> set ps' \<and> (\<forall>q\<in>set (rest_of w). ai_ID q \<in> set ps' \<or> q \<in> set (rest_of w')) \<and>
    set (pending w) \<subseteq> set out \<and> set ps' \<subseteq> set ps \<union> ai_ID ` set (pending w')"
  using assms
  by (cases "(env, remote, ps, w)" rule: frp_worker_step.cases)
    (auto simp: fr_psTryAdd_def Let_def split: prod.splits if_splits)

lemma frp_step_moves:
  assumes "frp_step env act s = Some s'" and "fe_count env = 0"
  shows "FpEnd CtxEnded \<in> set (frp_workers s') \<or>
    FpEnd CtxEnded \<notin> set (frp_workers s) \<and> (\<forall>q. left_or_known s q \<longrightarrow> left_or_known s' q) \<and>
    (set (frp_ps s) \<subseteq> ai_ID ` set (frp_in_flight s) \<longrightarrow> set (frp_ps s') \<subseteq> ai_ID ` set (frp_in_flight s'))"
proof (cases act)
  case (FrReply p)
  with assms(1) show ?thesis
    by (auto simp: frp_step_def Let_def left_or_known_def split: if_splits option.splits)
next
  case (FrEndCtx i)
  with assms(1) show ?thesis by (auto simp: frp_step_def set_update_memI split: if_splits fp_worker.splits)
next
  case (FrStep i)
  with assms(1) obtain w ps out addrs where i: "i < length (frp_workers s)"
    "frp_worker_step env (i > 0) (frp_ps s) (frp_workers s ! i) = Some (w, ps, out, addrs)"
    "s' = s\<lparr>frp_ps := ps, frp_addrs := frp_addrs s @ addrs, frp_out := frp_out s @ out,
            frp_workers := (frp_workers s)[i := w]\<rparr>"
    by (auto simp: frp_step_def split: if_splits)
  let ?ws = "frp_workers s" and ?ws' = "(frp_workers s)[i := w]"
  note st = frp_worker_all [OF i(2) assms(2)]
  have keep: "v \<in> set ?ws' \<or> v = ?ws ! i" if "v \<in> set ?ws" for v
    using in_update(2) [OF i(1) that] by blast
  have w: "w \<in> set ?ws'" using in_update(1) [OF i(1)] .
  have ni: "?ws ! i \<noteq> FpEnd CtxEnded" using i(2) by auto
  have lk: "left_or_known s' q" if "left_or_known s q" for q
  proof (cases "ai_ID q \<in> set ps")
    case False
    then have "ai_ID q \<notin> set (frp_ps s)" using st by blast
    with that obtain v where v: "v \<in> set ?ws" "q \<in> set (rest_of v)" by (auto simp: left_or_known_def)
    from keep [OF v(1)] have "\<exists>u\<in>set ?ws'. q \<in> set (rest_of u)"
    proof
      assume "v = ?ws ! i"
      with st v(2) False have "q \<in> set (rest_of w)" by blast
      with w show ?thesis by blast
    qed (use v(2) in blast)
    then show ?thesis by (simp add: left_or_known_def i(3))
  qed (simp add: left_or_known_def i(3))
  moreover have "set (frp_ps s') \<subseteq> ai_ID ` set (frp_in_flight s')" if old: "set (frp_ps s) \<subseteq> ai_ID ` set (frp_in_flight s)"
  proof -
    have "set (pending v) \<subseteq> set (frp_in_flight s')" if "v \<in> set ?ws" for v
      using keep [OF that]
    proof
      assume "v = ?ws ! i"
      with st show ?thesis by (auto simp: i(3))
    qed (auto simp: i(3))
    moreover have "set (pending w) \<subseteq> set (frp_in_flight s')" using w by (auto simp: i(3))
    ultimately have "set (frp_in_flight s) \<union> set (pending w) \<subseteq> set (frp_in_flight s')" by (auto simp: i(3))
    then have "ai_ID ` set (frp_in_flight s) \<union> ai_ID ` set (pending w) \<subseteq> ai_ID ` set (frp_in_flight s')" by blast
    moreover have "set ps \<subseteq> set (frp_ps s) \<union> ai_ID ` set (pending w)" using st by blast
    moreover have "frp_ps s' = ps" by (simp add: i(3))
    ultimately show ?thesis using old by blast
  qed
  moreover have "FpEnd CtxEnded \<in> set (frp_workers s')" if "FpEnd CtxEnded \<in> set ?ws"
    using keep [OF that] ni by (auto simp: i(3))
  ultimately show ?thesis by blast
qed

lemma frp_step_asked:
  assumes "frp_step env act s = Some s'" and "p \<in> set (frp_asked s)"
  shows "p \<in> set (frp_asked s') \<or> (\<forall>q\<in>told env {p}. left_or_known s' q)"
proof (cases act)
  case (FrReply p')
  with assms show ?thesis
    by (cases "p = p'") (auto simp: frp_step_def Let_def told_def left_or_known_def split: if_splits option.splits)
qed (use assms in \<open>auto simp: frp_step_def split: if_splits fp_worker.splits\<close>)

lemma frp_all_step:
  assumes "frp_all L P env s" and "frp_step env act s = Some s'" and "fe_count env = 0"
  shows "frp_all L P env s'"
proof (cases "FpEnd CtxEnded \<in> set (frp_workers s')")
  case False
  with frp_step_moves [OF assms(2,3)] have mv: "FpEnd CtxEnded \<notin> set (frp_workers s)"
    "\<forall>q. left_or_known s q \<longrightarrow> left_or_known s' q"
    "set (frp_ps s) \<subseteq> ai_ID ` set (frp_in_flight s) \<longrightarrow> set (frp_ps s') \<subseteq> ai_ID ` set (frp_in_flight s')" by blast+
  with assms(1) have old: "\<forall>q\<in>L. left_or_known s q"
    "\<forall>p\<in>P. p \<in> set (frp_asked s) \<or> (\<forall>q\<in>told env {p}. left_or_known s q)"
    "set (frp_ps s) \<subseteq> ai_ID ` set (frp_in_flight s)" unfolding frp_all_def by blast+
  have "p \<in> set (frp_asked s') \<or> (\<forall>q\<in>told env {p}. left_or_known s' q)" if "p \<in> P" for p
    using old(2) that mv(2) frp_step_asked [OF assms(2)] by blast
  with old(1,3) mv(2,3) show ?thesis unfolding frp_all_def by blast
qed (simp add: frp_all_def)

lemma frp_all_run: "frp_run env acts s = Some s' \<Longrightarrow> fe_count env = 0 \<Longrightarrow> frp_all L P env s \<Longrightarrow> frp_all L P env s'"
  by (induction acts arbitrary: s) (auto dest: frp_all_step split: Option.bind_splits)

lemma frp_all_end:
  assumes "frp_all L P env s" and "list_all is_end (frp_workers s)" and "frp_asked s = []"
    and "FpEnd CtxEnded \<notin> set (frp_workers s)"
  shows "ai_ID ` (L \<union> told env P) \<subseteq> ai_ID ` set (frp_out s)"
proof -
  have e: "rest_of w = [] \<and> pending w = []" if "w \<in> set (frp_workers s)" for w
    using assms(2) that by (cases w) (auto simp: list_all_iff)
  then have "concat (map pending (frp_workers s)) = []" by simp
  then have "set (frp_ps s) \<subseteq> ai_ID ` set (frp_out s)" using assms(1,4) by (simp add: frp_all_def)
  moreover have "left_or_known s q \<longleftrightarrow> ai_ID q \<in> set (frp_ps s)" for q using e by (auto simp: left_or_known_def)
  moreover have "told env P = (\<Union>p\<in>P. told env {p})" by (auto simp: told_def)
  ultimately show ?thesis using assms(1,3,4) by (auto simp: frp_all_def)
qed

text \<open>Alone and without a bound the worker of the local providers ends by running out, or with the context.\<close>

lemma frp_local_step:
  assumes "frp_step env act s = Some s'" and "fe_count env = 0" and "frp_asked s = []"
    and "frp_workers s = [w]" and "w \<noteq> FpEnd Enough"
  shows "frp_asked s' = [] \<and> (\<exists>w'. frp_workers s' = [w'] \<and> w' \<noteq> FpEnd Enough)"
proof (cases act)
  case (FrStep i)
  with assms show ?thesis
    by (cases "(env, i > 0, frp_ps s, w)" rule: frp_worker_step.cases)
      (auto simp: frp_step_def Let_def split: if_splits prod.splits)
next
  case (FrEndCtx i)
  with assms show ?thesis by (auto simp: frp_step_def split: if_splits fp_worker.splits)
qed (use assms in \<open>simp add: frp_step_def\<close>)

lemma frp_local_run:
  "frp_run env acts s = Some s' \<Longrightarrow> fe_count env = 0 \<Longrightarrow> frp_asked s = [] \<Longrightarrow> frp_workers s = [w] \<Longrightarrow>
   w \<noteq> FpEnd Enough \<Longrightarrow> \<exists>w'. frp_workers s' = [w'] \<and> w' \<noteq> FpEnd Enough"
proof (induction acts arbitrary: s w)
  case (Cons a as)
  then obtain t where t: "frp_step env a s = Some t" "frp_run env as t = Some s'"
    by (auto split: Option.bind_splits)
  from frp_local_step [OF t(1) Cons.prems(2-5)] Cons.IH [OF t(2) Cons.prems(2)] show ?case by blast
qed auto

lemma frp_local_end:
  assumes "frp_run env acts (frp_init [Offering provs]) = Some s" and "list_all is_end (frp_workers s)"
    and "fe_count env = 0" and "frp_workers s \<noteq> [FpEnd Exhausted]"
  shows "FpEnd CtxEnded \<in> set (frp_workers s)"
proof -
  from frp_local_run [OF assms(1,3)] obtain w where "frp_workers s = [w]" "w \<noteq> FpEnd Enough"
    by (auto simp: frp_init_def)
  with assms(2,4) show ?thesis by (cases w) (auto intro: fp_exit.exhaust)
qed

text \<open>The routine in the terms of these invariants.\<close>

lemma fr_routine_spec:
  assumes "fr_findProvidersAsyncRoutine env (Inr provs) (Some peers) acts1 acts2 = Some s"
  shows "frp_inv (fe_count env) s \<and> frp_from (set provs \<union> told env (set peers)) env s \<and>
    (fe_count env = 0 \<and> FpEnd CtxEnded \<notin> set (frp_workers s) \<longrightarrow>
       ai_ID ` (set provs \<union> told env (set peers)) \<subseteq> ai_ID ` set (frp_out s))"
proof -
  let ?A = "set provs \<union> told env (set peers)" and ?s0 = "frp_init [Offering provs]"
  obtain s1 where s1: "frp_run env acts1 ?s0 = Some s1" "list_all is_end (frp_workers s1)"
    and s: "frp_workers s1 \<noteq> [FpEnd Exhausted] \<and> s = s1 \<or>
      frp_run env acts2 (s1\<lparr>frp_asked := peers\<rparr>) = Some s \<and> frp_asked s = [] \<and> list_all is_end (frp_workers s) \<and>
      frp_workers s1 = [FpEnd Exhausted]"
    using assms by (auto simp: fr_findProvidersAsyncRoutine_def split: Option.bind_splits if_splits)
  have i0: "frp_inv (fe_count env) ?s0" "frp_from ?A env ?s0" "frp_all (set provs) {} env ?s0"
    by (simp_all add: frp_inv_def frp_from_def frp_all_def frp_init_def told_def left_or_known_def)
  have i1: "frp_inv (fe_count env) s1" "frp_from ?A env s1" "fe_count env = 0 \<longrightarrow> frp_all (set provs) {} env s1"
    using frp_inv_run [OF s1(1) i0(1)] frp_from_run [OF s1(1) i0(2)] frp_all_run [OF s1(1) _ i0(3)] by blast+
  show ?thesis
    using s
  proof
    assume e: "frp_workers s1 \<noteq> [FpEnd Exhausted] \<and> s = s1"
    have "FpEnd CtxEnded \<in> set (frp_workers s1)" if "fe_count env = 0"
      using frp_local_end [OF s1 that] e by blast
    with i1 e show ?thesis by blast
  next
    assume e: "frp_run env acts2 (s1\<lparr>frp_asked := peers\<rparr>) = Some s \<and> frp_asked s = [] \<and> list_all is_end (frp_workers s) \<and>
      frp_workers s1 = [FpEnd Exhausted]"
    let ?s2 = "s1\<lparr>frp_asked := peers\<rparr>"
    have lk: "left_or_known ?s2 q = left_or_known s1 q" for q by (simp add: left_or_known_def)
    have i2: "frp_inv (fe_count env) ?s2" "frp_from ?A env ?s2" using i1(1,2) by (auto simp: frp_inv_def frp_from_def)
    have a2: "frp_all (set provs) (set peers) env ?s2" if "fe_count env = 0"
      using i1(3) that lk by (simp add: frp_all_def)
    have "frp_inv (fe_count env) s" "frp_from ?A env s"
      using frp_inv_run [OF _ i2(1)] frp_from_run [OF _ i2(2)] e by blast+
    moreover have "ai_ID ` ?A \<subseteq> ai_ID ` set (frp_out s)" if "fe_count env = 0" "FpEnd CtxEnded \<notin> set (frp_workers s)"
      using frp_all_end [OF frp_all_run [OF _ that(1) a2 [OF that(1)]]] e that(2) by blast
    ultimately show ?thesis by blast
  qed
qed

section \<open>Lemmas: searching a peer\<close>

lemma collect_addrs_spec:
  "set (collect_addrs xs as) = set xs \<union> set as \<and> (distinct xs \<longrightarrow> distinct (collect_addrs xs as))"
  by (induction xs as rule: collect_addrs.induct) auto

text \<open>The addresses that are dialed are those the peers that answered in time told, each once.\<close>

lemma collect_infos_spec:
  "set (collect_infos env pid evs xs) =
     set xs \<union> {a. \<exists>p ai. Answered p True \<in> set evs \<and> snd (fr_peerQuery env pid p) = Some ai \<and> a \<in> set (ai_Addrs ai)} \<and>
   (distinct xs \<longrightarrow> distinct (collect_infos env pid evs xs))"
proof (induction env pid evs xs rule: collect_infos.induct)
  case (3 env pid p delivered evs xs)
  then show ?case
    by (cases "snd (fr_peerQuery env pid p)"; cases delivered) (auto simp: collect_addrs_spec)
qed auto

lemma distinct_submset: "mset xs \<subseteq># mset ys \<Longrightarrow> distinct ys \<Longrightarrow> distinct xs"
proof -
  assume "mset xs \<subseteq># mset ys" and d: "distinct ys"
  then obtain M where "mset ys = mset xs + M" by (auto simp: mset_subset_eq_exists_conv)
  moreover obtain zs where "mset zs = M" using ex_mset by blast
  ultimately have "mset ys = mset (xs @ zs)" by simp
  with d have "distinct (xs @ zs)" using mset_eq_imp_distinct_iff by blast
  then show ?thesis by simp
qed

section \<open>Properties\<close>



text \<open>C28: The full client's search for providers: no provider is sent twice and no more than wanted, all of them are
  local or told by a closest peer; and with no bound on their number a search that is not cut short
  sends every one of these.\<close>

theorem fullrt_find_providers:
  assumes "fn_enableProviders n" and "fr_GetClosestPeers ce (fn_tables n) key = Some peers"
    and "fr_FindProvidersAsync env ce ttl (Some key) cnt (Inr provs) acts1 acts2 n = Some s"
    and "told_by_peers = {q. \<exists>p\<in>set peers. \<exists>ps closest.
      pm_GetProviders (he_validAddr (re_h env)) (re_send env) p key = Inr (ps, closest) \<and> q \<in> set ps}"
  shows "distinct (map ai_ID (frp_out s)) \<and> (cnt \<noteq> 0 \<longrightarrow> int (length (frp_out s)) \<le> max 0 cnt) \<and>
    set (frp_out s) \<subseteq> set provs \<union> told_by_peers \<and>
    (cnt = 0 \<and> FpEnd CtxEnded \<notin> set (frp_workers s) \<longrightarrow> ai_ID ` set (frp_out s) = ai_ID ` (set provs \<union> told_by_peers))"
proof -
  let ?env = "frp_env_of env ttl key cnt n"
  have "fe_answer ?env p = Some r \<longleftrightarrow> pm_GetProviders (he_validAddr (re_h env)) (re_send env) p key = Inr r" for p r
    by (auto simp: frp_env_of_def split: sum.splits)
  then have told: "told ?env (set peers) = told_by_peers" by (simp add: assms(4) told_def)
  have c: "fe_count ?env = cnt" by (simp add: frp_env_of_def)
  have "fr_findProvidersAsyncRoutine ?env (Inr provs) (Some peers) acts1 acts2 = Some s"
    using assms(1-3) by (simp add: fr_FindProvidersAsync_def)
  from fr_routine_spec [OF this, unfolded told c]
  have i: "frp_inv cnt s" "frp_from (set provs \<union> told_by_peers) ?env s"
    "cnt = 0 \<and> FpEnd CtxEnded \<notin> set (frp_workers s) \<longrightarrow> ai_ID ` (set provs \<union> told_by_peers) \<subseteq> ai_ID ` set (frp_out s)"
    by blast+
  have ps: "distinct (frp_ps s)" "cnt \<noteq> 0 \<longrightarrow> int (length (frp_ps s)) \<le> max 0 cnt"
    "mset (map ai_ID (frp_in_flight s)) \<subseteq># mset (frp_ps s)" using i(1) unfolding frp_inv_def by blast+
  have out: "mset (map ai_ID (frp_out s)) \<subseteq># mset (frp_ps s)"
    using ps(3) by (metis map_append mset_append mset_subset_eq_add_left subset_mset.order_trans)
  have "distinct (map ai_ID (frp_out s))" by (rule distinct_submset [OF out ps(1)])
  moreover have "int (length (frp_out s)) \<le> max 0 cnt" if "cnt \<noteq> 0"
    using size_mset_mono [OF out] ps(2) that by simp
  moreover have "set (frp_out s) \<subseteq> set provs \<union> told_by_peers" using i(2) unfolding frp_from_def by blast
  ultimately show ?thesis using i(3) by blast
qed

section \<open>Witnesses\<close>

text \<open>A client whose crawl found three peers, in the network of theory \<open>Routing\<close>.\<close>

definition demo_frnode :: "(string, bytes) gomap fullrt_node" where
  "demo_frnode = \<lparr>fn_tables = runCrawl demo_closest demo_reports 5 (demo_fullrt 0), fn_self = ''self'',
     fn_enableValues = True, fn_enableProviders = True, fn_datastore = []\<rparr>"

lemma demo_frnode_closest: "fr_GetClosestPeers demo_closest (fn_tables demo_frnode) ''k'' = Some [''s'', ''q'', ''p'']"
  by code_simp




theorem fullrt_find_providers_witness:
  "map_option (\<lambda>s. map ai_ID (frp_out s)) (fr_FindProvidersAsync demo_re demo_closest 1 (Some ''k'') 0
      (Inr [\<lparr>ai_ID = ''a'', ai_Addrs = []\<rparr>]) (replicate 4 (FrStep 0))
      [FrReply ''s'', FrReply ''p'', FrStep 1, FrReply ''q'', FrStep 3, FrStep 2] demo_frnode) = Some [''a'']"
proof -
  let ?provs = "[\<lparr>ai_ID = ''a'', ai_Addrs = []\<rparr>]"
  let ?find = "fr_FindProvidersAsync demo_re demo_closest 1 (Some ''k'') 0 (Inr ?provs) (replicate 4 (FrStep 0))
      [FrReply ''s'', FrReply ''p'', FrStep 1, FrReply ''q'', FrStep 3, FrStep 2] demo_frnode"
  have "map_option (\<lambda>s. (length (frp_out s), FpEnd CtxEnded \<in> set (frp_workers s))) ?find = Some (1, False)" by code_simp
  then obtain s where s: "?find = Some s" "length (frp_out s) = 1" "FpEnd CtxEnded \<notin> set (frp_workers s)" by auto
  have e: "fn_enableProviders demo_frnode" by (simp add: demo_frnode_def)
  have none: "{q. \<exists>p\<in>set [''s'', ''q'', ''p'']. \<exists>ps closest.
      pm_GetProviders (he_validAddr (re_h demo_re)) (re_send demo_re) p ''k'' = Inr (ps, closest) \<and> q \<in> set ps} = {}"
    by (simp add: pm_GetProviders_def demo_re_def PBPeersToPeerInfos_def)
  from fullrt_find_providers [OF e demo_frnode_closest s(1) refl, unfolded none] s(3)
  have "ai_ID ` set (frp_out s) = {''a''}" by simp
  moreover obtain x where "frp_out s = [x]" using s(2) by (auto simp: length_Suc_conv)
  ultimately show ?thesis using s(1) by simp
qed

end
