(* ===== verification/FullRT_Bulk.thy ===== *)
theory FullRT_Bulk
  imports FullRT_Routing
begin

text \<open>
  The bulk operations of the full client (\<^verbatim>\<open>fullrt/dht.go\<close>): many keys are announced or stored at their
  closest peers. The keys are sorted and cut into groups; for each group every peer gets one message
  of work with the keys it is close to, and a fixed number of workers takes the messages, dials the
  peers and sends key by key. Workers share one report per key, under its lock.

  Sorting the keys is third-party: a parameter. Fractions are rational numbers whose products are not
  rounded. Which worker acts next, which message of a group comes first (Go's order of a map), whether a peer is
  reached and an operation answers in time, and the time, come with each event. When the context has ended
  the sender stops at its next \<^verbatim>\<open>select\<close> or group, an event of its own: messages may still be taken before it.
  The channel's buffer of one message only delays when a message is taken and is left out, and so are the
  connection manager's tags, the counts in the log and their histograms. The tables do not change during
  the operation.
\<close>

section \<open>Groups of keys\<close>

text \<open>The loop's state is the groups so far, the next group and its length.\<close>

definition chunk_step :: "int \<Rightarrow> 'k \<Rightarrow> 'k list list \<times> 'k list \<times> int \<Rightarrow> 'k list list \<times> 'k list \<times> int" where
  "chunk_step chunkSize k st =
     (let (keyChunks, nextChunk, chunkProgress) = st;
          nextChunk = nextChunk @ [k]; chunkProgress = chunkProgress + 1
      in if chunkProgress = chunkSize then (keyChunks @ [nextChunk], [], 0)
         else (keyChunks, nextChunk, chunkProgress))"

definition divideByChunkSize :: "'k list \<Rightarrow> int \<Rightarrow> 'k list list option" where
  "divideByChunkSize keys chunkSize =
     (if length keys = 0 then Some []
      else if chunkSize < 1 then None
      else (let (keyChunks, nextChunk, chunkProgress) = fold (chunk_step chunkSize) keys ([], [], 0)
            in Some (if chunkProgress \<noteq> 0 then keyChunks @ [nextChunk] else keyChunks)))"

section \<open>The plan\<close>

type_synonym bulk_work = "peer_id \<times> bytes list"

definition keys_per_peer :: "(bytes \<Rightarrow> peer_id list) \<Rightarrow> bytes list \<Rightarrow> (peer_id, bytes list) gomap" where
  "keys_per_peer closest g =
     fold (\<lambda>k m. fold (\<lambda>p m. gm_put p (gm_get [] m p @ [k]) m) (closest k) m) g []"

text \<open>The size of the groups: \<open>None\<close> is the division by zero when no peer is known.\<close>

definition bulk_chunkSize :: "nat \<Rightarrow> int \<Rightarrow> nat \<Rightarrow> int option" where
  "bulk_chunkSize numKeys bucketSize numPeers =
     (if numPeers = 0 then None
      else (let chunkSize = (int numKeys * bucketSize * 2) sdiv int numPeers
            in Some (if chunkSize = 0 then 1 else chunkSize)))"

section \<open>Workers\<close>

record bulk_report =
  br_successes :: nat
  br_failures :: nat
  br_lastSuccess :: instant

datatype bulk_worker = BwIdle | BwNext peer_id "bytes list" | BwSending peer_id bytes "bytes list"

text \<open>Beside the state of the code: what was sent with its outcome, and the messages whose peer was not reached.\<close>

record bulk_state =
  bk_reports :: "(bytes, bulk_report) gomap"
  bk_pending :: "bulk_work list list"
  bk_ctxDone :: bool
  bk_workers :: "bulk_worker list"
  bk_skipped :: "bulk_work list"
  bk_sent :: "(peer_id \<times> bytes \<times> bool) list"

datatype bulk_event =
    BkTake nat nat bool
  | BkCheck nat instant
  | BkSent nat bool instant
  | BkFinish nat
  | BkCtxDone
  | BkLeave

definition no_report :: bulk_report where
  "no_report = \<lparr>br_successes = 0, br_failures = 0, br_lastSuccess = zero_time\<rparr>"

abbreviation report_of :: "bulk_state \<Rightarrow> bytes \<Rightarrow> bulk_report" where
  "report_of s k \<equiv> gm_get no_report (bk_reports s) k"

definition half_second :: duration where
  "half_second = 500000000"

text \<open>A key is left out when enough peers took it and the last of them did so half a second ago.\<close>

definition key_done :: "int \<Rightarrow> instant \<Rightarrow> bulk_report \<Rightarrow> bool" where
  "key_done wanted now r \<longleftrightarrow> int (br_successes r) \<ge> wanted \<and> word_sless half_second (time_Sub now (br_lastSuccess r))"

definition report_result :: "int \<Rightarrow> bool \<Rightarrow> instant \<Rightarrow> bulk_report \<Rightarrow> bulk_report" where
  "report_result wanted ok now r =
     (if ok
      then (let r = r\<lparr>br_successes := br_successes r + 1\<rparr>
            in if int (br_successes r) \<ge> wanted then r\<lparr>br_lastSuccess := now\<rparr> else r)
      else r\<lparr>br_failures := br_failures r + 1\<rparr>)"

definition set_worker :: "nat \<Rightarrow> bulk_worker \<Rightarrow> bulk_state \<Rightarrow> bulk_state" where
  "set_worker w st s = s\<lparr>bk_workers := (bk_workers s)[w := st]\<rparr>"

definition bulk_step :: "int \<Rightarrow> (peer_id \<Rightarrow> bytes \<Rightarrow> bool) \<Rightarrow> bulk_event \<Rightarrow> bulk_state \<Rightarrow> bulk_state option" where
  "bulk_step wanted fn ev s =
     (case ev of
        BkTake w i dialed \<Rightarrow>
          (case bk_pending s of
             [] \<Rightarrow> None
           | g # gs \<Rightarrow>
               (if w < length (bk_workers s) \<and> bk_workers s ! w = BwIdle \<and> i < length g
                then (let (p, workKeys) = g ! i; rest = take i g @ drop (Suc i) g;
                          s = s\<lparr>bk_pending := (if rest = [] then gs else rest # gs)\<rparr>
                      in if \<not> dialed then Some (s\<lparr>bk_skipped := bk_skipped s @ [(p, workKeys)]\<rparr>)
                         else Some (set_worker w (BwNext p workKeys) s))
                else None))
      | BkCheck w now \<Rightarrow>
          (if w < length (bk_workers s)
           then (case bk_workers s ! w of
                   BwNext p (k # ks) \<Rightarrow>
                     Some (set_worker w (if key_done wanted now (report_of s k) then BwNext p ks else BwSending p k ks) s)
                 | _ \<Rightarrow> None)
           else None)
      | BkSent w delivered now \<Rightarrow>
          (if w < length (bk_workers s)
           then (case bk_workers s ! w of
                   BwSending p k ks \<Rightarrow>
                     (let ok = delivered \<and> fn p k;
                          s = s\<lparr>bk_reports := gm_put k (report_result wanted ok now (report_of s k)) (bk_reports s),
                                bk_sent := bk_sent s @ [(p, k, ok)]\<rparr>
                      in Some (set_worker w (BwNext p (if \<not> ok \<and> bk_ctxDone s then [] else ks)) s))
                 | _ \<Rightarrow> None)
           else None)
      | BkFinish w \<Rightarrow>
          (if w < length (bk_workers s)
           then (case bk_workers s ! w of BwNext p [] \<Rightarrow> Some (set_worker w BwIdle s) | _ \<Rightarrow> None)
           else None)
      | BkCtxDone \<Rightarrow> if bk_ctxDone s then None else Some (s\<lparr>bk_ctxDone := True\<rparr>)
      | BkLeave \<Rightarrow> if bk_ctxDone s \<and> bk_pending s \<noteq> [] then Some (s\<lparr>bk_pending := []\<rparr>) else None)"

fun bulk_run :: "int \<Rightarrow> (peer_id \<Rightarrow> bytes \<Rightarrow> bool) \<Rightarrow> bulk_event list \<Rightarrow> bulk_state \<Rightarrow> bulk_state option" where
  "bulk_run wanted fn [] s = Some s"
| "bulk_run wanted fn (ev # evs) s = Option.bind (bulk_step wanted fn ev s) (bulk_run wanted fn evs)"

definition bulk_finished :: "bulk_state \<Rightarrow> bool" where
  "bulk_finished s \<longleftrightarrow> bk_pending s = [] \<and> list_all (\<lambda>w. w = BwIdle) (bk_workers s)"

section \<open>The whole operation\<close>

definition bulk_wanted :: "fullrt \<Rightarrow> int" where
  "bulk_wanted d = \<lfloor>of_int (fr_bucketSize d) * fr_waitFrac d * (12 / 10)\<rfloor>"

text \<open>
  The state when the last group has been planned and no message taken; \<open>None\<close> is a panic or a search of the
  closest peers that does not return.
\<close>

definition bulk_start :: "'ip closest_env \<Rightarrow> (bytes list \<Rightarrow> bytes list) \<Rightarrow> fullrt \<Rightarrow> bytes list \<Rightarrow> bulk_state option" where
  "bulk_start ce sortKeys d keys =
     (let sortedKeys = sortKeys (remdups keys)
      in Option.bind (bulk_chunkSize (length sortedKeys) (fr_bucketSize d) (length (fr_keyToPeerMap d))) (\<lambda>chunkSize.
         Option.bind (divideByChunkSize sortedKeys chunkSize) (\<lambda>keyGroups.
           if fr_bulkSendParallelism d \<ge> 0 \<and> list_all (\<lambda>k. fr_GetClosestPeers ce d k \<noteq> None) sortedKeys
           then Some \<lparr>bk_reports = map (\<lambda>k. (k, no_report)) (remdups keys),
                  bk_pending = filter (\<lambda>g. g \<noteq> [])
                    (map (keys_per_peer (\<lambda>k. the (fr_GetClosestPeers ce d k))) keyGroups),
                  bk_ctxDone = False,
                  bk_workers = replicate (nat (fr_bulkSendParallelism d)) BwIdle, bk_skipped = [], bk_sent = []\<rparr>
           else None)))"

text \<open>The error of a finished operation, if any; \<open>None\<close> while it is not finished.\<close>

definition bulk_result :: "bulk_state \<Rightarrow> fullrt_error option" where
  "bulk_result s = (if length (filter (\<lambda>(k, v). br_successes v > 0) (bk_reports s)) = 0 then Some BulkIncomplete else None)"

definition bulkMessageSend :: "'ip closest_env \<Rightarrow> (bytes list \<Rightarrow> bytes list) \<Rightarrow> fullrt \<Rightarrow> bytes list \<Rightarrow>
    (peer_id \<Rightarrow> bytes \<Rightarrow> bool) \<Rightarrow> bulk_event list \<Rightarrow> fullrt_error option option" where
  "bulkMessageSend ce sortKeys d keys fn evs =
     (if length keys = 0 then Some None
      else
        Option.bind (bulk_start ce sortKeys d keys) (\<lambda>s.
        Option.bind (bulk_run (bulk_wanted d) fn evs s) (\<lambda>s.
          if bulk_finished s then Some (bulk_result s) else None)))"

definition ProvideMany :: "'d routing_env \<Rightarrow> 'ip closest_env \<Rightarrow> (bytes list \<Rightarrow> bytes list) \<Rightarrow> bytes list \<Rightarrow>
    bulk_event list \<Rightarrow> 'd fullrt_node \<Rightarrow> fullrt_error option option" where
  "ProvideMany env ce sortKeys keys evs n =
     (if \<not> fn_enableProviders n then Some (Some (FrRouting ErrNotSupported))
      else
        let self = \<lparr>ai_ID = fn_self n, ai_Addrs = re_hostAddrs env\<rparr>; pbPeers = RawPeerInfosToPBPeers [self]
        in if length (ai_Addrs self) < 1 then Some (Some NoSelfAddrs)
           else bulkMessageSend ce sortKeys (fn_tables n) keys
                  (\<lambda>p k. re_sendMsg env p ((NewMessage ADD_PROVIDER k 0)\<lparr>m_ProviderPeers := pbPeers\<rparr>) = None) evs)"

definition PutMany :: "'d routing_env \<Rightarrow> 'ip closest_env \<Rightarrow> (bytes list \<Rightarrow> bytes list) \<Rightarrow> string list \<Rightarrow> bytes list \<Rightarrow>
    bulk_event list \<Rightarrow> 'd fullrt_node \<Rightarrow> fullrt_error option option" where
  "PutMany env ce sortKeys keys vals evs n =
     (if \<not> fn_enableValues n then Some (Some (FrRouting ErrNotSupported))
      else if length keys \<noteq> length vals then Some (Some LengthMismatch)
      else
        let keyRecMap = fold (\<lambda>(k, v) m. gm_put k v m) (zip keys vals) []
        in if length keys \<noteq> length keyRecMap then Some (Some DuplicateKeys)
           else bulkMessageSend ce sortKeys (fn_tables n) keys
                  (\<lambda>p k. pm_PutValue (re_send env) p (re_MakePutRecord env k (gm_get [] keyRecMap k)) = Some None) evs)"

section \<open>Groups of keys\<close>

lemma fold_chunk_step:
  assumes "fold (chunk_step n) keys (cs, nx, int (length nx)) = (cs', nx', pr')" and "int (length nx) < n"
    and "\<forall>c\<in>set cs. int (length c) = n"
  shows "concat cs' @ nx' = concat cs @ nx @ keys \<and> pr' = int (length nx') \<and> pr' < n \<and> (\<forall>c\<in>set cs'. int (length c) = n)"
  using assms
proof (induction keys arbitrary: cs nx)
  case (Cons k keys)
  show ?case
  proof (cases "int (length nx) + 1 = n")
    case True
    have "fold (chunk_step n) keys (cs @ [nx @ [k]], [], int (length ([] :: 'a list))) = (cs', nx', pr')"
      using Cons.prems(1) True by (simp add: chunk_step_def [of n k "(cs, nx, int (length nx))"])
    from Cons.IH [OF this] Cons.prems(2,3) True show ?thesis by auto
  next
    case False
    have "fold (chunk_step n) keys (cs, nx @ [k], int (length (nx @ [k]))) = (cs', nx', pr')"
      using Cons.prems(1) False by (simp add: chunk_step_def [of n k "(cs, nx, int (length nx))"] add.commute)
    from Cons.IH [OF this] Cons.prems(2,3) False show ?thesis by auto
  qed
qed simp

text \<open>Cutting loses no key and keeps their order; all groups but a smaller last one have the wanted size.\<close>

lemma divideByChunkSize_spec:
  assumes "divideByChunkSize keys n = Some chunks"
  shows "concat chunks = keys \<and> [] \<notin> set chunks \<and>
    (\<exists>cs r. chunks = cs @ r \<and> length r \<le> 1 \<and> (\<forall>c\<in>set cs. int (length c) = n) \<and> (\<forall>c\<in>set r. int (length c) < n))"
proof (cases "keys = []")
  case True
  with assms have "chunks = []" by (simp add: divideByChunkSize_def)
  with True show ?thesis by simp
next
  case False
  obtain cs nx pr where f: "fold (chunk_step n) keys ([], [], 0) = (cs, nx, pr)"
    by (cases "fold (chunk_step n) keys ([], [], 0)")
  have n: "1 \<le> n" and ch: "chunks = (if pr \<noteq> 0 then cs @ [nx] else cs)"
    using assms False f by (auto simp: divideByChunkSize_def Let_def split: if_splits)
  have q: "concat cs @ nx = keys \<and> pr = int (length nx) \<and> pr < n \<and> (\<forall>c\<in>set cs. int (length c) = n)"
    using fold_chunk_step [of n keys "[]" "[]" cs nx pr] f n by simp
  have chunks: "chunks = cs @ (if nx = [] then [] else [nx])" using q ch by simp
  have "concat chunks = keys \<and> [] \<notin> set chunks" using q n by (auto simp: chunks)
  then show ?thesis
    using q chunks by (intro conjI exI [of _ cs] exI [of _ "if nx = [] then [] else [nx]"]) auto
qed

section \<open>The plan\<close>

definition work_pairs :: "bulk_work \<Rightarrow> (peer_id \<times> bytes) list" where
  "work_pairs wm = map (Pair (fst wm)) (snd wm)"

fun worker_pairs :: "bulk_worker \<Rightarrow> (peer_id \<times> bytes) list" where
  "worker_pairs BwIdle = []"
| "worker_pairs (BwNext p ks) = map (Pair p) ks"
| "worker_pairs (BwSending p k ks) = (p, k) # map (Pair p) ks"

abbreviation closest_pairs :: "(bytes \<Rightarrow> peer_id list) \<Rightarrow> bytes list \<Rightarrow> (peer_id \<times> bytes) list" where
  "closest_pairs closest ks \<equiv> concat (map (\<lambda>k. map (\<lambda>p. (p, k)) (closest k)) ks)"

lemma mset_concat_map_cong:
  assumes "mset xs = mset ys"
  shows "mset (concat (map f xs)) = mset (concat (map f ys))"
proof -
  have "mset (concat (map f zs)) = sum_mset (image_mset (\<lambda>z. mset (f z)) (mset zs))" for zs
    by (induction zs) simp_all
  with assms show ?thesis by simp
qed

lemma mset_concat_update:
  "i < length ws \<Longrightarrow> mset (concat (map f (ws[i := w]))) + mset (f (ws ! i)) = mset (concat (map f ws)) + mset (f w)"
proof (induction ws arbitrary: i)
  case (Cons v ws)
  then show ?case by (cases i) (simp_all add: add.assoc)
qed simp

lemma mset_concat_take_out:
  assumes "i < length g"
  shows "mset (concat (map f g)) = mset (f (g ! i)) + mset (concat (map f (take i g @ drop (Suc i) g)))"
  by (subst (1) id_take_nth_drop [OF assms]) simp

lemma pairs_put:
  "mset (concat (map work_pairs (gm_put p (gm_get [] m p @ [k]) m))) = mset (concat (map work_pairs m)) + {#(p, k)#}"
  by (induction m) (auto simp: work_pairs_def gm_get_def split: option.splits)

lemma pairs_put_all:
  "mset (concat (map work_pairs (fold (\<lambda>p m. gm_put p (gm_get [] m p @ [k]) m) ps m))) =
     mset (concat (map work_pairs m)) + mset (map (\<lambda>p. (p, k)) ps)"
  by (induction ps arbitrary: m) (simp_all add: pairs_put)

text \<open>Grouping the keys of a group by peer keeps every pair of a key and one of its closest peers.\<close>

lemma keys_per_peer_pairs:
  "mset (concat (map work_pairs (keys_per_peer closest g))) = mset (closest_pairs closest g)"
proof -
  have "mset (concat (map work_pairs (fold (\<lambda>k m. fold (\<lambda>p m. gm_put p (gm_get [] m p @ [k]) m) (closest k) m) g m))) =
      mset (concat (map work_pairs m)) + mset (closest_pairs closest g)" for m
    by (induction g arbitrary: m) (simp_all add: pairs_put_all)
  from this [of "[]"] show ?thesis by (simp add: keys_per_peer_def)
qed

definition bulk_todo :: "bulk_state \<Rightarrow> (peer_id \<times> bytes) multiset" where
  "bulk_todo s = mset (concat (map work_pairs (concat (bk_pending s)))) + mset (concat (map worker_pairs (bk_workers s)))"

definition sent_pairs :: "bulk_state \<Rightarrow> (peer_id \<times> bytes) list" where
  "sent_pairs s = map (\<lambda>(p, k, ok). (p, k)) (bk_sent s)"

definition bulk_total :: "bulk_state \<Rightarrow> (peer_id \<times> bytes) multiset" where
  "bulk_total s = mset (sent_pairs s) + mset (concat (map work_pairs (bk_skipped s))) + bulk_todo s"

definition stored :: "bytes \<Rightarrow> bulk_state \<Rightarrow> nat" where
  "stored k s = length (filter (\<lambda>(p, k', ok). k' = k \<and> ok) (bk_sent s))"

lemmas bulk_total_defs = bulk_total_def bulk_todo_def sent_pairs_def work_pairs_def

lemma bulk_start_state:
  assumes "bulk_start ce sortKeys d keys = Some s" and "\<forall>xs. mset (sortKeys xs) = mset xs"
  shows "bulk_total s = mset (closest_pairs (\<lambda>k. the (fr_GetClosestPeers ce d k)) (remdups keys))"
    and "bk_sent s = []" "bk_skipped s = []" "\<not> bk_ctxDone s" "[] \<notin> set (bk_pending s)"
    and "bk_workers s = replicate (nat (fr_bulkSendParallelism d)) BwIdle"
    and "gm_wf (bk_reports s)" "\<forall>k. report_of s k = no_report" "fst ` set (bk_reports s) = set keys"
proof -
  let ?cl = "\<lambda>k. the (fr_GetClosestPeers ce d k)"
  let ?sorted = "sortKeys (remdups keys)"
  obtain n chunks where ch: "divideByChunkSize ?sorted n = Some chunks" and
    s: "s = \<lparr>bk_reports = map (\<lambda>k. (k, no_report)) (remdups keys),
      bk_pending = filter (\<lambda>g. g \<noteq> []) (map (keys_per_peer ?cl) chunks), bk_ctxDone = False,
      bk_workers = replicate (nat (fr_bulkSendParallelism d)) BwIdle, bk_skipped = [], bk_sent = []\<rparr>"
    using assms(1) by (auto simp: bulk_start_def Let_def bind_eq_Some_conv split: if_splits)
  have "mset (concat (map work_pairs (concat (filter (\<lambda>g. g \<noteq> []) (map (keys_per_peer ?cl) cs))))) =
      mset (closest_pairs ?cl (concat cs))" for cs
    by (induction cs) (simp_all add: keys_per_peer_pairs [symmetric])
  from this [of chunks] have "mset (concat (map work_pairs (concat (bk_pending s)))) = mset (closest_pairs ?cl ?sorted)"
    using divideByChunkSize_spec [OF ch] by (simp add: s)
  also have "\<dots> = mset (closest_pairs ?cl (remdups keys))"
    using assms(2) by (intro mset_concat_map_cong) simp
  finally show "bulk_total s = mset (closest_pairs ?cl (remdups keys))"
    by (simp add: bulk_total_def bulk_todo_def sent_pairs_def s map_replicate_const concat_replicate_trivial)
  show "bk_sent s = []" "bk_skipped s = []" "\<not> bk_ctxDone s" "[] \<notin> set (bk_pending s)"
    "bk_workers s = replicate (nat (fr_bulkSendParallelism d)) BwIdle"
    by (simp_all add: s)
  have "map_of (map (\<lambda>k. (k, no_report)) xs) k = (if k \<in> set xs then Some no_report else None)" for xs and k :: bytes
    by (induction xs) auto
  then show "\<forall>k. report_of s k = no_report" by (simp add: s gm_get_def)
  show "gm_wf (bk_reports s)" by (simp add: s gm_wf_def comp_def)
  show "fst ` set (bk_reports s) = set keys" by (force simp: s)
qed

section \<open>Steps\<close>

lemma bulk_step_elim:
  assumes "bulk_step wanted fn ev s = Some s'"
  obtains
    (Take) w i dialed g gs p ks where "ev = BkTake w i dialed" "bk_pending s = g # gs" "w < length (bk_workers s)"
      "bk_workers s ! w = BwIdle" "i < length g" "g ! i = (p, ks)"
      "s' = (let rest = take i g @ drop (Suc i) g; s = s\<lparr>bk_pending := (if rest = [] then gs else rest # gs)\<rparr>
             in if \<not> dialed then s\<lparr>bk_skipped := bk_skipped s @ [(p, ks)]\<rparr> else set_worker w (BwNext p ks) s)"
  | (Check) w now p k ks where "ev = BkCheck w now" "w < length (bk_workers s)" "bk_workers s ! w = BwNext p (k # ks)"
      "s' = set_worker w (if key_done wanted now (report_of s k) then BwNext p ks else BwSending p k ks) s"
  | (Sent) w delivered now p k ks ok where "ev = BkSent w delivered now" "w < length (bk_workers s)"
      "bk_workers s ! w = BwSending p k ks" "ok = (delivered \<and> fn p k)"
      "s' = set_worker w (BwNext p (if \<not> ok \<and> bk_ctxDone s then [] else ks))
         (s\<lparr>bk_reports := gm_put k (report_result wanted ok now (report_of s k)) (bk_reports s),
            bk_sent := bk_sent s @ [(p, k, ok)]\<rparr>)"
  | (Finish) w p where "ev = BkFinish w" "w < length (bk_workers s)" "bk_workers s ! w = BwNext p []" "s' = set_worker w BwIdle s"
  | (Done) "ev = BkCtxDone" "\<not> bk_ctxDone s" "s' = s\<lparr>bk_ctxDone := True\<rparr>"
  | (Leave) "ev = BkLeave" "bk_ctxDone s" "bk_pending s \<noteq> []" "s' = s\<lparr>bk_pending := []\<rparr>"
proof (cases ev)
  case (BkTake w i dialed)
  then show thesis
    using assms by (auto simp: bulk_step_def Let_def split: list.splits prod.splits if_splits intro!: Take [of w i dialed])
next
  case (BkCheck w now)
  then show thesis
    using assms by (auto simp: bulk_step_def split: list.splits if_splits bulk_worker.splits intro!: Check [of w now])
next
  case (BkSent w delivered now)
  with assms obtain p k ks where k: "w < length (bk_workers s)" "bk_workers s ! w = BwSending p k ks"
    by (auto simp: bulk_step_def split: if_splits bulk_worker.splits)
  show thesis
    by (rule Sent [OF BkSent k refl]) (use assms k BkSent in \<open>simp add: bulk_step_def Let_def split: if_splits\<close>)
next
  case (BkFinish w)
  then show thesis
    using assms by (auto simp: bulk_step_def split: list.splits if_splits bulk_worker.splits intro!: Finish [of w])
next
  case BkCtxDone
  then show thesis using assms by (auto simp: bulk_step_def split: if_splits intro!: Done)
next
  case BkLeave
  then show thesis using assms by (auto simp: bulk_step_def split: if_splits intro!: Leave)
qed

lemma set_worker_fields [simp]:
  "bk_pending (set_worker w st s) = bk_pending s" "bk_reports (set_worker w st s) = bk_reports s"
  "bk_ctxDone (set_worker w st s) = bk_ctxDone s" "bk_skipped (set_worker w st s) = bk_skipped s"
  "bk_sent (set_worker w st s) = bk_sent s" "bk_workers (set_worker w st s) = (bk_workers s)[w := st]"
  by (simp_all add: set_worker_def)

lemma bulk_total_worker:
  assumes "w < length (bk_workers s)"
  shows "bulk_total (set_worker w st s) + mset (worker_pairs (bk_workers s ! w)) = bulk_total s + mset (worker_pairs st)"
  using mset_concat_update [OF assms, of worker_pairs st]
  by (simp add: bulk_total_def bulk_todo_def sent_pairs_def ac_simps)

lemma bulk_total_pending:
  assumes "bk_pending s = g # gs" and "i < length g" and "rest = take i g @ drop (Suc i) g"
  shows "bulk_total s = bulk_total (s\<lparr>bk_pending := (if rest = [] then gs else rest # gs)\<rparr>) + mset (work_pairs (g ! i))"
proof -
  have "mset (concat (map work_pairs (concat (if rest = [] then gs else rest # gs)))) =
      mset (concat (map work_pairs rest)) + mset (concat (map work_pairs (concat gs)))"
    by simp
  then show ?thesis
    using mset_concat_take_out [OF assms(2), of work_pairs] assms(1,3)
    by (simp add: bulk_total_def bulk_todo_def sent_pairs_def ac_simps)
qed

text \<open>A step loses a pair only once the context has ended or when the pair's key is stored often enough.\<close>

lemma bulk_step_total:
  assumes "bulk_step wanted fn ev s = Some s'" and "\<forall>k. br_successes (report_of s k) = stored k s"
  shows "\<exists>lost. bulk_total s = bulk_total s' + lost \<and>
    (\<forall>p k. (p, k) \<in># lost \<longrightarrow> bk_ctxDone s' \<or> wanted \<le> int (stored k s'))"
  using assms(1)
proof (cases rule: bulk_step_elim)
  case (Take w i dialed g gs p ks)
  let ?rest = "take i g @ drop (Suc i) g"
  let ?s = "s\<lparr>bk_pending := (if ?rest = [] then gs else ?rest # gs)\<rparr>"
  have t: "bulk_total s = bulk_total ?s + mset (work_pairs (p, ks))"
    using bulk_total_pending [OF Take(2,5) refl] Take(6) by simp
  show ?thesis
  proof (cases dialed)
    case True
    then have "s' = set_worker w (BwNext p ks) ?s" using Take(7) by (simp add: Let_def)
    then have "bulk_total s' = bulk_total ?s + mset (work_pairs (p, ks))"
      using bulk_total_worker [of w ?s "BwNext p ks"] Take(3,4) by (simp add: work_pairs_def)
    with t show ?thesis by simp
  next
    case False
    then have "s' = ?s\<lparr>bk_skipped := bk_skipped ?s @ [(p, ks)]\<rparr>" using Take(7) by (simp add: Let_def)
    then have "bulk_total s' = bulk_total ?s + mset (work_pairs (p, ks))"
      by (simp add: bulk_total_def bulk_todo_def sent_pairs_def ac_simps)
    with t show ?thesis by simp
  qed
next
  case (Check w now p k ks)
  have t: "bulk_total s' + mset (worker_pairs (BwNext p (k # ks))) = bulk_total s +
      mset (worker_pairs (if key_done wanted now (report_of s k) then BwNext p ks else BwSending p k ks))"
    using bulk_total_worker [OF Check(2)] Check(3,4) by simp
  show ?thesis
  proof (cases "key_done wanted now (report_of s k)")
    case True
    then have "bulk_total s = bulk_total s' + {#(p, k)#}" using t by simp
    moreover have "wanted \<le> int (stored k s')"
      using True assms(2) Check(4) by (simp add: key_done_def stored_def)
    ultimately show ?thesis by auto
  next
    case False
    then show ?thesis using t by simp
  qed
next
  case (Sent w delivered now p k ks ok)
  let ?s = "s\<lparr>bk_reports := gm_put k (report_result wanted ok now (report_of s k)) (bk_reports s),
            bk_sent := bk_sent s @ [(p, k, ok)]\<rparr>"
  let ?ks = "if \<not> ok \<and> bk_ctxDone s then [] else ks"
  have "bulk_total ?s = bulk_total s + {#(p, k)#}"
    by (simp add: bulk_total_def bulk_todo_def sent_pairs_def ac_simps)
  then have t: "bulk_total s' + mset (map (Pair p) ks) = bulk_total s + mset (map (Pair p) ?ks)"
    using bulk_total_worker [of w ?s "BwNext p ?ks"] Sent(2,3,5) by simp
  show ?thesis
  proof (cases "\<not> ok \<and> bk_ctxDone s")
    case True
    then show ?thesis using t Sent(5) by (intro exI [of _ "mset (map (Pair p) ks)"]) simp
  next
    case False
    then show ?thesis using t by auto
  qed
next
  case (Finish w p)
  then show ?thesis using bulk_total_worker [OF Finish(2), of BwIdle] by simp
next
  case Done
  then show ?thesis by (simp add: bulk_total_def bulk_todo_def sent_pairs_def)
next
  case Leave
  then show ?thesis
    by (intro exI [of _ "mset (concat (map work_pairs (concat (bk_pending s))))"])
      (simp add: bulk_total_def bulk_todo_def sent_pairs_def ac_simps)
qed

text \<open>What holds at every moment: the reports count the successes, and no pair of the plan is lost.\<close>

definition bulk_inv :: "int \<Rightarrow> (peer_id \<Rightarrow> bytes \<Rightarrow> bool) \<Rightarrow> (peer_id \<times> bytes) multiset \<Rightarrow> bulk_state \<Rightarrow> bool" where
  "bulk_inv wanted fn plan s \<longleftrightarrow>
     gm_wf (bk_reports s) \<and> (\<forall>k. br_successes (report_of s k) = stored k s) \<and> [] \<notin> set (bk_pending s) \<and>
     (\<forall>p k. (p, k, True) \<in> set (bk_sent s) \<longrightarrow> fn p k) \<and> bulk_total s \<subseteq># plan \<and>
     (bk_ctxDone s \<or> (\<forall>p k. (p, k) \<in># plan \<longrightarrow> (p, k) \<in># bulk_total s \<or> wanted \<le> int (stored k s)))"

lemma bulk_step_stored:
  "bulk_step wanted fn ev s = Some s' \<Longrightarrow> stored k s \<le> stored k s' \<and> (bk_ctxDone s \<longrightarrow> bk_ctxDone s')"
  by (erule bulk_step_elim) (auto simp: stored_def Let_def)

lemma bulk_step_counts:
  assumes "bulk_step wanted fn ev s = Some s'" and "gm_wf (bk_reports s)" and "\<forall>k. br_successes (report_of s k) = stored k s"
    and "[] \<notin> set (bk_pending s)" and "\<forall>p k. (p, k, True) \<in> set (bk_sent s) \<longrightarrow> fn p k"
  shows "gm_wf (bk_reports s')" and "\<forall>k. br_successes (report_of s' k) = stored k s'"
    and "[] \<notin> set (bk_pending s')" and "\<forall>p k. (p, k, True) \<in> set (bk_sent s') \<longrightarrow> fn p k"
  using assms
  by (auto elim!: bulk_step_elim simp: stored_def Let_def gomap_simps report_result_def split: if_splits)

lemma bulk_step_inv:
  assumes "bulk_step wanted fn ev s = Some s'" and "bulk_inv wanted fn plan s"
  shows "bulk_inv wanted fn plan s'"
proof -
  have i: "gm_wf (bk_reports s)" "\<forall>k. br_successes (report_of s k) = stored k s" "[] \<notin> set (bk_pending s)"
    "\<forall>p k. (p, k, True) \<in> set (bk_sent s) \<longrightarrow> fn p k" "bulk_total s \<subseteq># plan"
    "bk_ctxDone s \<or> (\<forall>p k. (p, k) \<in># plan \<longrightarrow> (p, k) \<in># bulk_total s \<or> wanted \<le> int (stored k s))"
    using assms(2) by (simp_all add: bulk_inv_def)
  obtain lost where l: "bulk_total s = bulk_total s' + lost"
    "\<forall>p k. (p, k) \<in># lost \<longrightarrow> bk_ctxDone s' \<or> wanted \<le> int (stored k s')"
    using bulk_step_total [OF assms(1) i(2)] by blast
  have "bulk_total s' \<subseteq># plan" using i(5) l(1) by (metis mset_subset_eq_add_left subset_mset.order_trans)
  moreover have "(p, k) \<in># bulk_total s' \<or> wanted \<le> int (stored k s')" if "\<not> bk_ctxDone s'" "(p, k) \<in># plan" for p k
  proof -
    have "stored k s \<le> stored k s'" "\<not> bk_ctxDone s" using bulk_step_stored [OF assms(1)] that(1) by auto
    then show ?thesis using i(6) l that by fastforce
  qed
  ultimately show ?thesis unfolding bulk_inv_def using bulk_step_counts [OF assms(1) i(1-4)] by blast
qed

lemma bulk_run_inv:
  "bulk_run wanted fn evs s = Some s' \<Longrightarrow> bulk_inv wanted fn plan s \<Longrightarrow> bulk_inv wanted fn plan s'"
  by (induction evs arbitrary: s) (auto simp: bind_eq_Some_conv dest: bulk_step_inv)

lemma bulk_step_keys:
  "bulk_step wanted fn ev s = Some s' \<Longrightarrow> fst ` set (bk_reports s) \<subseteq> fst ` set (bk_reports s') \<and>
     length (bk_workers s') = length (bk_workers s)"
  by (erule bulk_step_elim) (auto simp: Let_def dom_update)

lemma bulk_run_workers: "bulk_run wanted fn evs s = Some s' \<Longrightarrow> length (bk_workers s') = length (bk_workers s)"
  by (induction evs arbitrary: s) (auto simp: bind_eq_Some_conv dest: bulk_step_keys)

lemma bulk_start_inv:
  assumes "bulk_start ce sortKeys d keys = Some s" and "\<forall>xs. mset (sortKeys xs) = mset xs"
  shows "bulk_inv wanted fn (mset (closest_pairs (\<lambda>k. the (fr_GetClosestPeers ce d k)) (remdups keys))) s"
  using bulk_start_state [OF assms] by (simp add: bulk_inv_def stored_def no_report_def)

lemma stored_pos: "0 < stored k s \<longleftrightarrow> (\<exists>p. (p, k, True) \<in> set (bk_sent s))"
proof
  assume "0 < stored k s"
  then obtain x where "x \<in> set (filter (\<lambda>(p, k', ok). k' = k \<and> ok) (bk_sent s))"
    unfolding stored_def length_greater_0_conv using last_in_set by blast
  then show "\<exists>p. (p, k, True) \<in> set (bk_sent s)" by auto
next
  assume "\<exists>p. (p, k, True) \<in> set (bk_sent s)"
  then obtain p where "(p, k, True) \<in> set (filter (\<lambda>(p, k', ok). k' = k \<and> ok) (bk_sent s))" by auto
  then show "0 < stored k s" unfolding stored_def by (rule length_pos_if_in_set)
qed

lemma bulk_result_stored:
  assumes "gm_wf (bk_reports s)" and "\<forall>k. br_successes (report_of s k) = stored k s"
  shows "bulk_result s = (if \<exists>p k. (p, k, True) \<in> set (bk_sent s) then None else Some BulkIncomplete)"
proof -
  have a: "br_successes v = stored k s" if "(k, v) \<in> set (bk_reports s)" for k v
    using that assms by (metis gm_get_def gm_wf_def map_of_eq_Some_iff option.simps(5))
  have b: "\<exists>v. (k, v) \<in> set (bk_reports s)" if "0 < stored k s" for k
    using that assms(2)[rule_format, of k]
    by (auto simp: gm_get_def no_report_def split: option.splits dest: map_of_SomeD)
  have "(\<exists>kv\<in>set (bk_reports s). 0 < br_successes (snd kv)) \<longleftrightarrow> (\<exists>k. 0 < stored k s)"
  proof (intro iffI; elim bexE exE)
    fix kv assume "kv \<in> set (bk_reports s)" "0 < br_successes (snd kv)"
    then show "\<exists>k. 0 < stored k s" using a [of "fst kv" "snd kv"] by (intro exI [of _ "fst kv"]) simp
  next
    fix k assume k: "0 < stored k s"
    from b [OF this] obtain v where "(k, v) \<in> set (bk_reports s)" by blast
    then show "\<exists>kv\<in>set (bk_reports s). 0 < br_successes (snd kv)" using a [of k v] k by (intro bexI [of _ "(k, v)"]) simp_all
  qed
  also have "\<dots> \<longleftrightarrow> (\<exists>p k. (p, k, True) \<in> set (bk_sent s))"
    unfolding stored_pos by (rule ex_comm)
  finally show ?thesis
    by (auto simp add: bulk_result_def filter_empty_conv split_def zero_less_iff_neq_zero simp del: neq0_conv)
qed

section \<open>Termination\<close>

fun worker_size :: "bulk_worker \<Rightarrow> nat" where
  "worker_size BwIdle = 0"
| "worker_size (BwNext p ks) = 1 + 2 * length ks"
| "worker_size (BwSending p k ks) = 2 + 2 * length ks"

definition group_size :: "bulk_work list \<Rightarrow> nat" where
  "group_size g = sum_list (map (\<lambda>wm. 2 + 2 * length (snd wm)) g)"

definition bulk_size :: "bulk_state \<Rightarrow> nat" where
  "bulk_size s = sum_list (map (\<lambda>g. 1 + group_size g) (bk_pending s)) +
     sum_list (map worker_size (bk_workers s)) + (if bk_ctxDone s then 0 else 1)"

lemma sum_list_update_nat:
  "w < length ws \<Longrightarrow> sum_list (map f (ws[w := x])) + f (ws ! w) = sum_list (map f ws) + (f x :: nat)"
proof (induction ws arbitrary: w)
  case (Cons v ws)
  then show ?case by (cases w) auto
qed simp

lemma sum_list_take_out:
  "i < length g \<Longrightarrow> sum_list (map f g) = f (g ! i) + sum_list (map f (take i g @ drop (Suc i) g))" for f :: "'a \<Rightarrow> nat"
  by (subst (1) id_take_nth_drop [of i g]) simp_all

lemma bulk_size_worker:
  "w < length (bk_workers s) \<Longrightarrow> bulk_size (set_worker w st s) + worker_size (bk_workers s ! w) = bulk_size s + worker_size st"
  using sum_list_update_nat [of w "bk_workers s" worker_size st] by (simp add: bulk_size_def)

lemma bulk_step_size:
  assumes "bulk_step wanted fn ev s = Some s'"
  shows "bulk_size s' < bulk_size s"
  using assms
proof (cases rule: bulk_step_elim)
  case (Take w i dialed g gs p ks)
  let ?rest = "take i g @ drop (Suc i) g"
  let ?s = "s\<lparr>bk_pending := (if ?rest = [] then gs else ?rest # gs)\<rparr>"
  have "group_size g = 2 + 2 * length ks + group_size ?rest"
    using sum_list_take_out [OF Take(5), of "\<lambda>wm. 2 + 2 * length (snd wm)"] Take(6) by (simp only: group_size_def snd_conv)
  then have l: "bulk_size ?s + 2 + 2 * length ks \<le> bulk_size s" using Take(2) by (simp add: bulk_size_def)
  show ?thesis
  proof (cases dialed)
    case True
    then have "s' = set_worker w (BwNext p ks) ?s" using Take(7) by (simp add: Let_def)
    then show ?thesis using l bulk_size_worker [of w ?s "BwNext p ks"] Take(3,4) by simp
  next
    case False
    then have "s' = ?s\<lparr>bk_skipped := bk_skipped ?s @ [(p, ks)]\<rparr>" using Take(7) by (simp add: Let_def)
    then have "bulk_size s' = bulk_size ?s" by (simp add: bulk_size_def)
    then show ?thesis using l by simp
  qed
next
  case (Check w now p k ks)
  have "bulk_size (set_worker w st s) + (3 + 2 * length ks) = bulk_size s + worker_size st" for st
    using bulk_size_worker [OF Check(2), of st] Check(3) by simp
  from this [of "BwNext p ks"] this [of "BwSending p k ks"] show ?thesis using Check(4) by simp
next
  case (Sent w delivered now p k ks ok)
  let ?s = "s\<lparr>bk_reports := gm_put k (report_result wanted ok now (report_of s k)) (bk_reports s),
            bk_sent := bk_sent s @ [(p, k, ok)]\<rparr>"
  let ?ks = "if \<not> ok \<and> bk_ctxDone s then [] else ks"
  have "bulk_size ?s = bulk_size s" by (simp add: bulk_size_def)
  then have "bulk_size s' + (2 + 2 * length ks) = bulk_size s + (1 + 2 * length ?ks)"
    using bulk_size_worker [of w ?s "BwNext p ?ks"] Sent(2,3,5) by simp
  moreover have "length ?ks \<le> length ks" by simp
  ultimately show ?thesis by linarith
next
  case (Finish w p)
  then show ?thesis using bulk_size_worker [OF Finish(2), of BwIdle] by simp
next
  case Done
  then show ?thesis by (simp add: bulk_size_def)
next
  case Leave
  then show ?thesis by (cases "bk_pending s") (simp_all add: bulk_size_def)
qed

lemma bulk_run_size: "bulk_run wanted fn evs s = Some s' \<Longrightarrow> length evs + bulk_size s' \<le> bulk_size s"
proof (induction evs arbitrary: s)
  case (Cons ev evs)
  then obtain t where t: "bulk_step wanted fn ev s = Some t" "bulk_run wanted fn evs t = Some s'"
    by (auto simp: bind_eq_Some_conv)
  show ?case using bulk_step_size [OF t(1)] Cons.IH [OF t(2)] by simp
qed simp

text \<open>While anything is left to do, a worker or the sender can go on.\<close>

lemma bulk_progress:
  assumes "\<not> bulk_finished s" and "[] \<notin> set (bk_pending s)" and "bk_workers s \<noteq> []"
  shows "\<exists>ev s'. ev \<noteq> BkCtxDone \<and> ev \<noteq> BkLeave \<and> bulk_step wanted fn ev s = Some s'"
proof (cases "\<exists>w < length (bk_workers s). bk_workers s ! w \<noteq> BwIdle")
  case True
  then obtain w where w: "w < length (bk_workers s)" "bk_workers s ! w \<noteq> BwIdle" by blast
  show ?thesis
  proof (cases "bk_workers s ! w")
    case (BwNext p ks)
    then show ?thesis
      using w by (cases ks) (auto simp: bulk_step_def intro: exI [of _ "BkFinish w"] exI [of _ "BkCheck w 0"])
  next
    case (BwSending p k ks)
    then show ?thesis using w by (intro exI [of _ "BkSent w True 0"]) (simp add: bulk_step_def Let_def)
  qed (use w in simp)
next
  case False
  then have "bk_pending s \<noteq> []" using assms(1) by (auto simp: bulk_finished_def list_all_length)
  then obtain g gs where g: "bk_pending s = g # gs" by (cases "bk_pending s") auto
  then have "0 < length g" "bk_workers s ! 0 = BwIdle" using assms(2,3) False by auto
  then show ?thesis
    using g assms(3) by (intro exI [of _ "BkTake 0 0 True"]) (simp add: bulk_step_def Let_def split: prod.split)
qed

lemma bulk_can_finish:
  assumes "bulk_inv wanted fn plan s" and "bk_workers s \<noteq> []"
  shows "\<exists>evs s'. bulk_run wanted fn evs s = Some s' \<and> bulk_finished s' \<and> BkCtxDone \<notin> set evs \<and> BkLeave \<notin> set evs"
  using assms
proof (induction "bulk_size s" arbitrary: s rule: less_induct)
  case less
  show ?case
  proof (cases "bulk_finished s")
    case True
    then show ?thesis by (intro exI [of _ "[]"] exI [of _ s]) simp
  next
    case False
    moreover have "[] \<notin> set (bk_pending s)" using less.prems(1) by (simp add: bulk_inv_def)
    ultimately obtain ev t where t: "ev \<noteq> BkCtxDone" "ev \<noteq> BkLeave" "bulk_step wanted fn ev s = Some t"
      using bulk_progress [of s wanted fn] less.prems(2) by blast
    have "bk_workers t \<noteq> []" using bulk_step_keys [OF t(3)] less.prems(2) by auto
    from less.hyps [OF bulk_step_size [OF t(3)] bulk_step_inv [OF t(3) less.prems(1)] this]
    obtain evs s' where "bulk_run wanted fn evs t = Some s'" "bulk_finished s'" "BkCtxDone \<notin> set evs" "BkLeave \<notin> set evs"
      by blast
    then show ?thesis using t by (intro exI [of _ "ev # evs"] exI [of _ s']) simp
  qed
qed


section \<open>Properties\<close>

text \<open>
  A number of successes that rounds down to nothing is reached at once, at the zero time: a report that holds no
  success counts as old, so that no key is ever sent and the operation fails.
\<close>

definition nothing_sent :: "bulk_state \<Rightarrow> bool" where
  "nothing_sent s \<longleftrightarrow> bk_sent s = [] \<and> (\<forall>k. report_of s k = no_report) \<and> (\<forall>w\<in>set (bk_workers s). \<forall>p k ks. w \<noteq> BwSending p k ks)"

lemma nothing_sent_worker:
  "nothing_sent s \<Longrightarrow> \<forall>p k ks. st \<noteq> BwSending p k ks \<Longrightarrow> nothing_sent (set_worker w st s)"
  unfolding nothing_sent_def by (auto dest!: set_update_subset_insert [THEN subsetD])

lemma bulk_zero_step:
  assumes "wanted \<le> 0" and "bulk_step wanted fn ev s = Some s'" and "nothing_sent s"
    and "\<forall>w now. ev = BkCheck w now \<longrightarrow> word_sless half_second (time_Sub now zero_time)"
  shows "nothing_sent s'"
  using assms(2)
proof (cases rule: bulk_step_elim)
  case (Take w i dialed g gs p ks)
  let ?rest = "take i g @ drop (Suc i) g"
  have "nothing_sent (s\<lparr>bk_pending := (if ?rest = [] then gs else ?rest # gs)\<rparr>)"
    using assms(3) by (simp add: nothing_sent_def)
  from nothing_sent_worker [OF this, of "BwNext p ks" w] this show ?thesis
    using Take(7) by (simp add: Let_def nothing_sent_def)
next
  case (Check w now p k ks)
  have "key_done wanted now (report_of s k)"
    using assms(1,3,4) Check(1) by (simp add: key_done_def no_report_def nothing_sent_def)
  then show ?thesis using Check(4) nothing_sent_worker [OF assms(3)] by simp
next
  case (Sent w delivered now p k ks ok)
  then have "BwSending p k ks \<in> set (bk_workers s)" using nth_mem [OF Sent(2)] by simp
  then show ?thesis using assms(3) by (auto simp: nothing_sent_def)
next
  case (Finish w p)
  then show ?thesis using nothing_sent_worker [OF assms(3)] by simp
qed (use assms(3) in \<open>simp_all add: nothing_sent_def\<close>)

lemma bulk_zero_wanted:
  assumes "wanted \<le> 0" and "bulk_run wanted fn evs s = Some s'" and "nothing_sent s"
    and "\<forall>w now. BkCheck w now \<in> set evs \<longrightarrow> word_sless half_second (time_Sub now zero_time)"
  shows "bk_sent s' = []"
  using assms(2-)
proof (induction evs arbitrary: s)
  case (Cons ev evs)
  then obtain t where t: "bulk_step wanted fn ev s = Some t" "bulk_run wanted fn evs t = Some s'"
    by (auto simp: bind_eq_Some_conv)
  have "nothing_sent t" by (rule bulk_zero_step [OF assms(1) t(1) Cons.prems(2)]) (use Cons.prems(3) in auto)
  then show ?case using Cons.IH [OF t(2)] Cons.prems(3) by simp
qed (simp add: nothing_sent_def)

lemma bulk_zero_wanted_fails:
  assumes "bulk_start ce sortKeys d keys = Some s0" and "\<forall>xs. mset (sortKeys xs) = mset xs" and "bulk_wanted d \<le> 0"
    and "bulk_run (bulk_wanted d) fn evs s0 = Some s"
    and "\<forall>w now. BkCheck w now \<in> set evs \<longrightarrow> word_sless half_second (time_Sub now zero_time)"
  shows "bk_sent s = [] \<and> bulk_result s = Some BulkIncomplete"
proof -
  have "nothing_sent s0" using bulk_start_state [OF assms(1,2)] by (auto simp: nothing_sent_def)
  from bulk_zero_wanted [OF assms(3,4) this assms(5)] have "bk_sent s = []" .
  moreover have "bulk_result s = (if \<exists>p k. (p, k, True) \<in> set (bk_sent s) then None else Some BulkIncomplete)"
    using bulk_run_inv [OF assms(4) bulk_start_inv [OF assms(1,2)]] by (intro bulk_result_stored) (simp_all add: bulk_inv_def)
  ultimately show ?thesis by simp
qed

text \<open>C29: A finished bulk operation sent each key at most once to each of the closest peers of the key, and to no
  other peer. Unless its context ended, it left a pair of a key and a peer out only when the peer could not be
  reached or the key was stored as often as wanted. It fails exactly when no peer took any key.\<close>

theorem bulk_send_spec:
  assumes "bulk_start ce sortKeys d keys = Some s0" and "\<forall>xs. mset (sortKeys xs) = mset xs"
    and "bulk_run (bulk_wanted d) fn evs s0 = Some s" and "bulk_finished s"
  shows "mset (map (\<lambda>(p, k, ok). (p, k)) (bk_sent s)) \<subseteq>#
      mset (concat (map (\<lambda>k. map (\<lambda>p. (p, k)) (the (fr_GetClosestPeers ce d k))) (remdups keys))) \<and>
    (\<forall>p k. (p, k, True) \<in> set (bk_sent s) \<longrightarrow> fn p k) \<and>
    (bk_ctxDone s \<or> (\<forall>k\<in>set keys. \<forall>p\<in>set (the (fr_GetClosestPeers ce d k)).
       (\<exists>ok. (p, k, ok) \<in> set (bk_sent s)) \<or> (\<exists>ks. (p, ks) \<in> set (bk_skipped s) \<and> k \<in> set ks) \<or>
       bulk_wanted d \<le> int (length (filter (\<lambda>(q, k', ok). k' = k \<and> ok) (bk_sent s))))) \<and>
    bulk_result s = (if \<exists>p k. (p, k, True) \<in> set (bk_sent s) then None else Some BulkIncomplete)"
proof -
  let ?plan = "mset (closest_pairs (\<lambda>k. the (fr_GetClosestPeers ce d k)) (remdups keys))"
  have i: "bulk_inv (bulk_wanted d) fn ?plan s"
    using bulk_run_inv [OF assms(3) bulk_start_inv [OF assms(1,2)]] .
  have "worker_pairs ` set (bk_workers s) \<subseteq> {[]}" using assms(4) by (auto simp: bulk_finished_def list_all_iff)
  then have "concat (map worker_pairs (bk_workers s)) = []" by auto
  then have t: "bulk_total s = mset (sent_pairs s) + mset (concat (map work_pairs (bk_skipped s)))"
    using assms(4) by (simp add: bulk_total_def bulk_todo_def bulk_finished_def)
  have "mset (sent_pairs s) \<subseteq># bulk_total s" unfolding t by (rule mset_subset_eq_add_left)
  moreover have "bulk_total s \<subseteq># ?plan" using i unfolding bulk_inv_def by blast
  ultimately have "mset (sent_pairs s) \<subseteq># ?plan" by (rule subset_mset.order_trans)
  moreover have "(\<exists>ok. (p, k, ok) \<in> set (bk_sent s)) \<or> (\<exists>ks. (p, ks) \<in> set (bk_skipped s) \<and> k \<in> set ks) \<or>
      bulk_wanted d \<le> int (stored k s)"
    if "\<not> bk_ctxDone s" "k \<in> set keys" "p \<in> set (the (fr_GetClosestPeers ce d k))" for p k
  proof -
    have "(p, k) \<in># ?plan" using that(2,3) by auto
    then have "(p, k) \<in># bulk_total s \<or> bulk_wanted d \<le> int (stored k s)"
      using i that(1) unfolding bulk_inv_def by blast
    then show ?thesis by (auto simp: t sent_pairs_def work_pairs_def)
  qed
  moreover have "\<forall>p k. (p, k, True) \<in> set (bk_sent s) \<longrightarrow> fn p k" using i unfolding bulk_inv_def by blast
  moreover have "bulk_result s = (if \<exists>p k. (p, k, True) \<in> set (bk_sent s) then None else Some BulkIncomplete)"
    using i by (intro bulk_result_stored) (simp_all add: bulk_inv_def)
  ultimately show ?thesis unfolding sent_pairs_def stored_def by blast
qed

text \<open>A bulk operation with at least one worker ends: its steps are bounded from its start, and whatever has
  happened, it can go on to its end without its context ending.\<close>

theorem bulk_send_returns:
  assumes "bulk_start ce sortKeys d keys = Some s0" and "\<forall>xs. mset (sortKeys xs) = mset xs"
    and "0 < fr_bulkSendParallelism d" and "bulk_run wanted fn evs s0 = Some s"
  shows "length evs \<le> bulk_size s0 \<and>
    (\<exists>evs' s'. bulk_run wanted fn evs' s = Some s' \<and> bulk_finished s' \<and> BkCtxDone \<notin> set evs' \<and> BkLeave \<notin> set evs')"
proof -
  have "bk_workers s \<noteq> []"
    using bulk_run_workers [OF assms(4)] bulk_start_state(6) [OF assms(1,2)] assms(3) by (auto simp del: length_greater_0_conv)
  then show ?thesis
    using bulk_run_size [OF assms(4)] bulk_can_finish [OF bulk_run_inv [OF assms(4) bulk_start_inv [OF assms(1,2)]]] by simp
qed

lemma bulkMessageSend_success:
  assumes "bulkMessageSend ce sortKeys d keys fn evs = Some None" and "\<forall>xs. mset (sortKeys xs) = mset xs" and "keys \<noteq> []"
  shows "\<exists>k\<in>set keys. \<exists>p\<in>set (the (fr_GetClosestPeers ce d k)). fn p k"
proof -
  let ?plan = "mset (closest_pairs (\<lambda>k. the (fr_GetClosestPeers ce d k)) (remdups keys))"
  obtain s0 s where s: "bulk_start ce sortKeys d keys = Some s0" "bulk_run (bulk_wanted d) fn evs s0 = Some s" "bulk_result s = None"
    using assms(1,3) by (auto simp: bulkMessageSend_def bind_eq_Some_conv split: if_splits)
  have i: "bulk_inv (bulk_wanted d) fn ?plan s" by (rule bulk_run_inv [OF s(2) bulk_start_inv [OF s(1) assms(2)]])
  then obtain p k where pk: "(p, k, True) \<in> set (bk_sent s)"
    using s(3) bulk_result_stored [of s] by (auto simp: bulk_inv_def split: if_splits)
  then have "(p, k) \<in># mset (sent_pairs s)" by (force simp: sent_pairs_def)
  then have t: "(p, k) \<in># bulk_total s" by (simp add: bulk_total_def)
  have "bulk_total s \<subseteq># ?plan" using i unfolding bulk_inv_def by blast
  from mset_subset_eqD [OF this t] have "(p, k) \<in># ?plan" .
  moreover have "fn p k" using i pk by (simp add: bulk_inv_def)
  ultimately show ?thesis by auto
qed

lemma fold_put_zip:
  "k \<in> fst ` set kvs \<Longrightarrow> (k, gm_get [] (fold (\<lambda>(k, v) m. gm_put k v m) kvs m) k) \<in> set kvs"
proof (induction kvs rule: rev_induct)
  case (snoc kv kvs)
  then show ?case by (cases kv; cases "fst kv = k") (auto simp: gomap_simps)
qed simp

text \<open>A bulk announcement or a bulk store that reports success has succeeded somewhere: for one of the keys
  one of its closest peers accepted this node's announcement, or the record of the value given for that key.\<close>

theorem bulk_success_honest:
  assumes "\<forall>xs. mset (sortKeys xs) = mset xs" and "keys \<noteq> []"
  shows "(ProvideMany env ce sortKeys keys evs n = Some None \<longrightarrow>
      (\<exists>k\<in>set keys. \<exists>p\<in>set (the (fr_GetClosestPeers ce (fn_tables n) k)).
         re_sendMsg env p ((NewMessage ADD_PROVIDER k 0)\<lparr>m_ProviderPeers :=
           RawPeerInfosToPBPeers [\<lparr>ai_ID = fn_self n, ai_Addrs = re_hostAddrs env\<rparr>]\<rparr>) = None)) \<and>
    (PutMany env ce sortKeys keys vals evs n = Some None \<longrightarrow>
      (\<exists>(k, v)\<in>set (zip keys vals). \<exists>p\<in>set (the (fr_GetClosestPeers ce (fn_tables n) k)).
         pm_PutValue (re_send env) p (re_MakePutRecord env k v) = Some None))"
proof (intro conjI impI)
  assume "ProvideMany env ce sortKeys keys evs n = Some None"
  then have "bulkMessageSend ce sortKeys (fn_tables n) keys (\<lambda>p k. re_sendMsg env p ((NewMessage ADD_PROVIDER k 0)\<lparr>m_ProviderPeers :=
      RawPeerInfosToPBPeers [\<lparr>ai_ID = fn_self n, ai_Addrs = re_hostAddrs env\<rparr>]\<rparr>) = None) evs = Some None"
    by (auto simp: ProvideMany_def Let_def split: if_splits)
  from bulkMessageSend_success [OF this assms] show "\<exists>k\<in>set keys. \<exists>p\<in>set (the (fr_GetClosestPeers ce (fn_tables n) k)).
      re_sendMsg env p ((NewMessage ADD_PROVIDER k 0)\<lparr>m_ProviderPeers :=
        RawPeerInfosToPBPeers [\<lparr>ai_ID = fn_self n, ai_Addrs = re_hostAddrs env\<rparr>]\<rparr>) = None" .
next
  let ?m = "fold (\<lambda>(k, v) m. gm_put k v m) (zip keys vals) []"
  assume "PutMany env ce sortKeys keys vals evs n = Some None"
  then have l: "length keys = length vals" and
    b: "bulkMessageSend ce sortKeys (fn_tables n) keys
      (\<lambda>p k. pm_PutValue (re_send env) p (re_MakePutRecord env k (gm_get [] ?m k)) = Some None) evs = Some None"
    by (auto simp: PutMany_def Let_def split: if_splits)
  from bulkMessageSend_success [OF b assms] obtain k p where k: "k \<in> set keys"
    "p \<in> set (the (fr_GetClosestPeers ce (fn_tables n) k))"
    "pm_PutValue (re_send env) p (re_MakePutRecord env k (gm_get [] ?m k)) = Some None" by blast
  have "k \<in> fst ` set (zip keys vals)" using k(1) l by (metis map_fst_zip set_map)
  from fold_put_zip [OF this, of "[]"] have "(k, gm_get [] ?m k) \<in> set (zip keys vals)" .
  then show "\<exists>(k, v)\<in>set (zip keys vals). \<exists>p\<in>set (the (fr_GetClosestPeers ce (fn_tables n) k)).
      pm_PutValue (re_send env) p (re_MakePutRecord env k v) = Some None"
    using k(2,3) by (intro bexI [of _ "(k, gm_get [] ?m k)"]) auto
qed

section \<open>Witnesses\<close>

text \<open>
  Two keys are announced to the three peers of the demo client by two workers: the first peer is not reached, the
  second refuses what it is sent and the third takes it.
\<close>

definition demo_bulk_events :: "bulk_event list" where
  "demo_bulk_events = [BkTake 0 0 True, BkTake 1 0 True, BkCheck 0 1000000000, BkCheck 1 1000000000,
     BkSent 1 True 1000000001, BkSent 0 True 1000000002, BkFinish 1, BkTake 1 0 False, BkFinish 0]"

definition demo_bulk_client :: fullrt where
  "demo_bulk_client = (runCrawl demo_closest demo_reports 5 (demo_fullrt 0))\<lparr>fr_bulkSendParallelism := 2, fr_bucketSize := 3\<rparr>"

definition demo_bulk_fn :: "peer_id \<Rightarrow> bytes \<Rightarrow> bool" where
  "demo_bulk_fn p k = (p = ''q'')"

lemma demo_bulk_start:
  "bulk_start demo_closest (\<lambda>k. k) demo_bulk_client [''k''] = Some \<lparr>bk_reports = [(''k'', no_report)],
     bk_pending = [[(''s'', [''k'']), (''q'', [''k'']), (''p'', [''k''])]], bk_ctxDone = False,
     bk_workers = [BwIdle, BwIdle], bk_skipped = [], bk_sent = []\<rparr>"
  by code_simp

lemma demo_bulk_closest: "fr_GetClosestPeers demo_closest demo_bulk_client ''k'' = Some [''s'', ''q'', ''p'']"
  by code_simp

theorem bulk_send_spec_witness:
  "\<exists>s. Option.bind (bulk_start demo_closest (\<lambda>k. k) demo_bulk_client [''k''])
      (bulk_run (bulk_wanted demo_bulk_client) demo_bulk_fn demo_bulk_events) = Some s \<and>
    bk_sent s = [(''q'', ''k'', True), (''s'', ''k'', False)] \<and> bk_skipped s = [(''p'', [''k''])] \<and> bulk_result s = None"
proof -
  obtain s0 where st: "bulk_start demo_closest (\<lambda>k. k) demo_bulk_client [''k''] = Some s0" using demo_bulk_start by blast
  let ?run = "Option.bind (bulk_start demo_closest (\<lambda>k. k) demo_bulk_client [''k''])
      (bulk_run (bulk_wanted demo_bulk_client) demo_bulk_fn demo_bulk_events)"
  have "map_option (\<lambda>s. (bk_sent s, bk_skipped s, bulk_finished s)) ?run =
      Some ([(''q'', ''k'', True), (''s'', ''k'', False)], [(''p'', [''k''])], True)" by code_simp
  then obtain s where s: "?run = Some s" "bk_sent s = [(''q'', ''k'', True), (''s'', ''k'', False)]"
    "bk_skipped s = [(''p'', [''k''])]" "bulk_finished s" by auto
  have "bulk_run (bulk_wanted demo_bulk_client) demo_bulk_fn demo_bulk_events s0 = Some s" using s(1) st by simp
  from bulk_send_spec [OF st _ this s(4)] s(2) have "bulk_result s = None" by auto
  with s show ?thesis by blast
qed

theorem bulk_send_returns_witness:
  "\<exists>s s' evs. bulk_start demo_closest (\<lambda>k. k) demo_bulk_client [''k''] = Some s \<and>
    Option.bind (bulk_run 1 demo_bulk_fn [BkTake 1 2 True] s) (bulk_run 1 demo_bulk_fn evs) = Some s' \<and> bulk_finished s'"
proof -
  obtain s0 where st: "bulk_start demo_closest (\<lambda>k. k) demo_bulk_client [''k''] = Some s0" using demo_bulk_start by blast
  have "Option.bind (bulk_start demo_closest (\<lambda>k. k) demo_bulk_client [''k'']) (bulk_run 1 demo_bulk_fn [BkTake 1 2 True]) \<noteq> None"
    by code_simp
  then obtain s where s: "bulk_run 1 demo_bulk_fn [BkTake 1 2 True] s0 = Some s" using st by auto
  have w: "0 < fr_bulkSendParallelism demo_bulk_client" by (simp add: demo_bulk_client_def)
  obtain evs' s' where "bulk_run 1 demo_bulk_fn evs' s = Some s'" "bulk_finished s'"
    using bulk_send_returns [OF st _ w s] by auto
  then have "Option.bind (bulk_run 1 demo_bulk_fn [BkTake 1 2 True] s0) (bulk_run 1 demo_bulk_fn evs') = Some s' \<and> bulk_finished s'"
    unfolding s by simp
  with st show ?thesis by blast
qed

theorem bulk_success_honest_witness:
  "\<exists>k\<in>{''k''}. \<exists>p\<in>{''s'', ''q'', ''p''}. re_sendMsg demo_re p ((NewMessage ADD_PROVIDER k 0)\<lparr>m_ProviderPeers :=
      RawPeerInfosToPBPeers [\<lparr>ai_ID = ''self'', ai_Addrs = re_hostAddrs demo_re\<rparr>]\<rparr>) = None"
proof -
  let ?n = "demo_frnode\<lparr>fn_tables := demo_bulk_client\<rparr>"
  have "ProvideMany demo_re demo_closest (\<lambda>k. k) [''k''] demo_bulk_events ?n = Some None" by code_simp
  then have "\<exists>k\<in>set [''k'']. \<exists>p\<in>set (the (fr_GetClosestPeers demo_closest (fn_tables ?n) k)).
      re_sendMsg demo_re p ((NewMessage ADD_PROVIDER k 0)\<lparr>m_ProviderPeers :=
        RawPeerInfosToPBPeers [\<lparr>ai_ID = fn_self ?n, ai_Addrs = re_hostAddrs demo_re\<rparr>]\<rparr>) = None"
    using bulk_success_honest [of "\<lambda>k. k" "[''k'']" demo_re demo_closest demo_bulk_events ?n] by simp
  then show ?thesis by (simp add: demo_bulk_closest) (simp add: demo_frnode_def)
qed

end
