(* ===== verification/DHT_Config.thy ===== *)
theory DHT_Config
  imports Node_Maintenance Dual
begin

text \<open>
  How a node is configured and built (\<^verbatim>\<open>dht_options.go\<close>, \<^verbatim>\<open>internal/config/config.go\<close>, \<^verbatim>\<open>amino/\<close>, \<^verbatim>\<open>New\<close> and
  \<^verbatim>\<open>makeDHT\<close> of \<^verbatim>\<open>dht.go\<close>), the dual node's two configurations (\<^verbatim>\<open>dual/dual.go\<close>), and the crawler's options
  (\<^verbatim>\<open>crawler/options.go\<close>).

  Values the code only passes on (datastores, filters, hooks, senders) are opaque: a setting that is not
  set, the code's own default, or a given value of type \<open>'x\<close>. A validator is its kind; a namespaced one is
  the map of its namespaces, or the nil map, to which a write panics (\<open>None\<close>).
\<close>

section \<open>Configuration\<close>

definition amino_ProtocolPrefix :: string where
  "amino_ProtocolPrefix = ''/ipfs''"

definition amino_ProtocolID :: string where
  "amino_ProtocolID = ''/ipfs/kad/1.0.0''"

definition amino_DefaultBucketSize :: int where
  "amino_DefaultBucketSize = 20"

definition amino_DefaultConcurrency :: int where
  "amino_DefaultConcurrency = 10"

definition amino_DefaultResiliency :: int where
  "amino_DefaultResiliency = 3"

datatype 'x setting = Unset | Standard | Given 'x

datatype validator = PublicKeyVal | IpnsVal | Namespaced "(string \<times> validator) list" | NilNamespaced | OtherVal nat

datatype 'x bootstrap = BootstrapNone | BootstrapList "AddrInfo list" | BootstrapFunc 'x

record 'x dht_config =
  cf_Datastore :: "'x setting"
  cf_Validator :: validator
  cf_ValidatorChanged :: bool
  cf_Mode :: mode_opt
  cf_ProtocolPrefix :: string
  cf_V1ProtocolOverride :: string
  cf_BucketSize :: int
  cf_Concurrency :: int
  cf_Resiliency :: int
  cf_MaxRecordAge :: duration
  cf_EnableProviders :: bool
  cf_EnableValues :: bool
  cf_ProviderStore :: "'x setting"
  cf_QueryPeerFilter :: "'x setting"
  cf_LookupCheckConcurrency :: int
  cf_MsgSenderBuilder :: "'x setting"
  cf_RefreshQueryTimeout :: duration
  cf_RefreshInterval :: duration
  cf_AutoRefresh :: bool
  cf_LatencyTolerance :: duration
  cf_PeerFilter :: "'x setting"
  cf_DiversityFilter :: "'x setting"
  cf_BootstrapPeers :: "'x bootstrap"
  cf_AddressFilter :: "'x setting"
  cf_OnRequestHook :: "'x setting"
  cf_DisableFixLowPeers :: bool
  cf_TestAddressUpdateProcessing :: bool
  cf_EnableOptimisticProvide :: bool
  cf_OptimisticProvideJobsPoolSize :: int

text \<open>The zero value of the structure.\<close>

definition zero_config :: "'x dht_config" where
  "zero_config = \<lparr>cf_Datastore = Unset, cf_Validator = OtherVal 0, cf_ValidatorChanged = False, cf_Mode = ModeAuto,
     cf_ProtocolPrefix = [], cf_V1ProtocolOverride = [], cf_BucketSize = 0, cf_Concurrency = 0, cf_Resiliency = 0,
     cf_MaxRecordAge = 0, cf_EnableProviders = False, cf_EnableValues = False, cf_ProviderStore = Unset,
     cf_QueryPeerFilter = Unset, cf_LookupCheckConcurrency = 0, cf_MsgSenderBuilder = Unset, cf_RefreshQueryTimeout = 0,
     cf_RefreshInterval = 0, cf_AutoRefresh = False, cf_LatencyTolerance = 0, cf_PeerFilter = Unset,
     cf_DiversityFilter = Unset, cf_BootstrapPeers = BootstrapNone, cf_AddressFilter = Unset, cf_OnRequestHook = Unset,
     cf_DisableFixLowPeers = False, cf_TestAddressUpdateProcessing = False, cf_EnableOptimisticProvide = False,
     cf_OptimisticProvideJobsPoolSize = 0\<rparr>"

definition Defaults :: "'x dht_config \<Rightarrow> 'x dht_config" where
  "Defaults c = c\<lparr>cf_Validator := Namespaced [], cf_Datastore := Standard, cf_ProtocolPrefix := amino_ProtocolPrefix,
     cf_EnableProviders := True, cf_EnableValues := True, cf_QueryPeerFilter := Standard, cf_MsgSenderBuilder := Standard,
     cf_LatencyTolerance := 10 * 1000000000, cf_RefreshQueryTimeout := 10 * 1000000000,
     cf_RefreshInterval := 600 * 1000000000, cf_AutoRefresh := True, cf_PeerFilter := Standard,
     cf_MaxRecordAge := hours 48, cf_BucketSize := amino_DefaultBucketSize, cf_Concurrency := amino_DefaultConcurrency,
     cf_Resiliency := amino_DefaultResiliency, cf_LookupCheckConcurrency := 256, cf_OptimisticProvideJobsPoolSize := 60\<rparr>"

section \<open>The default bootstrap peers\<close>

text \<open>
  The package's start parses the texts of five addresses and panics (\<open>None\<close>) when one is refused. The
  parser of multiaddresses and the reading of a peer from one are third-party, hence parameters.
\<close>

definition default_bootstrap_texts :: "string list" where
  "default_bootstrap_texts =
     [''/dnsaddr/bootstrap.libp2p.io/p2p/QmNnooDu7bfjPFoTZYxMNLWUQJyrVwtbZg5gBMjTezGAJN'',
      ''/dnsaddr/bootstrap.libp2p.io/p2p/QmQCU2EcMqAqQPR2i9bChDtGNJchTbq5TbXJJ16u19uLTa'',
      ''/dnsaddr/bootstrap.libp2p.io/p2p/QmbLHAnMoJPWSCR5Zhtx6BHJX9KiKNN6tpvbUcqanj75Nb'',
      ''/dnsaddr/bootstrap.libp2p.io/p2p/QmcZf59bWwK5XFi76CZX8cbJ4BhTzzA3gU1ZjYZcYW3dwt'',
      ''/ip4/104.131.131.82/tcp/4001/p2p/QmaCpDMGvV2BGHeYERUEnRQAwe3N8SzbUtfsmvsqQLuvuJ'']"

fun bootstrap_init :: "(string \<Rightarrow> string + 'm) \<Rightarrow> string list \<Rightarrow> 'm list \<Rightarrow> 'm list option" where
  "bootstrap_init NewMultiaddr [] DefaultBootstrapPeers = Some DefaultBootstrapPeers"
| "bootstrap_init NewMultiaddr (s # texts) DefaultBootstrapPeers =
     (case NewMultiaddr s of
        Inl err \<Rightarrow> None
      | Inr ma \<Rightarrow> bootstrap_init NewMultiaddr texts (DefaultBootstrapPeers @ [ma]))"

fun bootstrap_infos :: "('m \<Rightarrow> string + AddrInfo) \<Rightarrow> 'm list \<Rightarrow> AddrInfo list \<Rightarrow> AddrInfo list" where
  "bootstrap_infos AddrInfoFromP2pAddr [] ds = ds"
| "bootstrap_infos AddrInfoFromP2pAddr (ma # mas) ds =
     (case AddrInfoFromP2pAddr ma of
        Inl err \<Rightarrow> bootstrap_infos AddrInfoFromP2pAddr mas ds
      | Inr info \<Rightarrow> bootstrap_infos AddrInfoFromP2pAddr mas (ds @ [info]))"

definition GetDefaultBootstrapPeerAddrInfos :: "('m \<Rightarrow> string + AddrInfo) \<Rightarrow> 'm list \<Rightarrow> AddrInfo list" where
  "GetDefaultBootstrapPeerAddrInfos AddrInfoFromP2pAddr DefaultBootstrapPeers =
     bootstrap_infos AddrInfoFromP2pAddr DefaultBootstrapPeers []"

lemma bootstrap_init_exact:
  "bootstrap_init parse texts acc =
     (if \<forall>s\<in>set texts. \<not> isl (parse s) then Some (acc @ map (\<lambda>s. projr (parse s)) texts) else None)"
  by (induction texts arbitrary: acc) (auto split: sum.split)

lemma bootstrap_infos_exact:
  "bootstrap_infos info mas acc = acc @ map (\<lambda>ma. projr (info ma)) (filter (\<lambda>ma. \<not> isl (info ma)) mas)"
  by (induction mas arbitrary: acc) (auto split: sum.split)

lemma default_bootstrap_peers:
  assumes "bootstrap_init parse default_bootstrap_texts [] = Some mas"
  shows "length mas = 5 \<and> length (GetDefaultBootstrapPeerAddrInfos info mas) \<le> 5"
proof -
  from assms have "length mas = length default_bootstrap_texts"
    by (auto simp: bootstrap_init_exact split: if_splits)
  then have "length mas = 5" by (simp add: default_bootstrap_texts_def)
  moreover have "length (GetDefaultBootstrapPeerAddrInfos info mas) \<le> length mas"
    by (simp add: GetDefaultBootstrapPeerAddrInfos_def bootstrap_infos_exact)
  ultimately show ?thesis by simp
qed

section \<open>Options\<close>

datatype 'x dht_option =
    DefaultsOption
  | ProviderStoreOption 'x
  | RoutingTableLatencyTolerance duration
  | RoutingTableRefreshQueryTimeout duration
  | RoutingTableRefreshPeriod duration
  | DatastoreOption 'x
  | ModeOption mode_opt
  | ValidatorOption validator
  | NamespacedValidatorOption string validator
  | ProtocolPrefix string
  | ProtocolExtension string
  | V1ProtocolOverride string
  | BucketSize int
  | Concurrency int
  | Resiliency int
  | LookupCheckConcurrency int
  | MaxRecordAge duration
  | DisableAutoRefresh
  | DisableProviders
  | DisableValues
  | QueryFilter 'x
  | RoutingTableFilter 'x
  | BootstrapPeers "AddrInfo list"
  | BootstrapPeersFunc 'x
  | RoutingTablePeerDiversityFilter 'x
  | disableFixLowPeersRoutine
  | forceAddressUpdateProcessing
  | EnableOptimisticProvide
  | OptimisticProvideJobsPoolSize int
  | AddressFilterOption 'x
  | WithCustomMessageSender 'x
  | OnRequestHookOption 'x

fun dht_option_apply :: "'x dht_option \<Rightarrow> 'x dht_config \<Rightarrow> (string + 'x dht_config) option" where
  "dht_option_apply DefaultsOption c = Some (Inr (Defaults c))"
| "dht_option_apply (ProviderStoreOption ps) c = Some (Inr (c\<lparr>cf_ProviderStore := Given ps\<rparr>))"
| "dht_option_apply (RoutingTableLatencyTolerance latency) c = Some (Inr (c\<lparr>cf_LatencyTolerance := latency\<rparr>))"
| "dht_option_apply (RoutingTableRefreshQueryTimeout timeout) c = Some (Inr (c\<lparr>cf_RefreshQueryTimeout := timeout\<rparr>))"
| "dht_option_apply (RoutingTableRefreshPeriod period) c = Some (Inr (c\<lparr>cf_RefreshInterval := period\<rparr>))"
| "dht_option_apply (DatastoreOption d) c = Some (Inr (c\<lparr>cf_Datastore := Given d\<rparr>))"
| "dht_option_apply (ModeOption m) c = Some (Inr (c\<lparr>cf_Mode := m\<rparr>))"
| "dht_option_apply (ValidatorOption v) c = Some (Inr (c\<lparr>cf_Validator := v, cf_ValidatorChanged := True\<rparr>))"
| "dht_option_apply (NamespacedValidatorOption ns v) c =
     (case cf_Validator c of
        Namespaced nsval \<Rightarrow> Some (Inr (c\<lparr>cf_Validator := Namespaced (gm_put ns v nsval)\<rparr>))
      | NilNamespaced \<Rightarrow> None
      | _ \<Rightarrow> Some (Inl ''can only add namespaced validators to a NamespacedValidator''))"
| "dht_option_apply (ProtocolPrefix p) c = Some (Inr (c\<lparr>cf_ProtocolPrefix := p\<rparr>))"
| "dht_option_apply (ProtocolExtension ext) c = Some (Inr (c\<lparr>cf_ProtocolPrefix := cf_ProtocolPrefix c @ ext\<rparr>))"
| "dht_option_apply (V1ProtocolOverride p) c = Some (Inr (c\<lparr>cf_V1ProtocolOverride := p\<rparr>))"
| "dht_option_apply (BucketSize k) c = Some (Inr (c\<lparr>cf_BucketSize := k\<rparr>))"
| "dht_option_apply (Concurrency alpha) c = Some (Inr (c\<lparr>cf_Concurrency := alpha\<rparr>))"
| "dht_option_apply (Resiliency beta) c = Some (Inr (c\<lparr>cf_Resiliency := beta\<rparr>))"
| "dht_option_apply (LookupCheckConcurrency n) c = Some (Inr (c\<lparr>cf_LookupCheckConcurrency := n\<rparr>))"
| "dht_option_apply (MaxRecordAge maxAge) c = Some (Inr (c\<lparr>cf_MaxRecordAge := maxAge\<rparr>))"
| "dht_option_apply DisableAutoRefresh c = Some (Inr (c\<lparr>cf_AutoRefresh := False\<rparr>))"
| "dht_option_apply DisableProviders c = Some (Inr (c\<lparr>cf_EnableProviders := False\<rparr>))"
| "dht_option_apply DisableValues c = Some (Inr (c\<lparr>cf_EnableValues := False\<rparr>))"
| "dht_option_apply (QueryFilter f) c = Some (Inr (c\<lparr>cf_QueryPeerFilter := Given f\<rparr>))"
| "dht_option_apply (RoutingTableFilter f) c = Some (Inr (c\<lparr>cf_PeerFilter := Given f\<rparr>))"
| "dht_option_apply (BootstrapPeers ps) c = Some (Inr (c\<lparr>cf_BootstrapPeers := BootstrapList ps\<rparr>))"
| "dht_option_apply (BootstrapPeersFunc f) c = Some (Inr (c\<lparr>cf_BootstrapPeers := BootstrapFunc f\<rparr>))"
| "dht_option_apply (RoutingTablePeerDiversityFilter pg) c = Some (Inr (c\<lparr>cf_DiversityFilter := Given pg\<rparr>))"
| "dht_option_apply disableFixLowPeersRoutine c = Some (Inr (c\<lparr>cf_DisableFixLowPeers := True\<rparr>))"
| "dht_option_apply forceAddressUpdateProcessing c = Some (Inr (c\<lparr>cf_TestAddressUpdateProcessing := True\<rparr>))"
| "dht_option_apply EnableOptimisticProvide c = Some (Inr (c\<lparr>cf_EnableOptimisticProvide := True\<rparr>))"
| "dht_option_apply (OptimisticProvideJobsPoolSize n) c = Some (Inr (c\<lparr>cf_OptimisticProvideJobsPoolSize := n\<rparr>))"
| "dht_option_apply (AddressFilterOption f) c = Some (Inr (c\<lparr>cf_AddressFilter := Given f\<rparr>))"
| "dht_option_apply (WithCustomMessageSender b) c = Some (Inr (c\<lparr>cf_MsgSenderBuilder := Given b\<rparr>))"
| "dht_option_apply (OnRequestHookOption f) c = Some (Inr (c\<lparr>cf_OnRequestHook := Given f\<rparr>))"

datatype config_error =
  OptionFailed nat string | DefaultValidatorChanged | MustUseBucketSize | MustEnableProviders | MustEnableValues |
  MustUseNamespaced | MustHaveTwoValidators | MustSupportPk | MustUsePublicKey | MustSupportIpns | MustUseIpns

fun config_Apply :: "nat \<Rightarrow> 'x dht_option list \<Rightarrow> 'x dht_config \<Rightarrow> (config_error + 'x dht_config) option" where
  "config_Apply i [] c = Some (Inr c)"
| "config_Apply i (opt # opts) c =
     (case dht_option_apply opt c of
        None \<Rightarrow> None
      | Some (Inl err) \<Rightarrow> Some (Inl (OptionFailed i err))
      | Some (Inr c) \<Rightarrow> config_Apply (i + 1) opts c)"

definition ApplyFallbacks :: "'x dht_config \<Rightarrow> (config_error + 'x dht_config) option" where
  "ApplyFallbacks c =
     (if \<not> cf_ValidatorChanged c
      then (case cf_Validator c of
              Namespaced nsval \<Rightarrow>
                (let nsval = (if \<not> gm_has nsval ''pk'' then gm_put ''pk'' PublicKeyVal nsval else nsval);
                     nsval = (if \<not> gm_has nsval ''ipns'' then gm_put ''ipns'' IpnsVal nsval else nsval)
                 in Some (Inr (c\<lparr>cf_Validator := Namespaced nsval\<rparr>)))
            | NilNamespaced \<Rightarrow> None
            | _ \<Rightarrow> Some (Inl DefaultValidatorChanged))
      else Some (Inr c))"

definition Validate :: "'x dht_config \<Rightarrow> config_error option" where
  "Validate c =
     (if cf_ProtocolPrefix c \<noteq> amino_ProtocolPrefix then None
      else if cf_BucketSize c \<noteq> amino_DefaultBucketSize then Some MustUseBucketSize
      else if \<not> cf_EnableProviders c then Some MustEnableProviders
      else if \<not> cf_EnableValues c then Some MustEnableValues
      else
        let check = (\<lambda>nsval.
          if length nsval \<noteq> 2 then Some MustHaveTwoValidators
          else case map_of nsval ''pk'' of
            None \<Rightarrow> Some MustSupportPk
          | Some pkVal \<Rightarrow>
              if pkVal \<noteq> PublicKeyVal then Some MustUsePublicKey
              else (case map_of nsval ''ipns'' of
                      None \<Rightarrow> Some MustSupportIpns
                    | Some ipnsVal \<Rightarrow> if ipnsVal \<noteq> IpnsVal then Some MustUseIpns else None))
        in case cf_Validator c of
             Namespaced nsval \<Rightarrow> check nsval
           | NilNamespaced \<Rightarrow> check []
           | _ \<Rightarrow> Some MustUseNamespaced)"

section \<open>Building a node\<close>

text \<open>The configuration of a new node.\<close>

definition configure :: "'x dht_option list \<Rightarrow> (config_error + 'x dht_config) option" where
  "configure options =
     (case config_Apply 0 (DefaultsOption # options) zero_config of
        None \<Rightarrow> None
      | Some (Inl err) \<Rightarrow> Some (Inl err)
      | Some (Inr c) \<Rightarrow>
          (case ApplyFallbacks c of
             None \<Rightarrow> None
           | Some (Inl err) \<Rightarrow> Some (Inl err)
           | Some (Inr c) \<Rightarrow> (case Validate c of Some err \<Rightarrow> Some (Inl err) | None \<Rightarrow> Some (Inr c))))"

text \<open>
  What building a node meets: the routing table's operations and its construction (size, threshold,
  whether there is a diversity filter), the floating point threshold for \<open>\<alpha> < K\<close>, the errors of the
  other constructors in the order they occur, the host's answers, its identifier and what is in the configured datastore.
\<close>

record ('r, 'x, 'd) host_setup =
  hs_kb :: "'r kb_ops"
  hs_cpl :: "peer_id \<Rightarrow> nat"
  hs_NewRoutingTable :: "int \<Rightarrow> duration \<Rightarrow> bool \<Rightarrow> string + 'r"
  hs_threshold :: "int \<Rightarrow> int \<Rightarrow> duration \<Rightarrow> duration"
  hs_refreshManagerErr :: "string option"
  hs_providerManagerErr :: "string option"
  hs_messengerErr :: "string option"
  hs_subscribeErr :: "string option"
  hs_self :: peer_id
  hs_handlers :: "string list"
  hs_conns :: "stream_info list list"
  hs_view :: host_view
  hs_datastore :: "'x setting \<Rightarrow> 'd"

record ('r, 'x, 'd) dht =
  dt_env :: "'r node_env"
  dt_node :: "'r node"
  dt_records :: "'d dht_node"
  dt_alpha :: int
  dt_beta :: int
  dt_lookupCheckTimeout :: duration
  dt_rtThreshold :: duration
  dt_refreshGrace :: duration
  dt_queryPeerFilter :: "'x setting"
  dt_optProvJobsPool :: "int option"

datatype new_error = BadConfig config_error | RoutingTableFailed string | RefreshManagerFailed string |
  ProviderManagerFailed string | MessengerError string | SubscribeFailed string | InvalidMode

definition outbound_threshold :: "('r, 'x, 'd) host_setup \<Rightarrow> 'x dht_config \<Rightarrow> duration" where
  "outbound_threshold hs c =
     (if cf_Concurrency c < cf_BucketSize c
      then hs_threshold hs (cf_BucketSize c) (cf_Concurrency c) (cf_RefreshInterval c)
      else cf_RefreshInterval c)"

definition makeDHT :: "('r, 'x, 'd) host_setup \<Rightarrow> 'x dht_config \<Rightarrow> new_error + 'r \<times> duration" where
  "makeDHT hs c =
     (let threshold = outbound_threshold hs c
      in case hs_NewRoutingTable hs (cf_BucketSize c) (2 * threshold) (cf_DiversityFilter c \<noteq> Unset) of
           Inl err \<Rightarrow> Inl (RoutingTableFailed err)
         | Inr rt \<Rightarrow>
             (case hs_refreshManagerErr hs of
                Some err \<Rightarrow> Inl (RefreshManagerFailed err)
              | None \<Rightarrow>
                  if cf_ProviderStore c = Unset
                  then (case hs_providerManagerErr hs of
                          Some err \<Rightarrow> Inl (ProviderManagerFailed err) | None \<Rightarrow> Inr (rt, threshold))
                  else Inr (rt, threshold)))"

definition dht_New :: "('r, 'x, 'd) host_setup \<Rightarrow> 'x dht_option list \<Rightarrow> (new_error + ('r, 'x, 'd) dht) option" where
  "dht_New hs options =
     (case configure options of
        None \<Rightarrow> None
      | Some (Inl err) \<Rightarrow> Some (Inl (BadConfig err))
      | Some (Inr c) \<Rightarrow>
          Some (case makeDHT hs c of
             Inl err \<Rightarrow> Inl err
           | Inr (rt, threshold) \<Rightarrow>
               (let env = \<lparr>ne_kb = hs_kb hs, ne_cpl = hs_cpl hs,
                      ne_protocols = dht_protocols (cf_ProtocolPrefix c) (cf_V1ProtocolOverride c), ne_auto = cf_Mode c,
                      ne_bucketSize = cf_BucketSize c, ne_autoRefresh = cf_AutoRefresh c,
                      ne_testAddressUpdateProcessing = cf_TestAddressUpdateProcessing c,
                      ne_disableFixLowPeers = cf_DisableFixLowPeers c\<rparr>;
                    records = \<lparr>dn_self = hs_self hs, dn_bucketSize = cf_BucketSize c, dn_enableValues = cf_EnableValues c,
                      dn_enableProviders = cf_EnableProviders c, dn_maxRecordAge = cf_MaxRecordAge c,
                      dn_datastore = hs_datastore hs (cf_Datastore c)\<rparr>
                in case hs_messengerErr hs of
                     Some err \<Rightarrow> Inl (MessengerError err)
                   | None \<Rightarrow>
                       (case node_New env rt (cf_LookupCheckConcurrency c) (hs_handlers hs) (hs_conns hs) (hs_view hs) of
                          Inl err \<Rightarrow> Inl InvalidMode
                        | Inr node \<Rightarrow>
                            (case hs_subscribeErr hs of
                               Some err \<Rightarrow> Inl (SubscribeFailed err)
                             | None \<Rightarrow>
                                 Inr \<lparr>dt_env = env, dt_node = node, dt_records = records, dt_alpha = cf_Concurrency c,
                                      dt_beta = cf_Resiliency c, dt_lookupCheckTimeout = cf_RefreshQueryTimeout c,
                                      dt_rtThreshold = 2 * threshold, dt_refreshGrace = threshold,
                                      dt_queryPeerFilter = cf_QueryPeerFilter c,
                                      dt_optProvJobsPool = (if cf_EnableOptimisticProvide c
                                        then Some (cf_OptimisticProvideJobsPoolSize c) else None)\<rparr>)))))"

text \<open>\<open>None\<close> also stands for the panic on an error.\<close>

definition NewDHT :: "('r, 'x, 'd) host_setup \<Rightarrow> 'x \<Rightarrow> ('r, 'x, 'd) dht option" where
  "NewDHT hs dstore = (case dht_New hs [DatastoreOption dstore] of Some (Inr d) \<Rightarrow> Some d | _ \<Rightarrow> None)"

definition NewDHTClient :: "('r, 'x, 'd) host_setup \<Rightarrow> 'x \<Rightarrow> ('r, 'x, 'd) dht option" where
  "NewDHTClient hs dstore =
     (case dht_New hs [DatastoreOption dstore, ModeOption ModeClient] of Some (Inr d) \<Rightarrow> Some d | _ \<Rightarrow> None)"

section \<open>The two nodes of a dual DHT\<close>

text \<open>The constructor's own options; the filters are of the dual package and of theory
  \<open>Filters\<close>. The LAN's node finds the host as the WAN's construction left it.\<close>

record 'x dual_filters =
  df_PublicQueryFilter :: 'x
  df_PublicRoutingTableFilter :: 'x
  df_RTPeerDiversityFilter :: 'x
  df_PublicAddrs :: 'x
  df_PrivateQueryFilter :: 'x
  df_PrivateRoutingTableFilter :: 'x
  df_NoLoopback :: 'x

definition dual_wan_options :: "'x dual_filters \<Rightarrow> 'x dht_option list" where
  "dual_wan_options f = [QueryFilter (df_PublicQueryFilter f), RoutingTableFilter (df_PublicRoutingTableFilter f),
     RoutingTablePeerDiversityFilter (df_RTPeerDiversityFilter f), AddressFilterOption (df_PublicAddrs f)]"

definition dual_lan_options :: "'x dual_filters \<Rightarrow> 'x dht_option list" where
  "dual_lan_options f = [ProtocolExtension ''/lan'', QueryFilter (df_PrivateQueryFilter f),
     RoutingTableFilter (df_PrivateRoutingTableFilter f), AddressFilterOption (df_NoLoopback f)]"

definition dual_DHT :: "'x dual_filters \<Rightarrow> ('r, 'x, 'd) host_setup \<Rightarrow> ('r, 'x, 'd) host_setup \<Rightarrow> 'x dht_option dual_option list \<Rightarrow>
    (new_error + ('r, 'x, 'd) dht \<times> ('r, 'x, 'd) dht) option" where
  "dual_DHT f hsWan hsLan options =
     (let wanIsClient = (\<lambda>wan. case dht_New hsWan wan of Some (Inr d) \<Rightarrow> node_Mode (dt_env d) = ModeClient | _ \<Rightarrow> False);
          cfg = dual_New (dual_wan_options f) (dual_lan_options f) (ModeOption ModeServer) wanIsClient options
      in case dht_New hsWan (dc_wan cfg) of
           None \<Rightarrow> None
         | Some (Inl err) \<Rightarrow> Some (Inl err)
         | Some (Inr wan) \<Rightarrow>
             (case dht_New hsLan (dc_lan cfg) of
                None \<Rightarrow> None
              | Some (Inl err) \<Rightarrow> Some (Inl err)
              | Some (Inr lan) \<Rightarrow> Some (Inr (wan, lan))))"

section \<open>The crawler's options\<close>

record 'x crawler_options =
  co_protocols :: "string list"
  co_parallelism :: int
  co_connectTimeout :: duration
  co_perMsgTimeout :: duration
  co_msgSenderBuilder :: "'x setting"

datatype 'x crawler_option =
    WithProtocols "string list"
  | WithParallelism int
  | WithMsgTimeout duration
  | WithConnectTimeout duration
  | CrawlerCustomMessageSender 'x

fun crawler_option_apply :: "'x crawler_option \<Rightarrow> 'x crawler_options \<Rightarrow> 'x crawler_options" where
  "crawler_option_apply (WithProtocols ps) c = c\<lparr>co_protocols := ps\<rparr>"
| "crawler_option_apply (WithParallelism n) c = c\<lparr>co_parallelism := n\<rparr>"
| "crawler_option_apply (WithMsgTimeout t) c = c\<lparr>co_perMsgTimeout := t\<rparr>"
| "crawler_option_apply (WithConnectTimeout t) c = c\<lparr>co_connectTimeout := t\<rparr>"
| "crawler_option_apply (CrawlerCustomMessageSender b) c = c\<lparr>co_msgSenderBuilder := Given b\<rparr>"

record 'x DefaultCrawler =
  dc_parallelism :: int
  dc_connectTimeout :: duration
  dc_queryTimeout :: duration
  dc_sender :: "'x + string list \<times> duration"

text \<open>The sender is the given one, or the crawler's own with its protocols and its time per message.\<close>

definition NewDefaultCrawler :: "string option \<Rightarrow> 'x crawler_option list \<Rightarrow> string + 'x DefaultCrawler" where
  "NewDefaultCrawler messengerErr opts =
     (let c = fold crawler_option_apply opts
                \<lparr>co_protocols = [amino_ProtocolID], co_parallelism = 1000, co_connectTimeout = 5 * 1000000000,
                 co_perMsgTimeout = 5 * 1000000000, co_msgSenderBuilder = Unset\<rparr>
      in case messengerErr of
           Some err \<Rightarrow> Inl err
         | None \<Rightarrow>
             Inr \<lparr>dc_parallelism = co_parallelism c, dc_connectTimeout = co_connectTimeout c,
                  dc_queryTimeout = 3 * co_connectTimeout c,
                  dc_sender = (case co_msgSenderBuilder c of
                                 Given b \<Rightarrow> Inl b | _ \<Rightarrow> Inr (co_protocols c, co_perMsgTimeout c))\<rparr>)"

section \<open>Lemmas: applying options\<close>

lemma config_Apply_append:
  "config_Apply i (xs @ ys) c =
     (case config_Apply i xs c of
        None \<Rightarrow> None
      | Some (Inl err) \<Rightarrow> Some (Inl err)
      | Some (Inr c') \<Rightarrow> config_Apply (i + length xs) ys c')"
  by (induction xs arbitrary: i c) (auto split: option.splits sum.splits)

lemma config_Apply_invariant:
  assumes "config_Apply i opts c = Some (Inr c')" and "P c"
    and "\<And>opt c c'. opt \<in> set opts \<Longrightarrow> dht_option_apply opt c = Some (Inr c') \<Longrightarrow> P c \<Longrightarrow> P c'"
  shows "P c'"
  using assms
proof (induction opts arbitrary: i c)
  case (Cons opt opts)
  then obtain c1 where c1: "dht_option_apply opt c = Some (Inr c1)" "config_Apply (i + 1) opts c1 = Some (Inr c')"
    by (auto split: option.splits sum.splits)
  have "P c1" using Cons.prems(3) [OF _ c1(1)] Cons.prems(2) by simp
  show ?case by (rule Cons.IH [OF c1(2) \<open>P c1\<close>]) (rule Cons.prems(3), simp_all)
qed simp




lemma option_apply_unchanged:
  "dht_option_apply opt c = Some (Inr c') \<Longrightarrow> cf_ValidatorChanged c' \<or> cf_ValidatorChanged c = cf_ValidatorChanged c'"
  by (cases opt) (auto simp: Defaults_def split: validator.splits)

text \<open>The steps of a successful configuration.\<close>

lemma configureE:
  assumes "configure options = Some (Inr c)"
  obtains c0 where "config_Apply 1 options (Defaults zero_config) = Some (Inr c0)" "ApplyFallbacks c0 = Some (Inr c)"
    "Validate c = None"
  using assms by (auto simp: configure_def split: option.splits sum.splits)

lemma fallbacks_only_validator:
  assumes "ApplyFallbacks c = Some (Inr c')"
  shows "\<exists>v. c' = c\<lparr>cf_Validator := v\<rparr>"
proof (cases "cf_Validator c")
  case (Namespaced m)
  with assms show ?thesis
    by (cases "cf_ValidatorChanged c") (auto simp: ApplyFallbacks_def Let_def intro: exI [of _ "cf_Validator c"])
qed (use assms in \<open>auto simp: ApplyFallbacks_def split: if_splits intro: exI [of _ "cf_Validator c"]\<close>)



lemma Validate_base:
  assumes "Validate c = None" and "cf_ProtocolPrefix c = amino_ProtocolPrefix"
  shows "cf_BucketSize c = 20 \<and> cf_EnableProviders c \<and> cf_EnableValues c"
  using assms by (auto simp: Validate_def amino_DefaultBucketSize_def split: if_splits)



text \<open>Which options the protocol identifier and the mode depend on.\<close>

fun sets_protocol :: "'x dht_option \<Rightarrow> bool" where
  "sets_protocol DefaultsOption = True"
| "sets_protocol (ProtocolPrefix p) = True"
| "sets_protocol (ProtocolExtension e) = True"
| "sets_protocol (V1ProtocolOverride p) = True"
| "sets_protocol opt = False"

abbreviation protocol_of :: "'x dht_config \<Rightarrow> string list" where
  "protocol_of c \<equiv> dht_protocols (cf_ProtocolPrefix c) (cf_V1ProtocolOverride c)"

lemma option_keeps_protocol:
  "dht_option_apply opt c = Some (Inr c') \<Longrightarrow> \<not> sets_protocol opt \<Longrightarrow>
   cf_ProtocolPrefix c' = cf_ProtocolPrefix c \<and> cf_V1ProtocolOverride c' = cf_V1ProtocolOverride c"
  by (cases opt) (auto split: validator.splits)

lemma Apply_keeps_protocol:
  assumes "config_Apply i opts c = Some (Inr c')" and "\<forall>opt\<in>set opts. \<not> sets_protocol opt"
  shows "cf_ProtocolPrefix c' = cf_ProtocolPrefix c \<and> cf_V1ProtocolOverride c' = cf_V1ProtocolOverride c"
  by (rule config_Apply_invariant [OF assms(1)])
    (use assms(2) option_keeps_protocol in \<open>auto dest!: option_keeps_protocol\<close>)

lemma configure_protocol:
  assumes "configure (own @ options) = Some (Inr c)" and "\<forall>opt\<in>set options. \<not> sets_protocol opt"
    and "config_Apply 1 own (Defaults zero_config) = Some (Inr c1)"
  shows "cf_ProtocolPrefix c = cf_ProtocolPrefix c1 \<and> cf_V1ProtocolOverride c = cf_V1ProtocolOverride c1"
proof -
  from assms(1) obtain c0 where c0: "config_Apply 1 (own @ options) (Defaults zero_config) = Some (Inr c0)"
    "ApplyFallbacks c0 = Some (Inr c)" by (elim configureE)
  from c0(1) assms(3) have "config_Apply (1 + length own) options c1 = Some (Inr c0)" by (simp add: config_Apply_append)
  from Apply_keeps_protocol [OF this assms(2)] fallbacks_only_validator [OF c0(2)] show ?thesis by auto
qed

lemma configure_last_mode:
  assumes "configure (options @ [ModeOption m]) = Some (Inr c)"
  shows "cf_Mode c = m"
proof -
  from assms obtain c0 where c0: "config_Apply 1 (options @ [ModeOption m]) (Defaults zero_config) = Some (Inr c0)"
    "ApplyFallbacks c0 = Some (Inr c)" by (elim configureE)
  from c0(1) have "cf_Mode c0 = m" by (auto simp: config_Apply_append split: option.splits sum.splits)
  with fallbacks_only_validator [OF c0(2)] show ?thesis by auto
qed

section \<open>Lemmas: building a node\<close>

definition env_of :: "('r, 'x, 'd) host_setup \<Rightarrow> 'x dht_config \<Rightarrow> 'r node_env" where
  "env_of hs c = \<lparr>ne_kb = hs_kb hs, ne_cpl = hs_cpl hs, ne_protocols = protocol_of c, ne_auto = cf_Mode c,
     ne_bucketSize = cf_BucketSize c, ne_autoRefresh = cf_AutoRefresh c,
     ne_testAddressUpdateProcessing = cf_TestAddressUpdateProcessing c, ne_disableFixLowPeers = cf_DisableFixLowPeers c\<rparr>"

lemma dht_NewE:
  assumes "dht_New hs options = Some (Inr d)"
  obtains c rt where "configure options = Some (Inr c)" "dt_env d = env_of hs c"
    "hs_NewRoutingTable hs (cf_BucketSize c) (dt_rtThreshold d) (cf_DiversityFilter c \<noteq> Unset) = Inr rt"
    "node_New (dt_env d) rt (cf_LookupCheckConcurrency c) (hs_handlers hs) (hs_conns hs) (hs_view hs) = Inr (dt_node d)"
    "dn_enableValues (dt_records d) = cf_EnableValues c" "dn_enableProviders (dt_records d) = cf_EnableProviders c"
    "dn_bucketSize (dt_records d) = cf_BucketSize c"
proof -
  obtain c where c: "configure options = Some (Inr c)"
    using assms by (auto simp: dht_New_def split: option.splits sum.splits)
  obtain rt threshold where m: "makeDHT hs c = Inr (rt, threshold)"
    using assms c by (auto simp: dht_New_def split: option.splits sum.splits)
  have rt: "hs_NewRoutingTable hs (cf_BucketSize c) (2 * threshold) (cf_DiversityFilter c \<noteq> Unset) = Inr rt"
    using m by (auto simp: makeDHT_def Let_def split: sum.splits option.splits if_splits)
  have e: "dt_env d = env_of hs c" "dt_rtThreshold d = 2 * threshold"
    "node_New (dt_env d) rt (cf_LookupCheckConcurrency c) (hs_handlers hs) (hs_conns hs) (hs_view hs) = Inr (dt_node d)"
    "dn_enableValues (dt_records d) = cf_EnableValues c" "dn_enableProviders (dt_records d) = cf_EnableProviders c"
    "dn_bucketSize (dt_records d) = cf_BucketSize c"
    using assms c m by (auto simp: dht_New_def env_of_def Let_def split: sum.splits option.splits)
  show ?thesis by (rule that [OF c e(1) _ e(3-6)]) (simp add: e(2) rt)
qed

text \<open>The options that the user's choice for both nodes amounts to.\<close>

fun user_wan :: "'o dual_option list \<Rightarrow> 'o list" where
  "user_wan [] = []"
| "user_wan (WanDHTOption os # opts) = os @ user_wan opts"
| "user_wan (LanDHTOption os # opts) = user_wan opts"
| "user_wan (DHTOption os # opts) = os @ user_wan opts"

fun user_lan :: "'o dual_option list \<Rightarrow> 'o list" where
  "user_lan [] = []"
| "user_lan (WanDHTOption os # opts) = user_lan opts"
| "user_lan (LanDHTOption os # opts) = os @ user_lan opts"
| "user_lan (DHTOption os # opts) = os @ user_lan opts"

lemma dual_config_user:
  "dc_wan (dual_config_apply opts c) = dc_wan c @ user_wan opts \<and>
   dc_lan (dual_config_apply opts c) = dc_lan c @ user_lan opts"
  unfolding dual_config_apply_def
proof (induction opts arbitrary: c)
  case (Cons o1 opts)
  show ?case using Cons [of "apply_option o1 c"] by (cases o1) auto
qed simp

lemma dual_New_options:
  "dc_wan (dual_New wanOwn lanOwn m client opts) = wanOwn @ user_wan opts"
  "dc_lan (dual_New wanOwn lanOwn m client opts) =
     lanOwn @ user_lan opts @ (if client (wanOwn @ user_wan opts) then [] else [m])"
  by (simp_all add: dual_New_def Let_def dual_config_user)

section \<open>Properties\<close>


text \<open>The two nodes of a dual DHT never speak the same protocol unless the user sets one: the WAN speaks the Amino
  protocol, with its bucket size, and answers every known kind of message, the LAN speaks its extension; and unless
  the WAN is a client, the LAN is built as a server, whatever mode the user chose for it.\<close>

theorem dual_nodes_separate:
  assumes "dual_DHT f hsWan hsLan options = Some (Inr (wan, lan))"
    and "\<forall>opt\<in>set (user_wan options) \<union> set (user_lan options). \<not> sets_protocol opt"
  shows "ne_protocols (dt_env wan) = [amino_ProtocolID] \<and> ne_protocols (dt_env lan) = [''/ipfs/lan/kad/1.0.0''] \<and>
    dn_bucketSize (dt_records wan) = 20 \<and> (\<forall>t. (\<forall>i. t \<noteq> UnknownType i) \<longrightarrow> handlerForMsgType (dt_records wan) t \<noteq> None) \<and>
    (node_Mode (dt_env wan) \<noteq> ModeClient \<longrightarrow> node_Mode (dt_env lan) = ModeServer \<and> getMode (dt_node lan) = modeServer \<and>
       ''/ipfs/lan/kad/1.0.0'' \<in> set (ms_handlers (nd_modes (dt_node lan))))"
proof -
  let ?wanOpts = "dual_wan_options f @ user_wan options" and ?mode = "ModeOption ModeServer"
  define client where "client = (node_Mode (dt_env wan) = ModeClient)"
  have wan: "dht_New hsWan ?wanOpts = Some (Inr wan)"
    using assms(1) by (auto simp: dual_DHT_def Let_def dual_New_options split: option.splits sum.splits)
  have lan: "dht_New hsLan (dual_lan_options f @ user_lan options @ (if client then [] else [?mode])) = Some (Inr lan)"
    using assms(1) wan by (auto simp: dual_DHT_def Let_def dual_New_options client_def split: option.splits sum.splits)
  from wan obtain cw where cw: "configure ?wanOpts = Some (Inr cw)" "dt_env wan = env_of hsWan cw"
    "dn_enableValues (dt_records wan) = cf_EnableValues cw" "dn_enableProviders (dt_records wan) = cf_EnableProviders cw"
    "dn_bucketSize (dt_records wan) = cf_BucketSize cw" by (elim dht_NewE)
  from lan obtain cl rt where cl: "configure (dual_lan_options f @ user_lan options @ (if client then [] else [?mode])) = Some (Inr cl)"
    "dt_env lan = env_of hsLan cl"
    "node_New (dt_env lan) rt (cf_LookupCheckConcurrency cl) (hs_handlers hsLan) (hs_conns hsLan) (hs_view hsLan) =
       Inr (dt_node lan)" by (elim dht_NewE)
  have own: "\<exists>c1. config_Apply 1 (dual_wan_options f) (Defaults zero_config) = Some (Inr c1) \<and>
      cf_ProtocolPrefix c1 = ''/ipfs'' \<and> cf_V1ProtocolOverride c1 = []"
    "\<exists>c1. config_Apply 1 (dual_lan_options f) (Defaults zero_config) = Some (Inr c1) \<and>
      cf_ProtocolPrefix c1 = ''/ipfs/lan'' \<and> cf_V1ProtocolOverride c1 = []"
    by (simp_all add: dual_wan_options_def dual_lan_options_def Defaults_def zero_config_def amino_ProtocolPrefix_def)
  have pw: "cf_ProtocolPrefix cw = amino_ProtocolPrefix" "cf_V1ProtocolOverride cw = []"
    using own(1) configure_protocol [OF cw(1)] assms(2) by (auto simp: amino_ProtocolPrefix_def)
  have "\<forall>opt\<in>set (user_lan options @ (if client then [] else [?mode])). \<not> sets_protocol opt" using assms(2) by auto
  with own(2) configure_protocol [OF cl(1)] have pl: "cf_ProtocolPrefix cl = ''/ipfs/lan''" "cf_V1ProtocolOverride cl = []"
    by auto
  have "Validate cw = None" using cw(1) by (elim configureE)
  from Validate_base [OF this pw(1)] have base: "dn_bucketSize (dt_records wan) = 20" "dn_enableProviders (dt_records wan)"
    "dn_enableValues (dt_records wan)" by (simp_all add: cw(3-5))
  have all: "handlerForMsgType (dt_records wan) t \<noteq> None" if "\<forall>i. t \<noteq> UnknownType i" for t
    using base(2,3) that by (cases t) (simp_all add: handlerForMsgType_def)
  have protos: "ne_protocols (dt_env wan) = [amino_ProtocolID]" "ne_protocols (dt_env lan) = [''/ipfs/lan/kad/1.0.0'']"
    using pw pl by (simp_all add: cw(2) cl(2) env_of_def dht_protocols_def amino_ProtocolPrefix_def amino_ProtocolID_def)
  have "node_Mode (dt_env lan) = ModeServer \<and> getMode (dt_node lan) = modeServer \<and>
       ''/ipfs/lan/kad/1.0.0'' \<in> set (ms_handlers (nd_modes (dt_node lan)))" if "node_Mode (dt_env wan) \<noteq> ModeClient"
  proof -
    have "configure ((dual_lan_options f @ user_lan options) @ [?mode]) = Some (Inr cl)"
      using cl(1) that by (simp add: client_def)
    from configure_last_mode [OF this] have m: "ne_auto (dt_env lan) = ModeServer" by (simp add: cl(2) env_of_def)
    from node_New_ok [OF cl(3)] m have "getMode (dt_node lan) = modeServer"
      "modes_ok (dt_env lan) (set (hs_handlers hsLan)) (dt_node lan)" by (simp_all add: start_mode_def)
    with m protos(2) show ?thesis by (simp add: modes_ok_def node_Mode_def)
  qed
  with protos base all show ?thesis by blast
qed

section \<open>Witnesses\<close>

definition demo_setup :: "string list \<Rightarrow> (peer_id list, string, string) host_setup" where
  "demo_setup handlers = \<lparr>hs_kb = demo_kb, hs_cpl = length, hs_NewRoutingTable = (\<lambda>size threshold filter. Inr []),
     hs_threshold = (\<lambda>k alpha interval. interval), hs_refreshManagerErr = None, hs_providerManagerErr = None,
     hs_messengerErr = None, hs_subscribeErr = None, hs_self = ''self'', hs_handlers = handlers, hs_conns = [],
     hs_view = demo_view, hs_datastore = (\<lambda>d. ''store'')\<rparr>"


definition demo_dual :: "string dual_filters" where
  "demo_dual = \<lparr>df_PublicQueryFilter = ''a'', df_PublicRoutingTableFilter = ''b'', df_RTPeerDiversityFilter = ''c'',
     df_PublicAddrs = ''d'', df_PrivateQueryFilter = ''e'', df_PrivateRoutingTableFilter = ''f'', df_NoLoopback = ''g''\<rparr>"

theorem dual_nodes_separate_witness:
  "\<exists>wan lan. dual_DHT demo_dual (demo_setup []) (demo_setup [amino_ProtocolID])
      [LanDHTOption [ModeOption ModeClient], DHTOption [Concurrency 3]] = Some (Inr (wan, lan)) \<and>
     node_Mode (dt_env lan) = ModeServer"
proof -
  let ?opts = "[LanDHTOption [ModeOption ModeClient], DHTOption [Concurrency 3]] :: string dht_option dual_option list"
  let ?dual = "dual_DHT demo_dual (demo_setup []) (demo_setup [amino_ProtocolID]) ?opts"
  have "case ?dual of Some (Inr (wan, lan)) \<Rightarrow> node_Mode (dt_env wan) \<noteq> ModeClient | _ \<Rightarrow> False" by code_simp
  then obtain wan lan where d: "?dual = Some (Inr (wan, lan))" "node_Mode (dt_env wan) \<noteq> ModeClient"
    by (auto split: option.splits sum.splits)
  have "\<forall>opt\<in>set (user_wan ?opts) \<union> set (user_lan ?opts). \<not> sets_protocol opt" by simp
  from dual_nodes_separate [OF d(1) this] d(2) have "node_Mode (dt_env lan) = ModeServer" by blast
  with d(1) show ?thesis by blast
qed

text \<open>Under another prefix a namespaced validator option does replace the validator of public keys.\<close>

lemma pk_overridden:
  "\<exists>c m. configure [ProtocolPrefix ''/x'', NamespacedValidatorOption ''pk'' (OtherVal 1)] = Some (Inr c) \<and>
     cf_Validator c = Namespaced m \<and> map_of m ''pk'' = Some (OtherVal 1)"
  by (simp add: configure_def Defaults_def zero_config_def ApplyFallbacks_def Validate_def amino_ProtocolPrefix_def
      gm_has_def Let_def)

end
