(* ===== verification/Event_Channel.thy ===== *)
theory Event_Channel
  imports LookupEvents "HOL-Library.Sublist"
begin

text \<open>
  The channel of lookup events (\<^verbatim>\<open>events.go\<close>): a caller registers a channel in a context, every lookup that runs
  under this context publishes its events to it, and a goroutine closes it when the context ends. Sending
  and closing exclude each other by a lock, which a sender keeps while it waits for room in the channel.

  The senders, the goroutine that waits for the context and the reader interleave between their accesses to the
  lock, to the channel and to the contexts. A send to a closed channel and a second close are panics: they set a
  flag, which is proved never to be set.
\<close>

section \<open>The channel and its goroutines\<close>

definition LookupEventBufferSize :: nat where
  "LookupEventBufferSize = 16"

datatype 'e ec_sender = EsIdle | EsLock 'e | EsSelect 'e

text \<open>
  The state of the code is the lock, the field \<^verbatim>\<open>ch\<close> (nil or not), the channel's buffer and whether it is closed,
  whether the closing goroutine still waits, and the two kinds of contexts. What was published, delivered and received is recorded beside it.
\<close>

record 'e lookupEventChannel =
  ec_mu :: "nat option"
  ec_ch :: bool
  ec_closed :: bool
  ec_buf :: "'e list"
  ec_waiting :: bool
  ec_ctxDone :: bool
  ec_ownDone :: "nat set"
  ec_senders :: "nat \<Rightarrow> 'e ec_sender"
  ec_panicked :: bool
  ec_published :: "(nat \<times> 'e) list"
  ec_delivered :: "(nat \<times> 'e) list"
  ec_received :: "'e list"

datatype 'e ec_event =
    EcPublish nat 'e
  | EcLock nat
  | EcSend nat
  | EcAbort nat
  | EcClose
  | EcReceive
  | EcCtxDone
  | EcOwnDone nat

definition RegisterForLookupEvents :: "'e lookupEventChannel" where
  "RegisterForLookupEvents = \<lparr>ec_mu = None, ec_ch = True, ec_closed = False, ec_buf = [], ec_waiting = True, ec_ctxDone = False, ec_ownDone = {},
     ec_senders = (\<lambda>i. EsIdle), ec_panicked = False, ec_published = [], ec_delivered = [], ec_received = []\<rparr>"

text \<open>\<open>send_lock\<close> is the sender with the lock: it returns at once when the channel is gone.\<close>

definition send_lock :: "nat \<Rightarrow> 'e \<Rightarrow> 'e lookupEventChannel \<Rightarrow> 'e lookupEventChannel" where
  "send_lock i ev e =
     (if \<not> ec_ch e then e\<lparr>ec_senders := (ec_senders e)(i := EsIdle)\<rparr>
      else e\<lparr>ec_mu := Some i, ec_senders := (ec_senders e)(i := EsSelect ev)\<rparr>)"

definition send_unlock :: "nat \<Rightarrow> 'e lookupEventChannel \<Rightarrow> 'e lookupEventChannel" where
  "send_unlock i e = e\<lparr>ec_mu := None, ec_senders := (ec_senders e)(i := EsIdle)\<rparr>"

text \<open>The three branches of the \<^verbatim>\<open>select\<close>: delivering, and the end of one of the two contexts.\<close>

definition send_deliver :: "nat \<Rightarrow> 'e \<Rightarrow> 'e lookupEventChannel \<Rightarrow> 'e lookupEventChannel option" where
  "send_deliver i ev e =
     (if ec_closed e then Some (e\<lparr>ec_panicked := True\<rparr>)
      else if length (ec_buf e) < LookupEventBufferSize
      then Some (send_unlock i (e\<lparr>ec_buf := ec_buf e @ [ev], ec_delivered := ec_delivered e @ [(i, ev)]\<rparr>))
      else None)"

definition send_abort :: "nat \<Rightarrow> 'e lookupEventChannel \<Rightarrow> 'e lookupEventChannel option" where
  "send_abort i e = (if ec_ctxDone e \<or> i \<in> ec_ownDone e then Some (send_unlock i e) else None)"

definition waitThenClose :: "'e lookupEventChannel \<Rightarrow> 'e lookupEventChannel option" where
  "waitThenClose e =
     (if ec_waiting e \<and> ec_ctxDone e \<and> ec_mu e = None
      then Some (if ec_closed e then e\<lparr>ec_panicked := True\<rparr>
                 else e\<lparr>ec_closed := True, ec_ch := False, ec_waiting := False\<rparr>)
      else None)"

definition publish_to :: "bool \<Rightarrow> nat \<Rightarrow> 'e \<Rightarrow> 'e lookupEventChannel \<Rightarrow> 'e lookupEventChannel" where
  "publish_to registered i ev e =
     (if \<not> registered then e
      else e\<lparr>ec_senders := (ec_senders e)(i := EsLock ev), ec_published := ec_published e @ [(i, ev)]\<rparr>)"

definition ec_step :: "'e ec_event \<Rightarrow> 'e lookupEventChannel \<Rightarrow> 'e lookupEventChannel option" where
  "ec_step a e =
     (case a of
        EcPublish i ev \<Rightarrow> (if ec_senders e i = EsIdle then Some (publish_to True i ev e) else None)
      | EcLock i \<Rightarrow>
          (case ec_senders e i of
             EsLock ev \<Rightarrow> if ec_mu e = None then Some (send_lock i ev e) else None
           | _ \<Rightarrow> None)
      | EcSend i \<Rightarrow> (case ec_senders e i of EsSelect ev \<Rightarrow> send_deliver i ev e | _ \<Rightarrow> None)
      | EcAbort i \<Rightarrow> (case ec_senders e i of EsSelect ev \<Rightarrow> send_abort i e | _ \<Rightarrow> None)
      | EcClose \<Rightarrow> waitThenClose e
      | EcReceive \<Rightarrow>
          (case ec_buf e of
             [] \<Rightarrow> None
           | ev # evs \<Rightarrow> Some (e\<lparr>ec_buf := evs, ec_received := ec_received e @ [ev]\<rparr>))
      | EcCtxDone \<Rightarrow> Some (e\<lparr>ec_ctxDone := True\<rparr>)
      | EcOwnDone i \<Rightarrow> Some (e\<lparr>ec_ownDone := insert i (ec_ownDone e)\<rparr>))"

fun ec_run :: "'e ec_event list \<Rightarrow> 'e lookupEventChannel \<Rightarrow> 'e lookupEventChannel option" where
  "ec_run [] e = Some e"
| "ec_run (a # as) e = Option.bind (ec_step a e) (ec_run as)"

lemma ec_run_append: "ec_run (as @ bs) e = Option.bind (ec_run as e) (ec_run bs)"
  by (induction as arbitrary: e) (simp_all split: Option.bind_split)

text \<open>An inductive reading of the steps, for rule induction over what is reachable.\<close>

inductive ec_reachable :: "'e lookupEventChannel \<Rightarrow> bool" where
  ec_start: "ec_reachable RegisterForLookupEvents"
| ec_next: "ec_reachable e \<Longrightarrow> ec_step a e = Some e' \<Longrightarrow> ec_reachable e'"

lemma ec_run_reachable: "ec_run as e = Some e' \<Longrightarrow> ec_reachable e \<Longrightarrow> ec_reachable e'"
  by (induction as arbitrary: e) (auto simp: bind_eq_Some_conv dest: ec_next)

section \<open>Invariant\<close>

text \<open>
  The lock is held exactly by the sender in its \<^verbatim>\<open>select\<close>, the field and the channel are closed together and only
  with the lock free, and each sender's deliveries are, in order, among what it published.
\<close>

definition own :: "nat \<Rightarrow> (nat \<times> 'e) list \<Rightarrow> 'e list" where
  "own i xs = map snd (filter (\<lambda>(j, ev). j = i) xs)"

fun in_flight :: "'e ec_sender \<Rightarrow> 'e list" where
  "in_flight EsIdle = []"
| "in_flight (EsLock ev) = [ev]"
| "in_flight (EsSelect ev) = [ev]"

definition ec_inv :: "'e lookupEventChannel \<Rightarrow> bool" where
  "ec_inv e \<longleftrightarrow> \<not> ec_panicked e \<and> (ec_closed e \<longleftrightarrow> \<not> ec_ch e) \<and> (ec_closed e \<longleftrightarrow> \<not> ec_waiting e) \<and> (ec_closed e \<longrightarrow> ec_ctxDone e \<and> ec_mu e = None) \<and>
     (\<forall>i. (\<exists>ev. ec_senders e i = EsSelect ev) \<longleftrightarrow> ec_mu e = Some i) \<and>
     length (ec_buf e) \<le> LookupEventBufferSize \<and> ec_received e @ ec_buf e = map snd (ec_delivered e) \<and>
     (\<forall>i. subseq (own i (ec_delivered e) @ in_flight (ec_senders e i)) (own i (ec_published e)))"

lemma own_append [simp]: "own i (xs @ [(j, ev)]) = own i xs @ (if j = i then [ev] else [])"
  by (simp add: own_def)

lemma own_Nil [simp]: "own i [] = []"
  by (simp add: own_def)

lemma subseq_drop_last: "subseq (xs @ ys) zs \<Longrightarrow> subseq xs zs"
  using subseq_order.order_trans [OF subseq_rev_drop_many [OF subseq_order.refl]] .

lemma ec_inv_start: "ec_inv RegisterForLookupEvents"
  by (simp add: ec_inv_def RegisterForLookupEvents_def)

lemmas ec_step_defs = ec_step_def send_lock_def send_unlock_def send_deliver_def send_abort_def waitThenClose_def publish_to_def

lemma ec_step_elim:
  assumes "ec_step a e = Some e'"
  obtains
    (Publish) i ev where "a = EcPublish i ev" "ec_senders e i = EsIdle" "e' = publish_to True i ev e"
  | (Lock) i ev where "a = EcLock i" "ec_senders e i = EsLock ev" "ec_mu e = None" "e' = send_lock i ev e"
  | (Send) i ev where "a = EcSend i" "ec_senders e i = EsSelect ev" "send_deliver i ev e = Some e'"
  | (Abort) i ev where "a = EcAbort i" "ec_senders e i = EsSelect ev" "send_abort i e = Some e'"
  | (Close) "a = EcClose" "waitThenClose e = Some e'"
  | (Receive) ev evs where "a = EcReceive" "ec_buf e = ev # evs" "e' = e\<lparr>ec_buf := evs, ec_received := ec_received e @ [ev]\<rparr>"
  | (CtxDone) "a = EcCtxDone" "e' = e\<lparr>ec_ctxDone := True\<rparr>"
  | (OwnDone) i where "a = EcOwnDone i" "e' = e\<lparr>ec_ownDone := insert i (ec_ownDone e)\<rparr>"
proof (cases a)
  case (EcPublish i ev)
  then show thesis using assms Publish by (auto simp: ec_step_def split: if_splits)
next
  case (EcLock i)
  then show thesis using assms Lock by (auto simp: ec_step_def split: if_splits ec_sender.splits)
next
  case (EcSend i)
  then show thesis using assms Send by (auto simp: ec_step_def split: ec_sender.splits)
next
  case (EcAbort i)
  then show thesis using assms Abort by (auto simp: ec_step_def split: ec_sender.splits)
next
  case EcClose
  then show thesis using assms Close by (simp add: ec_step_def)
next
  case EcReceive
  then show thesis using assms Receive by (auto simp: ec_step_def split: list.splits)
next
  case EcCtxDone
  then show thesis using assms CtxDone by (simp add: ec_step_def)
next
  case (EcOwnDone i)
  then show thesis using assms OwnDone by (simp add: ec_step_def)
qed

lemma ec_step_inv:
  assumes "ec_step a e = Some e'" and "ec_inv e"
  shows "ec_inv e'"
proof -
  have i: "\<not> ec_panicked e" "ec_closed e \<longleftrightarrow> \<not> ec_ch e" "ec_closed e \<longleftrightarrow> \<not> ec_waiting e"
    "ec_closed e \<longrightarrow> ec_ctxDone e \<and> ec_mu e = None" "\<And>i. (\<exists>ev. ec_senders e i = EsSelect ev) \<longleftrightarrow> ec_mu e = Some i"
    "length (ec_buf e) \<le> LookupEventBufferSize" "ec_received e @ ec_buf e = map snd (ec_delivered e)"
    "\<And>i. subseq (own i (ec_delivered e) @ in_flight (ec_senders e i)) (own i (ec_published e))"
    using assms(2) unfolding ec_inv_def by blast+
  from assms(1) show ?thesis
  proof (cases rule: ec_step_elim)
    case (Publish j ev)
    have "subseq (own i (ec_delivered e)) (own i (ec_published e))" for i
      using i(8) [of i] by (rule subseq_drop_last)
    moreover have "ec_mu e \<noteq> Some j" using i(5) [of j] Publish(2) by auto
    ultimately show ?thesis
      using i Publish(2) by (auto simp: ec_inv_def Publish(3) publish_to_def)
  next
    case (Lock j ev)
    have "ec_senders e k \<noteq> EsSelect x" for k x using i(5) [of k] Lock(3) by auto
    moreover have "subseq (own k (ec_delivered e)) (own k (ec_published e))" for k
      using i(8) [of k] by (rule subseq_drop_last)
    ultimately show ?thesis
      using i Lock(2,3) i(8) [of j] by (auto simp: ec_inv_def Lock(4) send_lock_def)
  next
    case (Send j ev)
    have m: "ec_mu e = Some j" using i(5) Send(2) by blast
    then have "\<not> ec_closed e" using i(4) by auto
    moreover have "ec_senders e k \<noteq> EsSelect x" if "k \<noteq> j" for k x using i(5) [of k] m that by auto
    ultimately show ?thesis
      using i Send(2,3) m i(8) [of j]
      by (auto simp: ec_inv_def send_deliver_def send_unlock_def Suc_le_eq split: if_splits)
  next
    case (Abort j ev)
    have m: "ec_mu e = Some j" using i(5) Abort(2) by blast
    have e': "e' = send_unlock j e" using Abort(3) by (auto simp: send_abort_def split: if_splits)
    have "(\<exists>x. ec_senders e' k = EsSelect x) \<longleftrightarrow> ec_mu e' = Some k" for k
      using i(5) [of k] m by (auto simp: e' send_unlock_def)
    moreover have "subseq (own k (ec_delivered e') @ in_flight (ec_senders e' k)) (own k (ec_published e'))" for k
      using i(8) [of k] subseq_drop_last by (auto simp: e' send_unlock_def)
    moreover have "\<not> ec_closed e" using i(4) m by auto
    ultimately show ?thesis
      unfolding ec_inv_def using i(1-3,6,7) by (simp add: e' send_unlock_def)
  next
    case Close
    then show ?thesis using i by (auto simp: ec_inv_def waitThenClose_def split: if_splits)
  qed (use i in \<open>auto simp: ec_inv_def\<close>)
qed

lemma ec_reachable_inv: "ec_reachable e \<Longrightarrow> ec_inv e"
  by (induction rule: ec_reachable.induct) (auto intro: ec_inv_start ec_step_inv)

section \<open>After the end of the context\<close>

lemma ec_step_closed:
  "ec_step a e = Some e' \<Longrightarrow> ec_inv e \<Longrightarrow> ec_closed e \<Longrightarrow> ec_closed e' \<and> ec_delivered e' = ec_delivered e"
  by (erule ec_step_elim) (auto simp: ec_inv_def ec_step_defs split: if_splits)

lemma ec_run_closed:
  "ec_run as e = Some e' \<Longrightarrow> ec_inv e \<Longrightarrow> ec_closed e \<Longrightarrow> ec_delivered e' = ec_delivered e"
proof (induction as arbitrary: e)
  case (Cons a as)
  then obtain t where t: "ec_step a e = Some t" "ec_run as t = Some e'" by (auto simp: bind_eq_Some_conv)
  show ?case
    using Cons.IH [OF t(2) ec_step_inv [OF t(1) Cons.prems(2)]] ec_step_closed [OF t(1) Cons.prems(2,3)] by simp
qed simp

definition busy :: "'e lookupEventChannel \<Rightarrow> nat set" where
  "busy e = {i. ec_senders e i \<noteq> EsIdle}"

lemma ec_reachable_finite: "ec_reachable e \<Longrightarrow> finite (busy e)"
proof (induction rule: ec_reachable.induct)
  case (ec_next e a e')
  have "\<exists>i. busy e' \<subseteq> insert i (busy e)"
    using ec_next.hyps(2) by (rule ec_step_elim) (auto simp: busy_def ec_step_defs split: if_splits)
  then show ?case using ec_next.IH finite_subset by blast
qed (simp add: busy_def RegisterForLookupEvents_def)

text \<open>Once the channel is closed, every sender that wants the lock gets it and returns.\<close>

lemma ec_drain:
  assumes "finite B" and "busy e = B" and "ec_inv e" and "ec_closed e"
  shows "\<exists>as e'. set as \<subseteq> EcLock ` B \<and> ec_run as e = Some e' \<and> busy e' = {} \<and> ec_closed e'"
  using assms
proof (induction B arbitrary: e rule: finite_induct)
  case empty
  then show ?case by (intro exI [of _ "[]"] exI [of _ e]) simp
next
  case (insert i B)
  have "ec_mu e = None" "\<not> ec_ch e" "\<And>ev. ec_senders e i \<noteq> EsSelect ev" using insert.prems by (auto simp: ec_inv_def)
  moreover from this insert.prems(1) obtain ev where "ec_senders e i = EsLock ev"
    by (cases "ec_senders e i") (auto simp: busy_def)
  ultimately obtain t where t: "ec_step (EcLock i) e = Some t" "t = e\<lparr>ec_senders := (ec_senders e)(i := EsIdle)\<rparr>"
    by (simp add: ec_step_def send_lock_def)
  have "busy t = busy e - {i}" by (auto simp: t(2) busy_def)
  then have b: "busy t = B" using insert.prems(1) insert.hyps(2) by auto
  have "ec_closed t" by (simp add: t(2) insert.prems(3))
  from insert.IH [OF b ec_step_inv [OF t(1) insert.prems(2)] this] obtain as e' where
    "set as \<subseteq> EcLock ` B" "ec_run as t = Some e'" "busy e' = {}" "ec_closed e'" by blast
  then show ?case using t(1) by (intro exI [of _ "EcLock i # as"] exI [of _ e']) auto
qed

text \<open>A sender with the lock leaves it when the context has ended.\<close>

lemma ec_unlock:
  assumes "ec_inv e" and "ec_ctxDone e"
  shows "\<exists>as e'. set as \<subseteq> EcAbort ` busy e \<and> ec_run as e = Some e' \<and> ec_mu e' = None \<and> ec_ctxDone e' \<and> busy e' \<subseteq> busy e"
proof (cases "ec_mu e")
  case None
  then show ?thesis using assms(2) by (intro exI [of _ "[]"] exI [of _ e]) simp
next
  case (Some i)
  then obtain ev where "ec_senders e i = EsSelect ev" using assms(1) unfolding ec_inv_def by blast
  then show ?thesis
    using assms(2)
    by (intro exI [of _ "[EcAbort i]"] exI [of _ "send_unlock i e"])
      (auto simp: ec_step_def send_abort_def send_unlock_def busy_def)
qed

text \<open>
  A sender that waits for the lock does not look at its own context: as long as the sender with the lock neither
  delivers nor gives up, it stays where it is, whatever else happens.
\<close>

lemma lock_ignores_context:
  assumes "ec_run as e = Some e'" and "ec_senders e i = EsLock ev" and "ec_mu e = Some j"
    and "EcSend j \<notin> set as" and "EcAbort j \<notin> set as" and "ec_inv e"
  shows "ec_senders e' i = EsLock ev"
  using assms
proof (induction as arbitrary: e)
  case (Cons a as)
  then obtain t where t: "ec_step a e = Some t" "ec_run as t = Some e'" by (auto simp: bind_eq_Some_conv)
  have u: "\<And>k x. ec_senders e k = EsSelect x \<Longrightarrow> k = j" using Cons.prems(3,6) by (auto simp: ec_inv_def)
  have "ec_senders t i = EsLock ev \<and> ec_mu t = Some j"
    using t(1) Cons.prems(2-5)
    by (rule_tac ec_step_elim [OF t(1)]) (auto simp: ec_step_defs split: if_splits dest: u)
  then show ?case using Cons.IH [OF t(2)] Cons.prems(4-6) ec_step_inv [OF t(1)] by simp
qed simp

section \<open>Properties\<close>

text \<open>C31: Nobody sends on the closed channel or closes it twice. The reader gets the delivered events in the order of
  their delivery, at most sixteen of them wait in the channel, and each sender's events stay in order. Nothing
  is delivered once the channel is closed.\<close>

theorem lookup_events_ordered:
  assumes "ec_run as RegisterForLookupEvents = Some e"
  shows "\<not> ec_panicked e \<and> ec_received e @ ec_buf e = map snd (ec_delivered e) \<and> length (ec_buf e) \<le> LookupEventBufferSize \<and>
    (\<forall>i. subseq (map snd (filter (\<lambda>(j, ev). j = i) (ec_delivered e))) (map snd (filter (\<lambda>(j, ev). j = i) (ec_published e)))) \<and>
    (\<forall>bs e'. ec_closed e \<longrightarrow> ec_run bs e = Some e' \<longrightarrow> ec_delivered e' = ec_delivered e)"
proof -
  have i: "ec_inv e" using ec_reachable_inv [OF ec_run_reachable [OF assms ec_start]] .
  then have "subseq (own k (ec_delivered e)) (own k (ec_published e))" for k
    unfolding ec_inv_def using subseq_drop_last by blast
  then show ?thesis using i ec_run_closed [OF _ i] by (auto simp: ec_inv_def own_def)
qed

text \<open>When the context ends, no sender stays behind: without any help of the reader the channel is closed and
  every sender that is publishing returns.\<close>

theorem lookup_events_released:
  assumes "ec_run as RegisterForLookupEvents = Some e" and "ec_ctxDone e"
  shows "\<exists>bs e'. ec_run bs e = Some e' \<and> EcReceive \<notin> set bs \<and> ec_closed e' \<and> (\<forall>i. ec_senders e' i = EsIdle)"
proof -
  have r: "ec_reachable e" using ec_run_reachable [OF assms(1) ec_start] .
  obtain us t where t: "set us \<subseteq> EcAbort ` busy e" "ec_run us e = Some t" "ec_mu t = None" "ec_ctxDone t" "busy t \<subseteq> busy e"
    using ec_unlock [OF ec_reachable_inv [OF r] assms(2)] by blast
  have i: "ec_inv t" using ec_reachable_inv [OF ec_run_reachable [OF t(2) r]] .
  define u where "u = (if ec_closed t then t else t\<lparr>ec_closed := True, ec_ch := False, ec_waiting := False\<rparr>)"
  define cs where "cs = (if ec_closed t then [] else [EcClose :: 'a ec_event])"
  have u: "ec_run cs t = Some u"
    using i t(3,4) by (auto simp: u_def cs_def ec_step_def waitThenClose_def ec_inv_def)
  have "busy u = busy t" "ec_closed u" by (simp_all add: u_def busy_def)
  have run: "ec_run (us @ cs) e = Some u" using t(2) u by (simp add: ec_run_append)
  have ru: "ec_reachable u" using ec_run_reachable [OF run r] .
  from ec_drain [OF ec_reachable_finite [OF ru] refl ec_reachable_inv [OF ru] \<open>ec_closed u\<close>]
  obtain ls e' where l: "set ls \<subseteq> EcLock ` busy u" "ec_run ls u = Some e'" "busy e' = {}" "ec_closed e'" by blast
  have "ec_run ((us @ cs) @ ls) e = Some e'" unfolding ec_run_append [of "us @ cs"] run by (simp add: l(2))
  moreover have "EcReceive \<notin> set ((us @ cs) @ ls)" using t(1) l(1) by (auto simp: cs_def split: if_splits)
  moreover have "\<forall>i. ec_senders e' i = EsIdle" using l(3) by (auto simp: busy_def)
  ultimately show ?thesis using l(4) by blast
qed

section \<open>Witnesses\<close>

definition demo_events :: "nat ec_event list" where
  "demo_events = [EcPublish 0 5, EcPublish 1 6, EcLock 1, EcSend 1, EcReceive, EcLock 0, EcCtxDone]"

lemma demo_events_run: "ec_run demo_events RegisterForLookupEvents \<noteq> None"
  by (simp add: demo_events_def ec_step_defs RegisterForLookupEvents_def LookupEventBufferSize_def)

theorem lookup_events_ordered_witness:
  "\<exists>e. ec_run demo_events RegisterForLookupEvents = Some e \<and> \<not> ec_panicked e \<and> length (ec_buf e) \<le> 16"
proof -
  obtain e where e: "ec_run demo_events RegisterForLookupEvents = Some e" using demo_events_run by blast
  from lookup_events_ordered [OF this] e show ?thesis by (simp add: LookupEventBufferSize_def)
qed

theorem lookup_events_released_witness:
  "\<exists>e bs e'. ec_run demo_events RegisterForLookupEvents = Some e \<and> ec_mu e = Some 0 \<and> ec_run bs e = Some e' \<and> ec_closed e' \<and>
     ec_senders e' 0 = EsIdle"
proof -
  obtain e where e: "ec_run demo_events RegisterForLookupEvents = Some e" using demo_events_run by blast
  moreover from e have "ec_ctxDone e \<and> ec_mu e = Some 0"
    by (auto simp: demo_events_def ec_step_defs RegisterForLookupEvents_def LookupEventBufferSize_def)
  ultimately show ?thesis using lookup_events_released [OF e] by blast
qed

end
