(* ===== verification/Lifecycle.thy ===== *)
theory Lifecycle
  imports Node_Maintenance
begin

text \<open>
  The life of a node (\<^verbatim>\<open>dht.go\<close>, \<^verbatim>\<open>subscriber_notifee.go\<close>, \<^verbatim>\<open>rtrefresh/rt_refresh_manager.go\<close>): the
  goroutines that \<open>New\<close> starts, what each of them may do and when it ends, and \<open>Close\<close>, which ends the
  node's context, waits for the loops counted in its wait group and closes the refresh manager and the provider
  store at the same time.

  The work of the loops is that of \<open>Node_Maintenance\<close>; here it is tied to the goroutine that does it. A goroutine that has
  both work and an ended context chooses either. The loop of the refresh manager hands the end of a refresh to the
  routing table loop over an unbuffered channel, unless the context ends first. A lookup check, a query of a caller and a
  goroutine that waits to hand over a peer belong to no wait group. The provider store is the node's own manager.
\<close>

section \<open>Goroutines\<close>

datatype wg_loop = RtPeerLoop | SubscriberLoop | FixLowLoop

text \<open>The loop that does some work; \<open>None\<close> for work of other goroutines.\<close>

fun loop_of :: "node_event \<Rightarrow> wg_loop option" where
  "loop_of (PeerChanged hv p) = Some SubscriberLoop"
| "loop_of AddressesUpdated = Some SubscriberLoop"
| "loop_of (ConnectednessChanged p c) = Some SubscriberLoop"
| "loop_of (ReachabilityChanged r) = Some SubscriberLoop"
| "loop_of TimerFired = Some RtPeerLoop"
| "loop_of (AddPeer p now) = Some RtPeerLoop"
| "loop_of RefreshFinished = Some RtPeerLoop"
| "loop_of (FixSignalled hv) = Some FixLowLoop"
| "loop_of (FixTicked hv) = Some FixLowLoop"
| "loop_of (CheckDone p answer) = None"
| "loop_of (QuerySucceeded p) = None"
| "loop_of (QueryFailed p) = None"

text \<open>The refresh loop waits, refreshes (after pinging old peers, except at the start), or reports that it has finished.\<close>

datatype refresh_pc = RfIdle | RfRefreshing bool | RfReporting | RfExited

datatype close_pc = NotClosing | WaitLoops | WaitServices bool "string option option" | CloseReturned "string list"

record 'r lifecycle =
  lc_node :: "'r node"
  lc_ctxDone :: bool
  lc_wg :: "wg_loop list"
  lc_persist :: bool
  lc_refresh :: refresh_pc
  lc_requesters :: nat
  lc_provStore :: bool
  lc_close :: close_pc
  lc_renewed :: "peer_id list"

text \<open>
  What \<open>New\<close> has started when it returns. The subscriber and the routing table loop always run, the refresh
  manager's loop starts with a refresh if the table is refreshed by itself.
\<close>

definition lc_New :: "'r node_env \<Rightarrow> 'r node \<Rightarrow> 'r lifecycle" where
  "lc_New env n =
     \<lparr>lc_node = n, lc_ctxDone = False,
      lc_wg = [SubscriberLoop, RtPeerLoop] @ (if ne_disableFixLowPeers env then [] else [FixLowLoop]),
      lc_persist = True, lc_refresh = (if ne_autoRefresh env then RfRefreshing False else RfIdle), lc_requesters = 0,
      lc_provStore = True, lc_close = NotClosing, lc_renewed = []\<rparr>"

datatype lc_event =
    LcNode node_event
  | LcWaiterGivesUp peer_id
  | LcPersistTick
  | LcRefreshTick
  | LcRequest
  | LcRequestTaken
  | LcRequestGivesUp
  | LcEvict peer_id
  | LcRefreshed bool
  | LcReportGivesUp
  | LcParentDone
  | LcClose
  | LcLoopExit wg_loop
  | LcPersistExit
  | LcRefreshExit
  | LcProvStoreExit
  | LcLoopsJoined
  | LcRefreshClosed
  | LcProvStoreClosed "string option"
  | LcCloseReturns

text \<open>\<^verbatim>\<open>persistRTPeersInPeerStore\<close>: the addresses of the table's members are renewed.\<close>

definition persist_tick :: "'r node_env \<Rightarrow> 'r lifecycle \<Rightarrow> 'r lifecycle" where
  "persist_tick env s = s\<lparr>lc_renewed := lc_renewed s @ kb_ListPeers (ne_kb env) (nd_rt (lc_node s))\<rparr>"

fun is_report :: "node_event \<Rightarrow> bool" where
  "is_report RefreshFinished = True"
| "is_report _ = False"

text \<open>Work of a loop needs the loop, and the end of a refresh also the refresh manager that reports it.\<close>

definition lc_work :: "'r node_env \<Rightarrow> node_event \<Rightarrow> 'r lifecycle \<Rightarrow> 'r lifecycle option" where
  "lc_work env ev s =
     (if (case loop_of ev of None \<Rightarrow> True | Some l \<Rightarrow> l \<in> set (lc_wg s)) \<and> (is_report ev \<longrightarrow> lc_refresh s = RfReporting)
      then map_option (\<lambda>n. s\<lparr>lc_node := n, lc_refresh := (if is_report ev then RfIdle else lc_refresh s)\<rparr>)
             (node_step env ev (lc_node s))
      else None)"

definition lc_Close :: "'r lifecycle \<Rightarrow> 'r lifecycle" where
  "lc_Close s = s\<lparr>lc_ctxDone := True, lc_close := WaitLoops\<rparr>"

text \<open>The errors of the two \<^verbatim>\<open>Close\<close> calls together; that of the refresh manager is nil.\<close>

definition combine_errors :: "string option list \<Rightarrow> string list" where
  "combine_errors errs = List.map_filter id errs"

definition lc_step :: "'r node_env \<Rightarrow> lc_event \<Rightarrow> 'r lifecycle \<Rightarrow> 'r lifecycle option" where
  "lc_step env ev s =
     (case ev of
        LcNode e \<Rightarrow> lc_work env e s
      | LcWaiterGivesUp p \<Rightarrow>
          if lc_ctxDone s \<and> p \<in> set (nd_addPeerToRT (lc_node s))
          then Some (s\<lparr>lc_node := (lc_node s)\<lparr>nd_addPeerToRT := remove1 p (nd_addPeerToRT (lc_node s))\<rparr>\<rparr>) else None
      | LcPersistTick \<Rightarrow> if lc_persist s then Some (persist_tick env s) else None
      | LcRefreshTick \<Rightarrow> if lc_refresh s = RfIdle \<and> ne_autoRefresh env then Some (s\<lparr>lc_refresh := RfRefreshing True\<rparr>) else None
      | LcRequest \<Rightarrow> Some (s\<lparr>lc_requesters := lc_requesters s + 1\<rparr>)
      | LcRequestTaken \<Rightarrow>
          if lc_refresh s = RfIdle \<and> lc_requesters s > 0
          then Some (s\<lparr>lc_refresh := RfRefreshing True, lc_requesters := lc_requesters s - 1\<rparr>) else None
      | LcRequestGivesUp \<Rightarrow>
          if lc_ctxDone s \<and> lc_requesters s > 0 then Some (s\<lparr>lc_requesters := lc_requesters s - 1\<rparr>) else None
      | LcEvict p \<Rightarrow>
          if lc_refresh s = RfRefreshing True then Some (s\<lparr>lc_node := peerStoppedDHT env p (lc_node s)\<rparr>) else None
      | LcRefreshed reports \<Rightarrow>
          (case lc_refresh s of
             RfRefreshing pinged \<Rightarrow> Some (s\<lparr>lc_refresh := (if reports then RfReporting else RfIdle)\<rparr>)
           | _ \<Rightarrow> None)
      | LcReportGivesUp \<Rightarrow> if lc_refresh s = RfReporting \<and> lc_ctxDone s then Some (s\<lparr>lc_refresh := RfIdle\<rparr>) else None
      | LcParentDone \<Rightarrow> Some (s\<lparr>lc_ctxDone := True\<rparr>)
      | LcClose \<Rightarrow> if lc_close s = NotClosing then Some (lc_Close s) else None
      | LcLoopExit l \<Rightarrow> if lc_ctxDone s \<and> l \<in> set (lc_wg s) then Some (s\<lparr>lc_wg := removeAll l (lc_wg s)\<rparr>) else None
      | LcPersistExit \<Rightarrow> if lc_ctxDone s \<and> lc_persist s then Some (s\<lparr>lc_persist := False\<rparr>) else None
      | LcRefreshExit \<Rightarrow> if lc_ctxDone s \<and> lc_refresh s = RfIdle then Some (s\<lparr>lc_refresh := RfExited\<rparr>) else None
      | LcProvStoreExit \<Rightarrow> if lc_ctxDone s \<and> lc_provStore s then Some (s\<lparr>lc_provStore := False\<rparr>) else None
      | LcLoopsJoined \<Rightarrow>
          if lc_close s = WaitLoops \<and> lc_wg s = [] then Some (s\<lparr>lc_close := WaitServices False None\<rparr>) else None
      | LcRefreshClosed \<Rightarrow>
          (case lc_close s of
             WaitServices False e \<Rightarrow>
               if lc_refresh s = RfExited \<and> lc_requesters s = 0 then Some (s\<lparr>lc_close := WaitServices True e\<rparr>) else None
           | _ \<Rightarrow> None)
      | LcProvStoreClosed err \<Rightarrow>
          (case lc_close s of
             WaitServices r None \<Rightarrow>
               if \<not> lc_provStore s \<and> err = None then Some (s\<lparr>lc_close := WaitServices r (Some err)\<rparr>) else None
           | _ \<Rightarrow> None)
      | LcCloseReturns \<Rightarrow>
          (case lc_close s of
             WaitServices True (Some err) \<Rightarrow> Some (s\<lparr>lc_close := CloseReturned (combine_errors [None, err])\<rparr>)
           | _ \<Rightarrow> None))"

fun lc_run :: "'r node_env \<Rightarrow> lc_event list \<Rightarrow> 'r lifecycle \<Rightarrow> 'r lifecycle option" where
  "lc_run env [] s = Some s"
| "lc_run env (ev # evs) s = Option.bind (lc_step env ev s) (lc_run env evs)"

lemma lc_run_append: "lc_run env (as @ bs) s = Option.bind (lc_run env as s) (lc_run env bs)"
  by (induction as arbitrary: s) (simp_all split: Option.bind_split)

section \<open>Invariant\<close>

text \<open>Nothing that \<open>Close\<close> waited for comes back.\<close>

fun closing_ok :: "close_pc \<Rightarrow> 'r lifecycle \<Rightarrow> bool" where
  "closing_ok NotClosing s = True"
| "closing_ok WaitLoops s = lc_ctxDone s"
| "closing_ok (WaitServices r p) s =
     (lc_ctxDone s \<and> lc_wg s = [] \<and> (r \<longrightarrow> lc_refresh s = RfExited) \<and> (p \<noteq> None \<longrightarrow> \<not> lc_provStore s))"
| "closing_ok (CloseReturned errs) s =
     (lc_ctxDone s \<and> lc_wg s = [] \<and> lc_refresh s = RfExited \<and> \<not> lc_provStore s)"

definition errs_ok :: "close_pc \<Rightarrow> bool" where
  "errs_ok c \<longleftrightarrow> (\<forall>r e. c = WaitServices r (Some e) \<longrightarrow> e = None) \<and> (\<forall>es. c = CloseReturned es \<longrightarrow> es = [])"

definition lc_inv :: "'r lifecycle \<Rightarrow> bool" where
  "lc_inv s \<longleftrightarrow> closing_ok (lc_close s) s \<and> errs_ok (lc_close s)"

lemma lc_inv_New: "lc_inv (lc_New env n)"
  by (simp add: lc_inv_def lc_New_def errs_ok_def)

lemma closing_ok_cong:
  assumes "closing_ok c s" and "lc_ctxDone s \<Longrightarrow> lc_ctxDone s'" and "lc_wg s = [] \<Longrightarrow> lc_wg s' = []"
    and "lc_refresh s = RfExited \<Longrightarrow> lc_refresh s' = RfExited" and "\<not> lc_provStore s \<Longrightarrow> \<not> lc_provStore s'"
  shows "closing_ok c s'"
  using assms by (cases c) auto

lemma lc_work_keeps:
  assumes "lc_work env ev s = Some s'"
  shows "lc_close s' = lc_close s" and "lc_ctxDone s' = lc_ctxDone s" and "lc_wg s' = lc_wg s" and "lc_provStore s' = lc_provStore s"
    and "lc_refresh s = RfExited \<Longrightarrow> lc_refresh s' = RfExited" and "lc_persist s' = lc_persist s"
  using assms by (auto simp: lc_work_def split: if_splits)

lemma lc_step_inv:
  assumes "lc_step env ev s = Some s'" and "lc_inv s"
  shows "lc_inv s'"
proof (cases "lc_close s' = lc_close s")
  case True
  have "closing_ok (lc_close s) s'"
  proof (rule closing_ok_cong [of "lc_close s" s])
    show "closing_ok (lc_close s) s" using assms(2) by (simp add: lc_inv_def)
    show "lc_ctxDone s \<Longrightarrow> lc_ctxDone s'"
      using assms(1) by (cases ev) (auto simp: lc_step_def lc_Close_def persist_tick_def lc_work_keeps split: if_splits refresh_pc.splits close_pc.splits bool.splits option.splits)
    show "lc_wg s = [] \<Longrightarrow> lc_wg s' = []"
      using assms(1) by (cases ev) (auto simp: lc_step_def lc_Close_def persist_tick_def lc_work_keeps split: if_splits refresh_pc.splits close_pc.splits bool.splits option.splits)
    show "lc_refresh s = RfExited \<Longrightarrow> lc_refresh s' = RfExited"
      using assms(1) by (cases ev) (auto simp: lc_step_def lc_Close_def persist_tick_def lc_work_keeps split: if_splits refresh_pc.splits close_pc.splits bool.splits option.splits)
    show "\<not> lc_provStore s \<Longrightarrow> \<not> lc_provStore s'"
      using assms(1) by (cases ev) (auto simp: lc_step_def lc_Close_def persist_tick_def lc_work_keeps split: if_splits refresh_pc.splits close_pc.splits bool.splits option.splits)
  qed
  then show ?thesis using assms(2) True by (simp add: lc_inv_def)
next
  case False
  then show ?thesis
    using assms
    by (cases ev)
      (auto simp: lc_step_def lc_Close_def persist_tick_def lc_inv_def errs_ok_def combine_errors_def map_filter_simps lc_work_keeps
        split: if_splits refresh_pc.splits close_pc.splits bool.splits option.splits)
qed

lemma lc_run_inv: "lc_run env evs s = Some s' \<Longrightarrow> lc_inv s \<Longrightarrow> lc_inv s'"
  by (induction evs arbitrary: s) (auto simp: bind_eq_Some_conv dest: lc_step_inv)

section \<open>After Close\<close>

lemma peerStoppedDHT_shrinks:
  assumes "kb_ok env"
  shows "kb_members env (nd_rt (peerStoppedDHT env p n)) \<subseteq> kb_members env (nd_rt n) \<and> nd_modes (peerStoppedDHT env p n) = nd_modes n"
proof -
  obtain rt cbs where r: "kb_RemovePeer (ne_kb env) (nd_rt n) p = (rt, cbs)" by (cases "kb_RemovePeer (ne_kb env) (nd_rt n) p")
  note k = kb_ok_remove [OF assms r]
  note c = callbacks_keep [of "n\<lparr>nd_rt := rt\<rparr>" env cbs]
  have "x \<in> kb_members env (nd_rt n)" if "x \<in> kb_members env rt" for x
    using callback_effect_bound [of x cbs "kb_members env (nd_rt n)"] k that by auto
  then show ?thesis using c r by (auto simp: peerStoppedDHT_def same_work_def)
qed

lemma lc_step_closed:
  assumes "lc_step env ev s = Some s'" and "lc_inv s" and "lc_close s = CloseReturned errs" and "kb_ok env"
  shows "lc_close s' = CloseReturned errs \<and> nd_modes (lc_node s') = nd_modes (lc_node s) \<and>
    kb_members env (nd_rt (lc_node s')) \<subseteq> kb_members env (nd_rt (lc_node s))"
proof -
  have c: "lc_ctxDone s" "lc_wg s = []" "lc_refresh s = RfExited" "\<not> lc_provStore s"
    using assms(2,3) by (auto simp: lc_inv_def)
  show ?thesis
  proof (cases ev)
    case (LcNode e)
    then have w: "lc_work env e s = Some s'" using assms(1) by (simp add: lc_step_def)
    then have "loop_of e = None" using c(2) by (auto simp: lc_work_def split: if_splits option.splits)
    then show ?thesis
      using w assms(3)
      by (cases e) (auto dest: peerStoppedDHT_shrinks [OF assms(4), THEN conjunct1, THEN subsetD]
          simp: peerStoppedDHT_shrinks [OF assms(4), THEN conjunct2] lc_work_def node_step_def check_done_def validPeerFound_def Let_def split: if_splits)
  qed (use assms(1,3) c in \<open>auto simp: lc_step_def persist_tick_def split: if_splits\<close>)
qed

lemma lc_run_closed:
  "lc_run env evs s = Some s' \<Longrightarrow> lc_inv s \<Longrightarrow> lc_close s = CloseReturned errs \<Longrightarrow> kb_ok env \<Longrightarrow>
     lc_close s' = CloseReturned errs \<and> nd_modes (lc_node s') = nd_modes (lc_node s) \<and>
     kb_members env (nd_rt (lc_node s')) \<subseteq> kb_members env (nd_rt (lc_node s))"
proof (induction evs arbitrary: s)
  case (Cons ev evs)
  then obtain t where t: "lc_step env ev s = Some t" "lc_run env evs t = Some s'" by (auto simp: bind_eq_Some_conv)
  note st = lc_step_closed [OF t(1) Cons.prems(2-4)]
  from Cons.IH [OF t(2) lc_step_inv [OF t(1) Cons.prems(2)] st [THEN conjunct1] Cons.prems(4)] st show ?case by auto
qed simp

section \<open>Close returns\<close>

text \<open>What is left to end; every step of the shutdown makes it less.\<close>

fun refresh_left :: "refresh_pc \<Rightarrow> nat" where
  "refresh_left RfIdle = 1"
| "refresh_left (RfRefreshing pinged) = 3"
| "refresh_left RfReporting = 2"
| "refresh_left RfExited = 0"

fun close_left :: "close_pc \<Rightarrow> nat" where
  "close_left NotClosing = 5"
| "close_left WaitLoops = 4"
| "close_left (WaitServices r p) = 1 + (if r then 0 else 1) + (if p = None then 1 else 0)"
| "close_left (CloseReturned errs) = 0"

definition lc_left :: "'r lifecycle \<Rightarrow> nat" where
  "lc_left s = length (lc_wg s) + lc_requesters s + refresh_left (lc_refresh s) + (if lc_provStore s then 1 else 0) + close_left (lc_close s)"

lemma progressI:
  "lc_step env ev s = Some s' \<Longrightarrow> lc_left s' < lc_left s \<Longrightarrow> lc_close s' \<noteq> NotClosing \<Longrightarrow> lc_persist s' = lc_persist s \<Longrightarrow>
     \<exists>ev s'. lc_step env ev s = Some s' \<and> lc_left s' < lc_left s \<and> lc_close s' \<noteq> NotClosing \<and> lc_persist s' = lc_persist s"
  by blast

lemma lc_progress:
  assumes "lc_inv s" and "lc_close s \<noteq> NotClosing" and "\<nexists>errs. lc_close s = CloseReturned errs"
  shows "\<exists>ev s'. lc_step env ev s = Some s' \<and> lc_left s' < lc_left s \<and> lc_close s' \<noteq> NotClosing \<and> lc_persist s' = lc_persist s"
proof -
  have ended: "lc_ctxDone s" using assms by (cases "lc_close s") (auto simp: lc_inv_def)
  note defs = lc_step_def lc_left_def assms(2) ended
  consider l ls where "lc_wg s = l # ls" | "0 < lc_requesters s" | "lc_refresh s = RfIdle" | b where "lc_refresh s = RfRefreshing b"
    | "lc_refresh s = RfReporting" | "lc_provStore s"
    | "lc_wg s = []" "lc_requesters s = 0" "lc_refresh s = RfExited" "\<not> lc_provStore s"
    by (metis list.exhaust neq0_conv refresh_pc.exhaust)
  then show ?thesis
  proof cases
    case (1 l ls)
    have "length (removeAll l ls) \<le> length ls" by (rule length_removeAll_less_eq)
    then show ?thesis
      by (intro progressI [of env "LcLoopExit l" s "s\<lparr>lc_wg := removeAll l (lc_wg s)\<rparr>"])
        (simp_all add: defs 1 less_Suc_eq_le)
  next
    case 2
    then show ?thesis
      by (intro progressI [of env LcRequestGivesUp s "s\<lparr>lc_requesters := lc_requesters s - 1\<rparr>"]) (simp_all add: defs)
  next
    case 3
    then show ?thesis
      by (intro progressI [of env LcRefreshExit s "s\<lparr>lc_refresh := RfExited\<rparr>"]) (simp_all add: defs)
  next
    case (4 b)
    then show ?thesis
      by (intro progressI [of env "LcRefreshed False" s "s\<lparr>lc_refresh := RfIdle\<rparr>"]) (simp_all add: defs)
  next
    case 5
    then show ?thesis
      by (intro progressI [of env LcReportGivesUp s "s\<lparr>lc_refresh := RfIdle\<rparr>"]) (simp_all add: defs)
  next
    case 6
    then show ?thesis
      by (intro progressI [of env LcProvStoreExit s "s\<lparr>lc_provStore := False\<rparr>"]) (simp_all add: defs)
  next
    case 7
    show ?thesis
    proof (cases "lc_close s")
      case WaitLoops
      then show ?thesis
        using 7 by (intro progressI [of env LcLoopsJoined s "s\<lparr>lc_close := WaitServices False None\<rparr>"]) (simp_all add: defs)
    next
      case (WaitServices r p)
      show ?thesis
      proof (cases r)
        case False
        then show ?thesis
          using 7 WaitServices
          by (intro progressI [of env LcRefreshClosed s "s\<lparr>lc_close := WaitServices True p\<rparr>"]) (simp_all add: defs)
      next
        case True
        show ?thesis
        proof (cases p)
          case None
          then show ?thesis
            using 7 True WaitServices
            by (intro progressI [of env "LcProvStoreClosed None" s "s\<lparr>lc_close := WaitServices True (Some None)\<rparr>"]) (simp_all add: defs)
        next
          case (Some err)
          then show ?thesis
            using True WaitServices
            by (intro progressI [of env LcCloseReturns s "s\<lparr>lc_close := CloseReturned (combine_errors [None, err])\<rparr>"])
              (simp_all add: defs)
        qed
      qed
    qed (use assms in auto)
  qed
qed

lemma lc_can_close:
  assumes "lc_inv s" and "lc_close s \<noteq> NotClosing"
  shows "\<exists>evs s' errs. lc_run env evs s = Some s' \<and> length evs \<le> lc_left s \<and> lc_close s' = CloseReturned errs \<and> lc_persist s' = lc_persist s"
  using assms
proof (induction "lc_left s" arbitrary: s rule: less_induct)
  case less
  show ?case
  proof (cases "\<exists>errs. lc_close s = CloseReturned errs")
    case True
    then show ?thesis by (intro exI [of _ "[]"]) auto
  next
    case False
    from lc_progress [OF less.prems False, of env] obtain ev t where t: "lc_step env ev s = Some t" "lc_left t < lc_left s"
      "lc_close t \<noteq> NotClosing" "lc_persist t = lc_persist s" by blast
    from less.hyps [OF t(2) lc_step_inv [OF t(1) less.prems(1)] t(3)] obtain evs s' errs where
      "lc_run env evs t = Some s'" "length evs \<le> lc_left t" "lc_close s' = CloseReturned errs" "lc_persist s' = lc_persist t"
      by blast
    then show ?thesis using t by (intro exI [of _ "ev # evs"] exI [of _ s'] exI [of _ errs]) simp
  qed
qed

text \<open>
  The goroutine that renews addresses is in no wait group: it may still read the table and write to the
  peerstore when \<open>Close\<close> has returned.
\<close>

lemma persist_outlives_close:
  "\<exists>evs s s'. lc_run env evs (lc_New env n) = Some s \<and> lc_close s = CloseReturned [] \<and> lc_step env LcPersistTick s = Some s' \<and>
     lc_renewed s' = lc_renewed s @ kb_ListPeers (ne_kb env) (nd_rt (lc_node s))"
proof -
  have c: "lc_step env LcClose (lc_New env n) = Some (lc_Close (lc_New env n))"
    by (simp add: lc_step_def lc_New_def)
  have i: "lc_inv (lc_Close (lc_New env n))" using lc_step_inv [OF c lc_inv_New] .
  obtain evs s errs where s: "lc_run env evs (lc_Close (lc_New env n)) = Some s" "lc_close s = CloseReturned errs"
    "lc_persist s = lc_persist (lc_Close (lc_New env n))"
    using lc_can_close [OF i, of env] unfolding lc_Close_def by auto
  have "errs = []" using lc_run_inv [OF s(1) i] s(2) by (simp add: lc_inv_def errs_ok_def)
  moreover have "lc_run env (LcClose # evs) (lc_New env n) = Some s" using c s(1) by simp
  moreover have "lc_persist s" using s(3) by (simp add: lc_Close_def lc_New_def)
  moreover from this have "lc_step env LcPersistTick s = Some (persist_tick env s)" by (simp add: lc_step_def)
  moreover have "lc_renewed (persist_tick env s) = lc_renewed s @ kb_ListPeers (ne_kb env) (nd_rt (lc_node s))"
    by (simp add: persist_tick_def)
  ultimately show ?thesis using s(2) by blast
qed

section \<open>Properties\<close>

text \<open>C33: When \<open>Close\<close> has returned, without an error, the loops of the node, the refresh manager and the provider store
  have ended and nothing that still runs brings them back: no peer enters the routing table any more and the
  mode of the node, with the protocols it serves, stays as it is.\<close>

theorem closed_node_stays_closed:
  assumes "kb_ok env" and "lc_run env evs (lc_New env n) = Some s" and "lc_close s = CloseReturned errs"
    and "lc_run env evs' s = Some s'"
  shows "errs = [] \<and> lc_wg s' = [] \<and> lc_refresh s' = RfExited \<and> \<not> lc_provStore s' \<and>
    nd_modes (lc_node s') = nd_modes (lc_node s) \<and> kb_members env (nd_rt (lc_node s')) \<subseteq> kb_members env (nd_rt (lc_node s))"
proof -
  have i: "lc_inv s" using lc_run_inv [OF assms(2) lc_inv_New] .
  note c = lc_run_closed [OF assms(4) i assms(3,1)]
  have "lc_inv s'" using lc_run_inv [OF assms(4) i] .
  then show ?thesis using c i assms(3) by (auto simp: lc_inv_def errs_ok_def)
qed


section \<open>Witnesses\<close>

definition demo_life :: "lc_event list" where
  "demo_life = [LcNode (CheckDone ''q'' (None, [])), LcNode (AddPeer ''q'' 0), LcRefreshed True, LcRequest, LcNode RefreshFinished,
     LcRequestTaken, LcClose, LcPersistTick, LcEvict ''r'', LcLoopExit SubscriberLoop, LcRefreshed True, LcReportGivesUp,
     LcLoopExit FixLowLoop, LcProvStoreExit, LcLoopExit RtPeerLoop]"

definition demo_death :: "lc_event list" where
  "demo_death = [LcLoopsJoined, LcProvStoreClosed None, LcRefreshExit, LcRefreshClosed, LcCloseReturns]"

theorem closed_node_stays_closed_witness:
  "\<exists>s s'. lc_run demo_node_env (demo_life @ demo_death) (lc_New demo_node_env demo_node) = Some s \<and>
     lc_run demo_node_env [LcNode (QueryFailed ''q''), LcPersistTick] s = Some s' \<and> lc_refresh s' = RfExited \<and>
     nd_modes (lc_node s') = nd_modes (lc_node s)"
proof -
  have "map_option (\<lambda>s. lc_close s = CloseReturned []) (lc_run demo_node_env (demo_life @ demo_death) (lc_New demo_node_env demo_node)) =
      Some True" by code_simp
  then obtain s where s: "lc_run demo_node_env (demo_life @ demo_death) (lc_New demo_node_env demo_node) = Some s"
    "lc_close s = CloseReturned []" by auto
  have "map_option (\<lambda>s. lc_persist s) (lc_run demo_node_env (demo_life @ demo_death) (lc_New demo_node_env demo_node)) = Some True"
    by code_simp
  then have "lc_persist s" using s(1) by simp
  then obtain s' where r: "lc_run demo_node_env [LcNode (QueryFailed ''q''), LcPersistTick] s = Some s'"
    by (simp add: lc_step_def lc_work_def node_step_def)
  from closed_node_stays_closed [OF demo_kb_ok s r] s(1) r show ?thesis by blast
qed


end
