(* ===== verification/FullRT_Life.thy ===== *)
theory FullRT_Life
  imports FullRT Messages
begin

text \<open>
  The life of a full client (\<^verbatim>\<open>fullrt/dht.go\<close>): the goroutine that crawls and exchanges the tables, the one that follows
  disconnections, and \<open>Close\<close>, as steps that interleave with the operations.

  The tables are exchanged under three locks, one after the other; an operation that reads them holds the locks of all
  three at once, so it sees a state between two steps. The crawler is a parameter: what it reports, one peer at a time. The provider
  manager is that of \<open>Providers\<close>; here it only runs and ends with the context.
\<close>

section \<open>Goroutines\<close>

text \<open>The crawling goroutine waits, crawls, or carries new tables of which it has still to store all three, two or one.\<close>

datatype crawler_pc = CwWaiting | CwCrawling | CwAddrs fullrt | CwKeys fullrt | CwTrie fullrt | CwExited

datatype fl_close = FlOpen | FlWaiting | FlClosingStore | FlClosed "string option"

record fl_state =
  fl_dht :: fullrt
  fl_foundPeers :: "(peer_id, multiaddr list) gomap"
  fl_initialTrigger :: bool
  fl_pc :: crawler_pc
  fl_subscriber :: bool
  fl_disconnected :: "peer_id list"
  fl_ctxDone :: bool
  fl_store :: bool
  fl_closing :: fl_close
  fl_seeds :: "AddrInfo list"
  fl_reports :: "(peer_id \<times> bool \<times> multiaddr list) list"
  fl_installed :: "(peer_id \<times> bool \<times> multiaddr list) list"

text \<open>
  \<open>fl_reports\<close> and \<open>fl_installed\<close> are not in the code: what the running crawl has reported, and what the crawl had
  reported whose tables are in place.
\<close>

definition fl_New :: "fullrt \<Rightarrow> fl_state" where
  "fl_New d =
     \<lparr>fl_dht = d, fl_foundPeers = [], fl_initialTrigger = True, fl_pc = CwWaiting, fl_subscriber = True, fl_disconnected = [],
      fl_ctxDone = False, fl_store = True, fl_closing = FlOpen, fl_seeds = [], fl_reports = [], fl_installed = []\<rparr>"

text \<open>A crawl starts from the peers that the last one found and the bootstrap peers, and with nothing found.\<close>

definition start_crawl :: "fl_state \<Rightarrow> fl_state" where
  "start_crawl s = s\<lparr>fl_pc := CwCrawling, fl_seeds := crawl_seeds (fl_foundPeers s) (fl_dht s), fl_foundPeers := [], fl_reports := []\<rparr>"

definition new_tables :: "'ip closest_env \<Rightarrow> fl_state \<Rightarrow> fullrt" where
  "new_tables env s =
     fold (add_found env) (fl_foundPeers s) ((fl_dht s)\<lparr>fr_rt := [], fr_keyToPeerMap := [], fr_peerAddrs := []\<rparr>)"

datatype fl_event =
    FlTick
  | FlInitial
  | FlTrigger
  | FlReport "peer_id \<times> bool \<times> multiaddr list"
  | FlCrawled
  | FlStoreAddrs
  | FlStoreKeys
  | FlStoreTrie instant
  | FlCrawlerExit
  | FlConnectedness peer_id connectedness
  | FlSubscriberExit
  | FlStoreExit
  | FlClose
  | FlJoined
  | FlStoreClosed

definition crawler_step :: "'ip closest_env \<Rightarrow> fl_event \<Rightarrow> fl_state \<Rightarrow> fl_state option" where
  "crawler_step env ev s =
     (case (ev, fl_pc s) of
        (FlTick, CwWaiting) \<Rightarrow> Some (start_crawl s)
      | (FlInitial, CwWaiting) \<Rightarrow> if fl_initialTrigger s then Some (start_crawl (s\<lparr>fl_initialTrigger := False\<rparr>)) else None
      | (FlTrigger, CwWaiting) \<Rightarrow> Some (start_crawl s)
      | (FlCrawlerExit, CwWaiting) \<Rightarrow> if fl_ctxDone s then Some (s\<lparr>fl_pc := CwExited\<rparr>) else None
      | (FlReport rep, CwCrawling) \<Rightarrow>
          Some (s\<lparr>fl_foundPeers := handle_found rep (fl_foundPeers s), fl_reports := fl_reports s @ [rep]\<rparr>)
      | (FlCrawled, CwCrawling) \<Rightarrow> Some (s\<lparr>fl_pc := CwAddrs (new_tables env s)\<rparr>)
      | (FlStoreAddrs, CwAddrs new) \<Rightarrow>
          Some (s\<lparr>fl_dht := (fl_dht s)\<lparr>fr_peerAddrs := fr_peerAddrs new\<rparr>, fl_pc := CwKeys new\<rparr>)
      | (FlStoreKeys, CwKeys new) \<Rightarrow>
          Some (s\<lparr>fl_dht := (fl_dht s)\<lparr>fr_keyToPeerMap := fr_keyToPeerMap new\<rparr>, fl_pc := CwTrie new\<rparr>)
      | (FlStoreTrie now, CwTrie new) \<Rightarrow>
          Some (s\<lparr>fl_dht := (fl_dht s)\<lparr>fr_rt := fr_rt new, fr_lastCrawlTime := now\<rparr>, fl_pc := CwWaiting,
                  fl_installed := fl_reports s\<rparr>)
      | _ \<Rightarrow> None)"

text \<open>The message sender of a full client follows disconnections.\<close>

definition runSubscriber_step :: "peer_id \<Rightarrow> connectedness \<Rightarrow> fl_state \<Rightarrow> fl_state option" where
  "runSubscriber_step p c s =
     (if fl_subscriber s
      then Some (if c \<noteq> NetConnected then s\<lparr>fl_disconnected := fl_disconnected s @ [p]\<rparr> else s)
      else None)"

definition fl_Close :: "fl_state \<Rightarrow> fl_state" where
  "fl_Close s = s\<lparr>fl_ctxDone := True, fl_closing := FlWaiting\<rparr>"

definition fl_step :: "'ip closest_env \<Rightarrow> fl_event \<Rightarrow> fl_state \<Rightarrow> fl_state option" where
  "fl_step env ev s =
     (case ev of
        FlConnectedness p c \<Rightarrow> runSubscriber_step p c s
      | FlSubscriberExit \<Rightarrow> if fl_ctxDone s \<and> fl_subscriber s then Some (s\<lparr>fl_subscriber := False\<rparr>) else None
      | FlStoreExit \<Rightarrow> if fl_ctxDone s \<and> fl_store s then Some (s\<lparr>fl_store := False\<rparr>) else None
      | FlClose \<Rightarrow> if fl_closing s = FlOpen then Some (fl_Close s) else None
      | FlJoined \<Rightarrow>
          if fl_closing s = FlWaiting \<and> fl_pc s = CwExited \<and> \<not> fl_subscriber s then Some (s\<lparr>fl_closing := FlClosingStore\<rparr>) else None
      | FlStoreClosed \<Rightarrow>
          if fl_closing s = FlClosingStore \<and> \<not> fl_store s then Some (s\<lparr>fl_closing := FlClosed None\<rparr>) else None
      | _ \<Rightarrow> crawler_step env ev s)"

fun fl_run :: "'ip closest_env \<Rightarrow> fl_event list \<Rightarrow> fl_state \<Rightarrow> fl_state option" where
  "fl_run env [] s = Some s"
| "fl_run env (ev # evs) s = Option.bind (fl_step env ev s) (fl_run env evs)"

section \<open>Invariant\<close>

text \<open>The tables of a crawl, from its reports.\<close>

type_synonym tables = "string list \<times> (string, peer_id) gomap \<times> (peer_id, multiaddr list) gomap"

definition tables :: "fullrt \<Rightarrow> tables" where
  "tables d = (fr_rt d, fr_keyToPeerMap d, fr_peerAddrs d)"

definition tables_from :: "'ip closest_env \<Rightarrow> (peer_id \<times> bool \<times> multiaddr list) list \<Rightarrow> fullrt \<Rightarrow> tables" where
  "tables_from env reports d = tables (runCrawl env reports 0 d)"

lemma add_found_step: "tables d = tables d' \<Longrightarrow> tables (add_found env x d) = tables (add_found env x d')"
  by (cases x) (simp add: tables_def add_found_def Let_def)

lemma add_found_tables_eq:
  "tables d = tables d' \<Longrightarrow> tables (fold (add_found env) xs d) = tables (fold (add_found env) xs d')"
proof (induction xs arbitrary: d d')
  case (Cons x xs)
  show ?case using Cons.IH [OF add_found_step [OF Cons.prems]] by (simp only: fold_Cons comp_apply)
qed simp

lemma tables_from_fold:
  "tables_from env reports d =
     tables (fold (add_found env) (fold handle_found reports []) (d\<lparr>fr_rt := [], fr_keyToPeerMap := [], fr_peerAddrs := []\<rparr>))"
  by (simp add: tables_from_def runCrawl_def Let_def tables_def)

lemma tables_from_any: "tables_from env reports d = tables_from env reports d'"
  unfolding tables_from_fold by (rule add_found_tables_eq) (simp add: tables_def)

lemma new_tables_from:
  "fl_foundPeers s = fold handle_found reports [] \<Longrightarrow> tables (new_tables env s) = tables_from env reports d0"
  unfolding new_tables_def tables_from_fold by (simp only:) (rule add_found_tables_eq, simp add: tables_def)

definition same_config :: "fullrt \<Rightarrow> fullrt \<Rightarrow> bool" where
  "same_config d d' \<longleftrightarrow> fr_bucketSize d' = fr_bucketSize d \<and> fr_ipDiversityFilterLimit d' = fr_ipDiversityFilterLimit d"

text \<open>What stands in the client when the exchange has come so far.\<close>

fun tables_at :: "tables \<Rightarrow> tables \<Rightarrow> crawler_pc \<Rightarrow> tables" where
  "tables_at (rt, keys, addrs) (rt', keys', addrs') (CwKeys new) = (rt, keys, addrs')"
| "tables_at (rt, keys, addrs) (rt', keys', addrs') (CwTrie new) = (rt, keys', addrs')"
| "tables_at old new pc = old"

fun carried :: "crawler_pc \<Rightarrow> fullrt option" where
  "carried (CwAddrs new) = Some new"
| "carried (CwKeys new) = Some new"
| "carried (CwTrie new) = Some new"
| "carried pc = None"

definition fl_inv :: "'ip closest_env \<Rightarrow> fullrt \<Rightarrow> fl_state \<Rightarrow> bool" where
  "fl_inv env d0 s \<longleftrightarrow>
     fl_foundPeers s = fold handle_found (fl_reports s) [] \<and> same_config d0 (fl_dht s) \<and>
     (\<forall>new. carried (fl_pc s) = Some new \<longrightarrow> tables new = tables_from env (fl_reports s) d0) \<and>
     tables (fl_dht s) = tables_at (tables_from env (fl_installed s) d0) (tables_from env (fl_reports s) d0) (fl_pc s)"

lemma fl_inv_New: "tables d0 = ([], [], []) \<Longrightarrow> fl_inv env d0 (fl_New d0)"
  by (simp add: fl_inv_def fl_New_def same_config_def tables_from_def runCrawl_def tables_def)

lemma tables_atD:
  assumes "tables d = tables_at old new pc"
  shows "fr_keyToPeerMap d = fst (snd old) \<or> fr_keyToPeerMap d = fst (snd new)"
    and "carried pc = None \<Longrightarrow> tables d = old"
  using assms by (cases old; cases new; cases pc; simp add: tables_def)+

lemma crawler_step_inv:
  assumes "crawler_step env ev s = Some s'" and "fl_inv env d0 s"
  shows "fl_inv env d0 s'"
proof -
  obtain rt keys addrs where i: "tables_from env (fl_installed s) d0 = (rt, keys, addrs)" by (metis prod_cases3)
  obtain rt' keys' addrs' where r: "tables_from env (fl_reports s) d0 = (rt', keys', addrs')" by (metis prod_cases3)
  have f: "fl_foundPeers s = fold handle_found (fl_reports s) []" using assms(2) by (simp add: fl_inv_def)
  show ?thesis
    using assms i r new_tables_from [OF f, of env d0]
    by (cases "fl_pc s"; cases ev)
      (auto simp: crawler_step_def fl_inv_def start_crawl_def same_config_def tables_def split: if_splits)
qed

lemma fl_step_inv:
  assumes "fl_step env ev s = Some s'" and "fl_inv env d0 s"
  shows "fl_inv env d0 s'"
  using assms by (cases ev) (auto simp: fl_step_def fl_Close_def runSubscriber_step_def fl_inv_def dest: crawler_step_inv [of env _ s _ d0, unfolded fl_inv_def] split: if_splits)

lemma fl_run_inv: "fl_run env evs s = Some s' \<Longrightarrow> fl_inv env d0 s \<Longrightarrow> fl_inv env d0 s'"
  by (induction evs arbitrary: s) (auto simp: bind_eq_Some_conv dest: fl_step_inv)

section \<open>Reading the tables\<close>

definition kept_in :: "(peer_id \<times> bool \<times> multiaddr list) list \<Rightarrow> peer_id set" where
  "kept_in reports = {p. \<exists>addrs. (p, True, addrs) \<in> set reports}"

lemma keys_known:
  assumes "map_of (fst (snd (tables_from env reports d))) k = Some p"
  shows "ce_PeerKey env p = k \<and> p \<in> kept_in reports"
proof -
  let ?d = "runCrawl env reports 0 d"
  have m: "map_of (fr_keyToPeerMap ?d) k = Some p" using assms by (simp add: tables_from_def tables_def)
  have t: "tables_ok env ?d" using runCrawl_tables [of env reports 0 d] by blast
  then have "ce_PeerKey env p = k" "gm_has (fr_peerAddrs ?d) p" using m unfolding tables_ok_def by blast+
  moreover from this(2) have "p \<in> fst ` set (fr_peerAddrs ?d)" by (simp only: gm_has_set)
  ultimately show ?thesis unfolding runCrawl_known kept_in_def by blast
qed

text \<open>A scan finds only peers the key map has under the keys it scans, whatever the other tables are.\<close>

lemma scan_keys_mapped:
  assumes "scan_keys env d ks g ps = (g', ps', full)" and "int (length ps) < fr_bucketSize d"
    and "\<And>k p. map_of (fr_keyToPeerMap d) k = Some p \<Longrightarrow> ce_PeerKey env p = k"
  shows "\<exists>qs. ps' = ps @ qs \<and> subseq (map (ce_PeerKey env) qs) ks \<and> int (length ps') \<le> fr_bucketSize d \<and>
    (\<forall>q\<in>set qs. map_of (fr_keyToPeerMap d) (ce_PeerKey env q) = Some q)"
  using assms(1,2)
proof (induction ks arbitrary: g ps)
  case (Cons k ks)
  show ?case
  proof (cases "map_of (fr_keyToPeerMap d) k")
    case None
    then show ?thesis using Cons.IH Cons.prems by fastforce
  next
    case (Some p)
    obtain ok g1 where a: "(if fr_ipDiversityFilterLimit d > 0 then admit env (fr_ipDiversityFilterLimit d) p (gm_get [] (fr_peerAddrs d) p) g
        else (True, g)) = (ok, g1)" by fastforce
    show ?thesis
    proof (cases ok)
      case False
      then show ?thesis using Cons.IH [of g1 ps] Cons.prems Some a by fastforce
    next
      case True
      show ?thesis
      proof (cases "int (length (ps @ [p])) = fr_bucketSize d")
        case full: True
        then have "ps' = ps @ [p]" using Cons.prems(1) Some a True by simp
        then show ?thesis using full assms(3) [OF Some] Some by (intro exI [of _ "[p]"]) simp
      next
        case False
        then have "int (length (ps @ [p])) < fr_bucketSize d" using Cons.prems(2) by simp
        moreover have "scan_keys env d ks g1 (ps @ [p]) = (g', ps', full)" using Cons.prems(1) Some a True False by simp
        ultimately obtain qs where "ps' = (ps @ [p]) @ qs" "subseq (map (ce_PeerKey env) qs) ks" "int (length ps') \<le> fr_bucketSize d"
          "\<forall>q\<in>set qs. map_of (fr_keyToPeerMap d) (ce_PeerKey env q) = Some q" using Cons.IH by blast
        then show ?thesis using assms(3) [OF Some] Some by (intro exI [of _ "p # qs"]) simp
      qed
    qed
  qed
qed simp

section \<open>Properties\<close>

text \<open>C37: At every moment the closest peers come back, also while the tables are being exchanged: no more than a bucket of
  them, without repetition, and each was kept by the crawl whose tables are in place or by the one that ended last.
  Outside of an exchange the tables are exactly those of one crawl.\<close>

theorem fullrt_reads_safe:
  assumes "tables d0 = ([], [], [])" and "0 < fr_bucketSize d0" and "0 \<le> fr_ipDiversityFilterLimit d0"
    and "fl_run env evs (fl_New d0) = Some s" and "distinct order" and "length order = length (fr_rt (fl_dht s))"
    and "\<forall>n. ce_ClosestN env (ce_Key env key) (fr_rt (fl_dht s)) n = take n order"
  shows "\<exists>ps. fr_GetClosestPeers env (fl_dht s) key = Some ps \<and> distinct ps \<and> int (length ps) \<le> fr_bucketSize d0 \<and>
    set ps \<subseteq> kept_in (fl_installed s) \<union> kept_in (fl_reports s) \<and>
    (carried (fl_pc s) = None \<longrightarrow> tables (fl_dht s) = tables_from env (fl_installed s) d0)"
proof -
  let ?d = "fl_dht s"
  have inv: "fl_inv env d0 s" using fl_run_inv [OF assms(4) fl_inv_New [OF assms(1)]] .
  then have cfg: "fr_bucketSize ?d = fr_bucketSize d0" "fr_ipDiversityFilterLimit ?d = fr_ipDiversityFilterLimit d0"
    by (simp_all add: fl_inv_def same_config_def)
  note at = tables_atD [of ?d "tables_from env (fl_installed s) d0" "tables_from env (fl_reports s) d0" "fl_pc s"]
  have tab: "tables ?d = tables_at (tables_from env (fl_installed s) d0) (tables_from env (fl_reports s) d0) (fl_pc s)"
    using inv by (simp add: fl_inv_def)
  have known: "ce_PeerKey env p = k \<and> p \<in> kept_in (fl_installed s) \<union> kept_in (fl_reports s)"
    if "map_of (fr_keyToPeerMap ?d) k = Some p" for k p
    using at(1) [OF tab] that keys_known [of env _ d0 k p] by auto
  obtain g ps full where sc: "scan_keys env ?d order [] [] = (g, ps, full)" by (cases "scan_keys env ?d order [] []")
  have "fr_GetClosestPeers env ?d key = Some ps"
    using closest_loop_scan [of env "ce_Key env key" ?d order 0 "[]" "[]"] assms(2,3,6,7) cfg sc by (simp add: fr_GetClosestPeers_def)
  moreover obtain qs where q: "ps = qs" "subseq (map (ce_PeerKey env) qs) order" "int (length ps) \<le> fr_bucketSize d0"
    "\<forall>q\<in>set qs. map_of (fr_keyToPeerMap ?d) (ce_PeerKey env q) = Some q"
    using scan_keys_mapped [OF sc] known assms(2) cfg by auto
  moreover have "distinct (map (ce_PeerKey env) qs)"
    using q(2) assms(5) by (auto simp: subseq_conv_nths dest: distinct_nthsI)
  then have "distinct ps" using q(1) by (simp add: distinct_map)
  moreover have "set ps \<subseteq> kept_in (fl_installed s) \<union> kept_in (fl_reports s)" using q known by blast
  moreover have "carried (fl_pc s) = None \<longrightarrow> tables ?d = tables_from env (fl_installed s) d0" using at(2) [OF tab] by blast
  ultimately show ?thesis by (intro exI [of _ ps] conjI)
qed

section \<open>Closing\<close>

text \<open>What \<open>Close\<close> waited for has ended.\<close>

fun closing_inv :: "fl_close \<Rightarrow> fl_state \<Rightarrow> bool" where
  "closing_inv FlOpen s = True"
| "closing_inv FlWaiting s = fl_ctxDone s"
| "closing_inv FlClosingStore s = (fl_ctxDone s \<and> fl_pc s = CwExited \<and> \<not> fl_subscriber s)"
| "closing_inv (FlClosed err) s = (err = None \<and> fl_pc s = CwExited \<and> \<not> fl_subscriber s \<and> \<not> fl_store s)"

lemma crawler_step_keeps:
  assumes "crawler_step env ev s = Some s'"
  shows "fl_pc s \<noteq> CwExited" and "fl_closing s' = fl_closing s" and "fl_ctxDone s' = fl_ctxDone s"
    and "fl_subscriber s' = fl_subscriber s" and "fl_store s' = fl_store s"
  using assms by (cases "fl_pc s"; cases ev; auto simp: crawler_step_def start_crawl_def split: if_splits)+

lemma fl_step_closing:
  assumes "fl_step env ev s = Some s'" and "closing_inv (fl_closing s) s"
  shows "closing_inv (fl_closing s') s'"
proof (cases "crawler_step env ev s = Some s'")
  case True
  then show ?thesis using assms(2) crawler_step_keeps [OF True] by (cases "fl_closing s") auto
next
  case False
  then show ?thesis
    using assms by (cases ev; cases "fl_closing s") (auto simp: fl_step_def fl_Close_def runSubscriber_step_def split: if_splits)
qed

lemma fl_run_closing: "fl_run env evs s = Some s' \<Longrightarrow> closing_inv (fl_closing s) s \<Longrightarrow> closing_inv (fl_closing s') s'"
  by (induction evs arbitrary: s) (auto simp: bind_eq_Some_conv dest: fl_step_closing)

lemma closed_is_final: "closing_inv (FlClosed err) s \<Longrightarrow> fl_closing s = FlClosed err \<Longrightarrow> fl_step env ev s = None"
  by (cases ev) (simp_all add: fl_step_def runSubscriber_step_def crawler_step_def)

fun pc_left :: "crawler_pc \<Rightarrow> nat" where
  "pc_left CwExited = 0"
| "pc_left CwWaiting = 1"
| "pc_left (CwTrie new) = 2"
| "pc_left (CwKeys new) = 3"
| "pc_left (CwAddrs new) = 4"
| "pc_left CwCrawling = 5"

fun closing_left :: "fl_close \<Rightarrow> nat" where
  "closing_left FlOpen = 3"
| "closing_left FlWaiting = 2"
| "closing_left FlClosingStore = 1"
| "closing_left (FlClosed err) = 0"

definition fl_left :: "fl_state \<Rightarrow> nat" where
  "fl_left s = pc_left (fl_pc s) + (if fl_subscriber s then 1 else 0) + (if fl_store s then 1 else 0) + closing_left (fl_closing s)"

lemma fl_progress:
  assumes "closing_inv (fl_closing s) s" and "fl_closing s \<noteq> FlOpen" and "\<nexists>err. fl_closing s = FlClosed err"
  shows "\<exists>ev s'. fl_step env ev s = Some s' \<and> fl_left s' < fl_left s \<and> fl_closing s' \<noteq> FlOpen"
proof -
  have ended: "fl_ctxDone s" using assms by (cases "fl_closing s") auto
  have I: "\<exists>ev s'. fl_step env ev s = Some s' \<and> fl_left s' < fl_left s \<and> fl_closing s' \<noteq> FlOpen"
    if "fl_step env ev s = Some s'" "fl_left s' < fl_left s" "fl_closing s' \<noteq> FlOpen" for ev s'
    using that by blast
  note defs = fl_step_def crawler_step_def fl_left_def assms(2) ended
  show ?thesis
  proof (cases "fl_pc s")
    case CwWaiting
    then show ?thesis by (intro I [of FlCrawlerExit "s\<lparr>fl_pc := CwExited\<rparr>"]) (simp_all add: defs)
  next
    case CwCrawling
    then show ?thesis by (intro I [of FlCrawled "s\<lparr>fl_pc := CwAddrs (new_tables env s)\<rparr>"]) (simp_all add: defs)
  next
    case (CwAddrs new)
    then show ?thesis
      by (intro I [of FlStoreAddrs "s\<lparr>fl_dht := (fl_dht s)\<lparr>fr_peerAddrs := fr_peerAddrs new\<rparr>, fl_pc := CwKeys new\<rparr>"])
        (simp_all add: defs)
  next
    case (CwKeys new)
    then show ?thesis
      by (intro I [of FlStoreKeys "s\<lparr>fl_dht := (fl_dht s)\<lparr>fr_keyToPeerMap := fr_keyToPeerMap new\<rparr>, fl_pc := CwTrie new\<rparr>"])
        (simp_all add: defs)
  next
    case (CwTrie new)
    then show ?thesis
      by (intro I [of "FlStoreTrie 0" "s\<lparr>fl_dht := (fl_dht s)\<lparr>fr_rt := fr_rt new, fr_lastCrawlTime := 0\<rparr>, fl_pc := CwWaiting,
          fl_installed := fl_reports s\<rparr>"]) (simp_all add: defs)
  next
    case CwExited
    show ?thesis
    proof (cases "fl_subscriber s")
      case True
      then show ?thesis by (intro I [of FlSubscriberExit "s\<lparr>fl_subscriber := False\<rparr>"]) (simp_all add: defs)
    next
      case no_sub: False
      show ?thesis
      proof (cases "fl_store s")
        case True
        then show ?thesis by (intro I [of FlStoreExit "s\<lparr>fl_store := False\<rparr>"]) (simp_all add: defs)
      next
        case False
        have "fl_closing s = FlWaiting \<or> fl_closing s = FlClosingStore" using assms(2,3) by (cases "fl_closing s") auto
        then show ?thesis
        proof
          assume w: "fl_closing s = FlWaiting"
          then show ?thesis using CwExited no_sub by (intro I [of FlJoined "s\<lparr>fl_closing := FlClosingStore\<rparr>"]) (simp_all add: defs)
        next
          assume w: "fl_closing s = FlClosingStore"
          then show ?thesis using False by (intro I [of FlStoreClosed "s\<lparr>fl_closing := FlClosed None\<rparr>"]) (simp_all add: defs)
        qed
      qed
    qed
  qed
qed

lemma fl_can_close:
  assumes "closing_inv (fl_closing s) s" and "fl_closing s \<noteq> FlOpen"
  shows "\<exists>evs s' err. fl_run env evs s = Some s' \<and> length evs \<le> fl_left s \<and> fl_closing s' = FlClosed err"
  using assms
proof (induction "fl_left s" arbitrary: s rule: less_induct)
  case less
  show ?case
  proof (cases "\<exists>err. fl_closing s = FlClosed err")
    case True
    then show ?thesis by (intro exI [of _ "[]"]) auto
  next
    case False
    from fl_progress [OF less.prems False, of env] obtain ev t where t: "fl_step env ev s = Some t" "fl_left t < fl_left s"
      "fl_closing t \<noteq> FlOpen" by blast
    from less.hyps [OF t(2) fl_step_closing [OF t(1) less.prems(1)] t(3)] obtain evs s' err where
      "fl_run env evs t = Some s'" "length evs \<le> fl_left t" "fl_closing s' = FlClosed err" by blast
    then show ?thesis using t by (intro exI [of _ "ev # evs"] exI [of _ s'] exI [of _ err]) simp
  qed
qed

text \<open>\<open>Close\<close> of a full client returns without an error: from every state in which it was called, a crawl or an exchange of tables
  in progress included, it can return after no more steps than there are things left to end, and then nothing of
  the client can do a step any more.\<close>

theorem fullrt_close_returns:
  assumes "fl_run env evs (fl_New d0) = Some s" and "fl_closing s \<noteq> FlOpen"
  shows "\<exists>evs' s'. fl_run env evs' s = Some s' \<and> length evs' \<le> fl_left s \<and> fl_left s \<le> 9 \<and> fl_closing s' = FlClosed None \<and>
    (\<forall>ev. fl_step env ev s' = None)"
proof -
  have i: "closing_inv (fl_closing s) s" using fl_run_closing [OF assms(1)] by (simp add: fl_New_def)
  obtain evs' s' err where r: "fl_run env evs' s = Some s'" "length evs' \<le> fl_left s" "fl_closing s' = FlClosed err"
    using fl_can_close [OF i assms(2)] by blast
  have c: "closing_inv (FlClosed err) s'" using fl_run_closing [OF r(1) i] r(3) by simp
  then have "err = None" by simp
  moreover have "fl_left s \<le> 9" using assms(2) by (cases "fl_pc s"; cases "fl_closing s") (simp_all add: fl_left_def)
  ultimately show ?thesis using r closed_is_final [OF c r(3)] by blast
qed

section \<open>Witnesses\<close>

text \<open>Two crawls that find different peers. Between storing the keys of the second and storing its trie no peer is found.\<close>

definition demo_crawls :: "fl_event list" where
  "demo_crawls = [FlInitial, FlReport (''p'', True, [''a1'']), FlReport (''q'', True, [''b1'']), FlCrawled, FlStoreAddrs, FlStoreKeys,
     FlStoreTrie 5, FlTick, FlReport (''r'', True, [''c1'']), FlReport (''s'', True, [''d1'']), FlCrawled, FlStoreAddrs, FlStoreKeys]"

lemma closest_lost_in_exchange:
  "map_option (\<lambda>s. fr_GetClosestPeers demo_closest (fl_dht s) ''k'') (fl_run demo_closest (take 7 demo_crawls) (fl_New (demo_fullrt 0))) =
     Some (Some [''q'', ''p'']) \<and>
   map_option (\<lambda>s. fr_GetClosestPeers demo_closest (fl_dht s) ''k'') (fl_run demo_closest demo_crawls (fl_New (demo_fullrt 0))) =
     Some (Some []) \<and>
   map_option (\<lambda>s. fr_GetClosestPeers demo_closest (fl_dht s) ''k'') (fl_run demo_closest (demo_crawls @ [FlStoreTrie 9]) (fl_New (demo_fullrt 0))) =
     Some (Some [''s'', ''r''])"
  by code_simp

theorem fullrt_reads_safe_witness:
  "\<exists>s. fl_run demo_closest demo_crawls (fl_New (demo_fullrt 0)) = Some s \<and>
     (\<exists>ps. fr_GetClosestPeers demo_closest (fl_dht s) ''k'' = Some ps \<and> distinct ps)"
proof -
  have "map_option (\<lambda>s. fr_rt (fl_dht s)) (fl_run demo_closest demo_crawls (fl_New (demo_fullrt 0))) = Some [''q'', ''p'']" by code_simp
  then obtain s where s: "fl_run demo_closest demo_crawls (fl_New (demo_fullrt 0)) = Some s" "fr_rt (fl_dht s) = [''q'', ''p'']" by auto
  have h: "tables (demo_fullrt 0) = ([], [], [])" "0 < fr_bucketSize (demo_fullrt 0)" "0 \<le> fr_ipDiversityFilterLimit (demo_fullrt 0)"
    by (simp_all add: demo_fullrt_def tables_def)
  have o: "distinct [''q'', ''p'']" "length [''q'', ''p''] = length (fr_rt (fl_dht s))"
    "\<forall>n. ce_ClosestN demo_closest (ce_Key demo_closest ''k'') (fr_rt (fl_dht s)) n = take n [''q'', ''p'']"
    by (simp_all add: s(2) demo_closest_def)
  from fullrt_reads_safe [OF h s(1) o] s(1) show ?thesis by blast
qed

theorem fullrt_close_returns_witness:
  "\<exists>s evs' s'. fl_run demo_closest (demo_crawls @ [FlClose]) (fl_New (demo_fullrt 0)) = Some s \<and>
     fl_run demo_closest evs' s = Some s' \<and> fl_closing s' = FlClosed None"
proof -
  have "map_option (\<lambda>s. fl_closing s) (fl_run demo_closest (demo_crawls @ [FlClose]) (fl_New (demo_fullrt 0))) = Some FlWaiting"
    by code_simp
  then obtain s where s: "fl_run demo_closest (demo_crawls @ [FlClose]) (fl_New (demo_fullrt 0)) = Some s" "fl_closing s = FlWaiting"
    by auto
  then have "fl_closing s \<noteq> FlOpen" by simp
  from fullrt_close_returns [OF s(1) this] s(1) show ?thesis by blast
qed

end
