(* ===== verification/Provider_Service.thy ===== *)
theory Provider_Service
  imports Providers
begin

text \<open>
  The provider manager with its callers (\<^verbatim>\<open>records/providers_manager.go\<close> and the deprecated copy in
  \<^verbatim>\<open>providers/providers_manager.go\<close>): calls of \<^verbatim>\<open>AddProvider\<close> and \<^verbatim>\<open>GetProviders\<close> run at the same time, hand
  their requests to the one goroutine of the manager over unbuffered channels, and may give up when their context ends;
  \<^verbatim>\<open>Close\<close> ends the manager's context and waits for the goroutine.

  A request is handled when it is accepted: the loop takes no other before it has finished with it. An
  accepted read finds its answer in a channel of its own. The peerstore keeps the addresses it was given.
\<close>

section \<open>Callers\<close>

datatype pm_caller =
    AddCalling bytes AddrInfo
  | AddReturned bytes peer_id "string option"
  | GetCalling bytes
  | GetWaiting bytes "peer_id list"
  | GetReturned bytes "string + AddrInfo list"

datatype service_close = SvOpen | SvClosing | SvClosed

record ('c, 'd) service =
  sv_pm :: "('c, 'd) ProviderManager"
  sv_callers :: "pm_caller list"
  sv_pstore :: "(peer_id \<times> multiaddr list \<times> duration) list"
  sv_ctxDone :: bool
  sv_close :: service_close

definition sv_New :: "('c, 'd) ProviderManager \<Rightarrow> ('c, 'd) service" where
  "sv_New pm = \<lparr>sv_pm = pm, sv_callers = [], sv_pstore = [], sv_ctxDone = False, sv_close = SvOpen\<rparr>"

datatype service_event =
    CallAdd bytes AddrInfo
  | CallGet bytes
  | Accept nat instant
  | Receive nat
  | CtxEnds nat string
  | Collect
  | TimerFires instant
  | SvParentDone
  | CallClose
  | ManagerStops
  | CloseReturns

type_synonym ('c, 'd) manager_step =
  "pm_event \<Rightarrow> ('c, 'd) ProviderManager \<Rightarrow> (peer_id list option \<times> ('c, 'd) ProviderManager) option"

definition with_caller :: "nat \<Rightarrow> pm_caller \<Rightarrow> ('c, 'd) service \<Rightarrow> ('c, 'd) service" where
  "with_caller i c s = s\<lparr>sv_callers := (sv_callers s)[i := c]\<rparr>"

definition caller_at :: "nat \<Rightarrow> ('c, 'd) service \<Rightarrow> pm_caller option" where
  "caller_at i s = (if i < length (sv_callers s) then Some (sv_callers s ! i) else None)"

text \<open>The manager takes the request of a caller.\<close>

definition accept :: "('c, 'd) manager_step \<Rightarrow> nat \<Rightarrow> instant \<Rightarrow> ('c, 'd) service \<Rightarrow> ('c, 'd) service option" where
  "accept step i now s =
     (case caller_at i s of
        Some (AddCalling k ai) \<Rightarrow>
          map_option (\<lambda>(r, pm). with_caller i (AddReturned k (ai_ID ai) None) (s\<lparr>sv_pm := pm\<rparr>))
            (step (NewProv k (ai_ID ai) now) (sv_pm s))
      | Some (GetCalling k) \<Rightarrow>
          map_option (\<lambda>(r, pm). with_caller i (GetWaiting k (case r of None \<Rightarrow> [] | Some ps \<Rightarrow> ps)) (s\<lparr>sv_pm := pm\<rparr>))
            (step (GetProv k now) (sv_pm s))
      | _ \<Rightarrow> None)"

definition give_up :: "nat \<Rightarrow> string \<Rightarrow> ('c, 'd) service \<Rightarrow> ('c, 'd) service option" where
  "give_up i err s =
     (case caller_at i s of
        Some (AddCalling k ai) \<Rightarrow> Some (with_caller i (AddReturned k (ai_ID ai) (Some err)) s)
      | Some (GetCalling k) \<Rightarrow> Some (with_caller i (GetReturned k (Inl err)) s)
      | Some (GetWaiting k ps) \<Rightarrow> Some (with_caller i (GetReturned k (Inl err)) s)
      | _ \<Rightarrow> None)"

definition manager_does :: "('c, 'd) manager_step \<Rightarrow> pm_event \<Rightarrow> ('c, 'd) service \<Rightarrow> ('c, 'd) service option" where
  "manager_does step ev s = map_option (\<lambda>(r, pm). s\<lparr>sv_pm := pm\<rparr>) (step ev (sv_pm s))"

definition service_step :: "('c, 'd) manager_step \<Rightarrow> peer_id \<Rightarrow> (peer_id list \<Rightarrow> AddrInfo list) \<Rightarrow> service_event \<Rightarrow>
    ('c, 'd) service \<Rightarrow> ('c, 'd) service option" where
  "service_step step self PeerInfos ev s =
     (case ev of
        CallAdd k ai \<Rightarrow>
          Some (s\<lparr>sv_pstore := (if ai_ID ai \<noteq> self then sv_pstore s @ [(ai_ID ai, ai_Addrs ai, hours 24)] else sv_pstore s),
                  sv_callers := sv_callers s @ [AddCalling k ai]\<rparr>)
      | CallGet k \<Rightarrow> Some (s\<lparr>sv_callers := sv_callers s @ [GetCalling k]\<rparr>)
      | Accept i now \<Rightarrow> accept step i now s
      | Receive i \<Rightarrow>
          (case caller_at i s of
             Some (GetWaiting k ps) \<Rightarrow> Some (with_caller i (GetReturned k (Inr (PeerInfos ps))) s)
           | _ \<Rightarrow> None)
      | CtxEnds i err \<Rightarrow> give_up i err s
      | Collect \<Rightarrow> manager_does step GCNext s
      | TimerFires now \<Rightarrow> manager_does step (GCTimer now) s
      | SvParentDone \<Rightarrow> Some (s\<lparr>sv_ctxDone := True\<rparr>)
      | CallClose \<Rightarrow> if sv_close s = SvOpen then Some (s\<lparr>sv_ctxDone := True, sv_close := SvClosing\<rparr>) else None
      | ManagerStops \<Rightarrow> if sv_ctxDone s then manager_does step Stop s else None
      | CloseReturns \<Rightarrow> if sv_close s = SvClosing \<and> pm_closed (sv_pm s) then Some (s\<lparr>sv_close := SvClosed\<rparr>) else None)"

text \<open>The two packages.\<close>

definition records_service :: "('c, 'd) pm_env \<Rightarrow> peer_id \<Rightarrow> (peer_id list \<Rightarrow> AddrInfo list) \<Rightarrow> service_event \<Rightarrow>
    ('c, 'd) service \<Rightarrow> ('c, 'd) service option" where
  "records_service env = service_step (pm_step env)"


text \<open>The deprecated constructor fills the manager in, applies the options and then starts the goroutine.\<close>

definition deprecated_NewProviderManager :: "'c \<Rightarrow> 'd \<Rightarrow> ('c, 'd) pm_option list \<Rightarrow> (nat \<times> string) + ('c, 'd) ProviderManager" where
  "deprecated_NewProviderManager cache dstore opts =
     (let pm = \<lparr>pm_cache = cache, pm_sets = [], pm_dstore = dstore, pm_cleanupInterval = hours 1, pm_timer = False,
                pm_gcQueryRes = None, pm_gcSkip = None, pm_gcTime = 0, pm_closed = False, pm_log = []\<rparr>
      in case applyOptions 0 opts pm of
           Inl err \<Rightarrow> Inl err
         | Inr pm \<Rightarrow> Inr (pm\<lparr>pm_timer := True\<rparr>))"

fun service_run :: "(service_event \<Rightarrow> ('c, 'd) service \<Rightarrow> ('c, 'd) service option) \<Rightarrow> service_event list \<Rightarrow>
    ('c, 'd) service \<Rightarrow> ('c, 'd) service option" where
  "service_run step [] s = Some s"
| "service_run step (ev # evs) s = Option.bind (step ev s) (service_run step evs)"

lemmas service_defs = service_step_def accept_def give_up_def manager_does_def with_caller_def caller_at_def

section \<open>The two copies\<close>








text \<open>The options there are leave the timer alone, so both constructors make the same manager.\<close>

lemma applyOptions_timer:
  "\<forall>opt\<in>set opts. (\<exists>d. opt = CleanupInterval d) \<or> (\<exists>c. opt = Cache c) \<Longrightarrow>
     applyOptions i opts (pm\<lparr>pm_timer := b\<rparr>) =
       (case applyOptions i opts pm of Inl err \<Rightarrow> Inl err | Inr pm \<Rightarrow> Inr (pm\<lparr>pm_timer := b\<rparr>))"
proof (induction opts arbitrary: i pm)
  case (Cons opt opts)
  have swap: "pm\<lparr>pm_timer := b, pm_cleanupInterval := d\<rparr> = pm\<lparr>pm_cleanupInterval := d, pm_timer := b\<rparr>"
    "pm\<lparr>pm_timer := b, pm_cache := c\<rparr> = pm\<lparr>pm_cache := c, pm_timer := b\<rparr>" for d c by (cases pm; simp)+
  from Cons consider d where "opt = CleanupInterval d" | c where "opt = Cache c" by auto
  then show ?case
  proof cases
    case (1 d)
    then show ?thesis using Cons.IH [of "Suc i" "pm\<lparr>pm_cleanupInterval := d\<rparr>"] Cons.prems by (simp add: CleanupInterval_def swap)
  next
    case (2 c)
    then show ?thesis using Cons.IH [of "Suc i" "pm\<lparr>pm_cache := c\<rparr>"] Cons.prems by (simp add: Cache_def swap)
  qed
qed simp

lemma deprecated_New_same:
  assumes "\<forall>opt\<in>set opts. (\<exists>d. opt = CleanupInterval d) \<or> (\<exists>c. opt = Cache c)"
  shows "deprecated_NewProviderManager cache dstore opts = NewProviderManager cache dstore opts"
  using applyOptions_timer [OF assms, of 0 True "\<lparr>pm_cache = cache, pm_sets = [], pm_dstore = dstore, pm_cleanupInterval = hours 1,
      pm_timer = False, pm_gcQueryRes = None, pm_gcSkip = None, pm_gcTime = 0, pm_closed = False, pm_log = []\<rparr>"]
  by (simp add: deprecated_NewProviderManager_def NewProviderManager_def Let_def)

section \<open>Reads see the additions accepted before them\<close>

fun event_named :: "service_event \<Rightarrow> bool" where
  "event_named (CallAdd k ai) = (k \<noteq> [] \<and> ai_ID ai \<noteq> [])"
| "event_named (CallGet k) = (k \<noteq> [])"
| "event_named ev = True"

fun event_timed :: "instant \<Rightarrow> service_event \<Rightarrow> bool" where
  "event_timed T (Accept i now) = (T \<le> now \<and> now \<le> T + 172800000000000)"
| "event_timed T (TimerFires now) = (T \<le> now \<and> now \<le> T + 172800000000000)"
| "event_timed T ev = True"

fun caller_named :: "pm_caller \<Rightarrow> bool" where
  "caller_named (AddCalling k ai) = (k \<noteq> [] \<and> ai_ID ai \<noteq> [])"
| "caller_named (GetCalling k) = (k \<noteq> [])"
| "caller_named c = True"

fun answer_has :: "bytes \<Rightarrow> peer_id \<Rightarrow> pm_caller \<Rightarrow> bool" where
  "answer_has k p (GetWaiting k' ps) = (k' = k \<longrightarrow> p \<in> set ps)"
| "answer_has k p (GetReturned k' (Inr provs)) = (k' = k \<longrightarrow> p \<in> ai_ID ` set provs)"
| "answer_has k p c = True"

definition callers_named :: "('c, 'd) service \<Rightarrow> bool" where
  "callers_named s \<longleftrightarrow> (\<forall>c\<in>set (sv_callers s). caller_named c)"

lemma caller_at_set: "caller_at i s = Some c \<Longrightarrow> c \<in> set (sv_callers s)"
  by (auto simp: caller_at_def split: if_splits)

lemma with_caller_named: "callers_named s \<Longrightarrow> caller_named c \<Longrightarrow> callers_named (with_caller i c s)"
  using set_update_subset_insert [of "sv_callers s" i c] by (auto simp: callers_named_def with_caller_def)

lemma callers_named_pm [simp]: "callers_named (s\<lparr>sv_pm := pm\<rparr>) = callers_named s"
  by (simp add: callers_named_def)

text \<open>What a step does to the manager: nothing, or one of the manager's own steps.\<close>

lemma service_step_manager:
  assumes "service_step step self PeerInfos ev s = Some s'" and "callers_named s" and "event_named ev"
  shows "callers_named s'" and "sv_pm s' = sv_pm s \<or> (\<exists>pe r. step pe (sv_pm s) = Some (r, sv_pm s') \<and>
      (event_timed T ev \<and> 0 \<le> T \<longrightarrow> event_within T (T + 172800000000000) pe))"
proof -
  have g: "callers_named s' \<and> (sv_pm s' = sv_pm s \<or> (\<exists>pe r. step pe (sv_pm s) = Some (r, sv_pm s') \<and>
      (event_timed T ev \<and> 0 \<le> T \<longrightarrow> event_within T (T + 172800000000000) pe)))"
  proof (cases ev)
    case (Accept i now)
    then have a: "accept step i now s = Some s'" using assms(1) by (simp add: service_step_def)
    show ?thesis
    proof (cases "caller_at i s")
      case (Some c)
      then have n: "caller_named c" using assms(2) caller_at_set by (auto simp: callers_named_def)
      show ?thesis
      proof (cases c)
        case (AddCalling k ai)
        then obtain r pm where st: "step (NewProv k (ai_ID ai) now) (sv_pm s) = Some (r, pm)"
          "s' = with_caller i (AddReturned k (ai_ID ai) None) (s\<lparr>sv_pm := pm\<rparr>)"
          using a Some by (auto simp: accept_def)
        have "sv_pm s' = pm" using st(2) by (simp add: with_caller_def)
        moreover have "callers_named s'" using st(2) assms(2) by (simp add: with_caller_named)
        ultimately show ?thesis using st(1) n AddCalling Accept by fastforce
      next
        case (GetCalling k)
        then obtain r pm where st: "step (GetProv k now) (sv_pm s) = Some (r, pm)"
          "s' = with_caller i (GetWaiting k (case r of None \<Rightarrow> [] | Some ps \<Rightarrow> ps)) (s\<lparr>sv_pm := pm\<rparr>)"
          using a Some by (auto simp: accept_def)
        have "sv_pm s' = pm" using st(2) by (simp add: with_caller_def)
        moreover have "callers_named s'" using st(2) assms(2) by (simp add: with_caller_named)
        ultimately show ?thesis using st(1) n GetCalling Accept by fastforce
      qed (use a Some in \<open>simp_all add: accept_def\<close>)
    qed (use a in \<open>simp add: accept_def\<close>)
  next
    case (Receive i)
    then show ?thesis
      using assms(1,2) by (auto simp: service_step_def with_caller_named split: option.splits pm_caller.splits) (simp_all add: with_caller_def)
  next
    case (CtxEnds i err)
    then show ?thesis
      using assms(1,2)
      by (auto simp: service_step_def give_up_def with_caller_named split: option.splits pm_caller.splits) (simp_all add: with_caller_def)
  next
    case Collect
    then show ?thesis using assms(1,2) by (auto simp: service_step_def manager_does_def intro!: exI [of _ GCNext])
  next
    case (TimerFires now)
    then show ?thesis using assms(1,2) by (auto simp: service_step_def manager_does_def intro!: exI [of _ "GCTimer now"])
  next
    case ManagerStops
    then show ?thesis using assms(1,2) by (auto simp: service_step_def manager_does_def intro!: exI [of _ Stop] split: if_splits)
  qed (use assms in \<open>auto simp: service_step_def callers_named_def split: if_splits\<close>)
  then show "callers_named s'" and "sv_pm s' = sv_pm s \<or> (\<exists>pe r. step pe (sv_pm s) = Some (r, sv_pm s') \<and>
      (event_timed T ev \<and> 0 \<le> T \<longrightarrow> event_within T (T + 172800000000000) pe))" by blast+
qed

lemma caller_at_with: "caller_at j (with_caller i c s) = (if j = i \<and> i < length (sv_callers s) then Some c else caller_at j s)"
  by (simp add: caller_at_def with_caller_def)

lemma caller_at_pm [simp]: "caller_at j (s\<lparr>sv_pm := pm\<rparr>) = caller_at j s"
  by (simp add: caller_at_def)

lemma caller_at_length: "caller_at i s = Some c \<Longrightarrow> i < length (sv_callers s)"
  by (auto simp: caller_at_def split: if_splits)

definition answers_have :: "(nat \<Rightarrow> bool) \<Rightarrow> bytes \<Rightarrow> peer_id \<Rightarrow> ('c, 'd) service \<Rightarrow> bool" where
  "answers_have J k p s \<longleftrightarrow> (\<forall>j c. J j \<longrightarrow> caller_at j s = Some c \<longrightarrow> answer_has k p c)"

lemma answers_have_with:
  "answers_have J k p s \<Longrightarrow> (J i \<Longrightarrow> answer_has k p c) \<Longrightarrow> answers_have J k p (with_caller i c s)"
  by (auto simp: answers_have_def caller_at_with split: if_splits)

lemma answers_have_pm [simp]: "answers_have J k p (s\<lparr>sv_pm := pm\<rparr>) = answers_have J k p s"
  by (simp add: answers_have_def)

lemma answers_have_callers: "sv_callers s' = sv_callers s \<Longrightarrow> answers_have J k p s' = answers_have J k p s"
  by (simp add: answers_have_def caller_at_def)

lemma answers_have_new: "answers_have J k p s \<Longrightarrow> answer_has k p c \<Longrightarrow> sv_callers s' = sv_callers s @ [c] \<Longrightarrow> answers_have J k p s'"
  by (auto simp: answers_have_def caller_at_def nth_append split: if_splits)

fun quiet :: "service_event \<Rightarrow> bool" where
  "quiet Collect = True"
| "quiet (TimerFires now) = True"
| "quiet SvParentDone = True"
| "quiet CallClose = True"
| "quiet ManagerStops = True"
| "quiet CloseReturns = True"
| "quiet ev = False"

lemma quiet_callers: "service_step step self PeerInfos ev s = Some s' \<Longrightarrow> quiet ev \<Longrightarrow> sv_callers s' = sv_callers s"
  by (cases ev) (auto simp: service_step_def manager_does_def split: if_splits)

text \<open>A manager step keeps a fact \<open>H\<close> of the manager and answers every read of the key with the peer.\<close>

definition serves :: "('c, 'd) manager_step \<Rightarrow> instant \<Rightarrow> bytes \<Rightarrow> peer_id \<Rightarrow> (('c, 'd) ProviderManager \<Rightarrow> bool) \<Rightarrow> bool" where
  "serves step T k p H \<longleftrightarrow>
     (\<forall>pe pm r pm'. H pm \<longrightarrow> event_within T (T + 172800000000000) pe \<longrightarrow> step pe pm = Some (r, pm') \<longrightarrow>
        H pm' \<and> (\<forall>now. pe = GetProv k now \<longrightarrow> (\<exists>ps. r = Some ps \<and> p \<in> set ps)))"

lemma service_step_sees:
  assumes sv: "serves step T k p H" and st: "service_step step self PeerInfos ev s = Some s'"
    and h: "H (sv_pm s)" "callers_named s" "answers_have J k p s" and ev: "event_named ev" "event_timed T ev" "0 \<le> T"
    and ids: "\<And>ps. map ai_ID (PeerInfos ps) = ps"
  shows "H (sv_pm s') \<and> callers_named s' \<and> answers_have J k p s'"
proof (intro conjI)
  note m = service_step_manager [OF st h(2) ev(1)]
  show "callers_named s'" by (rule m(1))
  show "H (sv_pm s')" using m(2) [of T] ev sv h(1) unfolding serves_def by metis
  show "answers_have J k p s'"
  proof (cases ev)
    case (Accept i now)
    then have a: "accept step i now s = Some s'" using st by (simp add: service_step_def)
    then obtain c where c: "caller_at i s = Some c" by (auto simp: accept_def split: option.splits)
    show ?thesis
    proof (cases c)
      case (AddCalling k' ai)
      then show ?thesis using a c h(3) by (auto simp: accept_def intro: answers_have_with)
    next
      case (GetCalling k')
      then obtain r pm where r: "step (GetProv k' now) (sv_pm s) = Some (r, pm)"
        "s' = with_caller i (GetWaiting k' (case r of None \<Rightarrow> [] | Some ps \<Rightarrow> ps)) (s\<lparr>sv_pm := pm\<rparr>)"
        using a c by (auto simp: accept_def)
      have "k' \<noteq> []" using c caller_at_set h(2) GetCalling by (force simp: callers_named_def)
      then have "event_within T (T + 172800000000000) (GetProv k' now)" using ev Accept by simp
      with sv h(1) r(1) have "\<forall>now'. GetProv k' now = GetProv k now' \<longrightarrow> (\<exists>ps. r = Some ps \<and> p \<in> set ps)"
        unfolding serves_def by blast
      then have "answer_has k p (GetWaiting k' (case r of None \<Rightarrow> [] | Some ps \<Rightarrow> ps))" by auto
      then show ?thesis using r(2) h(3) by (simp add: answers_have_with)
    qed (use a c in \<open>simp_all add: accept_def\<close>)
  next
    case (Receive i)
    then obtain k' ps where c: "caller_at i s = Some (GetWaiting k' ps)" "s' = with_caller i (GetReturned k' (Inr (PeerInfos ps))) s"
      using st by (auto simp: service_step_def split: option.splits pm_caller.splits)
    have "answer_has k p (GetWaiting k' ps) \<Longrightarrow> answer_has k p (GetReturned k' (Inr (PeerInfos ps)))"
      using ids [of ps] by (auto simp flip: set_map)
    then have "J i \<Longrightarrow> answer_has k p (GetReturned k' (Inr (PeerInfos ps)))" using h(3) c(1) unfolding answers_have_def by blast
    then show ?thesis using c(2) h(3) by (simp add: answers_have_with)
  next
    case (CtxEnds i err)
    then show ?thesis
      using st h(3) by (auto simp: service_step_def give_up_def intro!: answers_have_with split: option.splits pm_caller.splits)
  next
    case (CallAdd k' ai)
    then show ?thesis using st h(3) by (intro answers_have_new [OF h(3), of "AddCalling k' ai"]) (auto simp: service_step_def)
  next
    case (CallGet k')
    then show ?thesis using st h(3) by (intro answers_have_new [OF h(3), of "GetCalling k'"]) (auto simp: service_step_def)
  qed (use answers_have_callers [OF quiet_callers [OF st]] h(3) in simp_all)
qed

lemma service_run_sees:
  assumes "serves step T k p H" and "0 \<le> T" and ids: "\<And>ps. map ai_ID (PeerInfos ps) = ps"
  shows "service_run (service_step step self PeerInfos) evs s = Some s' \<Longrightarrow> H (sv_pm s) \<Longrightarrow> callers_named s \<Longrightarrow>
    answers_have J k p s \<Longrightarrow> \<forall>ev\<in>set evs. event_named ev \<and> event_timed T ev \<Longrightarrow> answers_have J k p s'"
proof (induction evs arbitrary: s)
  case (Cons ev evs)
  then obtain t where t: "service_step step self PeerInfos ev s = Some t" "service_run (service_step step self PeerInfos) evs t = Some s'"
    by (auto simp: bind_eq_Some_conv)
  have "event_named ev" "event_timed T ev" using Cons.prems(5) by simp_all
  from service_step_sees [OF assms(1) t(1) Cons.prems(2-4) this assms(2) ids] Cons.IH [OF t(2)] Cons.prems(5)
  show ?case by simp
qed simp

lemma service_run_named:
  "service_run (service_step step self PeerInfos) evs s = Some s' \<Longrightarrow> callers_named s \<Longrightarrow> \<forall>ev\<in>set evs. event_named ev \<Longrightarrow>
     (\<And>pe pm r pm'. step pe pm = Some (r, pm') \<Longrightarrow> W pm \<Longrightarrow> W pm') \<Longrightarrow> W (sv_pm s) \<Longrightarrow> callers_named s' \<and> W (sv_pm s')"
proof (induction evs arbitrary: s)
  case (Cons ev evs)
  then obtain t where t: "service_step step self PeerInfos ev s = Some t" "service_run (service_step step self PeerInfos) evs t = Some s'"
    by (auto simp: bind_eq_Some_conv)
  have "event_named ev" using Cons.prems(3) by simp
  note m = service_step_manager [OF t(1) Cons.prems(2) this]
  have "W (sv_pm t)" using m(2) Cons.prems(4,5) by metis
  then show ?case using Cons.IH [OF t(2) m(1) _ Cons.prems(4)] Cons.prems(3) by simp
qed simp

lemma records_serve:
  "serves (pm_step env) T k p (\<lambda>pm. pm_service_ok env contents view T pm \<and> kept env contents view k p T pm)" if "k \<noteq> []"
  unfolding serves_def
proof (intro allI impI)
  fix pe pm r pm'
  assume h: "pm_service_ok env contents view T pm \<and> kept env contents view k p T pm"
    "event_within T (T + 172800000000000) pe" "pm_step env pe pm = Some (r, pm')"
  from pms.held_step [OF h(1) [THEN conjunct1] h(2) that h(1) [THEN conjunct2] h(3)] pms.ok_step [OF h(1) [THEN conjunct1] h(3)]
  show "(pm_service_ok env contents view T pm' \<and> kept env contents view k p T pm') \<and>
    (\<forall>now. pe = GetProv k now \<longrightarrow> (\<exists>ps. r = Some ps \<and> p \<in> set ps))" by auto
qed

section \<open>Closing\<close>

definition closed_ok :: "('c, 'd) service \<Rightarrow> bool" where
  "closed_ok s \<longleftrightarrow> (sv_close s \<noteq> SvOpen \<longrightarrow> sv_ctxDone s) \<and> (sv_close s = SvClosed \<longrightarrow> pm_closed (sv_pm s))"

lemma closed_manager: "pm_closed pm \<Longrightarrow> pm_step env ev pm = None"
  by (simp add: pm_step_def step_with_def)

lemma manager_stops: "\<not> pm_closed pm \<Longrightarrow> \<exists>pm'. pm_step env Stop pm = Some (None, pm') \<and> pm_closed pm'"
  by (simp add: pm_step_def step_with_def on_stop_def Let_def case_prod_beta)

lemma with_caller_fields [simp]:
  "sv_pm (with_caller i c s) = sv_pm s" "sv_close (with_caller i c s) = sv_close s" "sv_ctxDone (with_caller i c s) = sv_ctxDone s"
  by (simp_all add: with_caller_def)

text \<open>What may become of a call once the manager has stopped.\<close>

fun after_close :: "pm_caller \<Rightarrow> pm_caller \<Rightarrow> bool" where
  "after_close (AddCalling k ai) c \<longleftrightarrow> c = AddCalling k ai \<or> (\<exists>err. c = AddReturned k (ai_ID ai) (Some err))"
| "after_close (GetCalling k) c \<longleftrightarrow> c = GetCalling k \<or> (\<exists>err. c = GetReturned k (Inl err))"
| "after_close (GetWaiting k ps) c \<longleftrightarrow> c = GetWaiting k ps \<or> (\<exists>r. c = GetReturned k r)"
| "after_close (AddReturned k p r) c \<longleftrightarrow> c = AddReturned k p r"
| "after_close (GetReturned k r) c \<longleftrightarrow> c = GetReturned k r"

lemma after_close_refl: "after_close c c"
  by (cases c) simp_all

lemma after_close_trans: "after_close a b \<Longrightarrow> after_close b c \<Longrightarrow> after_close a c"
  by (cases a) auto

lemma caller_at_appended: "caller_at i s = Some c \<Longrightarrow> sv_callers s' = sv_callers s @ cs \<Longrightarrow> caller_at i s' = Some c"
  by (auto simp: caller_at_def nth_append split: if_splits)

lemma after_close_with:
  assumes "caller_at i s = Some c" and "caller_at j s = Some b" and "after_close b b'"
  shows "\<exists>c'. caller_at i (with_caller j b' s) = Some c' \<and> after_close c c'"
proof (cases "i = j")
  case True
  then show ?thesis using assms caller_at_length [OF assms(2)] by (simp add: caller_at_with)
next
  case False
  then show ?thesis using assms(1) after_close_refl by (simp add: caller_at_with)
qed

lemma closed_step:
  assumes "records_service env self PeerInfos ev s = Some s'" and "pm_closed (sv_pm s)"
  shows "sv_pm s' = sv_pm s \<and> (caller_at i s = Some c \<longrightarrow> (\<exists>c'. caller_at i s' = Some c' \<and> after_close c c'))"
proof -
  note none = closed_manager [OF assms(2), of env]
  have st: "service_step (pm_step env) self PeerInfos ev s = Some s'" using assms(1) by (simp add: records_service_def)
  show ?thesis
  proof (cases "quiet ev")
    case True
    then have "caller_at i s' = caller_at i s" using quiet_callers [OF st] by (simp add: caller_at_def)
    moreover have "sv_pm s' = sv_pm s"
      using st True none by (cases ev) (auto simp: service_step_def manager_does_def split: if_splits)
    ultimately show ?thesis using after_close_refl by simp
  next
    case False
    then show ?thesis
    proof (cases ev)
      case (CallAdd k ai)
      then have "sv_pm s' = sv_pm s" "sv_callers s' = sv_callers s @ [AddCalling k ai]" using st by (auto simp: service_step_def)
      then show ?thesis using caller_at_appended after_close_refl by blast
    next
      case (CallGet k)
      then have "sv_pm s' = sv_pm s" "sv_callers s' = sv_callers s @ [GetCalling k]" using st by (auto simp: service_step_def)
      then show ?thesis using caller_at_appended after_close_refl by blast
    next
      case (Accept j now)
      then show ?thesis using st none by (auto simp: service_step_def accept_def split: option.splits pm_caller.splits)
    next
      case (Receive j)
      then obtain k ps where "caller_at j s = Some (GetWaiting k ps)" "s' = with_caller j (GetReturned k (Inr (PeerInfos ps))) s"
        using st by (auto simp: service_step_def split: option.splits pm_caller.splits)
      then show ?thesis using after_close_with [of i s c j "GetWaiting k ps" "GetReturned k (Inr (PeerInfos ps))"] by simp
    next
      case (CtxEnds j err)
      then obtain b b' where "caller_at j s = Some b" "s' = with_caller j b' s" "after_close b b'"
        using st by (auto simp: service_step_def give_up_def split: option.splits pm_caller.splits)
      then show ?thesis using after_close_with [of i s c j b b'] by simp
    qed simp_all
  qed
qed

lemma closed_run:
  "service_run (records_service env self PeerInfos) evs s = Some s' \<Longrightarrow> pm_closed (sv_pm s) \<Longrightarrow>
     sv_pm s' = sv_pm s \<and> (caller_at i s = Some c \<longrightarrow> (\<exists>c'. caller_at i s' = Some c' \<and> after_close c c'))"
proof (induction evs arbitrary: s c)
  case (Cons ev evs)
  then obtain t where t: "records_service env self PeerInfos ev s = Some t" "service_run (records_service env self PeerInfos) evs t = Some s'"
    by (auto simp: bind_eq_Some_conv)
  note st = closed_step [OF t(1) Cons.prems(2)]
  have "pm_closed (sv_pm t)" using st [of i c] Cons.prems(2) by simp
  from st [of i c] Cons.IH [OF t(2) this] show ?case by (metis after_close_trans)
qed (use after_close_refl in simp)

lemma closed_ok_step:
  assumes "records_service env self PeerInfos ev s = Some s'" and "closed_ok s"
  shows "closed_ok s'"
proof (cases "pm_closed (sv_pm s)")
  case True
  then show ?thesis
    using assms closed_step(1) [OF assms(1) True]
    by (cases ev) (auto simp: closed_ok_def records_service_def service_step_def accept_def give_up_def manager_does_def
        split: option.splits pm_caller.splits if_splits)
next
  case False
  then show ?thesis
    using assms
    by (cases ev) (auto simp: closed_ok_def records_service_def service_step_def accept_def give_up_def manager_does_def
        split: option.splits pm_caller.splits if_splits)
qed


lemma closed_ok_run:
  "service_run (records_service env self PeerInfos) evs s = Some s' \<Longrightarrow> closed_ok s \<Longrightarrow> closed_ok s'"
  by (induction evs arbitrary: s) (auto simp: bind_eq_Some_conv dest: closed_ok_step)

lemma close_can_return:
  assumes "closed_ok s" and "sv_close s \<noteq> SvOpen"
  shows "\<exists>evs s'. service_run (records_service env self PeerInfos) evs s = Some s' \<and> length evs \<le> 2 \<and> sv_close s' = SvClosed"
proof (cases "sv_close s")
  case SvClosing
  show ?thesis
  proof (cases "pm_closed (sv_pm s)")
    case True
    then show ?thesis
      using SvClosing by (intro exI [of _ "[CloseReturns]"] exI [of _ "s\<lparr>sv_close := SvClosed\<rparr>"])
        (simp add: records_service_def service_step_def)
  next
    case False
    then obtain pm' where "pm_step env Stop (sv_pm s) = Some (None, pm')" "pm_closed pm'" using manager_stops by blast
    then show ?thesis
      using SvClosing assms
      by (intro exI [of _ "[ManagerStops, CloseReturns]"] exI [of _ "s\<lparr>sv_pm := pm', sv_close := SvClosed\<rparr>"])
        (simp add: records_service_def service_step_def manager_does_def closed_ok_def)
  qed
qed (use assms in \<open>auto intro: exI [of _ "[]"]\<close>)

section \<open>Properties\<close>

text \<open>C38: Calls that overlap see each other in the order in which the manager accepts them: when \<open>AddProvider\<close> of a peer is accepted and
  its record is written, every call of \<open>GetProviders\<close> for the key that was not accepted before, whether it was already
  waiting or comes later, and that gets an answer within the validity of 48 hours, is told that peer, whatever other
  calls, collections and ended contexts come in between.\<close>

theorem reads_see_accepted_adds:
  assumes "pe_ok env contents view" and "reliable_queries env" and "pm_wf view pm" and "0 \<le> T" and "T + 172800000000000 \<le> 9223372036854775807"
    and "\<forall>ps. map ai_ID (PeerInfos ps) = ps"
    and "service_run (records_service env self PeerInfos) evs0 (sv_New pm) = Some s0" and "\<forall>ev\<in>set (evs0 @ evs). event_named ev"
    and "caller_at i s0 = Some (AddCalling k ai)" and "fst (writeProviderEntry env k (ai_ID ai) T (pm_dstore (sv_pm s0))) = None"
    and "service_run (records_service env self PeerInfos) (Accept i T # evs) s0 = Some s" and "\<forall>ev\<in>set evs. event_timed T ev"
    and "caller_at j s0 = None \<or> caller_at j s0 = Some (GetCalling k)" and "caller_at j s = Some (GetReturned k (Inr provs))"
  shows "ai_ID ai \<in> ai_ID ` set provs"
proof -
  let ?J = "\<lambda>j. caller_at j s0 = None \<or> caller_at j s0 = Some (GetCalling k)"
  let ?H = "\<lambda>pm. pm_service_ok env contents view T pm \<and> kept env contents view k (ai_ID ai) T pm"
  have n0: "callers_named (sv_New pm)" by (simp add: callers_named_def sv_New_def)
  have wf_step: "pm_wf view pm'" if "pm_step env pe pm1 = Some (r, pm')" "pm_wf view pm1" for pe pm1 r pm'
    using pm_step_wf [OF assms(1) that(2,1)] by blast
  have "pm_wf view (sv_pm (sv_New pm))" using assms(3) by (simp add: sv_New_def)
  moreover have "\<forall>ev\<in>set evs0. event_named ev" using assms(8) by simp
  ultimately have "callers_named s0 \<and> pm_wf view (sv_pm s0)"
    using service_run_named [where W = "pm_wf view", OF assms(7) [unfolded records_service_def] n0] wf_step by blast
  then have s0: "callers_named s0" "pm_wf view (sv_pm s0)" by blast+
  have named: "k \<noteq> []" "ai_ID ai \<noteq> []" using s0(1) caller_at_set [OF assms(9)] by (auto simp: callers_named_def)
  obtain s1 where s1: "records_service env self PeerInfos (Accept i T) s0 = Some s1"
    "service_run (records_service env self PeerInfos) evs s1 = Some s" using assms(11) by (auto simp: bind_eq_Some_conv)
  have running: "\<not> pm_closed (sv_pm s0)" using s1(1) assms(9) closed_manager [of "sv_pm s0" env]
    by (auto simp: records_service_def service_step_def accept_def)
  have s1_eq: "s1 = with_caller i (AddReturned k (ai_ID ai) None) (s0\<lparr>sv_pm := on_add env k (ai_ID ai) T (sv_pm s0)\<rparr>)"
    using s1(1) assms(9) running by (simp add: records_service_def service_step_def accept_def pm_step_def step_with_def)
  have H: "?H (sv_pm s1)"
    using assms(1,2,4,5,10) s0(2) named on_add_wf [OF assms(1) s0(2)]
    by (auto simp: s1_eq pm_service_ok_def intro!: kept_by_add)
  have "callers_named s1" unfolding s1_eq using s0(1) by (simp add: with_caller_named)
  moreover have "answers_have ?J k (ai_ID ai) s1"
    using assms(9) unfolding s1_eq by (intro answers_have_with) (auto simp: answers_have_def)
  moreover have "\<forall>ev\<in>set evs. event_named ev \<and> event_timed T ev" using assms(8,12) by simp
  ultimately have "answers_have ?J k (ai_ID ai) s"
    using service_run_sees [OF records_serve [OF named(1), where p = "ai_ID ai" and contents = contents and view = view] assms(4) _
        s1(2) [unfolded records_service_def]] H assms(6)
    by blast
  then have "answer_has k (ai_ID ai) (GetReturned k (Inr provs))" using assms(13,14) unfolding answers_have_def by blast
  then show ?thesis by simp
qed

text \<open>\<open>Close\<close> of the manager returns after at most two steps of it. When it has returned the store is not touched any more, and no
  call is accepted: a pending \<open>AddProvider\<close> never returns nil, and a pending \<open>GetProviders\<close> never gets an answer, they
  only return when their own context ends.\<close>

theorem provider_service_closes:
  assumes "service_run (records_service env self PeerInfos) evs (sv_New pm) = Some s" and "sv_close s \<noteq> SvOpen"
  shows "(\<exists>evs' s'. service_run (records_service env self PeerInfos) evs' s = Some s' \<and> length evs' \<le> 2 \<and> sv_close s' = SvClosed) \<and>
    (sv_close s = SvClosed \<longrightarrow>
       (\<forall>evs' s'. service_run (records_service env self PeerInfos) evs' s = Some s' \<longrightarrow>
          sv_pm s' = sv_pm s \<and> (\<forall>i c. caller_at i s = Some c \<longrightarrow> (\<exists>c'. caller_at i s' = Some c' \<and> after_close c c'))))"
proof -
  have ok: "closed_ok s" using closed_ok_run [OF assms(1)] by (simp add: closed_ok_def sv_New_def)
  have "pm_closed (sv_pm s)" if "sv_close s = SvClosed" using ok that by (simp add: closed_ok_def)
  then have "sv_pm s' = sv_pm s \<and> (\<forall>i c. caller_at i s = Some c \<longrightarrow> (\<exists>c'. caller_at i s' = Some c' \<and> after_close c c'))"
    if "sv_close s = SvClosed" "service_run (records_service env self PeerInfos) evs' s = Some s'" for evs' s'
    using closed_run [OF that(2)] that(1) by blast
  then show ?thesis using close_can_return [OF ok assms(2)] by blast
qed


section \<open>Witnesses\<close>

definition demo_provInfos :: "peer_id list \<Rightarrow> AddrInfo list" where
  "demo_provInfos = map (\<lambda>p. \<lparr>ai_ID = p, ai_Addrs = [''a'']\<rparr>)"

text \<open>A read waits while the addition is accepted; then both are answered and the manager is closed.\<close>

definition demo_calls :: "service_event list" where
  "demo_calls = [CallGet ''k'', CallAdd ''k'' \<lparr>ai_ID = ''p'', ai_Addrs = [''a'']\<rparr>]"

definition demo_later :: "service_event list" where
  "demo_later = [TimerFires 6, Accept 0 7, Collect, Receive 0]"

theorem reads_see_accepted_adds_witness:
  "\<exists>s provs. service_run (records_service demo_pm_env ''me'' demo_provInfos) (demo_calls @ Accept 1 5 # demo_later) (sv_New demo_pm) = Some s \<and>
     caller_at 0 s = Some (GetReturned ''k'' (Inr provs)) \<and> ''p'' \<in> ai_ID ` set provs"
proof -
  let ?run = "service_run (records_service demo_pm_env ''me'' demo_provInfos)"
  have "map_option (\<lambda>s0. (caller_at 0 s0, caller_at 1 s0, fst (writeProviderEntry demo_pm_env ''k'' ''p'' 5 (pm_dstore (sv_pm s0)))))
      (?run demo_calls (sv_New demo_pm)) = Some (Some (GetCalling ''k''), Some (AddCalling ''k'' \<lparr>ai_ID = ''p'', ai_Addrs = [''a'']\<rparr>), None)"
    by code_simp
  then obtain s0 where s0: "?run demo_calls (sv_New demo_pm) = Some s0" "caller_at 0 s0 = Some (GetCalling ''k'')"
    "caller_at 1 s0 = Some (AddCalling ''k'' \<lparr>ai_ID = ''p'', ai_Addrs = [''a'']\<rparr>)"
    "fst (writeProviderEntry demo_pm_env ''k'' ''p'' 5 (pm_dstore (sv_pm s0))) = None" by auto
  have split: "?run (demo_calls @ es) (sv_New demo_pm) = ?run es s0" for es
    using s0(1) by (simp add: demo_calls_def bind_eq_Some_conv del: service_run.simps(1)) (auto simp: bind_eq_Some_conv)
  have "map_option (\<lambda>s. map_option (\<lambda>c. (case c of GetReturned k (Inr ps) \<Rightarrow> k | _ \<Rightarrow> [])) (caller_at 0 s))
      (?run (demo_calls @ Accept 1 5 # demo_later) (sv_New demo_pm)) = Some (Some ''k'')" by code_simp
  then obtain s c where s: "?run (demo_calls @ Accept 1 5 # demo_later) (sv_New demo_pm) = Some s" "caller_at 0 s = Some c"
    "(case c of GetReturned k (Inr ps) \<Rightarrow> k | _ \<Rightarrow> []) = ''k''" by auto
  then obtain provs where c: "c = GetReturned ''k'' (Inr provs)" by (cases c) (auto split: sum.splits)
  have h: "(0::int) \<le> 5" "(5::int) + 172800000000000 \<le> 9223372036854775807" "\<forall>ps. map ai_ID (demo_provInfos ps) = ps"
    "\<forall>ev\<in>set (demo_calls @ demo_later). event_named ev" "\<forall>ev\<in>set demo_later. event_timed 5 ev"
    by (simp_all add: demo_provInfos_def comp_def demo_calls_def demo_later_def)
  note s' = s(1) [unfolded split]
  have "ai_ID \<lparr>ai_ID = ''p'', ai_Addrs = [''a'']\<rparr> \<in> ai_ID ` set provs"
    by (rule reads_see_accepted_adds [OF demo_pm_env_ok demo_pm_wf h(1-3) s0(1) h(4) s0(3) _ s' h(5) _ s(2) [unfolded c]])
      (simp_all add: s0)
  then show ?thesis using s(1,2) c by auto
qed

theorem provider_service_closes_witness:
  "\<exists>s evs' s'. service_run (records_service demo_pm_env ''me'' demo_provInfos) [CallGet ''k'', CallClose] (sv_New demo_pm) = Some s \<and>
     service_run (records_service demo_pm_env ''me'' demo_provInfos) evs' s = Some s' \<and> sv_close s' = SvClosed"
proof -
  have "map_option sv_close (service_run (records_service demo_pm_env ''me'' demo_provInfos) [CallGet ''k'', CallClose] (sv_New demo_pm)) =
      Some SvClosing" by code_simp
  then obtain s where s: "service_run (records_service demo_pm_env ''me'' demo_provInfos) [CallGet ''k'', CallClose] (sv_New demo_pm) = Some s"
    "sv_close s = SvClosing" by auto
  then have "sv_close s \<noteq> SvOpen" by simp
  from provider_service_closes [OF s(1) this] s(1) show ?thesis by blast
qed

end
