(* ===== verification/Loggable.thy ===== *)
theory Loggable
  imports DHT_Prelude
begin

text \<open>
  The texts that keys have in log lines and traces (\<^verbatim>\<open>internal/logging.go\<close>, \<^verbatim>\<open>rtrefresh/rt_refresh_manager.go\<close>). The
  base 32 encodings, \<^verbatim>\<open>cid.Cast\<close> and \<^verbatim>\<open>multihash.Cast\<close> are third-party: parameters. An error is its text.
\<close>

text \<open>\<^verbatim>\<open>strings.IndexByte\<close>: the place of the first occurrence.\<close>

fun IndexByte :: "string \<Rightarrow> char \<Rightarrow> nat option" where
  "IndexByte [] c = None"
| "IndexByte (x # xs) c = (if x = c then Some 0 else map_option Suc (IndexByte xs c))"

definition tryFormatLoggableRecordKey :: "(bytes \<Rightarrow> string) \<Rightarrow> string \<Rightarrow> string + string" where
  "tryFormatLoggableRecordKey b32 k =
     (case k of
        [] \<Rightarrow> Inl ''LoggableRecordKey is empty''
      | c # rest \<Rightarrow>
          (let cstr = [] in
           if c = CHR ''/'' then
             (case IndexByte rest (CHR ''/'') of
                None \<Rightarrow> Inl (''LoggableRecordKey starts with '' @ [CHR 0x27, CHR ''/'', CHR 0x27] @ '' but is not a path: '' @ b32 k)
              | Some protoEnd \<Rightarrow>
                  (let proto = take protoEnd rest; cstr = drop (protoEnd + 2) k
                   in Inr (''/'' @ proto @ ''/'' @ b32 cstr)))
           else Inl (''LoggableRecordKey is not a path: '' @ b32 cstr)))"

definition log_text :: "string + string \<Rightarrow> string" where
  "log_text r = (case r of Inl err \<Rightarrow> err | Inr s \<Rightarrow> s)"

definition LoggableRecordKeyString :: "(bytes \<Rightarrow> string) \<Rightarrow> string \<Rightarrow> string" where
  "LoggableRecordKeyString b32 lk = log_text (tryFormatLoggableRecordKey b32 lk)"

definition LoggableRecordKeyBytes :: "(bytes \<Rightarrow> string) \<Rightarrow> bytes \<Rightarrow> string" where
  "LoggableRecordKeyBytes b32 lk = log_text (tryFormatLoggableRecordKey b32 lk)"

definition tryFormatLoggableProviderKey :: "(bytes \<Rightarrow> string) \<Rightarrow> (bytes \<Rightarrow> bool) \<Rightarrow> (bytes \<Rightarrow> bool) \<Rightarrow> bytes \<Rightarrow> string + string" where
  "tryFormatLoggableProviderKey b32 is_cid is_multihash k =
     (if length k = 0 then Inl ''LoggableProviderKey is empty''
      else let encodedKey = b32 k
           in if is_cid k then Inr encodedKey
              else if is_multihash k then Inr encodedKey
              else Inl (''LoggableProviderKey is not a Multihash or CID: '' @ encodedKey))"

definition LoggableProviderRecordBytes :: "(bytes \<Rightarrow> string) \<Rightarrow> (bytes \<Rightarrow> bool) \<Rightarrow> (bytes \<Rightarrow> bool) \<Rightarrow> bytes \<Rightarrow> string" where
  "LoggableProviderRecordBytes b32 is_cid is_multihash lk = log_text (tryFormatLoggableProviderKey b32 is_cid is_multihash lk)"

definition loggableRawKeyString :: "(bytes \<Rightarrow> string) \<Rightarrow> string \<Rightarrow> string" where
  "loggableRawKeyString raw32 k = (if length k = 0 then k else raw32 k)"

section \<open>What a log text says\<close>

lemma IndexByte_Some: "IndexByte xs c = Some n \<Longrightarrow> \<exists>ys zs. xs = ys @ c # zs \<and> length ys = n \<and> c \<notin> set ys"
proof (induction xs arbitrary: n)
  case (Cons x xs)
  show ?case
  proof (cases "x = c")
    case True
    then show ?thesis using Cons.prems by (intro exI [of _ "[]"] exI [of _ xs]) simp
  next
    case False
    then obtain m where m: "IndexByte xs c = Some m" "n = Suc m" using Cons.prems by auto
    from Cons.IH [OF m(1)] obtain ys zs where "xs = ys @ c # zs" "length ys = m" "c \<notin> set ys" by blast
    then show ?thesis using m(2) False by (intro exI [of _ "x # ys"] exI [of _ zs]) simp
  qed
qed simp

lemma split_at_first: "xs @ c # ys = xs' @ c # ys' \<Longrightarrow> c \<notin> set xs \<Longrightarrow> c \<notin> set xs' \<Longrightarrow> xs = xs' \<and> ys = ys'"
  by (induction xs arbitrary: xs') (case_tac xs'; auto)+

lemma record_key_text:
  assumes "tryFormatLoggableRecordKey b32 k = Inr s"
  shows "\<exists>proto cstr. k = CHR ''/'' # proto @ CHR ''/'' # cstr \<and> CHR ''/'' \<notin> set proto \<and> s = ''/'' @ proto @ ''/'' @ b32 cstr"
proof -
  obtain rest n where k: "k = CHR ''/'' # rest" "IndexByte rest (CHR ''/'') = Some n" "s = ''/'' @ take n rest @ ''/'' @ b32 (drop (n + 2) k)"
    using assms by (auto simp: tryFormatLoggableRecordKey_def Let_def split: list.splits if_splits option.splits)
  from IndexByte_Some [OF k(2)] obtain ys zs where "rest = ys @ CHR ''/'' # zs" "length ys = n" "CHR ''/'' \<notin> set ys" by blast
  then show ?thesis using k(1,3) by (intro exI [of _ ys] exI [of _ zs]) simp
qed

text \<open>Two paths with the same text are the same key; all keys that are not paths and do not begin like one have the same text.\<close>

lemma record_key_text_inj:
  assumes "inj b32" and "tryFormatLoggableRecordKey b32 k = Inr s" and "tryFormatLoggableRecordKey b32 k' = Inr s"
  shows "k = k'"
proof -
  obtain proto cstr where k: "k = CHR ''/'' # proto @ CHR ''/'' # cstr" "CHR ''/'' \<notin> set proto" "s = ''/'' @ proto @ ''/'' @ b32 cstr"
    using record_key_text [OF assms(2)] by blast
  obtain proto' cstr' where k': "k' = CHR ''/'' # proto' @ CHR ''/'' # cstr'" "CHR ''/'' \<notin> set proto'" "s = ''/'' @ proto' @ ''/'' @ b32 cstr'"
    using record_key_text [OF assms(3)] by blast
  have "proto = proto' \<and> b32 cstr = b32 cstr'"
    using k(2,3) k'(2,3) by (intro split_at_first) simp_all
  then show ?thesis using k(1) k'(1) assms(1) by (auto dest: injD)
qed

lemma plain_keys_same_text:
  "k \<noteq> [] \<Longrightarrow> hd k \<noteq> CHR ''/'' \<Longrightarrow> LoggableRecordKeyString b32 k = ''LoggableRecordKey is not a path: '' @ b32 []"
  by (cases k) (simp_all add: LoggableRecordKeyString_def tryFormatLoggableRecordKey_def log_text_def)

lemma provider_key_text:
  "k \<noteq> [] \<Longrightarrow> \<exists>pre. LoggableProviderRecordBytes b32 is_cid is_multihash k = pre @ b32 k"
  by (auto simp: LoggableProviderRecordBytes_def tryFormatLoggableProviderKey_def log_text_def Let_def)

end
