(* ===== verification/Metrics.thy ===== *)
theory Metrics
  imports Handlers Message_Sender
begin

text \<open>
  The metrics (\<^verbatim>\<open>internal/metrics/\<close>, the recording calls of \<^verbatim>\<open>dht_net.go\<close> and
  \<^verbatim>\<open>internal/net/message_manager.go\<close>): what the server records while it serves a stream and the client
  while it sends, and how the counters relate to what was received, answered and sent.

  The instruments are third-party: a recording is kept with its instrument, value and attributes. An attribute set keeps the
  last value of a key; when a call passes several options their attributes are merged in order. A latency is kept
  as the duration that is divided into milliseconds.
\<close>

section \<open>Attributes\<close>

type_synonym attrs = "(string, string) gomap"

definition KeyMessageType :: string where
  "KeyMessageType = ''message_type''"

definition KeyPeerID :: string where
  "KeyPeerID = ''peer_id''"

definition KeyInstanceID :: string where
  "KeyInstanceID = ''instance_id''"

definition merge_attrs :: "(string \<times> string) list \<Rightarrow> attrs \<Rightarrow> attrs" where
  "merge_attrs kvs s = fold (\<lambda>(k, v). gm_put k v) kvs s"

text \<open>A context is the attribute set that was put into it, if any.\<close>

type_synonym metrics_ctx = "attrs option"

definition ContextWithAttributes :: "metrics_ctx \<Rightarrow> (string \<times> string) list \<Rightarrow> metrics_ctx" where
  "ContextWithAttributes ctx kv = Some (merge_attrs kv [])"

definition AttributesFromContext :: "metrics_ctx \<Rightarrow> attrs" where
  "AttributesFromContext ctx = (case ctx of None \<Rightarrow> [] | Some s \<Rightarrow> s)"

text \<open>The name of a message type; \<open>num\<close> writes the number of one without a name.\<close>

fun type_name :: "(32 word \<Rightarrow> string) \<Rightarrow> MessageType \<Rightarrow> string" where
  "type_name num PUT_VALUE = ''PUT_VALUE''"
| "type_name num GET_VALUE = ''GET_VALUE''"
| "type_name num ADD_PROVIDER = ''ADD_PROVIDER''"
| "type_name num GET_PROVIDERS = ''GET_PROVIDERS''"
| "type_name num FIND_NODE = ''FIND_NODE''"
| "type_name num PING = ''PING''"
| "type_name num (UnknownType n) = num n"

definition UpsertMessageType :: "(32 word \<Rightarrow> string) \<Rightarrow> Message \<Rightarrow> string \<times> string" where
  "UpsertMessageType num m = (KeyMessageType, type_name num (m_Type m))"

text \<open>Go's \<^verbatim>\<open>copy\<close>: as many elements as the shorter slice has.\<close>

definition go_copy :: "'a list \<Rightarrow> 'a list \<Rightarrow> 'a list" where
  "go_copy dst src = take (length dst) src @ drop (length src) dst"

definition newContextWithLocalTags :: "string \<Rightarrow> string \<Rightarrow> metrics_ctx \<Rightarrow> (string \<times> string) list \<Rightarrow> metrics_ctx" where
  "newContextWithLocalTags self instance_id ctx extraAttrs =
     (let allAttrs = go_copy [] extraAttrs;
          allAttrs = allAttrs @ [(KeyPeerID, self)];
          allAttrs = allAttrs @ [(KeyInstanceID, instance_id)]
      in ContextWithAttributes ctx allAttrs)"

section \<open>Recording\<close>

datatype instrument = ReceivedMessages | ReceivedMessageErrors | ReceivedBytes | InboundRequestLatency | OutboundRequestLatency |
  SentMessages | SentMessageErrors | SentRequests | SentRequestErrors | SentBytes | NetworkSizeGauge

datatype metric_value = MInt int | MMillis duration

record recording =
  rd_instrument :: instrument
  rd_value :: metric_value
  rd_attrs :: attrs

definition record_int :: "instrument \<Rightarrow> int \<Rightarrow> (string \<times> string) list list \<Rightarrow> recording" where
  "record_int i v opts = \<lparr>rd_instrument = i, rd_value = MInt v, rd_attrs = fold merge_attrs opts []\<rparr>"

definition record_millis :: "instrument \<Rightarrow> duration \<Rightarrow> (string \<times> string) list list \<Rightarrow> recording" where
  "record_millis i v opts = \<lparr>rd_instrument = i, rd_value = MMillis v, rd_attrs = fold merge_attrs opts []\<rparr>"

definition RecordMessageRecvOK :: "metrics_ctx \<Rightarrow> int \<Rightarrow> recording list" where
  "RecordMessageRecvOK ctx msgLen =
     (let attrs = AttributesFromContext ctx
      in [record_int ReceivedMessages 1 [attrs], record_int ReceivedBytes msgLen [attrs]])"

definition RecordMessageRecvErr :: "metrics_ctx \<Rightarrow> string \<Rightarrow> int \<Rightarrow> recording list" where
  "RecordMessageRecvErr ctx messageType msgLen =
     (let attrs = AttributesFromContext ctx; attrOpt = [(KeyMessageType, ''UNKNOWN'')]
      in [record_int ReceivedMessages 1 [attrOpt, attrs], record_int ReceivedMessageErrors 1 [attrOpt, attrs],
          record_int ReceivedBytes msgLen [attrOpt, attrs]])"

definition RecordMessageHandleErr :: "metrics_ctx \<Rightarrow> recording list" where
  "RecordMessageHandleErr ctx = [record_int ReceivedMessageErrors 1 [AttributesFromContext ctx]]"

definition RecordRequestLatency :: "metrics_ctx \<Rightarrow> duration \<Rightarrow> recording list" where
  "RecordRequestLatency ctx latency = [record_millis InboundRequestLatency latency [AttributesFromContext ctx]]"

definition RecordRequestSendErr :: "metrics_ctx \<Rightarrow> recording list" where
  "RecordRequestSendErr ctx =
     (let attrs = AttributesFromContext ctx in [record_int SentRequests 1 [attrs], record_int SentRequestErrors 1 [attrs]])"

definition RecordRequestSendOK :: "metrics_ctx \<Rightarrow> int \<Rightarrow> duration \<Rightarrow> recording list" where
  "RecordRequestSendOK ctx sentBytesLen latency =
     (let attrs = AttributesFromContext ctx
      in [record_int SentRequests 1 [attrs], record_int SentBytes 1 [attrs], record_millis OutboundRequestLatency latency [attrs]])"

definition RecordMessageSendOK :: "metrics_ctx \<Rightarrow> int \<Rightarrow> recording list" where
  "RecordMessageSendOK ctx sentBytesLen =
     (let attrs = AttributesFromContext ctx in [record_int SentMessages 1 [attrs], record_int SentBytes sentBytesLen [attrs]])"

definition RecordMessageSendErr :: "metrics_ctx \<Rightarrow> recording list" where
  "RecordMessageSendErr ctx =
     (let attrs = AttributesFromContext ctx in [record_int SentMessages 1 [attrs], record_int SentMessageErrors 1 [attrs]])"

text \<open>No attributes are passed.\<close>

definition RecordNetworkSize :: "metrics_ctx \<Rightarrow> int \<Rightarrow> recording list" where
  "RecordNetworkSize ctx ns = [record_int NetworkSizeGauge ns []]"

section \<open>The server\<close>



section \<open>The client\<close>

fun call_message :: "call \<Rightarrow> Message" where
  "call_message (Request m) = m"
| "call_message (OneWay m) = m"

text \<open>
  What a step of a call records: when the sender could not be had, when the message could not be sent, and
  when it was. \<open>len\<close> is the length of the encoded message; one that cannot be encoded is not recorded.
\<close>

fun call_metrics :: "(32 word \<Rightarrow> string) \<Rightarrow> metrics_ctx \<Rightarrow> (Message \<Rightarrow> nat) \<Rightarrow> duration \<Rightarrow> thread \<Rightarrow> thread \<Rightarrow> recording list" where
  "call_metrics num ctx len latency (Cleanup ref p c e) (Returned (Inl err)) =
     (let ctx = ContextWithAttributes ctx [UpsertMessageType num (call_message c)]
      in case c of Request m \<Rightarrow> RecordRequestSendErr ctx | OneWay m \<Rightarrow> RecordMessageSendErr ctx)"
| "call_metrics num ctx len latency (Sending ref p c) (Returned r) =
     (let ctx = ContextWithAttributes ctx [UpsertMessageType num (call_message c)]
      in case r of
           Inl err \<Rightarrow> if err = MarshalError then [] else RecordRequestSendErr ctx
         | Inr resp \<Rightarrow>
             (case c of
                Request m \<Rightarrow> RecordRequestSendOK ctx (int (len m)) latency
              | OneWay m \<Rightarrow> RecordMessageSendOK ctx (int (len m))))"
| "call_metrics num ctx len latency t t' = []"

definition act_metrics :: "(32 word \<Rightarrow> string) \<Rightarrow> metrics_ctx \<Rightarrow> (Message \<Rightarrow> nat) \<Rightarrow> duration \<Rightarrow> sm_action \<Rightarrow> sm_state \<Rightarrow> sm_state \<Rightarrow>
    recording list" where
  "act_metrics num ctx len latency act s s' =
     (case act of Run i me \<Rightarrow> call_metrics num ctx len latency (sm_threads s ! i) (sm_threads s' ! i) | _ \<Rightarrow> [])"

fun send_metrics :: "(32 word \<Rightarrow> string) \<Rightarrow> metrics_ctx \<Rightarrow> (Message \<Rightarrow> nat) \<Rightarrow> duration \<Rightarrow> sm_action list \<Rightarrow> sm_state \<Rightarrow> recording list" where
  "send_metrics num ctx len latency [] s = []"
| "send_metrics num ctx len latency (a # as) s =
     (case sm_step a s of
        None \<Rightarrow> []
      | Some s' \<Rightarrow> act_metrics num ctx len latency a s s' @ send_metrics num ctx len latency as s')"

section \<open>Counters\<close>

definition count_of :: "instrument \<Rightarrow> recording list \<Rightarrow> nat" where
  "count_of i rs = length (filter (\<lambda>r. rd_instrument r = i) rs)"

lemma count_of_Nil [simp]: "count_of i [] = 0"
  by (simp add: count_of_def)

lemma count_of_append [simp]: "count_of i (rs @ rs') = count_of i rs + count_of i rs'"
  by (simp add: count_of_def)

lemma count_of_int [simp]: "count_of i (record_int j v opts # rs) = (if j = i then 1 else 0) + count_of i rs"
  by (simp add: count_of_def record_int_def)

lemma count_of_millis [simp]: "count_of i (record_millis j v opts # rs) = (if j = i then 1 else 0) + count_of i rs"
  by (simp add: count_of_def record_millis_def)

lemmas record_defs = RecordMessageRecvOK_def RecordMessageRecvErr_def RecordMessageHandleErr_def RecordRequestLatency_def
  RecordRequestSendErr_def RecordRequestSendOK_def RecordMessageSendOK_def RecordMessageSendErr_def RecordNetworkSize_def Let_def

section \<open>What the metrics say\<close>

text \<open>The extra attributes get lost: the copy goes into a slice of length zero.\<close>

lemma extra_attrs_dropped:
  "newContextWithLocalTags self inst ctx extraAttrs = newContextWithLocalTags self inst ctx []"
  by (simp add: newContextWithLocalTags_def go_copy_def)

text \<open>The length of a request does not reach the histogram of sent bytes: it counts one byte.\<close>

lemma request_bytes_lost: "RecordRequestSendOK ctx n latency = RecordRequestSendOK ctx n' latency"
  by (simp add: RecordRequestSendOK_def)

text \<open>The message type of a message in error is not used.\<close>

lemma error_type_lost: "RecordMessageRecvErr ctx t n = RecordMessageRecvErr ctx t' n"
  by (simp add: RecordMessageRecvErr_def)

text \<open>The identity that the node has put into its context is not in the metrics of the messages it handles.\<close>

lemma identity_lost:
  assumes "ctx = newContextWithLocalTags self inst None []"
    and "r \<in> set (RecordMessageRecvOK (ContextWithAttributes ctx [(KeyMessageType, t)]) n)"
  shows "rd_attrs r = [(KeyMessageType, t)]"
  using assms(2)
  by (auto simp: RecordMessageRecvOK_def record_int_def ContextWithAttributes_def AttributesFromContext_def merge_attrs_def Let_def)

text \<open>A one-way message that fails on its stream is counted as a failed request.\<close>

lemma failed_message_is_request:
  "err \<noteq> MarshalError \<Longrightarrow>
     map rd_instrument (call_metrics num ctx len latency (Sending ref p (OneWay m)) (Returned (Inl err))) = [SentRequests, SentRequestErrors]"
  by (simp add: record_defs record_int_def)


lemma sum_list_update_int:
  "i < length xs \<Longrightarrow> f (xs ! i) = 0 \<Longrightarrow> sum_list (map f (xs[i := x])) = sum_list (map f xs) + (f x :: nat)"
proof (induction xs arbitrary: i)
  case (Cons y xs)
  then show ?case by (cases i) simp_all
qed simp

text \<open>Calls that have returned and are counted, and those of them that failed.\<close>

fun counted :: "thread \<Rightarrow> nat" where
  "counted (Returned (Inl err)) = (if err = MarshalError then 0 else 1)"
| "counted (Returned (Inr resp)) = 1"
| "counted t = 0"

fun failed_call :: "thread \<Rightarrow> nat" where
  "failed_call (Returned (Inl err)) = (if err = MarshalError then 0 else 1)"
| "failed_call t = 0"

fun cleanup_ok :: "thread \<Rightarrow> bool" where
  "cleanup_ok (Cleanup ref p c e) = (e \<noteq> MarshalError)"
| "cleanup_ok t = True"

lemma prep_error: "prepOrInvalidate l att ms st = (Some e, ms', st') \<Longrightarrow> e \<noteq> MarshalError"
  by (auto simp: prepOrInvalidate_def prep_def invalidate_def split: option.splits if_splits prod.splits)

lemma thread_step_metrics:
  assumes "thread_step me t s = Some (t', s')" and "cleanup_ok t"
  shows "cleanup_ok t' \<and> counted t = 0 \<and> failed_call t = 0 \<and>
    count_of SentRequests (call_metrics num ctx len latency t t') + count_of SentMessages (call_metrics num ctx len latency t t') = counted t' \<and>
    count_of SentRequestErrors (call_metrics num ctx len latency t t') + count_of SentMessageErrors (call_metrics num ctx len latency t t') = failed_call t' \<and>
    count_of SentRequestErrors (call_metrics num ctx len latency t t') \<le> count_of SentRequests (call_metrics num ctx len latency t t') \<and>
    count_of SentMessageErrors (call_metrics num ctx len latency t t') \<le> count_of SentMessages (call_metrics num ctx len latency t t')"
proof (cases t)
  case (Lookup p c)
  then show ?thesis using assms by (auto simp: lookup_sender_def Let_def split: option.splits)
next
  case (Prep ref p c)
  obtain err ms st where pr: "prepOrInvalidate (me_lockErr me) (me_att me False) (sm_senders s ! ref) (sm_streams s) = (err, ms, st)"
    by (metis prod_cases3)
  then show ?thesis
    using assms Prep prep_error by (cases err) (auto simp: prep_sender_def Let_def)
next
  case (Cleanup ref p c e)
  then show ?thesis
    using assms by (cases c) (auto simp: cleanup_sender_def record_defs split: option.splits if_splits)
next
  case (Sending ref p c)
  then obtain r where "t' = Returned r" using assms(1) by (auto simp: use_sender_def Let_def split: option.splits if_splits prod.splits)
  then show ?thesis using Sending by (cases r; cases c) (auto simp: record_defs)
next
  case (Invalidating ref)
  then show ?thesis using assms by (auto simp: invalidate_sender_def Let_def split: option.splits prod.splits)
qed (use assms in simp_all)

definition total :: "(thread \<Rightarrow> nat) \<Rightarrow> sm_state \<Rightarrow> nat" where
  "total f s = sum_list (map f (sm_threads s))"

definition sent_ok :: "recording list \<Rightarrow> sm_state \<Rightarrow> sm_state \<Rightarrow> bool" where
  "sent_ok recs s s' \<longleftrightarrow>
     total counted s' = total counted s + count_of SentRequests recs + count_of SentMessages recs \<and>
     total failed_call s' = total failed_call s + count_of SentRequestErrors recs + count_of SentMessageErrors recs \<and>
     count_of SentRequestErrors recs \<le> count_of SentRequests recs \<and> count_of SentMessageErrors recs \<le> count_of SentMessages recs"

lemma sent_ok_refl: "sm_threads s' = sm_threads s @ ts \<Longrightarrow> \<forall>t\<in>set ts. counted t = 0 \<and> failed_call t = 0 \<Longrightarrow> sent_ok [] s s'"
  by (simp add: sent_ok_def total_def)

lemma sent_ok_trans: "sent_ok r s t \<Longrightarrow> sent_ok r' t u \<Longrightarrow> sent_ok (r @ r') s u"
  by (simp add: sent_ok_def)

lemma sm_step_metrics:
  assumes "sm_step a s = Some s'" and "\<forall>t\<in>set (sm_threads s). cleanup_ok t"
  shows "(\<forall>t\<in>set (sm_threads s'). cleanup_ok t) \<and> sent_ok (act_metrics num ctx len latency a s s') s s'"
proof (cases a)
  case (Call p c)
  then have "sm_threads s' = sm_threads s @ [Lookup p c]" using assms(1) by (auto simp: sm_step_def)
  then show ?thesis using assms(2) Call sent_ok_refl [of s' s "[Lookup p c]"] by (auto simp: act_metrics_def)
next
  case (Disconnect p)
  then obtain ts where "sm_threads s' = sm_threads s @ ts" "\<forall>t\<in>set ts. \<exists>ref. t = Invalidating ref"
    using assms(1) by (auto simp: sm_step_def OnDisconnect_def split: option.splits)
  moreover from this(2) have "\<forall>t\<in>set ts. counted t = 0 \<and> failed_call t = 0 \<and> cleanup_ok t" by auto
  ultimately show ?thesis using assms(2) Disconnect sent_ok_refl [of s' s ts] by (auto simp: act_metrics_def)
next
  case (Run i me)
  then obtain t s1 where r: "i < length (sm_threads s)" "thread_step me (sm_threads s ! i) s = Some (t, s1)"
    "s' = s1\<lparr>sm_threads := (sm_threads s)[i := t]\<rparr>"
    using assms(1) by (auto simp: sm_step_def split: if_splits)
  have "cleanup_ok (sm_threads s ! i)" using assms(2) r(1) by simp
  note st = thread_step_metrics [OF r(2) this, of num ctx len latency]
  have th: "sm_threads s' = (sm_threads s)[i := t]" "sm_threads s' ! i = t" using r(1,3) by simp_all
  have "\<forall>t\<in>set (sm_threads s'). cleanup_ok t"
    using assms(2) st set_update_subset_insert [of "sm_threads s" i t] unfolding th(1) by blast
  moreover have "total counted s' = total counted s + counted t" "total failed_call s' = total failed_call s + failed_call t"
    unfolding total_def th(1) using st r(1) by (simp_all add: sum_list_update_int)
  ultimately show ?thesis using st th(2) by (simp add: Run act_metrics_def sent_ok_def)
qed

lemma sm_run_metrics:
  "sm_run as s = Some s' \<Longrightarrow> \<forall>t\<in>set (sm_threads s). cleanup_ok t \<Longrightarrow> sent_ok (send_metrics num ctx len latency as s) s s'"
proof (induction as arbitrary: s)
  case Nil
  then show ?case using sent_ok_refl [of s s "[]"] by simp
next
  case (Cons a as)
  then obtain t where t: "sm_step a s = Some t" "sm_run as t = Some s'" by (auto simp: bind_eq_Some_conv)
  note st = sm_step_metrics [OF t(1) Cons.prems(2), of num ctx len latency]
  show ?case using sent_ok_trans [OF _ Cons.IH [OF t(2)]] st t(1) by simp
qed

section \<open>Properties\<close>


text \<open>The metrics of the client agree with its calls: however calls and disconnections interleave, the counted requests
  and messages together are the calls that have returned, but for those whose message could not be encoded, the
  counted errors together are those of them that failed, and each kind counts no more errors than calls.\<close>

theorem outbound_metrics_exact:
  assumes "sm_run acts NewMessageSenderImpl = Some s"
  shows "let recs = send_metrics num ctx len latency acts NewMessageSenderImpl in
   count_of SentRequests recs + count_of SentMessages recs = total counted s \<and>
   count_of SentRequestErrors recs + count_of SentMessageErrors recs = total failed_call s \<and>
   count_of SentRequestErrors recs \<le> count_of SentRequests recs \<and> count_of SentMessageErrors recs \<le> count_of SentMessages recs"
  using sm_run_metrics [OF assms, of num ctx len latency]
  by (simp add: NewMessageSenderImpl_def sent_ok_def total_def Let_def)

text \<open>A request that is answered and a message that cannot be written.\<close>

definition demo_acts :: "sm_action list" where
  "demo_acts =
     (let me = (\<lambda>w. \<lparr>me_lockErr = None, me_att = (\<lambda>b. demo_att\<lparr>at_write := w\<rparr>), me_marshalOk = True\<rparr>)
      in [Call ''p'' (Request (NewMessage PING [] 0)), Call ''q'' (OneWay (NewMessage ADD_PROVIDER ''k'' 0)),
          Run 0 (me None), Run 1 (me None), Run 0 (me None), Run 1 (me None), Run 0 (me None), Run 1 (me (Some ''reset''))])"

theorem outbound_metrics_exact_witness:
  "\<exists>s. sm_run demo_acts NewMessageSenderImpl = Some s \<and> total counted s = 2 \<and>
     count_of SentRequests (send_metrics (\<lambda>w. []) None (\<lambda>m. 7) 5 demo_acts NewMessageSenderImpl) = 2 \<and>
     count_of SentMessages (send_metrics (\<lambda>w. []) None (\<lambda>m. 7) 5 demo_acts NewMessageSenderImpl) = 0"
proof -
  have "map_option (\<lambda>s. total counted s) (sm_run demo_acts NewMessageSenderImpl) = Some 2" by code_simp
  then obtain s where s: "sm_run demo_acts NewMessageSenderImpl = Some s" "total counted s = 2" by auto
  have "count_of SentMessages (send_metrics (\<lambda>w. []) None (\<lambda>m. 7) 5 demo_acts NewMessageSenderImpl) = 0" by code_simp
  with outbound_metrics_exact [OF s(1), of "\<lambda>w. []" None "\<lambda>m. 7" 5] s show ?thesis by (simp add: Let_def)
qed

end
