(* ===== verification/Spec2Isabelle.thy ===== *)
theory Spec2Isabelle
  imports Lookup_Loop Providers Provider_Routing Message_Sender Crawler_Sender Filters Dual Node_Maintenance Optimistic_Provide FullRT_Bulk DHT_Config Event_Channel Lifecycle FullRT_Life Provider_Service Loggable Metrics
begin

text \<open>
  A model of \<^verbatim>\<open>go-libp2p-kad-dht\<close>, an implementation of the Kademlia distributed hash
  table for libp2p, with the theorems that make its parts correct.

  \<^bold>\<open>The program.\<close> A node (\<^verbatim>\<open>dht.go\<close>) keeps a routing table of peers, serves the messages
  of other nodes (\<^verbatim>\<open>handlers.go\<close>, \<^verbatim>\<open>dht_net.go\<close>) from its record store, its provider store
  (\<^verbatim>\<open>records/\<close>) and its routing table, and answers its own callers (\<^verbatim>\<open>routing.go\<close>) by running lookups
  (\<^verbatim>\<open>query.go\<close>, \<^verbatim>\<open>qpeerset/\<close>) that ask ever closer peers through the message sender
  (\<^verbatim>\<open>internal/net/message_manager.go\<close>) and the messenger (\<^verbatim>\<open>pb/\<close>). Around it stand the maintenance
  of the table (\<^verbatim>\<open>rtrefresh/\<close>, \<^verbatim>\<open>subscriber_notifee.go\<close>), the filters of peers and addresses
  (\<^verbatim>\<open>dht_filters.go\<close>, \<^verbatim>\<open>rt_diversity_filter.go\<close>), the estimate of the network's size (\<^verbatim>\<open>netsize/\<close>)
  that the optimistic provide (\<^verbatim>\<open>lookup_optim.go\<close>) stops by, the crawler (\<^verbatim>\<open>crawler/\<close>), the client that
  keeps the whole network in memory (\<^verbatim>\<open>fullrt/\<close>) and the pair of a LAN and a WAN node (\<^verbatim>\<open>dual/\<close>).

  \<^bold>\<open>The theories.\<close>

  \<^item> \<open>DHT_Prelude\<close>: peers, addresses, durations, Go maps as association lists, sorting facts;
    \<open>Go_Std\<close> and \<open>Go_Time\<close>: instants, time stamps, varints and what else of Go's library the code uses; \<open>Datastore\<close>: the contracts
    of the datastore and of the cache as locales, interpreted on executable stores.
  \<^item> \<open>QPeerset\<close> (\<^verbatim>\<open>qpeerset/qpeerset.go\<close>): the peers of a lookup sorted by distance with their states.
  \<^item> \<open>Diversity\<close> (\<^verbatim>\<open>rt_diversity_filter.go\<close>, the filter of responses in \<^verbatim>\<open>query.go\<close>): limits per IP group.
  \<^item> \<open>LookupEvents\<close> (\<^verbatim>\<open>events.go\<close>) with \<open>Event_Channel\<close>, the channel they are sent on,
    \<open>Query\<close> (\<^verbatim>\<open>query.go\<close>): what one iteration of a lookup does, its end
    conditions, its result and its follow-up; \<open>Lookup_Loop\<close>: the event loop with its workers as an
    inductive step relation, its invariant, progress and termination.
  \<^item> \<open>Providers\<close> (\<^verbatim>\<open>records/\<close>, \<^verbatim>\<open>providers/\<close>): provider sets, their coding in the datastore, the loop of
    the manager with its cache and garbage collection; \<open>Provider_Service\<close>: the manager and its deprecated copy with
    concurrent callers and \<^verbatim>\<open>Close\<close>.
  \<^item> \<open>Messages\<close> (\<^verbatim>\<open>pb/\<close>), \<open>Handlers\<close> (\<^verbatim>\<open>handlers.go\<close>, \<^verbatim>\<open>dht_net.go\<close>, local records of \<^verbatim>\<open>dht.go\<close>): the
    server; \<open>Routing\<close> and \<open>Provider_Routing\<close> (\<^verbatim>\<open>routing.go\<close>, \<^verbatim>\<open>lookup.go\<close>, \<^verbatim>\<open>records.go\<close>): the client's operations.
  \<^item> \<open>Message_Sender\<close> (\<^verbatim>\<open>internal/net/message_manager.go\<close>): one sender per peer, under interleaved calls;
    \<open>Stream_IO\<close>: the bytes that \<^verbatim>\<open>WriteMsg\<close> puts on streams through pooled buffered writers.
  \<^item> \<open>RT_Refresh\<close> (\<^verbatim>\<open>rtrefresh/\<close>), \<open>Node_Maintenance\<close> (\<^verbatim>\<open>dht.go\<close>, \<^verbatim>\<open>subscriber_notifee.go\<close>,
    \<^verbatim>\<open>dht_bootstrap.go\<close>): the routing table and the mode of a node; \<open>Lifecycle\<close>: the
    goroutines of a node and \<^verbatim>\<open>Close\<close>; \<open>Filters\<close> (\<^verbatim>\<open>dht_filters.go\<close>).
  \<^item> \<open>Netsize\<close> (\<^verbatim>\<open>netsize/netsize.go\<close>) and \<open>Optimistic_Provide\<close> (\<^verbatim>\<open>lookup_optim.go\<close>).
  \<^item> \<open>Crawler\<close> with \<open>Crawler_Sender\<close> (\<^verbatim>\<open>crawler/crawler.go\<close>), \<open>Dual\<close> (\<^verbatim>\<open>dual/dual.go\<close>), \<open>FullRT\<close>, \<open>FullRT_Routing\<close>,
    \<open>FullRT_Bulk\<close> and \<open>FullRT_Life\<close> (\<^verbatim>\<open>fullrt/\<close>): the crawl's tables, the routing operations, the bulk operations with their
    workers, and the goroutines that crawl and exchange the tables.
  \<^item> \<open>Loggable\<close> (\<^verbatim>\<open>internal/logging.go\<close>): the texts of keys in log lines; \<open>Metrics\<close> (\<^verbatim>\<open>internal/metrics/\<close>): what the
    server and the client record.
  \<^item> \<open>DHT_Config\<close> (\<^verbatim>\<open>dht_options.go\<close>, \<^verbatim>\<open>internal/config/\<close>, \<^verbatim>\<open>amino/\<close>): options, defaults, fallbacks and
    validation, and the construction of a node, of a dual DHT and of a crawler.

  \<^bold>\<open>How the code is read.\<close> A Go struct is a record, an enumeration a datatype, a map an association
  list without duplicate keys, a string and a byte slice the same sequence of bytes (nil and empty
  slices are one). Durations are signed 64-bit words with Go's wrap-around; times are integers of
  nanoseconds. An error is a value of an error datatype, a run-time panic and a call that never
  returns are \<open>None\<close>. What goroutines share is a state whose steps interleave at the code's locks and
  channel operations; what the environment chooses (the branch of a \<^verbatim>\<open>select\<close>, the answer of a peer, the
  end of a context) is an event or a parameter. Code outside the repository, such as the routing
  table, the trie, the validator, protobuf coding, the host and the peerstore, is a parameter with
  its documented behaviour as named hypotheses, and every theorem with a hypothesis has a witness that
  instantiates it. There is no fuel: loops are structural recursions, recursions with a measure, or step
  relations whose executions are proved to end.

  \<^bold>\<open>What the lemmas show.\<close> Each component theory proves the invariant of its state under every
  operation and the behaviour of its operations, errors included; the numbered claims are the
  properties of the components, the last ones those that span several of them.

  \<^bold>\<open>Not modelled.\<close> Tracing spans and log lines, which observe the code and do not change what it does; the generated accessors and the coding of \<^verbatim>\<open>pb/dht.pb.go\<close>; the reading side of a stream below a whole
  message; the floating-point arithmetic of the estimator, whose operations are parameters; accessors that return a
  field; the helpers of tests.
\<close>

section \<open>From an announcement to an answer\<close>

text \<open>
  A server's handlers and its provider store together: what \<open>handleAddProvider\<close> accepts goes through
  \<open>AddProvider\<close> to the manager's loop, and \<open>handleGetProviders\<close> answers from what the loop returns to
  \<open>GetProviders\<close>. The contexts of these calls do not end.
\<close>

definition serveAddProvider :: "'d handler_env \<Rightarrow> ('c, 's) pm_env \<Rightarrow> peer_id \<Rightarrow> Message \<Rightarrow> instant \<Rightarrow> 'd dht_node \<Rightarrow>
    ('c, 's) ProviderManager \<Rightarrow> ((handler_error + Message option) \<times> 'd dht_node \<times> ('c, 's) ProviderManager) option" where
  "serveAddProvider env penv from pmes now n pm =
     (let (r, added, n) = handleAddProvider env from pmes n
      in map_option (\<lambda>(rs, pm). (r, n, pm))
           (pm_run penv (List.map_filter (\<lambda>(k, ai). snd (AddProvider (dn_self n) False k ai now)) added) pm))"

definition serveGetProviders :: "'d handler_env \<Rightarrow> ('c, 's) pm_env \<Rightarrow> (peer_id list \<Rightarrow> AddrInfo list) \<Rightarrow> peer_id \<Rightarrow> Message \<Rightarrow>
    instant \<Rightarrow> 'd dht_node \<Rightarrow> ('c, 's) ProviderManager \<Rightarrow>
    ((handler_error + Message option) \<times> 'd dht_node \<times> ('c, 's) ProviderManager) option" where
  "serveGetProviders env penv PeerInfos from pmes now n pm =
     (if length (m_Key pmes) > 80 \<or> length (m_Key pmes) = 0
      then (case handleGetProviders env from pmes n of (r, n) \<Rightarrow> Some (r, n, pm))
      else
        (case pm_step penv (GetProv (m_Key pmes) now) pm of
           None \<Rightarrow> None
         | Some (resp, pm) \<Rightarrow>
             (let provs = (case GetProviders PeerInfos False resp of None \<Rightarrow> Inl [] | Some provs \<Rightarrow> Inr provs);
                  (r, n) = handleGetProviders (env\<lparr>he_GetProviders := \<lambda>k. provs\<rparr>) from pmes n
              in Some (r, n, pm))))"

lemma accepted_events:
  assumes "handleAddProvider env p pmes n = (Inr None, added, n')"
  shows "\<exists>es. List.map_filter (\<lambda>(k, ai). snd (AddProvider self False k ai now)) added = NewProv (m_Key pmes) p now # es \<and>
    set es \<subseteq> {NewProv (m_Key pmes) p now} \<and> m_Key pmes \<noteq> []"
proof -
  have "added \<noteq> []" "m_Key pmes \<noteq> []" "\<forall>(k, ai)\<in>set added. k = m_Key pmes \<and> ai_ID ai = p"
    using assms by (auto simp: handleAddProvider_def Let_def accept_providers_spec split: if_splits)
  moreover from this(3) have "List.map_filter (\<lambda>(k, ai). snd (AddProvider self False k ai now)) added =
      map (\<lambda>x. NewProv (m_Key pmes) p now) added"
    by (induction added) (auto simp: AddProvider_def map_filter_simps)
  ultimately show ?thesis by (cases added) auto
qed

lemma pm_run_appended:
  assumes "pm_run env es pm = Some (rs1, pm1)" and "pm_run env evs pm1 = Some (rs2, pm2)"
  shows "\<exists>rs. pm_run env (es @ evs) pm = Some (rs, pm2)"
  using assms(1)
proof (induction es arbitrary: pm rs1)
  case (Cons e es)
  then obtain r t rs where t: "pm_step env e pm = Some (r, t)" "pm_run env es t = Some (rs, pm1)"
    by (auto split: option.splits)
  from Cons.IH [OF t(2)] t(1) show ?case by auto
qed (use assms(2) in simp)

lemma serveGetProviders_answer:
  assumes "serveGetProviders env penv PeerInfos from pmes now n pm = Some (Inr r, n', pm')"
  obtains prs where "pm_step penv (GetProv (m_Key pmes) now) pm = Some (prs, pm')"
    and "handleGetProviders (env\<lparr>he_GetProviders := \<lambda>k. case GetProviders PeerInfos False prs of None \<Rightarrow> Inl [] | Some provs \<Rightarrow> Inr provs\<rparr>)
      from pmes n = (Inr r, n')"
proof -
  have "\<not> (length (m_Key pmes) > 80 \<or> length (m_Key pmes) = 0)"
    using assms by (auto simp: serveGetProviders_def handleGetProviders_def)
  with assms show thesis
    by (auto simp: serveGetProviders_def Let_def split: option.splits prod.splits intro: that)
qed

lemma served_ids:
  "ai_ID ` set (PBPeersToPeerInfos validAddr (PeerInfosToPBPeers conn ps)) = ai_ID ` set ps"
proof -
  have "map ai_ID (PBPeersToPeerInfos validAddr (PeerInfosToPBPeers conn ps)) = map ai_ID ps"
    by (rule nth_equalityI)
      (simp_all add: PBPeersToPeerInfos_def PeerInfosToPBPeers_def RawPeerInfosToPBPeers_def PBPeerToPeerInfo_def peerInfoToPBPeer_def Let_def)
  then show ?thesis by (metis list.set_map)
qed

text \<open>C32: Announcing works end to end: after a server accepted a peer's announcement for a key, whatever additions, reads
  and collections its provider store performs in the 48 hours that follow, a client that asks the server for
  the providers of the key is told that peer.\<close>

theorem announced_provider_told:
  assumes "pe_ok penv contents view" and "reliable_queries penv" and "pm_wf view pm"
    and "0 \<le> T" and "T + 172800000000000 \<le> 9223372036854775807" and "p \<noteq> []"
    and "serveAddProvider env penv p pmes T n pm = Some (Inr None, n1, pm1)"
    and "fst (writeProviderEntry penv (m_Key pmes) p T (pm_dstore pm)) = None"
    and "pm_run penv evs pm1 = Some (rs, pm2)" and "\<forall>ev\<in>set evs. event_within T (T + 172800000000000) ev"
    and "\<forall>ps. map ai_ID (PeerInfos ps) = ps" and "T \<le> now" and "now \<le> T + 172800000000000"
    and "serveGetProviders env' penv PeerInfos from (NewMessage GET_PROVIDERS (m_Key pmes) 0) now n2 pm2 = Some (Inr (Some resp), n3, pm3)"
    and "send server (NewMessage GET_PROVIDERS (m_Key pmes) 0) = Inr resp"
  shows "\<exists>provs closer. pm_GetProviders validAddr send server (m_Key pmes) = Inr (provs, closer) \<and> p \<in> ai_ID ` set provs"
proof -
  let ?k = "m_Key pmes"
  obtain added n' where a: "handleAddProvider env p pmes n = (Inr None, added, n')" and
    r1: "\<exists>rs0. pm_run penv (List.map_filter (\<lambda>(k, ai). snd (AddProvider (dn_self n') False k ai T)) added) pm = Some (rs0, pm1)"
    using assms(7) by (auto simp: serveAddProvider_def split: prod.splits)
  obtain es rs0 where es: "set es \<subseteq> {NewProv ?k p T}" "?k \<noteq> []" and r2: "pm_run penv (NewProv ?k p T # es) pm = Some (rs0, pm1)"
    using accepted_events [OF a] r1 by metis
  from r2 have "\<exists>rs. pm_run penv es (on_add penv ?k p T pm) = Some (rs, pm1)"
    by (auto simp: pm_step_def step_with_def split: if_splits)
  then obtain rs1 where r3: "pm_run penv (es @ evs) (on_add penv ?k p T pm) = Some (rs1, pm2)"
    using pm_run_appended [OF _ assms(9)] by blast
  have w: "\<forall>ev\<in>set (es @ evs). event_within T (T + 172800000000000) ev"
    using es assms(4,6,10) by auto
  obtain prs where st: "pm_step penv (GetProv ?k now) pm2 = Some (prs, pm3)" and
    h: "handleGetProviders (env'\<lparr>he_GetProviders := \<lambda>k. case GetProviders PeerInfos False prs of None \<Rightarrow> Inl [] | Some provs \<Rightarrow> Inr provs\<rparr>)
      from (NewMessage GET_PROVIDERS ?k 0) n2 = (Inr (Some resp), n3)"
    using serveGetProviders_answer [OF assms(14)] unfolding NewMessage_fields by blast
  have "pm_service_ok penv contents view T (on_add penv ?k p T pm)"
    using assms(1-5) on_add_wf by (simp add: pm_service_ok_def)
  moreover have "kept penv contents view ?k p T (on_add penv ?k p T pm)"
    using assms(1-6,8) es(2) by (intro kept_by_add) simp_all
  ultimately obtain ps where ps: "prs = Some ps" "p \<in> set ps"
    using pms.read_after_run [of penv contents view T _ ?k p "es @ evs" rs1 pm2 "GetProv ?k now" prs pm3]
      w st r3 es(2) assms(12,13) by auto
  then have "p \<in> ai_ID ` set (PeerInfos ps)" using assms(11) by (metis list.set_map)
  moreover have "m_ProviderPeers resp = PeerInfosToPBPeers (he_Connectedness env')
      (map (\<lambda>pr. \<lparr>ai_ID = ai_ID pr, ai_Addrs = filterAddrs (env'\<lparr>he_GetProviders := \<lambda>k. Inr (PeerInfos ps)\<rparr>) (ai_Addrs pr)\<rparr>) (PeerInfos ps))"
    using h unfolding ps(1) by (auto simp: handleGetProviders_def GetProviders_def Let_def split: if_splits)
  then have "ai_ID ` set (PBPeersToPeerInfos validAddr (m_ProviderPeers resp)) = ai_ID ` set (PeerInfos ps)"
    by (simp only: served_ids set_map image_image AddrInfo.simps)
  ultimately show ?thesis by (simp add: pm_GetProviders_def assms(15))
qed

definition demo_ask :: Message where
  "demo_ask = NewMessage GET_PROVIDERS ''k'' 0"

definition demo_server :: "((handler_error + Message option) \<times> (string, bytes) gomap dht_node \<times>
    ((string, nat) gomap, (string, bytes) gomap) ProviderManager) option" where
  "demo_server = serveAddProvider demo_he demo_pm_env ''p'' demo_announcement 5 Handlers.demo_node demo_pm"

definition demo_infos :: "peer_id list \<Rightarrow> AddrInfo list" where
  "demo_infos = map (\<lambda>p. \<lparr>ai_ID = p, ai_Addrs = [''a'']\<rparr>)"

theorem announced_provider_told_witness:
  "\<exists>resp n pm. serveGetProviders demo_he demo_pm_env demo_infos ''c'' demo_ask 9 Handlers.demo_node
      (snd (the (pm_run demo_pm_env [GCTimer 6, NewProv ''k'' ''q'' 7, GCNext] (snd (snd (the demo_server)))))) = Some (Inr (Some resp), n, pm) \<and>
    (\<exists>provs closer. pm_GetProviders (\<lambda>a. True) (\<lambda>s m. Inr resp) ''s'' ''k'' = Inr (provs, closer) \<and> ''p'' \<in> ai_ID ` set provs)"
proof -
  let ?evs = "[GCTimer 6, NewProv ''k'' ''q'' 7, GCNext]"
  let ?pm1 = "snd (snd (the demo_server))"
  let ?pm2 = "snd (the (pm_run demo_pm_env ?evs ?pm1))"
  let ?get = "serveGetProviders demo_he demo_pm_env demo_infos ''c'' demo_ask 9 Handlers.demo_node ?pm2"
  have k: "m_Key demo_announcement = ''k''" by simp
  have "map_option fst demo_server = Some (Inr None)" by code_simp
  then obtain n1 pm1 where s: "demo_server = Some (Inr None, n1, pm1)" by auto
  have pm1: "?pm1 = pm1" unfolding s by simp
  have "map_option (\<lambda>x. ()) (pm_run demo_pm_env ?evs ?pm1) = Some ()" by code_simp
  then have "map_option (\<lambda>x. ()) (pm_run demo_pm_env ?evs pm1) = Some ()" unfolding pm1 .
  then obtain x where "pm_run demo_pm_env ?evs pm1 = Some x" by (auto simp del: pm_run.simps)
  then obtain rs pm2 where r: "pm_run demo_pm_env ?evs pm1 = Some (rs, pm2)" by (cases x) (simp del: pm_run.simps)
  have pm2: "?pm2 = pm2" unfolding pm1 r by simp
  have "(case ?get of Some (Inr (Some resp), _) \<Rightarrow> True | _ \<Rightarrow> False)" by code_simp
  then obtain resp n3 pm3 where g: "serveGetProviders demo_he demo_pm_env demo_infos ''c'' demo_ask 9 Handlers.demo_node pm2 =
      Some (Inr (Some resp), n3, pm3)"
    unfolding pm2 by (auto split: option.splits sum.splits prod.splits)
  have put: "fst (writeProviderEntry demo_pm_env (m_Key demo_announcement) ''p'' 5 (pm_dstore demo_pm)) = None"
    unfolding k by (simp add: writeProviderEntry_def demo_pm_env_def mem_ds_def)
  have infos: "\<forall>ps. map ai_ID (demo_infos ps) = ps" by (simp add: demo_infos_def comp_def)
  have t: "(0::int) \<le> 5" "(5::int) + 172800000000000 \<le> 9223372036854775807" "''p'' \<noteq> []" "(5::int) \<le> 9"
    "(9::int) \<le> 5 + 172800000000000" "\<forall>ev\<in>set ?evs. event_within 5 (5 + 172800000000000) ev"
    by simp_all
  have g': "serveGetProviders demo_he demo_pm_env demo_infos ''c'' (NewMessage GET_PROVIDERS (m_Key demo_announcement) 0) 9 Handlers.demo_node pm2 =
      Some (Inr (Some resp), n3, pm3)"
    using g by (simp only: k demo_ask_def)
  note told = announced_provider_told [OF demo_pm_env_ok demo_pm_wf t(1-3) s [unfolded demo_server_def] put r t(6) infos t(4,5)
      g', where send = "\<lambda>s m. Inr resp" and server = "''s''" and validAddr = "\<lambda>a. True", OF refl]
  show ?thesis using g told unfolding pm2 k by blast
qed

end
